(* ===== verification/Prelude.thy ===== *)
theory Prelude imports Main begin

text \<open>
  Shared vocabulary of the development.

  \<^item> \<open>instant\<close>: a point in time, or a length of time, as an integer number of microseconds
    (the resolution of Python's \<open>datetime\<close> and \<open>timedelta\<close>).  \<open>seconds n\<close> is \<open>n\<close> seconds.
  \<^item> Database tables are lists of rows in insertion order.  \<open>row_get\<close> is \<open>session.get\<close> by primary
    key, \<open>row_put\<close> writes the attributes of one row.  The locale \<open>row_table\<close> states what a client
    of a table relies on; the components interpret it on their own key.
  \<^item> \<open>drive\<close> requests a list of state changes from a guarded state machine: a refused request
    raises in the code and leaves the row's state as it was.  The locale \<open>transition_guard\<close>
    holds what follows from the shape of any such guard.
  \<^item> the string functions of Python that several components use, on ASCII text.
\<close>

named_theorems row_simps \<open>reading a row table after one of its rows was written\<close>
named_theorems sum_simps \<open>case analysis of results that may be an error\<close>

type_synonym instant = int

abbreviation seconds :: "int \<Rightarrow> instant" where
  "seconds n \<equiv> n * 1000000"

section \<open>Errors as values\<close>

definition bind_sum :: "'e + 'a \<Rightarrow> ('a \<Rightarrow> 'e + 'b) \<Rightarrow> 'e + 'b" where
  "bind_sum r f = (case r of Inl e \<Rightarrow> Inl e | Inr x \<Rightarrow> f x)"

lemma bind_sum_Inr_iff [sum_simps]:
  "bind_sum r f = Inr y \<longleftrightarrow> (\<exists>x. r = Inr x \<and> f x = Inr y)"
  by (cases r) (auto simp: bind_sum_def)

lemma bind_sum_Inl_iff [sum_simps]:
  "bind_sum r f = Inl e \<longleftrightarrow> r = Inl e \<or> (\<exists>x. r = Inr x \<and> f x = Inl e)"
  by (cases r) (auto simp: bind_sum_def)

lemma bind_sum_simps [simp]:
  "bind_sum (Inl e) f = Inl e"
  "bind_sum (Inr x) f = f x"
  by (simp_all add: bind_sum_def)

definition isOk :: "'e + 'a \<Rightarrow> bool" where
  "isOk r = (case r of Inl _ \<Rightarrow> False | Inr _ \<Rightarrow> True)"

lemma isOk_simps [simp]: "isOk (Inr x)" "\<not> isOk (Inl e)"
  by (simp_all add: isOk_def)

section \<open>Row tables\<close>

definition row_get :: "('r \<Rightarrow> 'k) \<Rightarrow> 'k \<Rightarrow> 'r list \<Rightarrow> 'r option" where
  "row_get key i rows = find (\<lambda>r. key r = i) rows"

definition row_put :: "('r \<Rightarrow> 'k) \<Rightarrow> 'k \<Rightarrow> ('r \<Rightarrow> 'r) \<Rightarrow> 'r list \<Rightarrow> 'r list" where
  "row_put key i f rows = map (\<lambda>r. if key r = i then f r else r) rows"

lemma row_get_Nil [simp]: "row_get key i [] = None"
  by (simp add: row_get_def)

lemma row_get_Cons: "row_get key i (r # rs) = (if key r = i then Some r else row_get key i rs)"
  by (simp add: row_get_def)

lemma row_get_SomeD: "row_get key i rows = Some r \<Longrightarrow> r \<in> set rows \<and> key r = i"
  by (induction rows) (auto simp: row_get_Cons split: if_splits)

lemma row_get_None_iff: "row_get key i rows = None \<longleftrightarrow> i \<notin> key ` set rows"
  by (induction rows) (auto simp: row_get_Cons)

lemma row_get_distinct:
  "distinct (map key rows) \<Longrightarrow> r \<in> set rows \<Longrightarrow> row_get key (key r) rows = Some r"
  by (induction rows) (auto simp: row_get_Cons image_iff)

lemma row_get_append:
  "row_get key i (rs @ ss) =
     (case row_get key i rs of Some r \<Rightarrow> Some r | None \<Rightarrow> row_get key i ss)"
  by (induction rs) (auto simp: row_get_Cons)

lemma row_put_keys [simp]:
  "(\<And>r. key (f r) = key r) \<Longrightarrow> map key (row_put key i f rows) = map key rows"
  by (auto simp: row_put_def)

lemma row_put_length [simp]: "length (row_put key i f rows) = length rows"
  by (simp add: row_put_def)

lemma set_row_put: "set (row_put key i f rows) = (\<lambda>r. if key r = i then f r else r) ` set rows"
  by (simp add: row_put_def)

lemma row_put_ball:
  "(\<And>r. r \<in> set rows \<Longrightarrow> P r) \<Longrightarrow> (\<And>r. r \<in> set rows \<Longrightarrow> key r = i \<Longrightarrow> P (f r)) \<Longrightarrow>
   r' \<in> set (row_put key i f rows) \<Longrightarrow> P r'"
  by (auto simp: row_put_def split: if_splits)

lemma row_put_id: "(\<And>r. r \<in> set rows \<Longrightarrow> key r = i \<Longrightarrow> f r = r) \<Longrightarrow> row_put key i f rows = rows"
  by (auto simp: row_put_def intro!: map_idI)

lemma row_get_put:
  assumes "\<And>r. key r = i \<Longrightarrow> key (f r) = i"
  shows "row_get key j (row_put key i f rows) =
    (if j = i then map_option f (row_get key j rows) else row_get key j rows)"
  using assms by (induction rows) (auto simp: row_get_Cons row_put_def)

text \<open>What a client of a table of rows may rely on.\<close>

locale row_table =
  fixes key :: "'r \<Rightarrow> 'k"
    and getr :: "'k \<Rightarrow> 'r list \<Rightarrow> 'r option"
    and putr :: "'k \<Rightarrow> ('r \<Rightarrow> 'r) \<Rightarrow> 'r list \<Rightarrow> 'r list"
  assumes get_member: "getr i rows = Some r \<Longrightarrow> r \<in> set rows \<and> key r = i"
    and get_unique: "distinct (map key rows) \<Longrightarrow> r \<in> set rows \<Longrightarrow> getr (key r) rows = Some r"
    and put_rows: "set (putr i f rows) = (\<lambda>r. if key r = i then f r else r) ` set rows"
    and put_keys: "(\<And>r. key (f r) = key r) \<Longrightarrow> map key (putr i f rows) = map key rows"
begin

lemma put_all:
  assumes "\<And>r. r \<in> set rows \<Longrightarrow> P r" and "\<And>r. r \<in> set rows \<Longrightarrow> key r = i \<Longrightarrow> P (f r)"
    and "r' \<in> set (putr i f rows)"
  shows "P r'"
  using assms by (auto simp: put_rows split: if_splits)

lemma put_distinct:
  assumes "\<And>r. key (f r) = key r" and "distinct (map key rows)"
  shows "distinct (map key (putr i f rows))"
  using assms by (simp add: put_keys)

lemma get_put_same:
  assumes key: "\<And>r. key (f r) = key r" and dist: "distinct (map key rows)"
    and got: "getr i rows = Some r"
  shows "getr i (putr i f rows) = Some (f r)"
proof -
  have r: "r \<in> set rows" "key r = i" using get_member [OF got] by auto
  then have "f r \<in> set (putr i f rows)" by (force simp: put_rows)
  then show ?thesis
    using get_unique [of "putr i f rows" "f r"] put_distinct [OF key dist] key r by simp
qed

lemma get_put_other:
  assumes key: "\<And>r. key (f r) = key r" and dist: "distinct (map key rows)"
    and got: "getr j rows = Some r" and ne: "j \<noteq> i"
  shows "getr j (putr i f rows) = Some r"
proof -
  have r: "r \<in> set rows" "key r = j" using get_member [OF got] by auto
  then have "r \<in> set (putr i f rows)" using ne by (force simp: put_rows)
  then show ?thesis
    using get_unique [of "putr i f rows" r] put_distinct [OF key dist] r by simp
qed

lemma get_put_dom:
  assumes key: "\<And>r. key (f r) = key r"
    and found: "getr j (putr i f rows) = Some r'"
  shows "\<exists>r \<in> set rows. key r = j \<and> (r' = r \<or> r' = f r)"
proof -
  have "r' \<in> set (putr i f rows)" "key r' = j" using get_member [OF found] by auto
  then show ?thesis using key by (auto simp: put_rows split: if_splits)
qed

end

interpretation rows: row_table key "row_get key" "row_put key" for key :: "'r \<Rightarrow> 'k"
proof unfold_locales
  show "row_get key i rows = Some r \<Longrightarrow> r \<in> set rows \<and> key r = i" for i rows r
    by (rule row_get_SomeD)
  show "distinct (map key rows) \<Longrightarrow> r \<in> set rows \<Longrightarrow> row_get key (key r) rows = Some r" for rows r
    by (rule row_get_distinct)
  show "set (row_put key i f rows) = (\<lambda>r. if key r = i then f r else r) ` set rows" for i f rows
    by (rule set_row_put)
  show "(\<And>r. key (f r) = key r) \<Longrightarrow> map key (row_put key i f rows) = map key rows" for i f rows
    by (rule row_put_keys)
qed

text \<open>
  How the rows of a table develop: a later table holds, for every row of the earlier one, a row
  with the same key that the earlier row may have become.
\<close>

definition developed :: "('r \<Rightarrow> 'k) \<Rightarrow> ('r \<Rightarrow> 'r \<Rightarrow> bool) \<Rightarrow> 'r list \<Rightarrow> 'r list \<Rightarrow> bool" where
  "developed key R rows rows' = (\<forall>r \<in> set rows. \<exists>r' \<in> set rows'. key r' = key r \<and> R r r')"

locale row_development =
  fixes key :: "'r \<Rightarrow> 'k" and R :: "'r \<Rightarrow> 'r \<Rightarrow> bool"
  assumes R_refl: "R r r" and R_trans: "R r s \<Longrightarrow> R s t \<Longrightarrow> R r t"
begin

lemma developed_refl: "developed key R rows rows"
  using R_refl by (auto simp: developed_def)

lemma developed_trans: "developed key R xs ys \<Longrightarrow> developed key R ys zs \<Longrightarrow> developed key R xs zs"
  unfolding developed_def by (metis R_trans)

lemma developed_append: "developed key R xs ys \<Longrightarrow> developed key R xs (ys @ zs)"
  by (fastforce simp: developed_def)

lemma developed_map:
  assumes "\<And>r. r \<in> set rows \<Longrightarrow> key (f r) = key r \<and> R r (f r)"
  shows "developed key R rows (map f rows)"
  using assms by (auto simp: developed_def)

lemma developed_put:
  assumes "\<And>r. row_get key i rows = Some r \<Longrightarrow> key (f r) = i \<and> R r (f r)"
    and "distinct (map key rows)"
  shows "developed key R rows (row_put key i f rows)"
proof -
  have "key (f r) = key r \<and> R r (f r)" if "r \<in> set rows" "key r = i" for r
    using assms(1) rows.get_unique [OF assms(2) that(1)] that(2) by simp
  then show ?thesis unfolding row_put_def by (intro developed_map) (auto simp: R_refl)
qed

lemma developed_get:
  assumes "developed key R rows rows'" and "distinct (map key rows')" and "row_get key i rows = Some r"
  shows "\<exists>r'. row_get key i rows' = Some r' \<and> R r r'"
  using assms rows.get_unique [of key rows'] row_get_SomeD [OF assms(3)]
  unfolding developed_def by metis

end

text \<open>A table before and after: when its rows were good, they still are, and each row became what it may become.\<close>

definition table_step :: "('r \<Rightarrow> 'k) \<Rightarrow> ('r \<Rightarrow> bool) \<Rightarrow> ('r \<Rightarrow> 'r \<Rightarrow> bool) \<Rightarrow> 'r list \<Rightarrow> 'r list \<Rightarrow> bool" where
  "table_step key ok R xs ys =
     (distinct (map key xs) \<and> (\<forall>r \<in> set xs. ok r) \<longrightarrow>
      distinct (map key ys) \<and> (\<forall>r \<in> set ys. ok r) \<and> developed key R xs ys)"

context row_development
begin

lemma table_step_refl: "table_step key ok R xs xs"
  by (simp add: table_step_def developed_refl)

lemma table_step_trans: "table_step key ok R xs ys \<Longrightarrow> table_step key ok R ys zs \<Longrightarrow> table_step key ok R xs zs"
  unfolding table_step_def using developed_trans by blast

lemma table_step_append:
  assumes "row_get key (key r) xs = None" "ok r"
  shows "table_step key ok R xs (xs @ [r])"
proof -
  have "key r \<notin> key ` set xs" using assms(1) by (simp add: row_get_None_iff)
  then show ?thesis unfolding table_step_def using assms(2) developed_append [OF developed_refl, of xs "[r]"] by auto
qed

lemma table_step_put:
  assumes "\<And>r. row_get key k xs = Some r \<Longrightarrow> key (f r) = k \<and> R r (f r) \<and> (ok r \<longrightarrow> ok (f r))"
  shows "table_step key ok R xs (row_put key k f xs)"
  unfolding table_step_def
proof (intro impI)
  assume xs: "distinct (map key xs) \<and> (\<forall>r \<in> set xs. ok r)"
  have row: "key (f r) = k \<and> R r (f r) \<and> (ok r \<longrightarrow> ok (f r))" if "r \<in> set xs" "key r = k" for r
    using assms rows.get_unique [of key xs r] xs that by simp
  have keys: "map key (row_put key k f xs) = map key xs" using row by (auto simp: row_put_def)
  have "\<forall>r \<in> set (row_put key k f xs). ok r" using xs row by (auto simp: row_put_def)
  then show "distinct (map key (row_put key k f xs)) \<and> (\<forall>r \<in> set (row_put key k f xs). ok r) \<and> developed key R xs (row_put key k f xs)"
    unfolding keys using xs assms by (auto intro!: developed_put)
qed

end

section \<open>Guarded state machines\<close>

fun drive :: "('s \<Rightarrow> 's \<Rightarrow> 'e + 's) \<Rightarrow> 's \<Rightarrow> 's list \<Rightarrow> 's" where
  "drive guard s [] = s"
| "drive guard s (n # ns) = drive guard (case guard s n of Inl _ \<Rightarrow> s | Inr m \<Rightarrow> m) ns"

locale transition_guard =
  fixes nodes :: "'s set" and succs :: "'s \<Rightarrow> 's set" and guard :: "'s \<Rightarrow> 's \<Rightarrow> 'e + 's"
  assumes guard_iff:
    "guard c n = Inr m \<longleftrightarrow> m = n \<and> c \<in> nodes \<and> n \<in> nodes \<and> (n = c \<or> n \<in> succs c)"
begin

lemma step_cases:
  obtains "(case guard s n of Inl _ \<Rightarrow> s | Inr m \<Rightarrow> m) = s"
  | "(case guard s n of Inl _ \<Rightarrow> s | Inr m \<Rightarrow> m) = n" and "n \<in> succs s"
  using guard_iff [of s n] by (cases "guard s n") auto

lemma closed_under_drive:
  assumes "\<And>a. a \<in> A \<Longrightarrow> succs a \<subseteq> A" and "s \<in> A"
  shows "drive guard s ns \<in> A"
  using assms(2)
proof (induction ns arbitrary: s)
  case Nil
  then show ?case by simp
next
  case (Cons n ns)
  have "(case guard s n of Inl _ \<Rightarrow> s | Inr m \<Rightarrow> m) \<in> A"
    using Cons.prems assms(1) by (rule_tac step_cases [of s n]) auto
  then show ?case using Cons.IH by simp
qed

lemma terminal_stays: "succs s = {} \<Longrightarrow> drive guard s ns = s"
  using closed_under_drive [of "{s}" s ns] by auto

lemma drive_node: "s \<in> nodes \<Longrightarrow> drive guard s ns \<in> nodes"
proof (induction ns arbitrary: s)
  case Nil
  then show ?case by simp
next
  case (Cons n ns)
  have "(case guard s n of Inl _ \<Rightarrow> s | Inr m \<Rightarrow> m) \<in> nodes"
  proof (cases "guard s n")
    case (Inl e)
    then show ?thesis using Cons.prems by simp
  next
    case (Inr m)
    then show ?thesis using guard_iff [of s n m] by simp
  qed
  then show ?case using Cons.IH by simp
qed

text \<open>A set that is entered only through \<open>g\<close> and is not yet entered: the run visits \<open>g\<close> first.\<close>

lemma gate_visited:
  assumes entry: "\<And>a b. a \<notin> B \<Longrightarrow> b \<in> succs a \<Longrightarrow> b \<in> B \<Longrightarrow> a = g"
    and "s \<notin> B" and "drive guard s ns \<in> B"
  shows "\<exists>k < length ns. drive guard s (take k ns) = g"
  using assms(2,3)
proof (induction ns arbitrary: s)
  case Nil
  then show ?case by simp
next
  case (Cons n ns)
  let ?t = "case guard s n of Inl _ \<Rightarrow> s | Inr m \<Rightarrow> m"
  show ?case
  proof (cases "?t \<in> B")
    case True
    then have "s = g" using Cons.prems(1) entry by (rule_tac step_cases [of s n]) auto
    then show ?thesis by (intro exI [of _ 0]) simp
  next
    case False
    then obtain k where "k < length ns" "drive guard ?t (take k ns) = g"
      using Cons.IH [of ?t] Cons.prems(2) by auto
    then show ?thesis by (intro exI [of _ "Suc k"]) simp
  qed
qed

end

section \<open>Python strings (ASCII)\<close>

definition is_space :: "char \<Rightarrow> bool" where
  "is_space c \<longleftrightarrow> (let n = of_char c :: nat in n = 32 \<or> 9 \<le> n \<and> n \<le> 13 \<or> 28 \<le> n \<and> n \<le> 31)"

definition is_digit :: "char \<Rightarrow> bool" where
  "is_digit c = (c \<in> set ''0123456789'')"

definition lower :: "char \<Rightarrow> char" where
  "lower c = (let n = of_char c :: nat in if 65 \<le> n \<and> n \<le> 90 then char_of (n + 32) else c)"

definition strip :: "string \<Rightarrow> string" where
  "strip s = rev (dropWhile is_space (rev (dropWhile is_space s)))"

fun is_prefix :: "'a list \<Rightarrow> 'a list \<Rightarrow> bool" where
  "is_prefix [] ys = True"
| "is_prefix (x # xs) [] = False"
| "is_prefix (x # xs) (y # ys) = (x = y \<and> is_prefix xs ys)"

fun contains_sub :: "'a list \<Rightarrow> 'a list \<Rightarrow> bool" where
  "contains_sub p [] = (p = [])"
| "contains_sub p (y # ys) = (is_prefix p (y # ys) \<or> contains_sub p ys)"

definition ends_with :: "'a list \<Rightarrow> 'a list \<Rightarrow> bool" where
  "ends_with s suf = is_prefix (rev suf) (rev s)"

lemma is_prefix_iff: "is_prefix xs ys \<longleftrightarrow> (\<exists>zs. ys = xs @ zs)"
  by (induction xs ys rule: is_prefix.induct) auto

lemma ends_with_iff: "ends_with s suf \<longleftrightarrow> (\<exists>p. s = p @ suf)"
proof -
  have "ends_with s suf \<longleftrightarrow> (\<exists>zs. rev s = rev suf @ zs)"
    by (simp add: ends_with_def is_prefix_iff)
  also have "\<dots> \<longleftrightarrow> (\<exists>p. s = p @ suf)"
    by (metis rev_append rev_rev_ident)
  finally show ?thesis .
qed

lemma dropWhile_all: "(\<And>x. x \<in> set s \<Longrightarrow> P x) \<Longrightarrow> dropWhile P s = []"
  by simp

lemma strip_id: "s \<noteq> [] \<Longrightarrow> \<not> is_space (hd s) \<Longrightarrow> \<not> is_space (last s) \<Longrightarrow> strip s = s"
  by (cases s rule: rev_cases) (auto simp: strip_def neq_Nil_conv hd_append split: if_splits)

lemma last_dropWhile: "dropWhile P xs \<noteq> [] \<Longrightarrow> last (dropWhile P xs) = last xs"
  by (induction xs) auto

lemma strip_ends:
  assumes "strip s \<noteq> []"
  shows "\<not> is_space (hd (strip s)) \<and> \<not> is_space (last (strip s))"
proof
  define t where "t = dropWhile is_space s"
  define u where "u = dropWhile is_space (rev t)"
  have st: "strip s = rev u" by (simp add: strip_def t_def u_def)
  have u: "u \<noteq> []" using assms by (simp add: st)
  then have "rev t \<noteq> []" by (auto simp: u_def)
  then have t: "t \<noteq> []" by simp
  have "hd (strip s) = last u" using u by (simp add: st hd_rev)
  also have "\<dots> = hd t" using u t by (simp add: u_def last_dropWhile last_rev)
  finally show "\<not> is_space (hd (strip s))"
    using t hd_dropWhile [of is_space s] by (simp add: t_def)
  show "\<not> is_space (last (strip s))"
    using u hd_dropWhile [of is_space "rev t"] by (simp add: st last_rev u_def)
qed

lemma strip_Nil: "strip [] = []"
  by (simp add: strip_def)

lemma strip_strip [simp]: "strip (strip s) = strip s"
proof (cases "strip s = []")
  case True
  then show ?thesis by (simp only: strip_Nil)
next
  case False
  then show ?thesis using strip_ends [OF False] by (simp add: strip_id)
qed

lemma strip_newline: "strip (s @ [CHR 0x0A]) = strip s"
proof (cases "dropWhile is_space s = []")
  case True
  then have "\<forall>x \<in> set s. is_space x" by (simp add: dropWhile_eq_Nil_conv)
  moreover have "is_space (CHR 0x0A)" by (simp add: is_space_def)
  ultimately have "dropWhile is_space (s @ [CHR 0x0A]) = []"
    by (simp add: dropWhile_eq_Nil_conv)
  then show ?thesis by (simp only: strip_def True)
next
  case False
  then have "\<exists>x \<in> set s. \<not> is_space x" by (simp add: dropWhile_eq_Nil_conv)
  then have "dropWhile is_space (s @ [CHR 0x0A]) = dropWhile is_space s @ [CHR 0x0A]"
    by (auto simp: dropWhile_append)
  then show ?thesis by (simp add: strip_def is_space_def)
qed

end
