(* ===== verification/Status_Tables.thy ===== *)
theory Status_Tables imports Prelude begin

text \<open>
  The five status tables of the service that share one shape: wake alarms
  (\<open>alarms/state.py\<close>), routines (\<open>routines/state.py\<close>), goals (\<open>goals/state.py\<close>), tasks and
  artifacts (\<open>artifacts/state.py\<close>).  A table maps every status to the statuses it may move to;
  the check raises \<open>ValueError\<close> on a status that is no node of the table, accepts a re-assertion
  of the current status, and raises the machine's own error on any other missing edge.  Each
  check is an instance of the locale \<open>transition_guard\<close>, whose lemmas speak about any sequence of
  requests.
\<close>

datatype status_error =
    Unknown_status string
  | Illegal_transition string string

type_synonym edges = "(string \<times> string list) list"

section \<open>The check that the tables share\<close>

definition table_can :: "edges \<Rightarrow> string \<Rightarrow> string \<Rightarrow> status_error + bool" where
  "table_can edges current new =
     (case map_of edges current of
        None \<Rightarrow> Inl (Unknown_status current)
      | Some out \<Rightarrow>
          if map_of edges new = None then Inl (Unknown_status new)
          else if new = current then Inr True
          else Inr (new \<in> set out))"

definition assert_with ::
    "(string \<Rightarrow> string \<Rightarrow> status_error + bool) \<Rightarrow> string \<Rightarrow> string \<Rightarrow> status_error + string" where
  "assert_with can current new =
     bind_sum (can current new)
       (\<lambda>ok. if ok then Inr new else Inl (Illegal_transition current new))"

definition succs_of :: "edges \<Rightarrow> string \<Rightarrow> string set" where
  "succs_of edges s = (case map_of edges s of None \<Rightarrow> {} | Some out \<Rightarrow> set out)"

lemma map_of_node: "map_of edges s = Some out \<Longrightarrow> s \<in> fst ` set edges"
  by (force dest: map_of_SomeD)

lemma assert_table_Inr_iff:
  "assert_with (table_can edges) c n = Inr m \<longleftrightarrow>
     m = n \<and> c \<in> fst ` set edges \<and> n \<in> fst ` set edges \<and> (n = c \<or> n \<in> succs_of edges c)"
proof (cases "map_of edges c")
  case None
  then have "c \<notin> fst ` set edges" by (simp add: map_of_eq_None_iff)
  then show ?thesis using None by (simp add: assert_with_def table_can_def)
next
  case (Some out)
  have n: "map_of edges n = None \<longleftrightarrow> n \<notin> fst ` set edges" by (simp add: map_of_eq_None_iff)
  show ?thesis
    using Some map_of_node [OF Some] n
    by (auto simp: assert_with_def table_can_def succs_of_def sum_simps)
qed

section \<open>Wake alarms\<close>

definition alarm_edges :: edges where
  "alarm_edges =
    [(''SCHEDULED'', [''ARMED'', ''FIRING'', ''SNOOZED'', ''CANCELLED'', ''STOPPED'', ''FAILED'']),
     (''ARMED'', [''FIRING'', ''SCHEDULED'', ''SNOOZED'', ''CANCELLED'', ''STOPPED'', ''FAILED'']),
     (''FIRING'', [''DISPLAY_WAKING'', ''MEDIA_STARTING'', ''PLAYING'', ''SNOOZED'', ''STOPPED'',
                   ''COMPLETED'', ''FAILED'']),
     (''DISPLAY_WAKING'', [''MEDIA_STARTING'', ''PLAYING'', ''SNOOZED'', ''STOPPED'', ''FAILED'']),
     (''MEDIA_STARTING'', [''PLAYING'', ''SNOOZED'', ''STOPPED'', ''FAILED'']),
     (''PLAYING'', [''GREETING'', ''SNOOZED'', ''STOPPED'', ''COMPLETED'', ''FAILED'']),
     (''GREETING'', [''PLAYING'', ''SNOOZED'', ''STOPPED'', ''COMPLETED'', ''FAILED'']),
     (''SNOOZED'', [''ARMED'', ''SCHEDULED'', ''FIRING'', ''CANCELLED'', ''FAILED'']),
     (''STOPPED'', []), (''COMPLETED'', []), (''CANCELLED'', []), (''FAILED'', [])]"

definition can_transition_alarm :: "string \<Rightarrow> string \<Rightarrow> status_error + bool" where
  "can_transition_alarm = table_can alarm_edges"

definition assert_alarm_transition :: "string \<Rightarrow> string \<Rightarrow> status_error + string" where
  "assert_alarm_transition = assert_with can_transition_alarm"

section \<open>Routines\<close>

definition routine_edges :: edges where
  "routine_edges =
    [(''armed'', [''paused'', ''completed'', ''cancelled'']),
     (''paused'', [''armed'', ''cancelled'']),
     (''completed'', []), (''cancelled'', [])]"

definition can_transition_routine :: "string \<Rightarrow> string \<Rightarrow> status_error + bool" where
  "can_transition_routine = table_can routine_edges"

definition assert_routine_transition :: "string \<Rightarrow> string \<Rightarrow> status_error + string" where
  "assert_routine_transition = assert_with can_transition_routine"

section \<open>Goals\<close>

definition goal_edges :: edges where
  "goal_edges =
    [(''draft'', [''active'', ''abandoned'']),
     (''active'', [''blocked'', ''waiting_owner'', ''achieved'', ''abandoned'', ''superseded'']),
     (''blocked'', [''active'', ''abandoned'', ''superseded'']),
     (''waiting_owner'', [''active'', ''abandoned'', ''superseded'']),
     (''achieved'', []), (''abandoned'', []), (''superseded'', [])]"

definition can_transition_goal :: "string \<Rightarrow> string \<Rightarrow> status_error + bool" where
  "can_transition_goal = table_can goal_edges"

definition assert_goal_transition :: "string \<Rightarrow> string \<Rightarrow> status_error + string" where
  "assert_goal_transition = assert_with can_transition_goal"

section \<open>Tasks and artifacts\<close>

definition task_terminal_statuses :: "string list" where
  "task_terminal_statuses = [''COMPLETED'', ''FAILED_TERMINAL'']"

definition task_active_statuses :: "string list" where
  "task_active_statuses = [''RUNNING'', ''RENDERING'']"

definition task_pending_statuses :: "string list" where
  "task_pending_statuses = [''CREATED'', ''PLANNED'', ''FAILED_RECOVERABLE'']"

definition task_waiting_statuses :: "string list" where
  "task_waiting_statuses = [''WAITING_EXTERNAL'']"

definition task_awaiting_owner_statuses :: "string list" where
  "task_awaiting_owner_statuses = [''READY'', ''PRESENTING'']"

definition task_edges :: edges where
  "task_edges =
    [(''CREATED'', [''PLANNED'']),
     (''PLANNED'', [''RUNNING'']),
     (''RUNNING'', [''WAITING_EXTERNAL'', ''RENDERING'', ''READY'']),
     (''WAITING_EXTERNAL'', [''RUNNING'', ''RENDERING'']),
     (''RENDERING'', [''READY'']),
     (''READY'', [''PRESENTING'', ''COMPLETED'']),
     (''PRESENTING'', [''READY'', ''COMPLETED'']),
     (''COMPLETED'', []),
     (''FAILED_RECOVERABLE'', [''RUNNING'', ''FAILED_TERMINAL'']),
     (''FAILED_TERMINAL'', [])]"

definition task_error_targets :: "string list" where
  "task_error_targets = [''FAILED_RECOVERABLE'', ''FAILED_TERMINAL'']"

definition can_transition_task :: "string \<Rightarrow> string \<Rightarrow> status_error + bool" where
  "can_transition_task current new =
     (case map_of task_edges current of
        None \<Rightarrow> Inl (Unknown_status current)
      | Some out \<Rightarrow>
          if map_of task_edges new = None then Inl (Unknown_status new)
          else if new = current then Inr True
          else if new \<in> set task_error_targets \<and> current \<notin> set task_terminal_statuses
               then Inr True
          else Inr (new \<in> set out))"

definition assert_task_transition :: "string \<Rightarrow> string \<Rightarrow> status_error + string" where
  "assert_task_transition = assert_with can_transition_task"

definition artifact_edges :: edges where
  "artifact_edges =
    [(''DRAFT'', [''CANONICAL_READY'', ''ARCHIVED'']),
     (''CANONICAL_READY'', [''RENDERS_PENDING'', ''READY'', ''ARCHIVED'']),
     (''RENDERS_PENDING'', [''READY'', ''ARCHIVED'']),
     (''READY'', [''CANONICAL_READY'', ''ARCHIVED'']),
     (''ARCHIVED'', [])]"

definition can_transition_artifact :: "string \<Rightarrow> string \<Rightarrow> status_error + bool" where
  "can_transition_artifact = table_can artifact_edges"

definition assert_artifact_transition :: "string \<Rightarrow> string \<Rightarrow> status_error + string" where
  "assert_artifact_transition = assert_with can_transition_artifact"

section \<open>The machines as guarded state machines\<close>

definition statuses :: "edges \<Rightarrow> string set" where
  "statuses edges = fst ` set edges"

definition task_succs :: "string \<Rightarrow> string set" where
  "task_succs s = succs_of task_edges s \<union>
     (if s \<in> statuses task_edges - set task_terminal_statuses then set task_error_targets else {})"

interpretation alarm_sm: transition_guard
    "statuses alarm_edges" "succs_of alarm_edges" assert_alarm_transition
  by unfold_locales
    (simp add: assert_alarm_transition_def can_transition_alarm_def assert_table_Inr_iff statuses_def)

interpretation routine_sm: transition_guard
    "statuses routine_edges" "succs_of routine_edges" assert_routine_transition
  by unfold_locales
    (simp add: assert_routine_transition_def can_transition_routine_def assert_table_Inr_iff
      statuses_def)

interpretation goal_sm: transition_guard
    "statuses goal_edges" "succs_of goal_edges" assert_goal_transition
  by unfold_locales
    (simp add: assert_goal_transition_def can_transition_goal_def assert_table_Inr_iff statuses_def)

interpretation artifact_sm: transition_guard
    "statuses artifact_edges" "succs_of artifact_edges" assert_artifact_transition
  by unfold_locales
    (simp add: assert_artifact_transition_def can_transition_artifact_def assert_table_Inr_iff
      statuses_def)

lemma assert_task_Inr_iff:
  "assert_task_transition c n = Inr m \<longleftrightarrow>
     m = n \<and> c \<in> statuses task_edges \<and> n \<in> statuses task_edges \<and> (n = c \<or> n \<in> task_succs c)"
proof (cases "map_of task_edges c")
  case None
  then have "c \<notin> statuses task_edges" by (simp add: statuses_def map_of_eq_None_iff)
  then show ?thesis
    using None by (simp add: assert_task_transition_def assert_with_def can_transition_task_def)
next
  case (Some out)
  then have c: "c \<in> statuses task_edges"
    by (force simp: statuses_def dest: map_of_SomeD)
  have n: "map_of task_edges n = None \<longleftrightarrow> n \<notin> statuses task_edges"
    by (simp add: statuses_def map_of_eq_None_iff)
  show ?thesis
    using Some c n
    by (auto simp: assert_task_transition_def assert_with_def can_transition_task_def
        task_succs_def succs_of_def sum_simps)
qed

interpretation task_sm: transition_guard
    "statuses task_edges" task_succs assert_task_transition
  by unfold_locales (rule assert_task_Inr_iff)

lemmas edge_tables = alarm_edges_def routine_edges_def goal_edges_def task_edges_def
  artifact_edges_def task_terminal_statuses_def task_error_targets_def

lemma alarm_succs_terminal:
  "s \<in> {''STOPPED'', ''COMPLETED'', ''CANCELLED'', ''FAILED''} \<Longrightarrow> succs_of alarm_edges s = {}"
  by (auto simp: succs_of_def alarm_edges_def)

lemma routine_succs_terminal:
  "s \<in> {''completed'', ''cancelled''} \<Longrightarrow> succs_of routine_edges s = {}"
  by (auto simp: succs_of_def routine_edges_def)

lemma goal_succs_terminal:
  "s \<in> {''achieved'', ''abandoned'', ''superseded''} \<Longrightarrow> succs_of goal_edges s = {}"
  by (auto simp: succs_of_def goal_edges_def)

lemma task_succs_terminal: "s \<in> set task_terminal_statuses \<Longrightarrow> task_succs s = {}"
  by (auto simp: task_succs_def succs_of_def task_edges_def task_terminal_statuses_def)

section \<open>Properties\<close>

text \<open>
  A finished row stays finished: whatever sequence of transitions is requested of it, an alarm
  that is stopped, completed, cancelled or failed, a routine that is completed or cancelled, a
  goal that is achieved, abandoned or superseded, a task that is completed or failed terminally
  and an archived artifact keep their status.
\<close>
theorem terminal_statuses_absorb:
  "(\<forall>s. s \<in> {''STOPPED'', ''COMPLETED'', ''CANCELLED'', ''FAILED''}
        \<longrightarrow> drive assert_alarm_transition s ns = s) \<and>
   (\<forall>s. s \<in> {''completed'', ''cancelled''} \<longrightarrow> drive assert_routine_transition s ns = s) \<and>
   (\<forall>s. s \<in> {''achieved'', ''abandoned'', ''superseded''}
        \<longrightarrow> drive assert_goal_transition s ns = s) \<and>
   (\<forall>s. s \<in> set task_terminal_statuses \<longrightarrow> drive assert_task_transition s ns = s) \<and>
   drive assert_artifact_transition ''ARCHIVED'' ns = ''ARCHIVED''"
proof (intro conjI allI impI)
  show "drive assert_artifact_transition ''ARCHIVED'' ns = ''ARCHIVED''"
    by (rule artifact_sm.terminal_stays) (simp add: succs_of_def artifact_edges_def)
qed (rule alarm_sm.terminal_stays [OF alarm_succs_terminal]
    routine_sm.terminal_stays [OF routine_succs_terminal]
    goal_sm.terminal_stays [OF goal_succs_terminal]
    task_sm.terminal_stays [OF task_succs_terminal], assumption)+

theorem terminal_statuses_absorb_witness:
  "drive assert_alarm_transition ''STOPPED'' [''FIRING'', ''PLAYING''] = ''STOPPED'' \<and>
   drive assert_task_transition ''COMPLETED'' [''RUNNING''] = ''COMPLETED''"
  using terminal_statuses_absorb [of "[''FIRING'', ''PLAYING'']"]
    terminal_statuses_absorb [of "[''RUNNING'']"]
  by (simp add: task_terminal_statuses_def)

text \<open>
  A routine that is paused reaches \<open>completed\<close> under a sequence of requests only if one of the
  earlier requests put it back to \<open>armed\<close>: a one-shot that the owner turned off through its own
  moment never counts as completed.
\<close>
theorem paused_routine_completes_only_via_armed:
  assumes "drive assert_routine_transition ''paused'' ns = ''completed''"
  shows "\<exists>k < length ns. drive assert_routine_transition ''paused'' (take k ns) = ''armed''"
proof (rule routine_sm.gate_visited [where B = "{''completed''}"])
  show "a = ''armed''" if "a \<notin> {''completed''}" "b \<in> succs_of routine_edges a"
    "b \<in> {''completed''}" for a b
    using that by (auto simp: succs_of_def routine_edges_def split: if_splits)
qed (use assms in auto)

theorem paused_routine_completes_only_via_armed_witness:
  "\<exists>k < Suc (Suc (Suc 0)). drive assert_routine_transition ''paused'' (take k [''completed'', ''armed'', ''completed''])
           = ''armed''"
proof -
  have "drive assert_routine_transition ''paused'' [''completed'', ''armed'', ''completed'']
        = ''completed''"
    by (simp add: assert_routine_transition_def assert_with_def can_transition_routine_def
        table_can_def routine_edges_def)
  from paused_routine_completes_only_via_armed [OF this] show ?thesis by simp
qed

text \<open>
  A task reaches \<open>PRESENTING\<close> or \<open>COMPLETED\<close> from any earlier status only through \<open>READY\<close>,
  while every status outside the terminal ones accepts both failure statuses, and the four
  buckets together with the terminal statuses hold every status of the table exactly once.
\<close>
theorem task_completes_only_via_ready:
  assumes "s \<notin> {''PRESENTING'', ''COMPLETED''}"
    and "drive assert_task_transition s ns \<in> {''PRESENTING'', ''COMPLETED''}"
  shows "(\<exists>k < length ns. drive assert_task_transition s (take k ns) = ''READY'') \<and>
    (\<forall>c \<in> statuses task_edges. c \<notin> set task_terminal_statuses \<longrightarrow>
       assert_task_transition c ''FAILED_RECOVERABLE'' = Inr ''FAILED_RECOVERABLE'' \<and>
       assert_task_transition c ''FAILED_TERMINAL'' = Inr ''FAILED_TERMINAL'') \<and>
    distinct (task_active_statuses @ task_pending_statuses @ task_waiting_statuses @
              task_awaiting_owner_statuses @ task_terminal_statuses) \<and>
    set (task_active_statuses @ task_pending_statuses @ task_waiting_statuses @
         task_awaiting_owner_statuses @ task_terminal_statuses) = statuses task_edges"
proof (intro conjI ballI impI)
  show "\<exists>k < length ns. drive assert_task_transition s (take k ns) = ''READY''"
  proof (rule task_sm.gate_visited [where B = "{''PRESENTING'', ''COMPLETED''}"])
    show "a = ''READY''" if "a \<notin> {''PRESENTING'', ''COMPLETED''}" "b \<in> task_succs a"
      "b \<in> {''PRESENTING'', ''COMPLETED''}" for a b
      using that
      by (auto simp: task_succs_def succs_of_def task_edges_def task_error_targets_def
          split: if_splits)
  qed (use assms in auto)
  fix c
  assume c: "c \<in> statuses task_edges" "c \<notin> set task_terminal_statuses"
  have "''FAILED_RECOVERABLE'' \<in> statuses task_edges" "''FAILED_TERMINAL'' \<in> statuses task_edges"
    by (simp_all add: statuses_def task_edges_def)
  then show "assert_task_transition c ''FAILED_RECOVERABLE'' = Inr ''FAILED_RECOVERABLE''"
    and "assert_task_transition c ''FAILED_TERMINAL'' = Inr ''FAILED_TERMINAL''"
    using c by (simp_all add: assert_task_Inr_iff task_succs_def task_error_targets_def)
next
  show "distinct (task_active_statuses @ task_pending_statuses @ task_waiting_statuses @
              task_awaiting_owner_statuses @ task_terminal_statuses)"
    by (simp add: task_active_statuses_def task_pending_statuses_def task_waiting_statuses_def
        task_awaiting_owner_statuses_def task_terminal_statuses_def)
  show "set (task_active_statuses @ task_pending_statuses @ task_waiting_statuses @
         task_awaiting_owner_statuses @ task_terminal_statuses) = statuses task_edges"
    by (rule subset_antisym)
      (simp_all add: task_active_statuses_def task_pending_statuses_def task_waiting_statuses_def
        task_awaiting_owner_statuses_def task_terminal_statuses_def statuses_def task_edges_def)
qed

theorem task_completes_only_via_ready_witness:
  "\<exists>k < Suc (Suc 0). drive assert_task_transition ''RENDERING'' (take k [''READY'', ''COMPLETED'']) = ''READY''"
proof -
  have "drive assert_task_transition ''RENDERING'' [''READY'', ''COMPLETED''] = ''COMPLETED''"
    by (simp add: assert_task_transition_def assert_with_def can_transition_task_def edge_tables)
  then show ?thesis
    using task_completes_only_via_ready [of "''RENDERING''" "[''READY'', ''COMPLETED'']"] by simp
qed

end
