(* ===== verification/Json_Value.thy ===== *)
theory Json_Value imports Prelude begin

text \<open>
  JSON values as Python's \<open>json.loads\<close> returns them (numbers restricted to integers) and the
  operations on them that the components use: \<open>dict.get\<close>, \<open>dict.setdefault\<close>, the truth value of an
  object in a condition, and \<open>isinstance\<close> tests as constructor tests.  A \<open>dict\<close> is an association
  list in insertion order; the first entry of a key counts.
\<close>

datatype json =
    JNull
  | JBool bool
  | JInt int
  | JStr string
  | JList "json list"
  | JObj "(string \<times> json) list"

fun is_dict :: "json \<Rightarrow> bool" where
  "is_dict (JObj _) = True"
| "is_dict _ = False"

text \<open>\<open>body.get(key)\<close> on a dict; \<open>JNull\<close> is Python's \<open>None\<close>.\<close>

fun dict_get :: "string \<Rightarrow> json \<Rightarrow> json" where
  "dict_get k (JObj kvs) = (case map_of kvs k of None \<Rightarrow> JNull | Some v \<Rightarrow> v)"
| "dict_get k _ = JNull"

fun set_default :: "string \<Rightarrow> json \<Rightarrow> json \<Rightarrow> json" where
  "set_default k v (JObj kvs) = (if map_of kvs k = None then JObj (kvs @ [(k, v)]) else JObj kvs)"
| "set_default k v j = j"

fun truthy :: "json \<Rightarrow> bool" where
  "truthy JNull = False"
| "truthy (JBool b) = b"
| "truthy (JInt n) = (n \<noteq> 0)"
| "truthy (JStr s) = (s \<noteq> [])"
| "truthy (JList xs) = (xs \<noteq> [])"
| "truthy (JObj kvs) = (kvs \<noteq> [])"

text \<open>\<open>str\<close> of a scalar; containers, whose \<open>repr\<close> no component relies on, give a fixed text.\<close>

fun show_nat :: "nat \<Rightarrow> string" where
  "show_nat n = (if n < 10 then [char_of (48 + n)] else show_nat (n div 10) @ [char_of (48 + n mod 10)])"

declare show_nat.simps [simp del]

definition show_int :: "int \<Rightarrow> string" where
  "show_int i = (if i < 0 then ''-'' @ show_nat (nat (- i)) else show_nat (nat i))"

fun str_of :: "json \<Rightarrow> string" where
  "str_of JNull = ''None''"
| "str_of (JBool b) = (if b then ''True'' else ''False'')"
| "str_of (JInt n) = show_int n"
| "str_of (JStr s) = s"
| "str_of _ = ''<container>''"

definition jopt :: "string option \<Rightarrow> json" where
  "jopt s = (case s of None \<Rightarrow> JNull | Some x \<Rightarrow> JStr x)"

definition jbool_opt :: "bool option \<Rightarrow> json" where
  "jbool_opt b = (case b of None \<Rightarrow> JNull | Some x \<Rightarrow> JBool x)"

lemma dict_get_non_dict: "\<not> is_dict j \<Longrightarrow> dict_get k j = JNull"
  by (cases j) auto

lemma set_default_get [simp]: "is_dict j \<Longrightarrow> dict_get k j \<noteq> JNull \<Longrightarrow> set_default k v j = j"
  by (cases j) (auto split: option.splits)

lemma set_default_is_dict [simp]: "is_dict (set_default k v j) = is_dict j"
  by (cases j) auto

end
