(* ===== verification/Health_Policy.thy ===== *)
theory Health_Policy imports Prelude begin

text \<open>
  The release health policy of the recovery supervisor
  (\<open>services/recovery-supervisor/recovery_supervisor/health.py\<close>).  The object's state is the
  threshold, the window and the list of failure times; times of the monotonic clock are integers
  (the code's floats are only added, subtracted and compared).  The specification reads the whole
  history of check results and knows nothing of the list that the code keeps.
\<close>

section \<open>The policy object\<close>

datatype health_state = Healthy | Degraded | Unhealthy

record policy =
  failure_threshold :: int
  window_s :: int
  failure_times :: "int list"

definition new_policy :: "int \<Rightarrow> int \<Rightarrow> string + policy" where
  "new_policy threshold window =
     (if threshold < 2 then Inl ''failure_threshold must be >= 2''
      else if window \<le> 0 then Inl ''window_s must be positive''
      else Inr \<lparr>failure_threshold = threshold, window_s = window, failure_times = []\<rparr>)"

definition record_check :: "bool \<Rightarrow> int \<Rightarrow> policy \<Rightarrow> health_state \<times> policy" where
  "record_check ok now p =
     (if ok then (Healthy, p\<lparr>failure_times := []\<rparr>)
      else
        let appended = failure_times p @ [now];
            cutoff = now - window_s p;
            kept = filter (\<lambda>t. t \<ge> cutoff) appended
        in (if int (length kept) \<ge> failure_threshold p then Unhealthy else Degraded,
            p\<lparr>failure_times := kept\<rparr>))"

definition consecutive_failures :: "policy \<Rightarrow> nat" where
  "consecutive_failures p = length (failure_times p)"

definition reset_policy :: "policy \<Rightarrow> policy" where
  "reset_policy p = p\<lparr>failure_times := []\<rparr>"

text \<open>A history of check cycles, oldest first, run through the object.\<close>

fun run_checks :: "policy \<Rightarrow> (bool \<times> int) list \<Rightarrow> policy" where
  "run_checks p [] = p"
| "run_checks p ((ok, now) # es) = run_checks (snd (record_check ok now p)) es"

section \<open>The specification over histories\<close>

definition trailing_failures :: "(bool \<times> int) list \<Rightarrow> int list" where
  "trailing_failures es = rev (map snd (takeWhile (\<lambda>e. \<not> fst e) (rev es)))"

definition recent :: "int \<Rightarrow> int \<Rightarrow> int list \<Rightarrow> int list" where
  "recent window now ts = filter (\<lambda>t. t \<ge> now - window) ts"

definition health_spec :: "int \<Rightarrow> int \<Rightarrow> (bool \<times> int) list \<Rightarrow> bool \<Rightarrow> int \<Rightarrow> health_state" where
  "health_spec threshold window es ok now =
     (if ok then Healthy
      else if int (length (recent window now (trailing_failures es @ [now]))) \<ge> threshold
           then Unhealthy else Degraded)"

section \<open>The list that the code keeps\<close>

lemma run_checks_append: "run_checks p (es @ fs) = run_checks (run_checks p es) fs"
  by (induction p es rule: run_checks.induct) auto

lemma run_checks_config [simp]:
  "failure_threshold (run_checks p es) = failure_threshold p"
  "window_s (run_checks p es) = window_s p"
  by (induction p es rule: run_checks.induct) (auto simp: record_check_def Let_def)

lemma trailing_failures_snoc:
  "trailing_failures (es @ [(ok, t)]) = (if ok then [] else trailing_failures es @ [t])"
  by (simp add: trailing_failures_def)

lemma recent_recent:
  assumes "now \<le> later" shows "recent w later (recent w now ts) = recent w later ts"
  using assms by (auto simp: recent_def intro!: filter_cong)

lemma recent_append: "recent w now (ts @ us) = recent w now ts @ recent w now us"
  by (simp add: recent_def)

lemma recent_all: "0 < w \<Longrightarrow> recent w t [t] = [t]"
  by (simp add: recent_def)

lemma failure_times_spec:
  assumes "0 < window_s p" and "failure_times p = []" and "sorted (map snd es)" and "es \<noteq> []"
  shows "failure_times (run_checks p es) =
         recent (window_s p) (snd (last es)) (trailing_failures es)"
  using assms(3,4)
proof (induction es rule: rev_induct)
  case Nil
  then show ?case by simp
next
  case (snoc e es)
  obtain ok t where e: "e = (ok, t)" by (cases e)
  show ?case
  proof (cases "ok \<or> es = []")
    case True
    then show ?thesis
      using assms(1,2) e
      by (auto simp: run_checks_append record_check_def trailing_failures_def recent_def)
  next
    case False
    then have ne: "es \<noteq> []" and nok: "\<not> ok" by auto
    have sorted: "sorted (map snd es)" using snoc.prems(1) by (simp add: sorted_append)
    have le: "snd (last es) \<le> t"
      using snoc.prems(1) ne e by (auto simp: sorted_append)
    have "failure_times (run_checks p (es @ [e])) =
          recent (window_s p) t (failure_times (run_checks p es) @ [t])"
      using e nok by (simp add: run_checks_append record_check_def Let_def recent_def)
    also have "\<dots> = recent (window_s p) t (trailing_failures es) @ recent (window_s p) t [t]"
      using snoc.IH [OF sorted ne] le by (simp add: recent_append recent_recent)
    finally show ?thesis
      using e nok by (simp add: trailing_failures_snoc recent_append)
  qed
qed

lemma failure_times_trailing:
  "failure_times p = [] \<Longrightarrow> length (failure_times (run_checks p es)) \<le> length (trailing_failures es)"
proof (induction es rule: rev_induct)
  case Nil
  then show ?case by simp
next
  case (snoc e es)
  obtain ok t where e: "e = (ok, t)" by (cases e)
  have "length (filter (\<lambda>x. x \<ge> t - window_s p) (failure_times (run_checks p es)))
        \<le> length (trailing_failures es)"
    using snoc length_filter_le le_trans by blast
  then show ?case
    using e by (auto simp: run_checks_append record_check_def Let_def trailing_failures_snoc)
qed

section \<open>Properties\<close>

text \<open>
  On a clock that does not run backwards the policy is exactly its specification: a check
  cycle reports \<open>Unhealthy\<close> if and only if it failed and at least \<open>failure_threshold\<close> failures of
  the unbroken run of failures that it ends lie within the last \<open>window_s\<close> of it.
\<close>
theorem record_check_meets_spec:
  assumes "new_policy threshold window = Inr p" and "sorted (map snd es @ [now])"
  shows "fst (record_check ok now (run_checks p es)) = health_spec threshold window es ok now"
proof -
  have p: "failure_threshold p = threshold" "window_s p = window" "failure_times p = []" "0 < window"
    using assms(1) by (auto simp: new_policy_def split: if_splits)
  have "recent window now (failure_times (run_checks p es)) =
        recent window now (trailing_failures es)"
  proof (cases "es = []")
    case True
    then show ?thesis using p by (simp add: trailing_failures_def)
  next
    case False
    then have "snd (last es) \<le> now" using assms(2) by (auto simp: sorted_append)
    then show ?thesis
      using failure_times_spec [of p es] p False assms(2)
      by (simp add: sorted_append recent_recent)
  qed
  then have "recent window now (failure_times (run_checks p es) @ [now]) =
             recent window now (trailing_failures es @ [now])"
    by (simp add: recent_append)
  then show ?thesis
    using p by (simp add: record_check_def health_spec_def Let_def recent_def)
qed

theorem record_check_meets_spec_witness:
  "case new_policy 3 30 of Inl _ \<Rightarrow> False
   | Inr p \<Rightarrow> fst (record_check False 20 (run_checks p [(True, 0), (False, 5), (False, 10)]))
        = health_spec 3 30 [(True, 0), (False, 5), (False, 10)] False 20"
  using record_check_meets_spec [of 3 30 _ "[(True, 0), (False, 5), (False, 10)]" 20 False]
  by (simp add: new_policy_def)

text \<open>
  Whatever the clock reports, a cycle is declared \<open>Unhealthy\<close> only at the end of an unbroken
  run of at least \<open>failure_threshold\<close>, so at least two, failed cycles: neither one transient
  failure nor failures interleaved with successes trigger a rollback.
\<close>
theorem unhealthy_only_after_consecutive_failures:
  assumes "new_policy threshold window = Inr p"
    and "fst (record_check ok now (run_checks p es)) = Unhealthy"
  shows "2 \<le> threshold \<and> threshold \<le> int (Suc (length (trailing_failures es))) \<and> \<not> ok"
proof -
  have p: "failure_threshold p = threshold" "failure_times p = []" "2 \<le> threshold"
    using assms(1) by (auto simp: new_policy_def split: if_splits)
  have nok: "\<not> ok" using assms(2) by (auto simp: record_check_def)
  let ?kept = "filter (\<lambda>t. t \<ge> now - window_s p) (failure_times (run_checks p es) @ [now])"
  have "threshold \<le> int (length ?kept)"
    using assms(2) nok p by (simp add: record_check_def Let_def split: if_splits)
  moreover have "length ?kept \<le> length (failure_times (run_checks p es) @ [now])"
    by (rule length_filter_le)
  moreover have "length (failure_times (run_checks p es)) \<le> length (trailing_failures es)"
    by (rule failure_times_trailing [OF p(2)])
  ultimately show ?thesis using nok p by simp
qed

theorem unhealthy_only_after_consecutive_failures_witness:
  "\<exists>p. new_policy 2 30 = Inr p \<and>
     fst (record_check False 10 (run_checks p [(True, 0), (False, 5)])) = Unhealthy \<and>
     (2::int) \<le> int (Suc (length (trailing_failures [(True, 0::int), (False, 5)])))"
proof -
  obtain p where p: "new_policy 2 30 = Inr p" by (simp add: new_policy_def)
  have "fst (record_check False 10 (run_checks p [(True, 0), (False, 5)])) = Unhealthy"
    using p by (auto simp: new_policy_def record_check_def Let_def)
  then show ?thesis
    using unhealthy_only_after_consecutive_failures [OF p, of False 10 "[(True, 0), (False, 5)]"] p
    by auto
qed

end
