(* ===== verification/Py_Strings.thy ===== *)
theory Py_Strings imports Json_Value begin

text \<open>
  More of Python's string methods on ASCII text: \<open>upper\<close>, \<open>split\<close> with a one-character separator,
  \<open>split(sep, 1)\<close>, \<open>join\<close>, \<open>isdigit\<close> and \<open>int\<close>, with the lemmas that say how they undo each other.
\<close>

definition upper :: "char \<Rightarrow> char" where
  "upper c = (let n = of_char c :: nat in if 97 \<le> n \<and> n \<le> 122 then char_of (n - 32) else c)"

fun split_on :: "'a \<Rightarrow> 'a list \<Rightarrow> 'a list list" where
  "split_on c [] = [[]]"
| "split_on c (x # xs) =
     (if x = c then [] # split_on c xs
      else (case split_on c xs of [] \<Rightarrow> [[x]] | p # ps \<Rightarrow> (x # p) # ps))"

definition split_once :: "'a \<Rightarrow> 'a list \<Rightarrow> ('a list \<times> 'a list) option" where
  "split_once c s =
     (if c \<in> set s then Some (takeWhile (\<lambda>x. x \<noteq> c) s, tl (dropWhile (\<lambda>x. x \<noteq> c) s)) else None)"

fun join_with :: "'a list \<Rightarrow> 'a list list \<Rightarrow> 'a list" where
  "join_with sep [] = []"
| "join_with sep [p] = p"
| "join_with sep (p # q # ps) = p @ sep @ join_with sep (q # ps)"

definition is_digits :: "string \<Rightarrow> bool" where
  "is_digits s = (s \<noteq> [] \<and> list_all is_digit s)"

definition digit_value :: "char \<Rightarrow> nat" where "digit_value c = of_char c - 48"

definition int_of_digits :: "string \<Rightarrow> nat" where
  "int_of_digits s = foldl (\<lambda>n c. 10 * n + digit_value c) 0 s"

section \<open>Splitting and joining\<close>

lemma split_on_not_Nil [simp]: "split_on c s \<noteq> []"
  by (induction s) (auto split: list.splits)

lemma split_on_single: "c \<notin> set s \<Longrightarrow> split_on c s = [s]"
  by (induction s) auto

lemma split_on_append: "c \<notin> set p \<Longrightarrow> split_on c (p @ c # s) = p # split_on c s"
  by (induction p) (auto split: list.splits)

lemma split_on_join:
  "ps \<noteq> [] \<Longrightarrow> \<forall>p \<in> set ps. c \<notin> set p \<Longrightarrow> split_on c (join_with [c] ps) = ps"
proof (induction "[c]" ps rule: join_with.induct)
  case (2 p)
  then show ?case by (simp add: split_on_single)
next
  case (3 p q ps)
  then show ?case by (simp add: split_on_append)
qed simp

lemma join_Cons: "ps \<noteq> [] \<Longrightarrow> join_with sep (p # ps) = p @ sep @ join_with sep ps"
  by (cases ps) simp_all

lemma join_split: "join_with [c] (split_on c s) = s"
proof (induction s)
  case (Cons x xs)
  obtain p ps where ps: "split_on c xs = p # ps" by (cases "split_on c xs") auto
  then show ?case using Cons by (cases ps) (auto simp: join_Cons)
qed simp

lemma split_on_no_sep: "p \<in> set (split_on c s) \<Longrightarrow> c \<notin> set p"
  by (induction s arbitrary: p) (auto split: if_splits list.splits)

lemma split_on_length: "sum_list (map length (split_on c s)) + length (split_on c s) = Suc (length s)"
  by (induction s) (auto split: list.splits)

lemma join_length: "ps \<noteq> [] \<Longrightarrow> length (join_with [c] ps) + 1 = sum_list (map length ps) + length ps"
  by (induction "[c]" ps rule: join_with.induct) auto

lemma split_once_app: "c \<notin> set k \<Longrightarrow> split_once c (k @ c # v) = Some (k, v)"
  by (induction k) (auto simp: split_once_def)

lemma split_once_Some:
  assumes "split_once c s = Some (k, v)"
  shows "s = k @ c # v" and "c \<notin> set k"
proof -
  have c: "c \<in> set s" "k = takeWhile (\<lambda>x. x \<noteq> c) s" "v = tl (dropWhile (\<lambda>x. x \<noteq> c) s)"
    using assms by (auto simp: split_once_def split: if_splits)
  then have "dropWhile (\<lambda>x. x \<noteq> c) s \<noteq> []" by auto
  then have "dropWhile (\<lambda>x. x \<noteq> c) s = c # v"
    using hd_dropWhile [of "\<lambda>x. x \<noteq> c" s] c(3) by (cases "dropWhile (\<lambda>x. x \<noteq> c) s") auto
  then show "s = k @ c # v" using c(2) takeWhile_dropWhile_id [of "\<lambda>x. x \<noteq> c" s] by simp
  show "c \<notin> set k" using c(2) set_takeWhileD by fastforce
qed

section \<open>Stripping and upper case\<close>

lemma strip_set: "set (strip s) \<subseteq> set s"
  by (auto simp: strip_def dest!: set_dropWhileD)

lemma strip_length: "length (strip s) \<le> length s"
  unfolding strip_def using length_dropWhile_le [of is_space "rev (dropWhile is_space s)"]
    length_dropWhile_le [of is_space s] by simp

lemma upper_code:
  "(of_char (upper c) :: nat) =
     (if 97 \<le> (of_char c :: nat) \<and> (of_char c :: nat) \<le> 122 then of_char c - 32 else of_char c)"
proof (cases "97 \<le> (of_char c :: nat) \<and> (of_char c :: nat) \<le> 122")
  case True
  then have "(of_char c :: nat) - 32 < 256" by (elim conjE) arith
  then show ?thesis using True by (simp add: upper_def Let_def)
next
  case False
  then have "upper c = c" by (auto simp: upper_def Let_def)
  then show ?thesis using False by (simp only: if_False)
qed

lemma upper_upper [simp]: "upper (upper c) = upper c"
  by (subst upper_def) (auto simp: upper_code Let_def)

lemma map_upper_upper [simp]: "map upper (map upper s) = map upper s"
  by simp

lemma upper_space [simp]: "is_space (upper c) = is_space c"
  by (auto simp: is_space_def upper_code Let_def)

lemma strip_upper: "strip (map upper s) = map upper (strip s)"
  by (simp add: strip_def dropWhile_map rev_map o_def)

section \<open>Decimal digits\<close>

definition digit :: "nat \<Rightarrow> char" where "digit d = char_of (48 + d)"

lemma digit_code [simp]: "d < 10 \<Longrightarrow> (of_char (digit d) :: nat) = 48 + d"
  by (simp add: digit_def)

lemma is_digit_code: "is_digit c \<longleftrightarrow> 48 \<le> (of_char c :: nat) \<and> (of_char c :: nat) \<le> 57"
proof
  assume "is_digit c"
  then show "48 \<le> (of_char c :: nat) \<and> (of_char c :: nat) \<le> 57" by (auto simp: is_digit_def)
next
  assume "48 \<le> (of_char c :: nat) \<and> (of_char c :: nat) \<le> 57"
  then have "(of_char c :: nat) \<in> set [48..<58]" unfolding set_upt atLeastLessThan_iff by arith
  moreover have "list_all (\<lambda>n. is_digit (char_of n)) [48..<58]" by code_simp
  ultimately have "is_digit (char_of (of_char c :: nat))" unfolding list_all_iff by blast
  then show "is_digit c" by simp
qed

lemma digit_digit [simp]: "d < 10 \<Longrightarrow> is_digit (digit d)"
  by (simp add: is_digit_code)

lemma digit_value_digit [simp]: "d < 10 \<Longrightarrow> digit_value (digit d) = d"
  by (simp add: digit_value_def)

lemma show_nat_step: "show_nat n = (if n < 10 then [digit n] else show_nat (n div 10) @ [digit (n mod 10)])"
  by (subst show_nat.simps) (simp add: digit_def)

lemma show_nat_digits: "list_all is_digit (show_nat n) \<and> show_nat n \<noteq> []"
proof (induction n rule: less_induct)
  case (less n)
  then show ?case using less.IH [of "n div 10"] by (subst (1 2) show_nat_step) simp
qed

lemma int_of_digits_snoc: "int_of_digits (s @ [c]) = 10 * int_of_digits s + digit_value c"
  by (simp add: int_of_digits_def)

lemma int_of_show_nat [simp]: "int_of_digits (show_nat n) = n"
proof (induction n rule: less_induct)
  case (less n)
  show ?case
  proof (cases "n < 10")
    case True
    then show ?thesis by (subst show_nat_step) (simp add: int_of_digits_def)
  next
    case False
    then show ?thesis using less.IH [of "n div 10"]
      by (subst show_nat_step) (simp add: int_of_digits_snoc)
  qed
qed

lemma show_nat_small_head:
  assumes "0 < n"
  shows "hd (show_nat n) \<noteq> CHR ''0''"
  using assms
proof (induction n rule: less_induct)
  case (less n)
  show ?case
  proof (cases "n < 10")
    case True
    then have "digit_value (digit n) = n" by simp
    then have "digit n \<noteq> CHR ''0''" using less.prems by (auto simp: digit_value_def)
    then show ?thesis using True by (subst show_nat_step) simp
  next
    case False
    then have "hd (show_nat (n div 10)) \<noteq> CHR ''0''" using less.IH [of "n div 10"] by simp
    then show ?thesis using False show_nat_digits [of "n div 10"] by (subst show_nat_step) (simp add: hd_append)
  qed
qed

lemma show_nat_length:
  assumes "n < 1000"
  shows "length (show_nat n) \<le> 3"
proof -
  have "n div 10 div 10 < 10" using assms by (simp add: div_mult2_eq [symmetric] less_mult_imp_div_less)
  then show ?thesis by (subst show_nat_step, subst show_nat_step, subst show_nat_step) simp
qed

lemma show_nat_chars: "\<not> is_digit c \<Longrightarrow> c \<notin> set (show_nat n)"
  using show_nat_digits [of n] by (auto simp: list_all_iff)

text \<open>Text files are read with every kind of line ending turned into a line feed.\<close>

fun universal_newlines :: "string \<Rightarrow> string" where
  "universal_newlines [] = []"
| "universal_newlines (c # cs) =
     (if c = CHR 0x0D
      then CHR 0x0A # universal_newlines (if cs \<noteq> [] \<and> hd cs = CHR 0x0A then tl cs else cs)
      else c # universal_newlines cs)"

lemma universal_newlines_id: "CHR 0x0D \<notin> set s \<Longrightarrow> universal_newlines s = s"
  by (induction s rule: universal_newlines.induct) auto

lemma universal_newlines_no_cr: "CHR 0x0D \<notin> set (universal_newlines s)"
  by (induction s rule: universal_newlines.induct) auto

end
