(* ===== verification/Release_Workspace.thy ===== *)
theory Release_Workspace imports Json_Value Py_Strings "HOL-Library.List_Lexorder" "HOL-Library.Char_ord"
  "HOL-Library.Multiset" begin

text \<open>
  The versioned release workspace of the recovery supervisor
  (\<open>services/recovery-supervisor/recovery_supervisor/workspace.py\<close>): immutable release
  directories, two pointer files, an append-only history of pointer moves and the incident outbox.
  A release directory is the list of its files, each with its path parts and content; the pointer
  files hold the raw text that the code writes, which every read strips, with carriage returns read as line feeds.  \<open>ensure\<close> has created the
  directories.  SHA-256 (the standard library's C code) is the parameter \<open>sha\<close>; time stamps of the
  history are left out.
\<close>

section \<open>State and errors\<close>

type_synonym file_path = "string list"
type_synonym release = "(file_path \<times> string) list"

datatype ws_error =
    Invalid_version | Source_missing | Release_exists | Release_missing | No_active_release
  | Promote_requires_active | No_last_known_good | Last_known_good_missing

datatype history_event =
    H_stage string string
  | H_activate string "string option"
  | H_promote string "string option"
  | H_rollback "string option" string

record workspace =
  releases :: "(string \<times> release) list"
  current_file :: "string option"
  lkg_file :: "string option"
  history :: "history_event list"
  outbox :: "json list"

definition empty_workspace :: workspace where
  "empty_workspace =
     \<lparr>releases = [], current_file = None, lkg_file = None, history = [], outbox = []\<rparr>"

section \<open>Manifest digests\<close>

definition as_posix :: "file_path \<Rightarrow> string" where
  "as_posix p = (case p of [] \<Rightarrow> ''.'' | x # xs \<Rightarrow> x @ concat (map (\<lambda>n. ''/'' @ n) xs))"

text \<open>\<open>PurePath.suffix\<close>: the text from the last dot, unless the name begins or ends with it.\<close>

definition path_suffix :: "string \<Rightarrow> string" where
  "path_suffix n =
     (let ext = takeWhile (\<lambda>c. c \<noteq> CHR ''.'') (rev n);
          rest = drop (length ext) (rev n)
      in if ext = [] \<or> length rest \<le> 1 then [] else ''.'' @ rev ext)"

definition digest_includes :: "file_path \<Rightarrow> bool" where
  "digest_includes p =
     (''__pycache__'' \<notin> set p \<and> last p \<noteq> ''manifest.json'' \<and> path_suffix (last p) \<noteq> ''.pyc'')"

definition digest_line :: "(string \<Rightarrow> string) \<Rightarrow> string \<times> string \<Rightarrow> string" where
  "digest_line sha e = fst e @ [CHR 0x00] @ sha (snd e) @ [CHR 0x0A]"

definition manifest_digest :: "(string \<Rightarrow> string) \<Rightarrow> release \<Rightarrow> string" where
  "manifest_digest sha files =
     (let entries = map (\<lambda>(p, c). (as_posix p, c)) (filter (\<lambda>(p, c). digest_includes p) files)
      in sha (concat (map (digest_line sha) (sort_key fst entries))))"

section \<open>Reading the workspace\<close>

definition validate_version :: "string \<Rightarrow> bool" where
  "validate_version v =
     (v \<noteq> [] \<and> \<not> contains_sub ''/'' v \<and> \<not> contains_sub [CHR 0x5C] v \<and>
      \<not> contains_sub ''..'' v \<and> \<not> contains_sub '':'' v)"

text \<open>\<open>releases_dir / "."\<close> is the directory of all releases itself.\<close>

definition release_files :: "workspace \<Rightarrow> string \<Rightarrow> release option" where
  "release_files w v =
     (if v = ''.'' then Some (concat (map (\<lambda>(n, fs). map (\<lambda>(p, c). (n # p, c)) fs) (releases w)))
      else map_of (releases w) v)"

definition has_release :: "workspace \<Rightarrow> string \<Rightarrow> ws_error + bool" where
  "has_release w v =
     (if validate_version v then Inr (release_files w v \<noteq> None) else Inl Invalid_version)"

definition list_releases :: "workspace \<Rightarrow> string list" where
  "list_releases w = sort (filter (\<lambda>n. \<not> is_prefix ''.'' n) (map fst (releases w)))"

definition read_pointer :: "string option \<Rightarrow> string option" where
  "read_pointer file =
     (case file of None \<Rightarrow> None
      | Some raw \<Rightarrow> let value = strip (universal_newlines raw) in if value = [] then None else Some value)"

definition pointer_text :: "string \<Rightarrow> string" where
  "pointer_text v = v @ [CHR 0x0A]"

definition current :: "workspace \<Rightarrow> string option" where
  "current w = read_pointer (current_file w)"

definition last_known_good :: "workspace \<Rightarrow> string option" where
  "last_known_good w = read_pointer (lkg_file w)"

definition add_history :: "history_event \<Rightarrow> workspace \<Rightarrow> workspace" where
  "add_history e w = w\<lparr>history := history w @ [e]\<rparr>"

record ws_status =
  st_current :: "string option"
  st_last_known_good :: "string option"
  st_releases :: "string list"
  st_manifest_digest :: "string option"
  st_outbox_pending :: nat

definition ws_status :: "(string \<Rightarrow> string) \<Rightarrow> workspace \<Rightarrow> ws_error + ws_status" where
  "ws_status sha w =
     bind_sum
       (case current w of None \<Rightarrow> Inr None
        | Some v \<Rightarrow> bind_sum (has_release w v)
            (\<lambda>h. Inr (if h then map_option (manifest_digest sha) (release_files w v) else None)))
       (\<lambda>digest. Inr \<lparr>st_current = current w, st_last_known_good = last_known_good w,
          st_releases = list_releases w, st_manifest_digest = digest,
          st_outbox_pending = length (outbox w)\<rparr>)"

section \<open>Operations\<close>

text \<open>A source is its path as text and, when it is a directory, its files.\<close>

type_synonym source = "string \<times> release option"

definition copytree :: "release \<Rightarrow> release" where
  "copytree files =
     filter (\<lambda>(p, c). list_all (\<lambda>n. n \<noteq> ''__pycache__'' \<and> \<not> ends_with n ''.pyc'') p) files"

definition stage_release :: "string \<Rightarrow> source \<Rightarrow> workspace \<Rightarrow> ws_error + workspace" where
  "stage_release v src w =
     (case snd src of None \<Rightarrow> Inl Source_missing
      | Some files \<Rightarrow>
          if \<not> validate_version v then Inl Invalid_version
          else if release_files w v \<noteq> None then Inl Release_exists
          else Inr (add_history (H_stage v (fst src))
                      (w\<lparr>releases := releases w @ [(v, copytree files)]\<rparr>)))"

definition activate ::
    "string \<Rightarrow> source option \<Rightarrow> workspace \<Rightarrow> ws_error + string option \<times> workspace" where
  "activate v src w =
     bind_sum (case src of None \<Rightarrow> Inr w | Some s \<Rightarrow> stage_release v s w)
       (\<lambda>w1. bind_sum (has_release w1 v)
         (\<lambda>h. if \<not> h then Inl Release_missing
              else let previous = current w1
                   in Inr (previous, add_history (H_activate v previous)
                             (w1\<lparr>current_file := Some (pointer_text v)\<rparr>))))"

definition promote ::
    "string option \<Rightarrow> workspace \<Rightarrow> ws_error + string option \<times> workspace" where
  "promote v w =
     (case current w of None \<Rightarrow> Inl No_active_release
      | Some active \<Rightarrow>
          if v \<noteq> None \<and> v \<noteq> Some active then Inl Promote_requires_active
          else let previous = last_known_good w
               in Inr (previous, add_history (H_promote active previous)
                         (w\<lparr>lkg_file := Some (pointer_text active)\<rparr>)))"

definition rollback :: "workspace \<Rightarrow> ws_error + (string option \<times> string) \<times> workspace" where
  "rollback w =
     (case last_known_good w of None \<Rightarrow> Inl No_last_known_good
      | Some lkg \<Rightarrow>
          bind_sum (has_release w lkg)
            (\<lambda>h. if \<not> h then Inl Last_known_good_missing
                 else let previous = current w
                      in Inr ((previous, lkg), add_history (H_rollback previous lkg)
                                (w\<lparr>current_file := Some (pointer_text lkg)\<rparr>))))"

definition write_outbox :: "json \<Rightarrow> workspace \<Rightarrow> workspace" where
  "write_outbox report w = w\<lparr>outbox := outbox w @ [report]\<rparr>"

text \<open>A sequence of requests; one that raises leaves the workspace as it was.\<close>

datatype ws_op =
    Op_stage string source
  | Op_activate string "source option"
  | Op_promote "string option"
  | Op_rollback

fun op_result :: "ws_op \<Rightarrow> workspace \<Rightarrow> ws_error + workspace" where
  "op_result (Op_stage v src) w = stage_release v src w"
| "op_result (Op_activate v src) w = map_sum id snd (activate v src w)"
| "op_result (Op_promote v) w = map_sum id snd (promote v w)"
| "op_result Op_rollback w = map_sum id snd (rollback w)"

definition apply_op :: "ws_op \<Rightarrow> workspace \<Rightarrow> workspace" where
  "apply_op oper w = (case op_result oper w of Inl _ \<Rightarrow> w | Inr w' \<Rightarrow> w')"

definition apply_ops :: "ws_op list \<Rightarrow> workspace \<Rightarrow> workspace" where
  "apply_ops ops w = fold apply_op ops w"

text \<open>The two pointers as the history alone determines them.\<close>

fun replay :: "history_event list \<Rightarrow> string option \<times> string option \<Rightarrow> string option \<times> string option"
where
  "replay [] ptrs = ptrs"
| "replay (H_stage _ _ # hs) ptrs = replay hs ptrs"
| "replay (H_activate v _ # hs) (c, g) = replay hs (Some v, g)"
| "replay (H_promote v _ # hs) (c, g) = replay hs (c, Some v)"
| "replay (H_rollback _ v # hs) (c, g) = replay hs (Some v, g)"

section \<open>Pointers\<close>

lemma read_pointer_text:
  "CHR 0x0D \<notin> set v \<Longrightarrow> read_pointer (Some (pointer_text v)) = (if strip v = [] then None else Some (strip v))"
  by (simp add: read_pointer_def pointer_text_def universal_newlines_id strip_newline)

lemma read_pointer_clean: "read_pointer f = Some v \<Longrightarrow> v \<noteq> [] \<and> strip v = v \<and> CHR 0x0D \<notin> set v"
  using strip_set universal_newlines_no_cr
  by (auto simp: read_pointer_def Let_def split: option.splits if_splits)

lemma workspace_reads [simp]:
  "current (add_history e w) = current w"
  "last_known_good (add_history e w) = last_known_good w"
  "current (w\<lparr>current_file := c\<rparr>) = read_pointer c"
  "last_known_good (w\<lparr>current_file := c\<rparr>) = last_known_good w"
  "current (w\<lparr>lkg_file := c\<rparr>) = current w"
  "last_known_good (w\<lparr>lkg_file := c\<rparr>) = read_pointer c"
  "current (w\<lparr>releases := rs\<rparr>) = current w"
  "last_known_good (w\<lparr>releases := rs\<rparr>) = last_known_good w"
  "history (add_history e w) = history w @ [e]"
  "releases (add_history e w) = releases w"
  "outbox (add_history e w) = outbox w"
  by (simp_all add: current_def last_known_good_def add_history_def)

lemma release_files_reads [simp]:
  "release_files (add_history e w) v = release_files w v"
  "release_files (w\<lparr>current_file := c\<rparr>) v = release_files w v"
  "release_files (w\<lparr>lkg_file := c\<rparr>) v = release_files w v"
  by (simp_all add: release_files_def add_history_def)

lemma has_release_reads [simp]:
  "has_release (add_history e w) v = has_release w v"
  "has_release (w\<lparr>current_file := c\<rparr>) v = has_release w v"
  "has_release (w\<lparr>lkg_file := c\<rparr>) v = has_release w v"
  by (simp_all add: has_release_def)

lemma release_files_append:
  "release_files w v \<noteq> None \<Longrightarrow> release_files (w\<lparr>releases := releases w @ rs\<rparr>) v \<noteq> None"
  by (auto simp: release_files_def map_add_def)

lemma has_release_append:
  "has_release w v = Inr True \<Longrightarrow> has_release (w\<lparr>releases := releases w @ rs\<rparr>) v = Inr True"
  using release_files_append [of w v rs] by (auto simp: has_release_def split: if_splits)

lemma replay_append: "replay (hs @ ks) p = replay ks (replay hs p)"
  by (induction hs p rule: replay.induct) auto

section \<open>What each operation does\<close>

lemma stage_release_InrE:
  assumes "stage_release v src w = Inr w'"
  obtains files where "snd src = Some files" "validate_version v" "release_files w v = None"
    "w' = add_history (H_stage v (fst src)) (w\<lparr>releases := releases w @ [(v, copytree files)]\<rparr>)"
  using assms by (auto simp: stage_release_def split: option.splits if_splits)

lemma activate_InrE:
  assumes "activate v src w = Inr (previous, w')"
  obtains w1 where "(src = None \<and> w1 = w) \<or> (\<exists>s. src = Some s \<and> stage_release v s w = Inr w1)"
    "has_release w1 v = Inr True" "previous = current w1"
    "w' = add_history (H_activate v previous) (w1\<lparr>current_file := Some (pointer_text v)\<rparr>)"
  using assms
  by (auto simp: activate_def sum_simps Let_def split: option.splits if_splits)

lemma promote_InrE:
  assumes "promote v w = Inr (previous, w')"
  obtains active where "current w = Some active" "v = None \<or> v = Some active"
    "previous = last_known_good w"
    "w' = add_history (H_promote active previous) (w\<lparr>lkg_file := Some (pointer_text active)\<rparr>)"
  using assms by (auto simp: promote_def Let_def split: option.splits if_splits)

lemma rollback_InrE:
  assumes "rollback w = Inr ((previous, lkg), w')"
  obtains "last_known_good w = Some lkg" "has_release w lkg = Inr True" "previous = current w"
    "w' = add_history (H_rollback previous lkg) (w\<lparr>current_file := Some (pointer_text lkg)\<rparr>)"
  using assms by (auto simp: rollback_def sum_simps Let_def split: option.splits if_splits)

lemma op_result_cases:
  assumes "op_result oper w = Inr w'"
  obtains (stage) v src where "oper = Op_stage v src" "stage_release v src w = Inr w'"
    | (activate) v src p where "oper = Op_activate v src" "activate v src w = Inr (p, w')"
    | (promote) v p where "oper = Op_promote v" "promote v w = Inr (p, w')"
    | (rollback) p g where "oper = Op_rollback" "rollback w = Inr ((p, g), w')"
  using assms by (cases oper) (auto simp: map_sum_def split: sum.splits)

section \<open>The workspace invariant\<close>

definition promotions_of_active :: "history_event list \<Rightarrow> bool" where
  "promotions_of_active hs =
     (\<forall>hs1 v p hs2. hs = hs1 @ H_promote v p # hs2 \<longrightarrow> fst (replay hs1 (None, None)) = Some v)"

definition installed :: "workspace \<Rightarrow> string option \<Rightarrow> bool" where
  "installed w ptr = (\<forall>v. ptr = Some v \<longrightarrow> has_release w v = Inr True)"

definition ws_inv :: "workspace \<Rightarrow> bool" where
  "ws_inv w = (replay (history w) (None, None) = (current w, last_known_good w) \<and>
     promotions_of_active (history w) \<and> installed w (current w) \<and> installed w (last_known_good w))"

fun clean_op :: "ws_op \<Rightarrow> bool" where
  "clean_op (Op_stage v _) = (strip v = v \<and> CHR 0x0D \<notin> set v)"
| "clean_op (Op_activate v _) = (strip v = v \<and> CHR 0x0D \<notin> set v)"
| "clean_op _ = True"

lemma promotions_snoc:
  "promotions_of_active (hs @ [e]) \<longleftrightarrow> promotions_of_active hs \<and>
     (\<forall>v p. e = H_promote v p \<longrightarrow> fst (replay hs (None, None)) = Some v)"
  (is "?new \<longleftrightarrow> ?old \<and> ?last")
proof
  assume new: ?new
  have ?old unfolding promotions_of_active_def
  proof (intro allI impI)
    fix hs1 v p hs2
    assume "hs = hs1 @ H_promote v p # hs2"
    then have "hs @ [e] = hs1 @ H_promote v p # (hs2 @ [e])" by simp
    then show "fst (replay hs1 (None, None)) = Some v"
      using new unfolding promotions_of_active_def by blast
  qed
  moreover have ?last using new unfolding promotions_of_active_def by blast
  ultimately show "?old \<and> ?last" by blast
next
  assume old: "?old \<and> ?last"
  show ?new unfolding promotions_of_active_def
  proof (intro allI impI)
    fix hs1 v p hs2
    assume split: "hs @ [e] = hs1 @ H_promote v p # hs2"
    show "fst (replay hs1 (None, None)) = Some v"
    proof (cases hs2 rule: rev_cases)
      case Nil
      then show ?thesis using split old by simp
    next
      case (snoc hs3 e')
      then have "hs = hs1 @ H_promote v p # hs3" using split by simp
      then show ?thesis using old unfolding promotions_of_active_def by blast
    qed
  qed
qed

lemma installed_None [simp]: "installed w None"
  by (simp add: installed_def)

lemma ws_inv_empty: "ws_inv empty_workspace"
  by (simp add: ws_inv_def empty_workspace_def current_def last_known_good_def read_pointer_def
      promotions_of_active_def)

lemma stage_inv:
  assumes "ws_inv w" and "stage_release v src w = Inr w'"
  shows "ws_inv w' \<and> has_release w' v = Inr True \<and> current w' = current w"
proof -
  obtain files where f: "validate_version v"
    and w': "w' = add_history (H_stage v (fst src)) (w\<lparr>releases := releases w @ [(v, copytree files)]\<rparr>)"
    using stage_release_InrE [OF assms(2)] by blast
  have "release_files (w\<lparr>releases := releases w @ [(v, copytree files)]\<rparr>) v \<noteq> None"
    by (simp add: release_files_def map_add_def split: option.splits)
  then have "has_release w' v = Inr True" using f w' by (simp add: has_release_def)
  moreover have "ws_inv w'"
    using assms(1) w'
    by (simp add: ws_inv_def replay_append promotions_snoc installed_def has_release_append)
  ultimately show ?thesis using w' by simp
qed

lemma valid_nonempty: "has_release w v = Inr b \<Longrightarrow> v \<noteq> []"
  by (auto simp: has_release_def validate_version_def split: if_splits)

lemma point_current_inv:
  assumes inv: "ws_inv w" and rel: "has_release w v = Inr True" and clean: "strip v = v" "CHR 0x0D \<notin> set v"
    and e: "e = H_activate v p \<or> e = H_rollback p v"
  shows "ws_inv (add_history e (w\<lparr>current_file := Some (pointer_text v)\<rparr>))"
  using assms valid_nonempty [OF rel]
  by (auto simp: ws_inv_def replay_append promotions_snoc read_pointer_text installed_def)

lemma op_inv:
  assumes "ws_inv w" and "clean_op oper" and "op_result oper w = Inr w'"
  shows "ws_inv w'"
  using assms(3)
proof (cases rule: op_result_cases)
  case (stage v src)
  then show ?thesis using stage_inv assms(1) by blast
next
  case (activate v src p)
  from activate(2) obtain w1 where w1:
    "(src = None \<and> w1 = w) \<or> (\<exists>s. src = Some s \<and> stage_release v s w = Inr w1)"
    "has_release w1 v = Inr True"
    "w' = add_history (H_activate v p) (w1\<lparr>current_file := Some (pointer_text v)\<rparr>)"
    by (rule activate_InrE) auto
  have "ws_inv w1" using w1(1) assms(1) stage_inv by blast
  then show ?thesis using point_current_inv w1(2,3) activate(1) assms(2) by simp
next
  case (promote v p)
  from promote(2) obtain active where a: "current w = Some active"
    "w' = add_history (H_promote active p) (w\<lparr>lkg_file := Some (pointer_text active)\<rparr>)"
    by (rule promote_InrE) auto
  have "active \<noteq> [] \<and> strip active = active \<and> CHR 0x0D \<notin> set active"
    using a(1) read_pointer_clean by (auto simp: current_def)
  then show ?thesis
    using assms(1) a
    by (auto simp: ws_inv_def replay_append promotions_snoc read_pointer_text installed_def)
next
  case (rollback p g)
  from rollback(2) have r: "last_known_good w = Some g" "has_release w g = Inr True"
    "w' = add_history (H_rollback p g) (w\<lparr>current_file := Some (pointer_text g)\<rparr>)"
    by (auto elim: rollback_InrE)
  have "strip g = g" "CHR 0x0D \<notin> set g" using r(1) read_pointer_clean by (auto simp: last_known_good_def)
  then show ?thesis using point_current_inv [OF assms(1) r(2)] r(3) by blast
qed

lemma apply_ops_inv: "ws_inv w \<Longrightarrow> list_all clean_op ops \<Longrightarrow> ws_inv (apply_ops ops w)"
  unfolding apply_ops_def
  by (induction ops arbitrary: w) (auto simp: apply_op_def op_inv split: sum.splits)

definition extends :: "workspace \<Rightarrow> workspace \<Rightarrow> bool" where
  "extends w w' = (\<exists>rs hs. releases w' = releases w @ rs \<and> history w' = history w @ hs)"

lemma extends_refl [simp]: "extends w w"
  by (simp add: extends_def)

lemma extends_trans: "extends u v \<Longrightarrow> extends v w \<Longrightarrow> extends u w"
  by (force simp: extends_def)

lemma extends_steps [simp]:
  "extends w (add_history e (w\<lparr>current_file := c\<rparr>))"
  "extends w (add_history e (w\<lparr>lkg_file := c\<rparr>))"
  "extends w (add_history e (w\<lparr>releases := releases w @ rs\<rparr>))"
  by (simp_all add: extends_def add_history_def)

lemma stage_extends: "stage_release v src w = Inr w' \<Longrightarrow> extends w w'"
  by (erule stage_release_InrE) simp

lemma activate_extends:
  assumes "activate v src w = Inr (p, w')" shows "extends w w'"
proof -
  obtain w1 where "(src = None \<and> w1 = w) \<or> (\<exists>s. src = Some s \<and> stage_release v s w = Inr w1)"
    "w' = add_history (H_activate v p) (w1\<lparr>current_file := Some (pointer_text v)\<rparr>)"
    using activate_InrE [OF assms] by metis
  then show ?thesis using stage_extends extends_trans extends_steps(1) extends_refl by metis
qed

lemma promote_extends: "promote v w = Inr (p, w') \<Longrightarrow> extends w w'"
  by (erule promote_InrE) simp

lemma rollback_extends: "rollback w = Inr ((p, g), w') \<Longrightarrow> extends w w'"
  by (erule rollback_InrE) simp

lemma op_extends: "op_result oper w = Inr w' \<Longrightarrow> extends w w'"
  by (erule op_result_cases)
     (auto dest: stage_extends activate_extends promote_extends rollback_extends)

lemma apply_ops_extends: "extends w (apply_ops ops w)"
proof (induction ops arbitrary: w)
  case Nil
  then show ?case by (simp add: apply_ops_def)
next
  case (Cons oper ops)
  have "extends w (apply_op oper w)"
    using op_extends [of oper w] by (auto simp: apply_op_def split: sum.splits)
  then show ?case using Cons.IH [of "apply_op oper w"] extends_trans by (simp add: apply_ops_def)
qed

section \<open>Digests\<close>

lemma manifest_digest_mset:
  assumes "mset fs = mset gs" and "distinct (map (as_posix \<circ> fst) fs)"
  shows "manifest_digest sha fs = manifest_digest sha gs"
proof -
  define ent where
    "ent files = map (\<lambda>(p, c). (as_posix p, c)) (filter (\<lambda>(p, c). digest_includes p) files)"
    for files :: release
  have fst_ent: "map fst (ent files) = map (as_posix \<circ> fst) (filter (\<lambda>(p, c). digest_includes p) files)"
    for files by (simp add: ent_def case_prod_beta)
  have "mset (ent fs) = mset (ent gs)" using assms(1) by (simp add: ent_def)
  moreover have "distinct (map fst (ent fs))"
    using assms(2) unfolding fst_ent by (simp add: distinct_map inj_on_def)
  then have "inj_on fst (set (ent fs))" by (simp add: distinct_map)
  ultimately have "sort_key fst (ent fs) = sort_key fst (ent gs)"
    by (intro sort_key_inj_key_eq) simp_all
  then show ?thesis by (simp add: manifest_digest_def ent_def Let_def)
qed

lemma path_suffix_pyc: "a \<noteq> [] \<Longrightarrow> path_suffix (a @ ''.pyc'') = ''.pyc''"
  by (simp add: path_suffix_def Let_def Suc_le_eq)

definition no_pyc_dirs :: "release \<Rightarrow> bool" where
  "no_pyc_dirs fs =
     (\<forall>(p, c) \<in> set fs. p \<noteq> [] \<and> last p \<noteq> ''.pyc'' \<and> (\<forall>n \<in> set (butlast p). \<not> ends_with n ''.pyc''))"

lemma digest_copytree:
  assumes "no_pyc_dirs fs"
  shows "manifest_digest sha (copytree fs) = manifest_digest sha fs"
proof -
  have keep: "list_all (\<lambda>n. n \<noteq> ''__pycache__'' \<and> \<not> ends_with n ''.pyc'') p"
    if "(p, c) \<in> set fs" and inc: "digest_includes p" for p c
  proof -
    have p: "p \<noteq> []" "last p \<noteq> ''.pyc''" "\<forall>n \<in> set (butlast p). \<not> ends_with n ''.pyc''"
      using assms that(1) by (auto simp: no_pyc_dirs_def)
    have "\<not> ends_with (last p) ''.pyc''"
    proof
      assume "ends_with (last p) ''.pyc''"
      then obtain a where "last p = a @ ''.pyc''" by (auto simp: ends_with_iff)
      then show False using p(2) inc path_suffix_pyc [of a] by (cases a) (auto simp: digest_includes_def)
    qed
    moreover have "set p = insert (last p) (set (butlast p))"
      using p(1) by (metis append_butlast_last_id list.set(1) list.set(2) set_append sup_bot_right
          Un_insert_right)
    ultimately show ?thesis using p inc by (auto simp: list_all_iff digest_includes_def)
  qed
  have "filter (\<lambda>(p, c). digest_includes p) (copytree fs) = filter (\<lambda>(p, c). digest_includes p) fs"
    unfolding copytree_def filter_filter by (rule filter_cong) (auto dest: keep)
  then show ?thesis by (simp add: manifest_digest_def)
qed

section \<open>Properties\<close>

text \<open>
  C29. Whatever sequence of stage, activate, promote and rollback requests the workspace has served
  (with version names that carry no surrounding blanks and no carriage return), its two pointers are exactly what the
  append-only history says, both point to release directories that exist, and every promotion in
  the history names the release that was active at that moment: a release that was never active
  can never have become the rollback target.
\<close>
theorem workspace_pointers_follow_history:
  assumes "list_all clean_op ops"
  defines "w \<equiv> apply_ops ops empty_workspace"
  shows "replay (history w) (None, None) = (current w, last_known_good w) \<and>
    (\<forall>hs1 v p hs2. history w = hs1 @ H_promote v p # hs2 \<longrightarrow>
       fst (replay hs1 (None, None)) = Some v) \<and>
    (\<forall>v. current w = Some v \<or> last_known_good w = Some v \<longrightarrow> has_release w v = Inr True)"
  using apply_ops_inv [OF ws_inv_empty assms(1)]
  unfolding ws_inv_def promotions_of_active_def installed_def w_def by blast

theorem workspace_pointers_follow_history_witness:
  "replay (history (apply_ops [Op_activate ''1.0'' (Some (''/src'', Some [])), Op_promote None,
              Op_activate ''1.1'' (Some (''/src'', Some [])), Op_rollback] empty_workspace)) (None, None)
   = (Some ''1.0'', Some ''1.0'')"
proof -
  let ?ops = "[Op_activate ''1.0'' (Some (''/src'', Some [])), Op_promote None,
              Op_activate ''1.1'' (Some (''/src'', Some [])), Op_rollback]"
  have "list_all clean_op ?ops" by (simp add: strip_def is_space_def)
  from workspace_pointers_follow_history [OF this]
  have "replay (history (apply_ops ?ops empty_workspace)) (None, None) =
        (current (apply_ops ?ops empty_workspace), last_known_good (apply_ops ?ops empty_workspace))"
    by blast
  also have "current (apply_ops ?ops empty_workspace) = Some ''1.0''" by code_simp
  also have "last_known_good (apply_ops ?ops empty_workspace) = Some ''1.0''" by code_simp
  finally show ?thesis .
qed

text \<open>
  Rollback restores service whenever there is something to roll back to: in every workspace
  reached as in the previous property with a last-known-good pointer, \<open>rollback\<close> succeeds, returns
  the old active release and the target, makes the target current, leaves the last-known-good
  pointer and every release directory as they were and appends one history entry.
\<close>
theorem rollback_restores_last_known_good:
  assumes "list_all clean_op ops" and "last_known_good (apply_ops ops empty_workspace) = Some g"
  shows "\<exists>w'. rollback (apply_ops ops empty_workspace) =
       Inr ((current (apply_ops ops empty_workspace), g), w') \<and>
     current w' = Some g \<and> last_known_good w' = Some g \<and>
     releases w' = releases (apply_ops ops empty_workspace) \<and>
     history w' = history (apply_ops ops empty_workspace) @
       [H_rollback (current (apply_ops ops empty_workspace)) g]"
proof -
  let ?w = "apply_ops ops empty_workspace"
  have "has_release ?w g = Inr True"
    using apply_ops_inv [OF ws_inv_empty assms(1)] assms(2) by (auto simp: ws_inv_def installed_def)
  moreover have "g \<noteq> [] \<and> strip g = g \<and> CHR 0x0D \<notin> set g"
    using assms(2) read_pointer_clean by (auto simp: last_known_good_def)
  ultimately show ?thesis
    using assms(2) by (simp add: rollback_def Let_def read_pointer_text)
qed

theorem rollback_restores_last_known_good_witness:
  "\<exists>w'. rollback (apply_ops [Op_activate ''1.0'' (Some (''/src'', Some [])), Op_promote None,
              Op_activate ''1.1'' (Some (''/src'', Some []))] empty_workspace)
     = Inr ((Some ''1.1'', ''1.0''), w') \<and> current w' = Some ''1.0''"
proof -
  let ?ops = "[Op_activate ''1.0'' (Some (''/src'', Some [])), Op_promote None,
              Op_activate ''1.1'' (Some (''/src'', Some []))]"
  have clean: "list_all clean_op ?ops" by (simp add: strip_def is_space_def)
  have g: "last_known_good (apply_ops ?ops empty_workspace) = Some ''1.0''" by code_simp
  have c: "current (apply_ops ?ops empty_workspace) = Some ''1.1''" by code_simp
  from rollback_restores_last_known_good [OF clean g] show ?thesis unfolding c by blast
qed

text \<open>
  Releases are immutable and the history is append-only: no sequence of requests, from any
  workspace, changes the files of a staged release or removes one, and the old history is a prefix
  of the new one.
\<close>
theorem staged_release_is_immutable:
  assumes "map_of (releases w) v = Some files"
  shows "map_of (releases (apply_ops ops w)) v = Some files \<and>
    (\<exists>hs. history (apply_ops ops w) = history w @ hs)"
proof -
  obtain rs hs where "releases (apply_ops ops w) = releases w @ rs"
    "history (apply_ops ops w) = history w @ hs"
    using apply_ops_extends [of w ops] by (auto simp: extends_def)
  then show ?thesis using assms by (simp add: map_add_Some_iff)
qed

theorem staged_release_is_immutable_witness:
  "map_of (releases (apply_ops [Op_stage ''1.0'' (''/other'', Some []), Op_rollback]
     (empty_workspace\<lparr>releases := [(''1.0'', [([''app.py''], ''x'')])]\<rparr>))) ''1.0''
   = Some [([''app.py''], ''x'')]"
  using staged_release_is_immutable
    [of "empty_workspace\<lparr>releases := [(''1.0'', [([''app.py''], ''x'')])]\<rparr>" "''1.0''"]
  by simp

text \<open>
  The manifest digest identifies a release and nothing else: it does not depend on the order in
  which the directory is listed, a manifest written into the release does not change the digest it
  records, and staging a source tree without directories named like byte-code files keeps its digest.
\<close>
theorem manifest_digest_stable:
  assumes "distinct (map (as_posix \<circ> fst) fs)" and "mset gs = mset fs" and "no_pyc_dirs fs"
    and "stage_release v (src, Some gs) w = Inr w'" and "v \<noteq> ''.''"
  shows "map_option (manifest_digest sha) (release_files w' v) = Some (manifest_digest sha fs) \<and>
    manifest_digest sha (fs @ [([''manifest.json''], text)]) = manifest_digest sha fs"
proof
  have "no_pyc_dirs gs"
    using assms(2,3) mset_eq_setD [OF assms(2)] by (simp add: no_pyc_dirs_def)
  moreover have "release_files w' v = Some (copytree gs)"
    using assms(4,5)
    by (auto elim!: stage_release_InrE simp: release_files_def map_add_def split: if_splits option.splits)
  ultimately show "map_option (manifest_digest sha) (release_files w' v) = Some (manifest_digest sha fs)"
    using digest_copytree manifest_digest_mset [OF assms(2) [symmetric] assms(1)] by simp
  show "manifest_digest sha (fs @ [([''manifest.json''], text)]) = manifest_digest sha fs"
    by (simp add: manifest_digest_def digest_includes_def)
qed

theorem manifest_digest_stable_witness:
  "manifest_digest id ([([''a.py''], ''x''), ([''b'', ''c.txt''], ''y'')] @ [([''manifest.json''], ''m'')])
   = manifest_digest id [([''a.py''], ''x''), ([''b'', ''c.txt''], ''y'')]"
proof -
  let ?fs = "[([''a.py''], ''x''), ([''b'', ''c.txt''], ''y'')]"
  have 1: "distinct (map (as_posix \<circ> fst) ?fs)" by (simp add: as_posix_def)
  have 2: "no_pyc_dirs ?fs" by (simp add: no_pyc_dirs_def ends_with_def)
  obtain w' where "stage_release ''1.0'' (''/src'', Some ?fs) empty_workspace = Inr w'"
    by (simp add: stage_release_def validate_version_def release_files_def empty_workspace_def)
  from manifest_digest_stable [OF 1 refl 2 this, of id "''m''"] show ?thesis by simp
qed

text \<open>
  The pointer files are stripped when they are read but version names are not checked for
  surrounding blanks: a release staged and activated as \<open>1.0\<close> with a trailing blank is promoted
  under the name without it, and the rollback to that last-known-good release then fails because
  no directory of that name exists.
\<close>
theorem padded_version_cannot_be_rolled_back_to:
  "let w = apply_ops [Op_activate ''1.0 '' (Some (''/src'', Some [])), Op_promote None,
             Op_activate ''1.1'' (Some (''/src'', Some []))] empty_workspace
   in validate_version ''1.0 '' \<and> last_known_good w = Some ''1.0'' \<and>
      rollback w = Inl Last_known_good_missing"
proof -
  let ?w = "apply_ops [Op_activate ''1.0 '' (Some (''/src'', Some [])), Op_promote None,
             Op_activate ''1.1'' (Some (''/src'', Some []))] empty_workspace"
  have "validate_version ''1.0 ''" by code_simp
  moreover have g: "last_known_good ?w = Some ''1.0''" by code_simp
  moreover have "has_release ?w ''1.0'' = Inr False" by code_simp
  then have "rollback ?w = Inl Last_known_good_missing" using g by (simp add: rollback_def)
  ultimately show ?thesis by (simp add: Let_def)
qed

end
