(* ===== verification/Supervisor_Runner.thy ===== *)
theory Supervisor_Runner imports Json_Value Health_Policy Release_Workspace begin

text \<open>
  The health loop of the recovery supervisor
  (\<open>services/recovery-supervisor/recovery_supervisor/runner.py\<close>, with the report of
  \<open>incidents.py\<close> and the exit codes of \<open>cli.py\<close>).  What the code injects or reaches over the
  network is an argument: the answer of the n-th health check, the n-th reading of the monotonic
  clock, the wall clock, whether the n-th spawn of the service succeeds and whether the incident
  POST is accepted.  An action passes the world along and ends in a value or in a raised exception;
  \<open>None\<close> is a run that has used up its fuel.  Times are milliseconds.
\<close>

section \<open>The world of the supervisor\<close>

datatype exc = Exc_workspace ws_error | Exc_attribute string | Exc_os | Exc_escaped string

datatype effect =
    E_start | E_stop | E_check string | E_sleep int | E_rollback | E_promote | E_incident | E_post

record world =
  ws :: workspace
  health_policy :: policy
  n_checks :: nat
  n_clock :: nat
  n_spawns :: nat
  trace :: "effect list"

record env =
  check_fn :: "string \<Rightarrow> nat \<Rightarrow> exc + bool \<times> json"
  clock_fn :: "nat \<Rightarrow> int"
  wall_fn :: "nat \<Rightarrow> string"
  spawn_fn :: "nat \<Rightarrow> bool"
  post_fn :: "json \<Rightarrow> bool"
  ws_root :: string
  sha_fn :: "string \<Rightarrow> string"

record runner_config =
  component :: string
  health_url :: string
  selftest_url :: string
  interval :: int
  startup_timeout :: int
  max_cycles :: "int option"
  promote_on_healthy :: bool
  api_ingest_url :: "string option"
  has_process :: bool

datatype run_result = Result_healthy | Result_rolled_back | Result_unhealthy_no_rollback

record verdict =
  result :: run_result
  cycles :: int
  incident :: "json option"
  incident_posted :: "bool option"
  rolled_back_to :: "string option"
  recovered :: "bool option"
  promoted :: bool
  detail :: json

type_synonym 'a act = "world \<Rightarrow> ((exc + 'a) \<times> world) option"

section \<open>Actions\<close>

definition ret :: "'a \<Rightarrow> 'a act" where
  "ret x = (\<lambda>w. Some (Inr x, w))"

definition lift_sum :: "exc + 'a \<Rightarrow> 'a act" where
  "lift_sum r = (\<lambda>w. Some (r, w))"

definition bind_act :: "'a act \<Rightarrow> ('a \<Rightarrow> 'b act) \<Rightarrow> 'b act" where
  "bind_act m f = (\<lambda>w. case m w of None \<Rightarrow> None
     | Some (Inl e, w1) \<Rightarrow> Some (Inl e, w1)
     | Some (Inr x, w1) \<Rightarrow> f x w1)"

definition finally_act :: "'a act \<Rightarrow> unit act \<Rightarrow> 'a act" where
  "finally_act m fin = (\<lambda>w. case m w of None \<Rightarrow> None
     | Some (r, w1) \<Rightarrow> (case fin w1 of None \<Rightarrow> None
         | Some (Inl e, w2) \<Rightarrow> Some (Inl e, w2)
         | Some (Inr _, w2) \<Rightarrow> Some (r, w2)))"

definition reads :: "(world \<Rightarrow> 'a) \<Rightarrow> 'a act" where
  "reads f = (\<lambda>w. Some (Inr (f w), w))"

definition emit :: "effect \<Rightarrow> unit act" where
  "emit e = (\<lambda>w. Some (Inr (), w\<lparr>trace := trace w @ [e]\<rparr>))"

definition wall_now :: "env \<Rightarrow> string act" where
  "wall_now env = reads (\<lambda>w. wall_fn env (length (trace w)))"

definition read_clock :: "env \<Rightarrow> int act" where
  "read_clock env = (\<lambda>w. Some (Inr (clock_fn env (n_clock w)), w\<lparr>n_clock := Suc (n_clock w)\<rparr>))"

definition call_check :: "env \<Rightarrow> string \<Rightarrow> (bool \<times> json) act" where
  "call_check env url = (\<lambda>w.
     Some (check_fn env url (n_checks w),
           w\<lparr>n_checks := Suc (n_checks w), trace := trace w @ [E_check url]\<rparr>))"

definition proc_start :: "env \<Rightarrow> runner_config \<Rightarrow> unit act" where
  "proc_start env cfg = (\<lambda>w.
     if \<not> has_process cfg then Some (Inr (), w)
     else let w1 = w\<lparr>n_spawns := Suc (n_spawns w), trace := trace w @ [E_start]\<rparr>
          in if spawn_fn env (n_spawns w) then Some (Inr (), w1) else Some (Inl Exc_os, w1))"

definition proc_stop :: "runner_config \<Rightarrow> unit act" where
  "proc_stop cfg = (if has_process cfg then emit E_stop else ret ())"

definition proc_restart :: "env \<Rightarrow> runner_config \<Rightarrow> unit act" where
  "proc_restart env cfg = bind_act (proc_stop cfg) (\<lambda>_. proc_start env cfg)"

text \<open>An operation of the workspace: its error is raised, its effect is recorded.\<close>

definition ws_call :: "effect \<Rightarrow> (workspace \<Rightarrow> ws_error + 'a \<times> workspace) \<Rightarrow> 'a act" where
  "ws_call ev oper = (\<lambda>w. case oper (ws w) of
       Inl e \<Rightarrow> Some (Inl (Exc_workspace e), w)
     | Inr (x, s) \<Rightarrow> Some (Inr x, w\<lparr>ws := s, trace := trace w @ [ev]\<rparr>))"

definition put_outbox :: "json \<Rightarrow> unit act" where
  "put_outbox report = (\<lambda>w.
     Some (Inr (), w\<lparr>ws := write_outbox report (ws w), trace := trace w @ [E_incident]\<rparr>))"

section \<open>The HTTP check\<close>

text \<open>
  What \<open>urlopen\<close>, the read and the decoding give: a success status with a body that decodes to JSON or not (the
  text is that of the \<open>ValueError\<close>), an HTTP error status with its body, a transport error, or an exception of a
  class that no handler names, such as \<open>http.client.IncompleteRead\<close> of a body cut short or the
  \<open>RecursionError\<close> of deeply nested JSON, of either answer.
\<close>

datatype http_response =
    Success int "string + json"
  | Http_error int "json option"
  | Transport_error string
  | Escaping string

definition http_check :: "http_response \<Rightarrow> exc + bool \<times> json" where
  "http_check resp =
     (case resp of
        Success code (Inl message) \<Rightarrow> Inr (False, JObj [(''error'', JStr message)])
      | Success code (Inr body) \<Rightarrow>
          if \<not> is_dict body then Inl (Exc_attribute ''get'')
          else Inr (dict_get ''status'' body = JStr ''ok'', body)
      | Http_error code decoded \<Rightarrow>
          let body = (case decoded of None \<Rightarrow> JObj [] | Some b \<Rightarrow> b);
              wrapped = (if is_dict body then body else JObj [(''body'', body)])
          in Inr (False, set_default ''http_status'' (JInt code) wrapped)
      | Transport_error message \<Rightarrow> Inr (False, JObj [(''error'', JStr message)])
      | Escaping exception \<Rightarrow> Inl (Exc_escaped exception))"

section \<open>Checks\<close>

definition check_once :: "env \<Rightarrow> runner_config \<Rightarrow> (bool \<times> string \<times> json) act" where
  "check_once env cfg =
     bind_act (call_check env (health_url cfg)) (\<lambda>(ok_health, health_detail).
       if \<not> ok_health then ret (False, ''health'', JObj [(''health'', health_detail)])
       else bind_act (call_check env (selftest_url cfg)) (\<lambda>(ok_selftest, selftest_detail).
         if \<not> ok_selftest then ret (False, ''selftest'', JObj [(''selftest'', selftest_detail)])
         else ret (True, '''', JObj [(''health'', health_detail), (''selftest'', selftest_detail)])))"

fun wait_loop :: "nat \<Rightarrow> env \<Rightarrow> runner_config \<Rightarrow> int \<Rightarrow> bool act" where
  "wait_loop 0 env cfg deadline = (\<lambda>w. None)"
| "wait_loop (Suc fuel) env cfg deadline =
     bind_act (call_check env (health_url cfg)) (\<lambda>(ok, _).
       if ok then ret True
       else bind_act (read_clock env) (\<lambda>now.
         if now \<ge> deadline then ret False
         else bind_act (emit (E_sleep (min 200 (interval cfg)))) (\<lambda>_.
           wait_loop fuel env cfg deadline)))"

definition wait_until_up :: "nat \<Rightarrow> env \<Rightarrow> runner_config \<Rightarrow> bool act" where
  "wait_until_up fuel env cfg =
     bind_act (read_clock env) (\<lambda>now. wait_loop fuel env cfg (now + startup_timeout cfg))"

definition record_cycle :: "env \<Rightarrow> bool \<Rightarrow> health_state act" where
  "record_cycle env ok =
     bind_act (read_clock env) (\<lambda>now. \<lambda>w.
       let (state, p) = record_check ok now (health_policy w)
       in Some (Inr state, w\<lparr>health_policy := p\<rparr>))"

section \<open>The incident report\<close>

definition derive_error_class :: "string \<Rightarrow> json \<Rightarrow> string" where
  "derive_error_class failing_check evidence =
     (let body = dict_get failing_check evidence
      in case dict_get ''error_class'' body of
           JStr s \<Rightarrow> if s \<noteq> [] then s else failing_check @ ''_check_failed''
         | _ \<Rightarrow> failing_check @ ''_check_failed'')"

definition build_incident_report ::
    "string \<Rightarrow> string \<Rightarrow> string \<Rightarrow> string \<Rightarrow> string option \<Rightarrow> string option \<Rightarrow> string option \<Rightarrow>
     string option \<Rightarrow> json \<Rightarrow> string \<Rightarrow> string option \<Rightarrow> json" where
  "build_incident_report cname error_class failing_check root active digest lkg target
     evidence detected_at recovered_at =
     JObj [(''schema'', JStr ''pagentos.selfhealing.incident.v1''),
           (''component'', JStr cname),
           (''severity'', JStr ''critical''),
           (''fingerprint_material'', JObj [(''component'', JStr cname),
              (''error_class'', JStr error_class), (''failing_check'', JStr failing_check)]),
           (''workspace'', JStr root),
           (''active_version'', jopt active),
           (''active_manifest_digest'', jopt digest),
           (''last_known_good'', jopt lkg),
           (''rolled_back_to'', jopt target),
           (''evidence'', evidence),
           (''detected_at'', JStr detected_at),
           (''recovered_at'', jopt recovered_at)]"

definition active_digest :: "env \<Rightarrow> workspace \<Rightarrow> exc + string option" where
  "active_digest env s =
     (case current s of None \<Rightarrow> Inr None
      | Some v \<Rightarrow> (case has_release s v of Inl e \<Rightarrow> Inl (Exc_workspace e)
          | Inr h \<Rightarrow> Inr (if h then map_option (manifest_digest (sha_fn env)) (release_files s v)
                          else None)))"

section \<open>Rollback and report\<close>

text \<open>Recovery first: repoint, restart, verify.\<close>

definition recover :: "nat \<Rightarrow> env \<Rightarrow> runner_config \<Rightarrow> (string \<times> bool \<times> string option) act" where
  "recover fuel env cfg =
     bind_act (ws_call E_rollback rollback) (\<lambda>(_, target).
     bind_act (if has_process cfg then proc_restart env cfg else ret ()) (\<lambda>_.
     bind_act (wait_until_up fuel env cfg) (\<lambda>up.
     bind_act (wall_now env) (\<lambda>at. ret (target, up, if up then Some at else None)))))"

definition assess :: "env \<Rightarrow> (string \<times> string option \<times> string option \<times> string option) act" where
  "assess env =
     bind_act (wall_now env) (\<lambda>detected_at.
     bind_act (reads (\<lambda>w. (current (ws w), last_known_good (ws w)))) (\<lambda>(active, lkg).
     bind_act (\<lambda>w. Some (active_digest env (ws w), w)) (\<lambda>digest.
     ret (detected_at, active, lkg, digest))))"

definition file_report :: "env \<Rightarrow> runner_config \<Rightarrow> json \<Rightarrow> bool option act" where
  "file_report env cfg report =
     bind_act (put_outbox report) (\<lambda>_.
       case api_ingest_url cfg of None \<Rightarrow> ret None
       | Some url \<Rightarrow> if url = [] then ret None
           else bind_act (emit E_post) (\<lambda>_. ret (Some (post_fn env report))))"

definition handle_unhealthy ::
    "nat \<Rightarrow> env \<Rightarrow> runner_config \<Rightarrow> string \<Rightarrow> json \<Rightarrow> verdict act" where
  "handle_unhealthy fuel env cfg failing_check evidence =
     bind_act (assess env) (\<lambda>(detected_at, active, lkg, digest).
     let error_class = derive_error_class failing_check evidence;
         rolls_back = (lkg \<noteq> None \<and> active \<noteq> lkg)
     in
     bind_act (if rolls_back
               then bind_act (recover fuel env cfg)
                      (\<lambda>(target, up, at). ret (Some target, Some up, at))
               else ret (None, None, None)) (\<lambda>(target, up, recovered_at).
     let report = build_incident_report (component cfg) error_class failing_check (ws_root env)
                    active digest lkg target evidence detected_at recovered_at
     in
     bind_act (file_report env cfg report) (\<lambda>posted.
     ret \<lparr>result = (if rolls_back then Result_rolled_back else Result_unhealthy_no_rollback),
          cycles = 0, incident = Some report, incident_posted = posted, rolled_back_to = target,
          recovered = up, promoted = False,
          detail = JObj [(''error_class'', JStr error_class),
                         (''failing_check'', JStr failing_check)]\<rparr>)))"

section \<open>The loop\<close>

definition finished :: "runner_config \<Rightarrow> int \<Rightarrow> bool" where
  "finished cfg n = (case max_cycles cfg of None \<Rightarrow> False | Some m \<Rightarrow> n \<ge> m)"

definition healthy_verdict :: "int \<Rightarrow> bool \<Rightarrow> json \<Rightarrow> verdict" where
  "healthy_verdict n pr det =
     \<lparr>result = Result_healthy, cycles = n, incident = None, incident_posted = None,
      rolled_back_to = None, recovered = None, promoted = pr, detail = det\<rparr>"

definition end_of_cycles :: "runner_config \<Rightarrow> int \<Rightarrow> json \<Rightarrow> verdict act" where
  "end_of_cycles cfg n evidence =
     bind_act (reads (consecutive_failures \<circ> health_policy)) (\<lambda>failures.
       if failures > 0
       then ret (healthy_verdict n False
              (JObj [(''note'', JStr ''ended_degraded''), (''last_evidence'', evidence)]))
       else if promote_on_healthy cfg
            then bind_act (ws_call E_promote (promote None))
                   (\<lambda>_. ret (healthy_verdict n True (JObj [])))
            else ret (healthy_verdict n False (JObj [])))"

fun run_loop :: "nat \<Rightarrow> nat \<Rightarrow> env \<Rightarrow> runner_config \<Rightarrow> int \<Rightarrow> verdict act" where
  "run_loop 0 wait_fuel env cfg n = (\<lambda>w. None)"
| "run_loop (Suc fuel) wait_fuel env cfg n =
     bind_act (check_once env cfg) (\<lambda>(ok, failing_check, evidence).
     bind_act (record_cycle env ok) (\<lambda>state.
       if state = Unhealthy
       then bind_act (handle_unhealthy wait_fuel env cfg failing_check evidence)
              (\<lambda>v. ret (v\<lparr>cycles := n + 1\<rparr>))
       else if finished cfg (n + 1) then end_of_cycles cfg (n + 1) evidence
       else bind_act (emit (E_sleep (interval cfg))) (\<lambda>_.
              run_loop fuel wait_fuel env cfg (n + 1))))"

definition run_body :: "nat \<Rightarrow> nat \<Rightarrow> env \<Rightarrow> runner_config \<Rightarrow> verdict act" where
  "run_body fuel wait_fuel env cfg =
     bind_act (proc_start env cfg) (\<lambda>_.
     bind_act (wait_until_up wait_fuel env cfg) (\<lambda>up.
       if \<not> up
       then handle_unhealthy wait_fuel env cfg ''health''
              (JObj [(''error'', JStr ''startup_timeout''), (''waited_s'', JInt (startup_timeout cfg))])
       else run_loop fuel wait_fuel env cfg 0))"

definition run :: "nat \<Rightarrow> nat \<Rightarrow> env \<Rightarrow> runner_config \<Rightarrow> verdict act" where
  "run fuel wait_fuel env cfg = finally_act (run_body fuel wait_fuel env cfg) (proc_stop cfg)"

definition exit_code :: "run_result \<Rightarrow> int" where
  "exit_code r = (case r of Result_healthy \<Rightarrow> 0 | Result_rolled_back \<Rightarrow> 3
     | Result_unhealthy_no_rollback \<Rightarrow> 4)"

definition cli_run :: "exc + verdict \<Rightarrow> exc + int" where
  "cli_run r = (case r of Inr v \<Rightarrow> Inr (exit_code (result v))
     | Inl (Exc_workspace e) \<Rightarrow> Inr 2
     | Inl e \<Rightarrow> Inl e)"

section \<open>What actions keep\<close>

definition keeps :: "(world \<Rightarrow> world \<Rightarrow> bool) \<Rightarrow> 'a act \<Rightarrow> bool" where
  "keeps R m = (\<forall>w r w'. m w = Some (r, w') \<longrightarrow> R w w')"

lemma bind_act_Some:
  "bind_act m f w = Some (r, w') \<longleftrightarrow>
     (\<exists>e. m w = Some (Inl e, w') \<and> r = Inl e) \<or>
     (\<exists>x w1. m w = Some (Inr x, w1) \<and> f x w1 = Some (r, w'))"
  by (auto simp: bind_act_def split: option.splits sum.splits)

lemma bind_act_step: "m w = Some (Inr x, w1) \<Longrightarrow> bind_act m f w = f x w1"
  by (simp add: bind_act_def)

lemma bind_act_raise: "m w = Some (Inl e, w1) \<Longrightarrow> bind_act m f w = Some (Inl e, w1)"
  by (simp add: bind_act_def)

lemma bind_act_Inr:
  "bind_act m f w = Some (Inr y, w') \<longleftrightarrow>
     (\<exists>x w1. m w = Some (Inr x, w1) \<and> f x w1 = Some (Inr y, w'))"
  by (auto simp: bind_act_Some)

text \<open>A relation between worlds that composes is kept by an action that is built from parts that
  keep it.\<close>

locale act_frame =
  fixes R :: "world \<Rightarrow> world \<Rightarrow> bool"
  assumes frame_refl: "R w w" and frame_trans: "R u v \<Longrightarrow> R v w \<Longrightarrow> R u w"
begin

lemma keeps_ret: "keeps R (ret x)"
  by (simp add: keeps_def ret_def frame_refl)

lemma keeps_reads: "keeps R (reads f)"
  by (simp add: keeps_def reads_def frame_refl)

lemma keeps_bind: "keeps R m \<Longrightarrow> (\<And>x. keeps R (f x)) \<Longrightarrow> keeps R (bind_act m f)"
  unfolding keeps_def bind_act_Some by (metis frame_trans)

lemma keeps_if: "(b \<Longrightarrow> keeps R m) \<Longrightarrow> (\<not> b \<Longrightarrow> keeps R n) \<Longrightarrow> keeps R (if b then m else n)"
  by simp

lemmas keeps_rules = keeps_ret keeps_reads keeps_bind keeps_if

lemma keepsD: "keeps R m \<Longrightarrow> m w = Some (r, w') \<Longrightarrow> R w w'"
  by (auto simp: keeps_def)

end

fun is_probe :: "effect \<Rightarrow> bool" where
  "is_probe (E_check _) = True"
| "is_probe (E_sleep _) = True"
| "is_probe _ = False"

definition probes :: "world \<Rightarrow> world \<Rightarrow> bool" where
  "probes w w' = (ws w' = ws w \<and> (\<exists>es. trace w' = trace w @ es \<and> list_all is_probe es))"

interpretation probe_frame: act_frame probes
proof unfold_locales
  show "probes w w" for w by (simp add: probes_def)
  show "probes u v \<Longrightarrow> probes v w \<Longrightarrow> probes u w" for u v w by (force simp: probes_def)
qed

lemma probes_check: "keeps probes (call_check env url)"
  by (simp add: keeps_def call_check_def probes_def)

lemma probes_clock: "keeps probes (read_clock env)"
  by (simp add: keeps_def read_clock_def probes_def)

lemma probes_sleep: "keeps probes (emit (E_sleep d))"
  by (simp add: keeps_def emit_def probes_def)

lemma probes_check_once: "keeps probes (check_once env cfg)"
  unfolding check_once_def
  by (auto intro!: probe_frame.keeps_rules probes_check split: prod.splits)

lemma probes_wait_loop: "keeps probes (wait_loop fuel env cfg deadline)"
proof (induction fuel env cfg deadline rule: wait_loop.induct)
  case (1 env cfg deadline)
  then show ?case by (simp add: keeps_def)
next
  case (2 fuel env cfg deadline)
  show ?case unfolding wait_loop.simps
    by (auto intro!: probe_frame.keeps_rules probes_check probes_clock probes_sleep 2 split: prod.splits)
qed

lemma probes_wait: "keeps probes (wait_until_up fuel env cfg)"
  unfolding wait_until_up_def by (intro probe_frame.keeps_rules probes_clock probes_wait_loop)

lemma probes_record: "keeps probes (record_cycle env ok)"
  unfolding record_cycle_def
  by (rule probe_frame.keeps_bind [OF probes_clock])
     (auto simp: keeps_def probes_def Let_def split: prod.splits)

lemmas probe_steps = probes_check_once probes_wait probes_record probes_sleep

lemma probesE:
  assumes "keeps probes m" and "m w = Some (r, w')"
  obtains es where "ws w' = ws w" "trace w' = trace w @ es" "list_all is_probe es"
  using probe_frame.keepsD [OF assms] by (auto simp: probes_def)

section \<open>Recovery and its report\<close>

lemma recover_Inr:
  assumes "recover fuel env cfg w = Some (Inr (target, up, at), w')" and "has_process cfg"
  obtains es where "last_known_good (ws w) = Some target" "has_release (ws w) target = Inr True"
    "current (ws w') = Some target" "last_known_good (ws w') = Some target"
    "releases (ws w') = releases (ws w)" "outbox (ws w') = outbox (ws w)"
    "trace w' = trace w @ [E_rollback, E_stop, E_start] @ es" "list_all is_probe es"
    "at \<noteq> None \<longleftrightarrow> up"
proof -
  obtain pr s w1 w2 where rb: "rollback (ws w) = Inr ((pr, target), s)"
    and w1: "w1 = w\<lparr>ws := s, n_spawns := Suc (n_spawns w),
                    trace := trace w @ [E_rollback, E_stop, E_start]\<rparr>"
    and wait: "wait_until_up fuel env cfg w1 = Some (Inr up, w2)" and w': "w' = w2"
    and at: "at \<noteq> None \<longleftrightarrow> up"
    using assms
    by (auto simp: recover_def bind_act_Inr ws_call_def proc_restart_def proc_stop_def
        proc_start_def emit_def wall_now_def reads_def ret_def Let_def
        split: sum.splits prod.splits if_splits)
  obtain es where es: "ws w2 = ws w1" "trace w2 = trace w1 @ es" "list_all is_probe es"
    by (rule probesE [OF probes_wait wait])
  have g: "last_known_good (ws w) = Some target" "has_release (ws w) target = Inr True"
    and s: "s = add_history (H_rollback pr target)
                  ((ws w)\<lparr>current_file := Some (pointer_text target)\<rparr>)"
    using rb by (auto elim: rollback_InrE)
  have "target \<noteq> [] \<and> strip target = target \<and> CHR 0x0D \<notin> set target"
    using g(1) read_pointer_clean by (auto simp: last_known_good_def)
  then have "current s = Some target" using s by (simp add: read_pointer_text)
  moreover have "last_known_good s = Some target" "releases s = releases (ws w)"
    "outbox s = outbox (ws w)"
    using s g(1) by (simp_all add: add_history_def last_known_good_def)
  ultimately show ?thesis using that [of es] g es w1 w' at by simp
qed

text \<open>How an unhealthy release is handled when nothing raises: with a rollback, or without one.\<close>

definition rolled_back_run :: "world \<Rightarrow> verdict \<Rightarrow> world \<Rightarrow> bool" where
  "rolled_back_run w v w' = (\<exists>g report mid post.
     last_known_good (ws w) = Some g \<and> current (ws w) \<noteq> Some g \<and>
     rolled_back_to v = Some g \<and> incident v = Some report \<and>
     dict_get ''rolled_back_to'' report = JStr g \<and>
     current (ws w') = Some g \<and> last_known_good (ws w') = Some g \<and>
     releases (ws w') = releases (ws w) \<and> outbox (ws w') = outbox (ws w) @ [report] \<and>
     trace w' = trace w @ [E_rollback, E_stop, E_start] @ mid @ [E_incident] @ post \<and>
     list_all is_probe mid \<and> post \<in> {[], [E_post]})"

definition reported_run :: "world \<Rightarrow> verdict \<Rightarrow> world \<Rightarrow> bool" where
  "reported_run w v w' = (\<exists>report post.
     (last_known_good (ws w) = None \<or> current (ws w) = last_known_good (ws w)) \<and>
     rolled_back_to v = None \<and> incident v = Some report \<and>
     ws w' = write_outbox report (ws w) \<and>
     trace w' = trace w @ [E_incident] @ post \<and> post \<in> {[], [E_post]})"

lemma assess_Some:
  "assess env w = Some (r, w') \<Longrightarrow> w' = w"
  by (auto simp: assess_def bind_act_Some wall_now_def reads_def ret_def)

lemma assess_Inr:
  "assess env w = Some (Inr (d, active, lkg, digest), w') \<Longrightarrow>
     w' = w \<and> active = current (ws w) \<and> lkg = last_known_good (ws w)"
  by (auto simp: assess_def bind_act_Inr wall_now_def reads_def ret_def)

lemma file_report_Some:
  assumes "file_report env cfg report w = Some (r, w')"
  obtains post posted where "r = Inr posted" "post \<in> {[], [E_post]}"
    "w' = w\<lparr>ws := write_outbox report (ws w), trace := trace w @ [E_incident] @ post\<rparr>"
  using assms
  by (auto simp: file_report_def bind_act_Some put_outbox_def emit_def ret_def
      split: option.splits if_splits)

lemma report_names_target:
  "dict_get ''rolled_back_to'' (build_incident_report c e f ro a d l t ev de re) = jopt t"
  by (simp add: build_incident_report_def)

lemma write_outbox_reads [simp]:
  "current (write_outbox r s) = current s" "last_known_good (write_outbox r s) = last_known_good s"
  "releases (write_outbox r s) = releases s" "outbox (write_outbox r s) = outbox s @ [r]"
  "history (write_outbox r s) = history s"
  by (simp_all add: write_outbox_def current_def last_known_good_def)

lemma handle_unhealthy_Inr:
  assumes h: "handle_unhealthy fuel env cfg fc ev w = Some (Inr v, w')" and "has_process cfg"
  shows "(result v = Result_rolled_back \<and> rolled_back_run w v w') \<or>
         (result v = Result_unhealthy_no_rollback \<and> reported_run w v w')"
proof -
  obtain d active lkg digest w0 where as: "assess env w = Some (Inr (d, active, lkg, digest), w0)"
    and rest: "bind_act (if lkg \<noteq> None \<and> active \<noteq> lkg
               then bind_act (recover fuel env cfg) (\<lambda>(target, up, at). ret (Some target, Some up, at))
               else ret (None, None, None)) (\<lambda>(target, up, recovered_at).
       bind_act (file_report env cfg (build_incident_report (component cfg)
            (derive_error_class fc ev) fc (ws_root env) active digest lkg target ev d recovered_at))
         (\<lambda>posted. ret \<lparr>result = (if lkg \<noteq> None \<and> active \<noteq> lkg then Result_rolled_back
              else Result_unhealthy_no_rollback),
          cycles = 0, incident = Some (build_incident_report (component cfg)
            (derive_error_class fc ev) fc (ws_root env) active digest lkg target ev d recovered_at),
          incident_posted = posted, rolled_back_to = target,
          recovered = up, promoted = False,
          detail = JObj [(''error_class'', JStr (derive_error_class fc ev)),
                         (''failing_check'', JStr fc)]\<rparr>)) w0 = Some (Inr v, w')"
    using h unfolding handle_unhealthy_def bind_act_Inr [of "assess env"] Let_def
    by (auto simp only: prod.case split_paired_Ex)
  have w0: "w0 = w" "active = current (ws w)" "lkg = last_known_good (ws w)"
    using assess_Inr [OF as] by auto
  show ?thesis
  proof (cases "lkg \<noteq> None \<and> active \<noteq> lkg")
    case True
    from rest True obtain target up at w1 posted report where
        rec: "recover fuel env cfg w0 = Some (Inr (target, up, at), w1)"
      and rep: "report = build_incident_report (component cfg) (derive_error_class fc ev) fc
                  (ws_root env) active digest lkg (Some target) ev d at"
      and fr: "file_report env cfg report w1 = Some (Inr posted, w')"
      and v: "result v = Result_rolled_back" "rolled_back_to v = Some target" "incident v = Some report"
      by (auto simp: bind_act_Inr ret_def)
    obtain post where post: "post \<in> {[], [E_post]}"
      and w': "w' = w1\<lparr>ws := write_outbox report (ws w1), trace := trace w1 @ [E_incident] @ post\<rparr>"
      by (rule file_report_Some [OF fr])
    have target: "dict_get ''rolled_back_to'' report = JStr target"
      unfolding rep report_names_target by (simp add: jopt_def)
    obtain es where
      "last_known_good (ws w0) = Some target" "current (ws w1) = Some target"
      "last_known_good (ws w1) = Some target" "releases (ws w1) = releases (ws w0)"
      "outbox (ws w1) = outbox (ws w0)" "trace w1 = trace w0 @ [E_rollback, E_stop, E_start] @ es"
      "list_all is_probe es"
      by (rule recover_Inr [OF rec assms(2)])
    then have "rolled_back_run w v w'"
      unfolding rolled_back_run_def using True v target post w' w0
      by (intro exI [of _ target] exI [of _ report] exI [of _ es] exI [of _ post]) simp
    then show ?thesis using v by blast
  next
    case False
    from rest False obtain posted report where
        fr: "file_report env cfg report w0 = Some (Inr posted, w')"
      and v: "result v = Result_unhealthy_no_rollback" "rolled_back_to v = None"
        "incident v = Some report"
      by (auto simp: bind_act_Inr ret_def)
    obtain post where post: "post \<in> {[], [E_post]}"
      and w': "w' = w0\<lparr>ws := write_outbox report (ws w0), trace := trace w0 @ [E_incident] @ post\<rparr>"
      by (rule file_report_Some [OF fr])
    have "reported_run w v w'"
      unfolding reported_run_def using False v post w' w0
      by (intro exI [of _ report] exI [of _ post]) auto
    then show ?thesis using v by blast
  qed
qed

section \<open>The loop, when nothing raises\<close>

definition healthy_end :: "runner_config \<Rightarrow> world \<Rightarrow> verdict \<Rightarrow> world \<Rightarrow> bool" where
  "healthy_end cfg w v w' =
     ((\<not> promoted v \<and> w' = w) \<or>
      (promoted v \<and> promote_on_healthy cfg \<and> consecutive_failures (health_policy w) = 0 \<and>
       (\<exists>p s. promote None (ws w) = Inr (p, s) \<and>
              w' = w\<lparr>ws := s, trace := trace w @ [E_promote]\<rparr>)))"

definition run_end :: "runner_config \<Rightarrow> world \<Rightarrow> verdict \<Rightarrow> world \<Rightarrow> bool" where
  "run_end cfg w v w' =
     (case result v of
        Result_rolled_back \<Rightarrow> rolled_back_run w v w'
      | Result_unhealthy_no_rollback \<Rightarrow> reported_run w v w'
      | Result_healthy \<Rightarrow> healthy_end cfg w v w')"

lemma run_end_cycles [simp]: "run_end cfg w (v\<lparr>cycles := n\<rparr>) w' = run_end cfg w v w'"
  by (cases "result v") (simp_all add: run_end_def rolled_back_run_def reported_run_def healthy_end_def)

lemma handle_run_end:
  "handle_unhealthy fuel env cfg fc ev w = Some (Inr v, w') \<Longrightarrow> has_process cfg \<Longrightarrow> run_end cfg w v w'"
  using handle_unhealthy_Inr by (fastforce simp: run_end_def)

lemma end_of_cycles_run_end:
  "end_of_cycles cfg n ev w = Some (Inr v, w') \<Longrightarrow> run_end cfg w v w'"
  by (auto simp: end_of_cycles_def bind_act_Inr reads_def ret_def ws_call_def healthy_verdict_def
      run_end_def healthy_end_def split: if_splits sum.splits prod.splits)

lemma run_loop_Inr:
  assumes "has_process cfg" and "run_loop fuel patience env cfg n w = Some (Inr v, w')"
  shows "\<exists>w1. probes w w1 \<and> run_end cfg w1 v w'"
  using assms(2)
proof (induction fuel arbitrary: n w)
  case 0
  then show ?case by simp
next
  case (Suc fuel)
  from Suc.prems obtain ok fc ev w1 state w2 where
      chk: "check_once env cfg w = Some (Inr (ok, fc, ev), w1)"
    and rc: "record_cycle env ok w1 = Some (Inr state, w2)"
    and rest: "(if state = Unhealthy
       then bind_act (handle_unhealthy patience env cfg fc ev) (\<lambda>v. ret (v\<lparr>cycles := n + 1\<rparr>))
       else if finished cfg (n + 1) then end_of_cycles cfg (n + 1) ev
       else bind_act (emit (E_sleep (interval cfg))) (\<lambda>_. run_loop fuel patience env cfg (n + 1))) w2
       = Some (Inr v, w')"
    by (auto simp: bind_act_Inr)
  have pr: "probes w w2"
    using probe_frame.frame_trans probe_frame.keepsD [OF probes_check_once chk]
      probe_frame.keepsD [OF probes_record rc] by blast
  consider (bad) "state = Unhealthy" | (finish) "state \<noteq> Unhealthy" "finished cfg (n + 1)"
    | (again) "state \<noteq> Unhealthy" "\<not> finished cfg (n + 1)" by blast
  then show ?case
  proof cases
    case bad
    then obtain v1 where "handle_unhealthy patience env cfg fc ev w2 = Some (Inr v1, w')"
      "v = v1\<lparr>cycles := n + 1\<rparr>"
      using rest by (auto simp: bind_act_Inr ret_def)
    then show ?thesis using pr handle_run_end [OF _ assms(1)] by auto
  next
    case finish
    then show ?thesis using rest pr end_of_cycles_run_end by auto
  next
    case again
    then obtain w3 where sl: "emit (E_sleep (interval cfg)) w2 = Some (Inr (), w3)"
      and rec: "run_loop fuel patience env cfg (n + 1) w3 = Some (Inr v, w')"
      using rest by (auto simp: bind_act_Inr)
    obtain w4 where "probes w3 w4" "run_end cfg w4 v w'" using Suc.IH [OF rec] by blast
    moreover have "probes w w4"
      using pr probe_frame.keepsD [OF probes_sleep sl] calculation(1) probe_frame.frame_trans by blast
    ultimately show ?thesis by blast
  qed
qed

lemma run_body_Inr:
  assumes "has_process cfg" and "run_body fuel patience env cfg w = Some (Inr v, w')"
  shows "\<exists>w1 es. ws w1 = ws w \<and> trace w1 = trace w @ [E_start] @ es \<and> list_all is_probe es \<and>
           run_end cfg w1 v w'"
proof -
  from assms obtain w1 up w2 where
      st: "w1 = w\<lparr>n_spawns := Suc (n_spawns w), trace := trace w @ [E_start]\<rparr>"
    and wt: "wait_until_up patience env cfg w1 = Some (Inr up, w2)"
    and rest: "(if \<not> up
       then handle_unhealthy patience env cfg ''health''
              (JObj [(''error'', JStr ''startup_timeout''), (''waited_s'', JInt (startup_timeout cfg))])
       else run_loop fuel patience env cfg 0) w2 = Some (Inr v, w')"
    by (auto simp: run_body_def bind_act_Inr proc_start_def Let_def split: if_splits)
  have p12: "probes w1 w2" by (rule probe_frame.keepsD [OF probes_wait wt])
  have "\<exists>w3. probes w2 w3 \<and> run_end cfg w3 v w'"
  proof (cases up)
    case True
    then show ?thesis using rest run_loop_Inr [OF assms(1)] by simp
  next
    case False
    then have "run_end cfg w2 v w'" using rest handle_run_end [OF _ assms(1)] by simp
    then show ?thesis using probe_frame.frame_refl by blast
  qed
  then obtain w3 where "probes w1 w3" "run_end cfg w3 v w'"
    using p12 probe_frame.frame_trans by blast
  then show ?thesis using st by (auto simp: probes_def)
qed

lemma run_Inr:
  assumes "has_process cfg" and "run fuel patience env cfg w = Some (Inr v, w')"
  obtains w1 w2 es where "ws w1 = ws w" "trace w1 = trace w @ [E_start] @ es"
    "list_all is_probe es" "run_end cfg w1 v w2" "w' = w2\<lparr>trace := trace w2 @ [E_stop]\<rparr>"
proof -
  from assms(2) obtain w2 where "run_body fuel patience env cfg w = Some (Inr v, w2)"
    "w' = w2\<lparr>trace := trace w2 @ [E_stop]\<rparr>"
    using assms(1)
    by (auto simp: run_def finally_act_def proc_stop_def emit_def split: option.splits sum.splits)
  then show ?thesis using run_body_Inr [OF assms(1)] that by blast
qed

section \<open>Termination\<close>

definition returns :: "'a act \<Rightarrow> bool" where
  "returns m = (\<forall>w. m w \<noteq> None)"

lemma returns_bind: "returns m \<Longrightarrow> (\<And>x. returns (f x)) \<Longrightarrow> returns (bind_act m f)"
  by (auto simp: returns_def bind_act_def split: option.splits sum.splits)

lemma returns_basic:
  "returns (ret x)" "returns (reads f)" "returns (emit e)" "returns (read_clock env)"
  "returns (call_check env url)" "returns (proc_start env cfg)" "returns (put_outbox r)"
  "returns (ws_call ev oper)" "returns (wall_now env)" "returns (\<lambda>w. Some (g w, w))"
  by (auto simp: returns_def ret_def reads_def emit_def read_clock_def call_check_def
      proc_start_def put_outbox_def ws_call_def wall_now_def Let_def split: sum.splits)

lemma returns_if: "(b \<Longrightarrow> returns m) \<Longrightarrow> (\<not> b \<Longrightarrow> returns n) \<Longrightarrow> returns (if b then m else n)"
  by simp

lemmas returns_rules = returns_bind returns_basic returns_if

lemma returns_check_once: "returns (check_once env cfg)"
  unfolding check_once_def by (auto intro!: returns_rules split: prod.splits)

lemma returns_record: "returns (record_cycle env ok)"
  unfolding record_cycle_def
  by (rule returns_bind, rule returns_basic) (auto simp: returns_def Let_def split: prod.splits)

lemma wait_loop_returns:
  assumes ticks: "\<And>k. clock_fn env k < clock_fn env (Suc k)"
  shows "nat (deadline - clock_fn env (n_clock w)) < fuel \<Longrightarrow> wait_loop fuel env cfg deadline w \<noteq> None"
proof (induction fuel arbitrary: w)
  case 0
  then show ?case by simp
next
  case (Suc fuel)
  show ?case
  proof (cases "clock_fn env (n_clock w) \<ge> deadline")
    case True
    then show ?thesis
      by (auto simp: bind_act_def call_check_def read_clock_def ret_def split: sum.splits prod.splits)
  next
    case False
    have "nat (deadline - clock_fn env (Suc (n_clock w))) < fuel"
      using Suc.prems False ticks [of "n_clock w"] by linarith
    then show ?thesis
      using Suc.IH
      by (auto simp: bind_act_def call_check_def read_clock_def ret_def emit_def
          split: sum.splits prod.splits)
  qed
qed

lemma wait_returns:
  assumes ticks: "\<And>k. clock_fn env k < clock_fn env (Suc k)"
    and "nat (startup_timeout cfg) < fuel"
  shows "returns (wait_until_up fuel env cfg)"
  unfolding returns_def
proof
  fix w :: world
  have "nat (clock_fn env (n_clock w) + startup_timeout cfg - clock_fn env (Suc (n_clock w))) < fuel"
    using assms(2) ticks [of "n_clock w"] by linarith
  then show "wait_until_up fuel env cfg w \<noteq> None"
    using wait_loop_returns [OF ticks]
    by (simp add: wait_until_up_def bind_act_def read_clock_def)
qed

lemma returns_file_report: "returns (file_report env cfg report)"
  unfolding file_report_def by (auto intro!: returns_rules split: option.splits)

lemma handle_returns:
  assumes "returns (wait_until_up fuel env cfg)"
  shows "returns (handle_unhealthy fuel env cfg fc ev)"
  unfolding handle_unhealthy_def assess_def recover_def proc_restart_def proc_stop_def Let_def
  by (auto intro!: returns_rules returns_file_report assms split: prod.splits)

lemma run_loop_returns:
  assumes wait: "returns (wait_until_up patience env cfg)" and max: "max_cycles cfg = Some m"
  shows "max 1 (nat (m - n)) \<le> fuel \<Longrightarrow> returns (run_loop fuel patience env cfg n)"
proof (induction fuel arbitrary: n)
  case 0
  then show ?case by simp
next
  case (Suc fuel)
  have "returns (run_loop fuel patience env cfg (n + 1))" if "\<not> finished cfg (n + 1)"
  proof (rule Suc.IH)
    show "max 1 (nat (m - (n + 1))) \<le> fuel" using Suc.prems that max by (simp add: finished_def)
  qed
  then show ?case
    by (auto intro!: returns_rules returns_check_once returns_record handle_returns wait
        simp: end_of_cycles_def split: prod.splits)
qed

section \<open>Sample inputs\<close>

text \<open>A service that answers no check before the fifth, with release 1.1 active over 1.0.\<close>

definition sample_env :: env where
  "sample_env = \<lparr>check_fn = (\<lambda>url k. Inr (k \<ge> 4, JObj [])), clock_fn = (\<lambda>k. int k * 1000),
     wall_fn = (\<lambda>k. ''2026-01-01''), spawn_fn = (\<lambda>k. True), post_fn = (\<lambda>r. True),
     ws_root = ''/srv'', sha_fn = (\<lambda>s. s)\<rparr>"

definition sample_config :: runner_config where
  "sample_config = \<lparr>component = ''api'', health_url = ''/health'', selftest_url = ''/selftest'',
     interval = 1000, startup_timeout = 3000, max_cycles = Some 2, promote_on_healthy = True,
     api_ingest_url = None, has_process = True\<rparr>"

definition sample_workspace :: workspace where
  "sample_workspace = \<lparr>releases = [(''1.0'', []), (''1.1'', [])],
     current_file = Some (pointer_text ''1.1''), lkg_file = Some (pointer_text ''1.0''),
     history = [], outbox = []\<rparr>"

definition sample_world :: "nat \<Rightarrow> world" where
  "sample_world answered = \<lparr>ws = sample_workspace,
     health_policy = \<lparr>failure_threshold = 3, window_s = 30000, failure_times = []\<rparr>,
     n_checks = answered, n_clock = 0, n_spawns = 0, trace = []\<rparr>"

section \<open>Properties\<close>

text \<open>
  C14. Recovery first, reporting second.  A run that ends as rolled back had a last-known-good
  release other than the active one; after nothing but checks and pauses it repointed \<open>current\<close> to
  that release, restarted the service, checked again, and only then wrote the incident report
  (which names the rollback target) and possibly posted it; the last-known-good pointer and the
  release directories are untouched, exactly one report is added to the outbox, and the service
  process is stopped at the end.
\<close>
theorem rolled_back_run_recovers_before_reporting:
  assumes "has_process cfg" and "run fuel patience env cfg w = Some (Inr v, w')"
    and "result v = Result_rolled_back"
  shows "\<exists>g report checks mid post.
    last_known_good (ws w) = Some g \<and> current (ws w) \<noteq> Some g \<and> rolled_back_to v = Some g \<and>
    current (ws w') = Some g \<and> last_known_good (ws w') = Some g \<and>
    releases (ws w') = releases (ws w) \<and> outbox (ws w') = outbox (ws w) @ [report] \<and>
    dict_get ''rolled_back_to'' report = JStr g \<and>
    trace w' = trace w @ [E_start] @ checks @ [E_rollback, E_stop, E_start] @ mid @
      [E_incident] @ post @ [E_stop] \<and>
    list_all is_probe checks \<and> list_all is_probe mid \<and> post \<in> {[], [E_post]}"
proof -
  obtain w1 w2 es where w1: "ws w1 = ws w" "trace w1 = trace w @ [E_start] @ es"
    "list_all is_probe es" and fin: "run_end cfg w1 v w2"
    and w': "w' = w2\<lparr>trace := trace w2 @ [E_stop]\<rparr>"
    by (rule run_Inr [OF assms(1,2)])
  from fin obtain g report mid post where
    "last_known_good (ws w1) = Some g" "current (ws w1) \<noteq> Some g" "rolled_back_to v = Some g"
    "dict_get ''rolled_back_to'' report = JStr g" "current (ws w2) = Some g"
    "last_known_good (ws w2) = Some g" "releases (ws w2) = releases (ws w1)"
    "outbox (ws w2) = outbox (ws w1) @ [report]" "list_all is_probe mid" "post \<in> {[], [E_post]}"
    "trace w2 = trace w1 @ [E_rollback, E_stop, E_start] @ mid @ [E_incident] @ post"
    using assms(3) by (auto simp: run_end_def rolled_back_run_def)
  then show ?thesis using w1 w'
    by (intro exI [of _ g] exI [of _ report] exI [of _ es] exI [of _ mid] exI [of _ post]) simp
qed

theorem rolled_back_run_recovers_before_reporting_witness:
  "\<exists>v w'. run 5 10 sample_env sample_config (sample_world 0) = Some (Inr v, w') \<and>
     rolled_back_to v = Some ''1.0'' \<and> current (ws w') = Some ''1.0''"
proof -
  have "case run 5 10 sample_env sample_config (sample_world 0) of
          Some (Inr v, w') \<Rightarrow> result v = Result_rolled_back | _ \<Rightarrow> False"
    by code_simp
  then obtain v w' where r: "run 5 10 sample_env sample_config (sample_world 0) = Some (Inr v, w')"
    and v: "result v = Result_rolled_back"
    by (auto split: option.splits sum.splits prod.splits)
  have "has_process sample_config" by (simp add: sample_config_def)
  moreover have "last_known_good (ws (sample_world 0)) = Some ''1.0''" by code_simp
  ultimately show ?thesis
    using rolled_back_run_recovers_before_reporting [OF _ r v] r by auto
qed

text \<open>
  A run that ends healthy moves no pointer on its own: the active release, the release
  directories and the outbox are as before; the whole workspace is untouched unless the verdict
  says promoted, and then promotion was asked for, the last recorded cycle left no failure behind
  and the last-known-good pointer now names the active release.
\<close>
theorem healthy_run_keeps_active_release:
  assumes "has_process cfg" and "run fuel patience env cfg w = Some (Inr v, w')"
    and "result v = Result_healthy"
  shows "current (ws w') = current (ws w) \<and> releases (ws w') = releases (ws w) \<and>
    outbox (ws w') = outbox (ws w) \<and> (if promoted v
     then promote_on_healthy cfg \<and> failure_times (health_policy w') = [] \<and>
          last_known_good (ws w') = current (ws w) \<and> current (ws w) \<noteq> None
     else ws w' = ws w)"
proof -
  obtain w1 w2 es where w1: "ws w1 = ws w" and fin: "run_end cfg w1 v w2"
    and w': "w' = w2\<lparr>trace := trace w2 @ [E_stop]\<rparr>"
    by (rule run_Inr [OF assms(1,2)])
  show ?thesis
  proof (cases "promoted v")
    case False
    then show ?thesis using fin assms(3) w1 w' by (simp add: run_end_def healthy_end_def)
  next
    case True
    with fin assms(3) obtain p s where p: "promote_on_healthy cfg" "failure_times (health_policy w1) = []"
      and pr: "promote None (ws w1) = Inr (p, s)"
      and w2: "w2 = w1\<lparr>ws := s, trace := trace w1 @ [E_promote]\<rparr>"
      by (auto simp: run_end_def healthy_end_def consecutive_failures_def)
    from pr obtain active where a: "current (ws w1) = Some active"
      "s = add_history (H_promote active p) ((ws w1)\<lparr>lkg_file := Some (pointer_text active)\<rparr>)"
      by (rule promote_InrE) auto
    have "active \<noteq> [] \<and> strip active = active \<and> CHR 0x0D \<notin> set active"
      using a(1) read_pointer_clean by (auto simp: current_def)
    then show ?thesis using True p a w1 w2 w' by (simp add: read_pointer_text)
  qed
qed

theorem healthy_run_keeps_active_release_witness:
  "\<exists>v w'. run 5 10 sample_env sample_config (sample_world 4) = Some (Inr v, w') \<and>
     current (ws w') = Some ''1.1'' \<and> last_known_good (ws w') = Some ''1.1''"
proof -
  have "case run 5 10 sample_env sample_config (sample_world 4) of
          Some (Inr v, w') \<Rightarrow> result v = Result_healthy \<and> promoted v | _ \<Rightarrow> False"
    by code_simp
  then obtain v w' where r: "run 5 10 sample_env sample_config (sample_world 4) = Some (Inr v, w')"
    and v: "result v = Result_healthy" "promoted v"
    by (auto split: option.splits sum.splits prod.splits)
  have "has_process sample_config" by (simp add: sample_config_def)
  moreover have "current (ws (sample_world 4)) = Some ''1.1''" by code_simp
  ultimately show ?thesis
    using healthy_run_keeps_active_release [OF _ r v(1)] r v(2) by auto
qed

text \<open>
  A bounded run always comes to an end, and whatever its outcome (a verdict or a raised
  exception) the last thing it did was to stop the service process: it needs as much loop fuel as
  \<open>max_cycles\<close> and one more poll than the start-up timeout has clock ticks, provided that the clock
  advances between two readings.
\<close>
theorem bounded_run_ends_with_stop:
  assumes "\<And>k. clock_fn env k < clock_fn env (Suc k)"
    and "max_cycles cfg = Some m" and "max 1 (nat m) \<le> fuel"
    and "nat (startup_timeout cfg) < patience" and "has_process cfg"
  shows "\<exists>r w' es. run fuel patience env cfg w = Some (r, w') \<and> trace w' = es @ [E_stop]"
proof -
  have wait: "returns (wait_until_up patience env cfg)" by (rule wait_returns) (use assms in auto)
  have "returns (run_loop fuel patience env cfg 0)"
    by (rule run_loop_returns [OF wait assms(2)]) (use assms(3) in simp)
  then have "returns (run_body fuel patience env cfg)"
    unfolding run_body_def by (auto intro!: returns_rules wait handle_returns)
  then obtain r w1 where "run_body fuel patience env cfg w = Some (r, w1)"
    unfolding returns_def by fastforce
  then show ?thesis
    using assms(5) by (simp add: run_def finally_act_def proc_stop_def emit_def)
qed

theorem bounded_run_ends_with_stop_witness:
  "\<exists>r w' es. run 2 3001 sample_env sample_config (sample_world 0) = Some (r, w') \<and>
     trace w' = es @ [E_stop]"
  by (rule bounded_run_ends_with_stop [where m = 2]) (simp_all add: sample_env_def sample_config_def)

text \<open>
  Two ways out of the check that are no failed check: a success status whose JSON body is no object, read with
  \<open>body.get\<close> before the \<open>isinstance\<close> test, and an exception no handler names.  Every other answer is a result whose
  detail is an object.
\<close>

lemma http_check_escapes:
  "(\<exists>e. http_check resp = Inl e) \<longleftrightarrow>
     (\<exists>code body. resp = Success code (Inr body) \<and> \<not> is_dict body) \<or> (\<exists>exception. resp = Escaping exception)"
  by (cases resp) (auto simp: http_check_def Let_def split: sum.splits option.splits if_splits)

text \<open>The status of a success is not looked at.\<close>

lemma any_success_status_passes:
  "http_check (Success 204 (Inr (JObj [(''status'', JStr ''ok'')]))) = Inr (True, JObj [(''status'', JStr ''ok'')])"
  by (simp add: http_check_def)

text \<open>
  When the last-known-good directory has disappeared, the unhealthy active release is neither
  rolled back nor reported: the rollback raises before the incident report is built, so the
  workspace, its outbox included, stays exactly as it was.
\<close>
theorem missing_target_leaves_no_incident:
  assumes "last_known_good (ws w) = Some g" and "current (ws w) = Some a" and "a \<noteq> g"
    and "has_release (ws w) g = Inr False" and "has_release (ws w) a = Inr h"
  shows "handle_unhealthy fuel env cfg failing_check evidence w =
    Some (Inl (Exc_workspace Last_known_good_missing), w)"
proof -
  obtain d digest where as: "assess env w = Some (Inr (d, Some a, Some g, digest), w)"
    using assms
    by (simp add: assess_def bind_act_def wall_now_def reads_def ret_def active_digest_def)
  have rb: "ws_call E_rollback rollback w = Some (Inl (Exc_workspace Last_known_good_missing), w)"
    using assms by (simp add: ws_call_def rollback_def)
  have "recover fuel env cfg w = Some (Inl (Exc_workspace Last_known_good_missing), w)"
    using rb by (simp add: recover_def bind_act_raise)
  then show ?thesis
    using assms(3) as by (simp add: handle_unhealthy_def bind_act_def Let_def)
qed

theorem missing_target_leaves_no_incident_witness:
  "handle_unhealthy 1 sample_env sample_config ''health'' (JObj [])
     ((sample_world 0)\<lparr>ws := sample_workspace\<lparr>releases := [(''1.1'', [])]\<rparr>\<rparr>)
   = Some (Inl (Exc_workspace Last_known_good_missing),
       (sample_world 0)\<lparr>ws := sample_workspace\<lparr>releases := [(''1.1'', [])]\<rparr>\<rparr>)"
proof (rule missing_target_leaves_no_incident)
  let ?w = "(sample_world 0)\<lparr>ws := sample_workspace\<lparr>releases := [(''1.1'', [])]\<rparr>\<rparr>"
  show "last_known_good (ws ?w) = Some ''1.0''" by code_simp
  show "current (ws ?w) = Some ''1.1''" by code_simp
  show "''1.1'' \<noteq> ''1.0''" by simp
  show "has_release (ws ?w) ''1.0'' = Inr False" by code_simp
  show "has_release (ws ?w) ''1.1'' = Inr True" by code_simp
qed

end
