(* ===== verification/Goal_Engine.thy ===== *)
theory Goal_Engine imports Status_Tables Json_Value
  "HOL-Library.List_Lexorder" "HOL-Library.Char_ord" "HOL-Library.Product_Lexorder"
  "HOL-Library.Multiset"
begin

text \<open>
  The goal engine (\<open>services/api/app/goals/service.py\<close>, rows from \<open>goals/models.py\<close>): creation,
  field edits, status changes behind the owner-approval gate, the dependency graph with its cycle
  check, task links, evidence and evaluation.  A UUID is its canonical text.  Fresh ids and the
  current time are arguments; \<open>isofmt\<close> is \<open>datetime.isoformat\<close>.  The ledger is the list of its rows in
  insertion order and a write to it is idempotent on the source reference.  A request is one step: the code takes no
  lock, and what two requests that overlap can do to the graph is \<open>concurrent_edges_close_a_cycle\<close>.
\<close>

section \<open>Rows\<close>

type_synonym uuid = string

record criterion =
  c_id :: string
  c_statement :: string
  c_check_kind :: string
  c_satisfied :: bool
  c_evidence_refs :: "json list"
  c_detail :: json

record goal =
  goal_id :: uuid
  g_parent :: "uuid option"
  g_title :: string
  g_intent :: string
  g_status :: string
  g_priority :: int
  g_horizon :: string
  g_deadline :: "instant option"
  g_criteria :: "criterion list"
  g_blockers :: "(string \<times> json \<times> instant) list"
  g_depends_on :: "uuid list"
  g_requires_owner_approval :: bool
  g_approved_at :: "instant option"
  g_evidence_refs :: "json list"
  g_created_at :: instant
  g_updated_at :: instant
  g_source :: string
  g_source_ref :: string
  g_detail :: json

record goal_task =
  gt_goal :: uuid
  gt_task :: uuid
  gt_role :: string

record ledger_row =
  lr_type :: string
  lr_ref :: string
  lr_at :: instant

record goal_store =
  goals :: "goal list"
  goal_tasks :: "goal_task list"
  task_status :: "(uuid \<times> string) list"
  ledger :: "ledger_row list"

datatype goal_error =
    Goal_not_found uuid
  | Owner_approval_required uuid
  | Goal_cycle uuid uuid
  | Invalid_check_kind string
  | Unknown_horizon string
  | Unknown_criterion uuid string
  | Status_refused status_error
  | Type_error

definition goal_horizons :: "string list" where
  "goal_horizons = [''now'', ''today'', ''week'', ''month'', ''someday'']"

definition check_kinds :: "string list" where
  "check_kinds = [''manual_evidence'', ''task_status'', ''ledger_event'']"

definition get_goal :: "uuid \<Rightarrow> goal_store \<Rightarrow> goal option" where
  "get_goal i s = row_get goal_id i (goals s)"

definition put_goal :: "uuid \<Rightarrow> (goal \<Rightarrow> goal) \<Rightarrow> goal_store \<Rightarrow> goal_store" where
  "put_goal i f s = s\<lparr>goals := row_put goal_id i f (goals s)\<rparr>"

definition require_goal :: "uuid \<Rightarrow> goal_store \<Rightarrow> goal_error + goal" where
  "require_goal i s = (case get_goal i s of None \<Rightarrow> Inl (Goal_not_found i) | Some g \<Rightarrow> Inr g)"

text \<open>The ledger write: never fails the caller, a second row of one reference is not written.\<close>

definition record_ledger :: "string \<Rightarrow> string \<Rightarrow> instant \<Rightarrow> goal_store \<Rightarrow> goal_store" where
  "record_ledger ty ref now s =
     (if ref \<in> lr_ref ` set (ledger s) then s
      else s\<lparr>ledger := ledger s @ [\<lparr>lr_type = ty, lr_ref = ref, lr_at = now\<rparr>]\<rparr>)"

section \<open>Creating and editing goals\<close>

record raw_criterion =
  rc_id :: "string option"
  rc_statement :: string
  rc_check_kind :: "string option"
  rc_evidence_refs :: "json list"
  rc_detail :: json

definition normalize_criterion :: "uuid \<Rightarrow> raw_criterion \<Rightarrow> goal_error + criterion" where
  "normalize_criterion fresh raw =
     (let kind = (case rc_check_kind raw of None \<Rightarrow> ''manual_evidence'' | Some k \<Rightarrow> k)
      in if kind \<notin> set check_kinds then Inl (Invalid_check_kind kind)
         else Inr \<lparr>c_id = (case rc_id raw of None \<Rightarrow> fresh | Some i \<Rightarrow> if i = [] then fresh else i),
                   c_statement = rc_statement raw, c_check_kind = kind, c_satisfied = False,
                   c_evidence_refs = rc_evidence_refs raw, c_detail = rc_detail raw\<rparr>)"

fun normalize_all :: "(uuid \<times> raw_criterion) list \<Rightarrow> goal_error + criterion list" where
  "normalize_all [] = Inr []"
| "normalize_all ((fresh, raw) # rest) =
     bind_sum (normalize_criterion fresh raw)
       (\<lambda>c. bind_sum (normalize_all rest) (\<lambda>cs. Inr (c # cs)))"

record goal_request =
  rq_title :: string
  rq_intent :: string
  rq_parent :: "uuid option"
  rq_priority :: int
  rq_horizon :: string
  rq_deadline :: "instant option"
  rq_criteria :: "(uuid \<times> raw_criterion) list"
  rq_requires_owner_approval :: bool
  rq_source :: string
  rq_source_ref :: "string option"
  rq_detail :: json

definition create_goal ::
    "uuid \<Rightarrow> uuid \<Rightarrow> instant \<Rightarrow> goal_request \<Rightarrow> goal_store \<Rightarrow> goal_error + goal \<times> goal_store" where
  "create_goal fresh fresh_ref now rq s =
     (if rq_horizon rq \<notin> set goal_horizons then Inl (Unknown_horizon (rq_horizon rq))
      else
        let ref = (case rq_source_ref rq of None \<Rightarrow> fresh_ref
                   | Some r \<Rightarrow> if r = [] then fresh_ref else r)
        in case find (\<lambda>g. g_source g = rq_source rq \<and> g_source_ref g = ref) (goals s) of
             Some existing \<Rightarrow> Inr (existing, s)
           | None \<Rightarrow> bind_sum (normalize_all (rq_criteria rq)) (\<lambda>cs.
               let g = \<lparr>goal_id = fresh, g_parent = rq_parent rq, g_title = rq_title rq,
                        g_intent = rq_intent rq, g_status = ''draft'', g_priority = rq_priority rq,
                        g_horizon = rq_horizon rq, g_deadline = rq_deadline rq, g_criteria = cs,
                        g_blockers = [], g_depends_on = [],
                        g_requires_owner_approval = rq_requires_owner_approval rq,
                        g_approved_at = None, g_evidence_refs = [], g_created_at = now,
                        g_updated_at = now, g_source = rq_source rq, g_source_ref = ref,
                        g_detail = rq_detail rq\<rparr>
               in Inr (g, record_ledger ''goal.created'' (''goals:'' @ fresh @ '':created'') now
                            (s\<lparr>goals := goals s @ [g]\<rparr>))))"

definition list_goals ::
    "string option \<Rightarrow> string option \<Rightarrow> uuid option \<Rightarrow> int \<Rightarrow> goal_store \<Rightarrow> goal list" where
  "list_goals status horizon parent limit s =
     (let keep = filter (\<lambda>g. (status = None \<or> status = Some (g_status g)) \<and>
                 (horizon = None \<or> horizon = Some (g_horizon g)) \<and>
                 (parent = None \<or> parent = g_parent g)) (goals s)
      in take (nat (max 1 (min limit 200))) (sort_key (\<lambda>g. (- g_priority g, - g_created_at g)) keep))"

definition list_subgoals :: "uuid \<Rightarrow> goal_store \<Rightarrow> goal list" where
  "list_subgoals parent s = list_goals None None (Some parent) 200 s"

record goal_edit =
  e_title :: "string option"
  e_intent :: "string option"
  e_priority :: "int option"
  e_horizon :: "string option"
  e_deadline :: "instant option"
  e_requires_owner_approval :: "bool option"
  e_detail :: "json option"

definition given :: "'a option \<Rightarrow> 'a \<Rightarrow> 'a" where
  "given new old = (case new of None \<Rightarrow> old | Some x \<Rightarrow> x)"

definition update_goal ::
    "uuid \<Rightarrow> goal_edit \<Rightarrow> instant \<Rightarrow> goal_store \<Rightarrow> goal_error + goal_store" where
  "update_goal i e now s =
     bind_sum (require_goal i s) (\<lambda>g.
       if \<exists>h. e_horizon e = Some h \<and> h \<notin> set goal_horizons
       then Inl (Unknown_horizon (the (e_horizon e)))
       else Inr (put_goal i (\<lambda>g. g\<lparr>g_title := given (e_title e) (g_title g),
              g_intent := given (e_intent e) (g_intent g),
              g_priority := given (e_priority e) (g_priority g),
              g_horizon := given (e_horizon e) (g_horizon g),
              g_deadline := (case e_deadline e of None \<Rightarrow> g_deadline g | Some d \<Rightarrow> Some d),
              g_requires_owner_approval :=
                given (e_requires_owner_approval e) (g_requires_owner_approval g),
              g_detail := given (e_detail e) (g_detail g),
              g_updated_at := now\<rparr>) s))"

section \<open>Status changes\<close>

definition with_status :: "string \<Rightarrow> bool \<Rightarrow> instant \<Rightarrow> goal \<Rightarrow> goal" where
  "with_status new owner_action now g = g\<lparr>g_status := new, g_updated_at := now,
     g_approved_at := (if new = ''active'' \<and> owner_action \<and> g_approved_at g = None
                       then Some now else g_approved_at g)\<rparr>"

definition transition_status ::
    "(instant \<Rightarrow> string) \<Rightarrow> uuid \<Rightarrow> string \<Rightarrow> bool \<Rightarrow> instant \<Rightarrow> goal_store \<Rightarrow> goal_error + goal_store"
where
  "transition_status isofmt i new owner_action now s =
     bind_sum (require_goal i s) (\<lambda>g.
     bind_sum (map_sum Status_refused id (assert_goal_transition (g_status g) new)) (\<lambda>_.
       if g_status g = ''waiting_owner'' \<and> new \<noteq> ''waiting_owner'' \<and>
          g_requires_owner_approval g \<and> \<not> owner_action
       then Inl (Owner_approval_required i)
       else
         let s1 = put_goal i (with_status new owner_action now) s;
             s2 = record_ledger ''goal.status_changed''
                    (''goals:'' @ i @ '':status:'' @ new @ '':'' @ isofmt now) now s1
         in Inr (if new = ''achieved''
                 then record_ledger ''goal.achieved'' (''goals:'' @ i @ '':achieved'') now s2
                 else s2)))"

definition approve :: "(instant \<Rightarrow> string) \<Rightarrow> uuid \<Rightarrow> instant \<Rightarrow> goal_store \<Rightarrow> goal_error + goal_store" where
  "approve isofmt i now s =
     bind_sum (require_goal i s) (\<lambda>_. transition_status isofmt i ''active'' True now s)"

definition record_blocker ::
    "uuid \<Rightarrow> string \<Rightarrow> json \<Rightarrow> instant \<Rightarrow> goal_store \<Rightarrow> goal_error + goal_store" where
  "record_blocker i reason det now s =
     bind_sum (require_goal i s) (\<lambda>_.
       Inr (put_goal i (\<lambda>g. g\<lparr>g_blockers := g_blockers g @ [(reason, det, now)],
                              g_updated_at := now\<rparr>) s))"

section \<open>Dependencies\<close>

text \<open>
  The depth-first search of \<open>add_dependency\<close>: the head of the list is the top of the stack, the
  ids a goal depends on are pushed in turn.
\<close>

function (sequential) reaches :: "goal list \<Rightarrow> uuid \<Rightarrow> uuid list \<Rightarrow> uuid list \<Rightarrow> bool" where
  "reaches gs target visited [] = False"
| "reaches gs target visited (c # stack) =
     (if c = target then True
      else if c \<in> set visited then reaches gs target visited stack
      else case row_get goal_id c gs of
             None \<Rightarrow> reaches gs target (c # visited) stack
           | Some g \<Rightarrow> reaches gs target (c # visited) (rev (remdups (g_depends_on g)) @ stack))"
  by pat_completeness auto

definition unvisited :: "goal list \<Rightarrow> uuid list \<Rightarrow> nat" where
  "unvisited gs visited = card (set (map goal_id gs) - set visited)"

lemma unvisited_found:
  assumes "row_get goal_id c gs = Some g" and "c \<notin> set visited"
  shows "unvisited gs (c # visited) < unvisited gs visited"
proof -
  have "c \<in> set (map goal_id gs)" using row_get_SomeD [OF assms(1)] by auto
  then show ?thesis
    using assms(2) unfolding unvisited_def by (intro psubset_card_mono) auto
qed

lemma unvisited_le: "unvisited gs (c # visited) \<le> unvisited gs visited"
  unfolding unvisited_def by (rule card_mono) auto

termination reaches
proof (relation "measures [\<lambda>(gs, _, vis, _). unvisited gs vis, \<lambda>(_, _, _, st). length st]", goal_cases)
  case (3 gs target visited c stack)
  then show ?case using unvisited_le [of gs c visited] by (auto simp: less_le)
next
  case (4 gs target visited c stack g)
  then show ?case using unvisited_found by simp
qed auto

definition with_dependency :: "uuid \<Rightarrow> instant \<Rightarrow> goal \<Rightarrow> goal" where
  "with_dependency dep now g =
     g\<lparr>g_depends_on := sort (remdups (dep # g_depends_on g)), g_updated_at := now\<rparr>"

text \<open>The search and the write are one step: requests handled one after another.\<close>

definition add_dependency :: "uuid \<Rightarrow> uuid \<Rightarrow> instant \<Rightarrow> goal_store \<Rightarrow> goal_error + goal_store" where
  "add_dependency i dep now s =
     (if i = dep then Inl (Goal_cycle i dep)
      else bind_sum (require_goal i s) (\<lambda>_. bind_sum (require_goal dep s) (\<lambda>_.
        if reaches (goals s) i [] [dep] then Inl (Goal_cycle i dep)
        else Inr (put_goal i (with_dependency dep now) s))))"

section \<open>Task links\<close>

definition link_task ::
    "uuid \<Rightarrow> uuid \<Rightarrow> string \<Rightarrow> goal_store \<Rightarrow> goal_error + goal_task \<times> goal_store" where
  "link_task i task role s =
     bind_sum (require_goal i s) (\<lambda>_.
       case find (\<lambda>l. gt_goal l = i \<and> gt_task l = task) (goal_tasks s) of
         Some existing \<Rightarrow> Inr (existing, s)
       | None \<Rightarrow> let l = \<lparr>gt_goal = i, gt_task = task, gt_role = role\<rparr>
                 in Inr (l, s\<lparr>goal_tasks := goal_tasks s @ [l]\<rparr>))"

definition list_goal_tasks :: "uuid \<Rightarrow> goal_store \<Rightarrow> goal_task list" where
  "list_goal_tasks i s = filter (\<lambda>l. gt_goal l = i) (goal_tasks s)"

section \<open>Evidence and evaluation\<close>

definition record_evidence ::
    "uuid \<Rightarrow> string \<Rightarrow> json \<Rightarrow> instant \<Rightarrow> goal_store \<Rightarrow> goal_error + goal_store" where
  "record_evidence i cid ref now s =
     bind_sum (require_goal i s) (\<lambda>g.
       if cid \<notin> c_id ` set (g_criteria g) then Inl (Unknown_criterion i cid)
       else Inr (put_goal i (\<lambda>g. g\<lparr>g_criteria := map (\<lambda>c. if c_id c = cid
                then c\<lparr>c_evidence_refs := c_evidence_refs c @ [ref]\<rparr> else c) (g_criteria g),
              g_updated_at := now\<rparr>) s))"

definition eval_manual_evidence :: "criterion \<Rightarrow> bool" where
  "eval_manual_evidence c = (c_evidence_refs c \<noteq> [])"

text \<open>\<open>status in target_statuses\<close> for whatever JSON value the detail holds.\<close>

definition status_in :: "string \<Rightarrow> json \<Rightarrow> goal_error + bool" where
  "status_in st targets =
     (case targets of
        JList xs \<Rightarrow> Inr (JStr st \<in> set xs)
      | JStr s \<Rightarrow> Inr (contains_sub st s)
      | JObj kvs \<Rightarrow> Inr (st \<in> fst ` set kvs)
      | _ \<Rightarrow> Inl Type_error)"

fun any_task_in :: "(uuid \<times> string) list \<Rightarrow> json \<Rightarrow> goal_task list \<Rightarrow> goal_error + bool" where
  "any_task_in tasks targets [] = Inr False"
| "any_task_in tasks targets (l # ls) =
     (case map_of tasks (gt_task l) of
        None \<Rightarrow> any_task_in tasks targets ls
      | Some st \<Rightarrow> bind_sum (status_in st targets)
                    (\<lambda>hit. if hit then Inr True else any_task_in tasks targets ls))"

definition eval_task_status :: "goal_store \<Rightarrow> uuid \<Rightarrow> criterion \<Rightarrow> goal_error + bool" where
  "eval_task_status s i c =
     (let role = dict_get ''task_role'' (c_detail c);
          given_targets = dict_get ''target_statuses'' (c_detail c);
          targets = (if truthy given_targets then given_targets
                     else JList [JStr ''READY'', JStr ''COMPLETED'']);
          links = list_goal_tasks i s
      in any_task_in (task_status s) targets
           (if role = JNull then links else filter (\<lambda>l. JStr (gt_role l) = role) links))"

text \<open>\<open>ledger_service.query\<close> by event type: newest first, at most 50 rows.\<close>

definition ledger_query :: "goal_store \<Rightarrow> json \<Rightarrow> ledger_row list" where
  "ledger_query s ty =
     take 50 (sort_key (\<lambda>r. - lr_at r) (rev (filter (\<lambda>r. JStr (lr_type r) = ty) (ledger s))))"

definition eval_ledger_event :: "goal_store \<Rightarrow> criterion \<Rightarrow> goal_error + bool" where
  "eval_ledger_event s c =
     (let ty = dict_get ''event_type'' (c_detail c);
          prefix = dict_get ''source_ref_prefix'' (c_detail c);
          rows = ledger_query s ty
      in if \<not> truthy ty then Inr False
         else if \<not> truthy prefix \<or> rows = [] then Inr (rows \<noteq> [])
         else case prefix of
                JStr p \<Rightarrow> Inr (filter (\<lambda>r. is_prefix p (lr_ref r)) rows \<noteq> [])
              | _ \<Rightarrow> Inl Type_error)"

definition evaluator :: "goal_store \<Rightarrow> uuid \<Rightarrow> criterion \<Rightarrow> goal_error + bool" where
  "evaluator s i c =
     (if c_check_kind c = ''manual_evidence'' then Inr (eval_manual_evidence c)
      else if c_check_kind c = ''task_status'' then eval_task_status s i c
      else if c_check_kind c = ''ledger_event'' then eval_ledger_event s c
      else Inr False)"

fun evaluate_all :: "goal_store \<Rightarrow> uuid \<Rightarrow> criterion list \<Rightarrow> goal_error + criterion list" where
  "evaluate_all s i [] = Inr []"
| "evaluate_all s i (c # cs) =
     bind_sum (evaluator s i c) (\<lambda>b.
     bind_sum (evaluate_all s i cs) (\<lambda>rest. Inr (c\<lparr>c_satisfied := b\<rparr> # rest)))"

definition all_satisfied :: "criterion list \<Rightarrow> bool" where
  "all_satisfied cs = (cs \<noteq> [] \<and> list_all c_satisfied cs)"

definition evaluate :: "uuid \<Rightarrow> instant \<Rightarrow> goal_store \<Rightarrow> goal_error + criterion list \<times> goal_store" where
  "evaluate i now s =
     bind_sum (require_goal i s) (\<lambda>g.
     bind_sum (evaluate_all s i (g_criteria g)) (\<lambda>cs.
       let changed = (map c_satisfied cs \<noteq> map c_satisfied (g_criteria g))
       in Inr (cs, if changed
                   then put_goal i (\<lambda>g. g\<lparr>g_criteria := cs, g_updated_at := now\<rparr>) s else s)))"

definition evaluate_and_maybe_complete ::
    "(instant \<Rightarrow> string) \<Rightarrow> uuid \<Rightarrow> instant \<Rightarrow> goal_store \<Rightarrow> goal_error + criterion list \<times> goal_store"
where
  "evaluate_and_maybe_complete isofmt i now s =
     bind_sum (evaluate i now s) (\<lambda>(cs, s1).
       case get_goal i s1 of None \<Rightarrow> Inr (cs, s1)
       | Some g \<Rightarrow>
           if all_satisfied cs \<and> g_status g = ''active''
           then bind_sum (transition_status isofmt i ''achieved'' False now s1) (\<lambda>s2. Inr (cs, s2))
           else Inr (cs, s1))"

section \<open>Operations as requests\<close>

datatype goal_op =
    Op_create uuid uuid instant goal_request
  | Op_update uuid goal_edit instant
  | Op_transition uuid string bool instant
  | Op_approve uuid instant
  | Op_blocker uuid string json instant
  | Op_depend uuid uuid instant
  | Op_link uuid uuid string
  | Op_evidence uuid string json instant
  | Op_evaluate uuid instant
  | Op_complete uuid instant

fun goal_result :: "(instant \<Rightarrow> string) \<Rightarrow> goal_op \<Rightarrow> goal_store \<Rightarrow> goal_error + goal_store" where
  "goal_result isofmt (Op_create fresh ref now rq) s = map_sum id snd (create_goal fresh ref now rq s)"
| "goal_result isofmt (Op_update i e now) s = update_goal i e now s"
| "goal_result isofmt (Op_transition i new owner now) s = transition_status isofmt i new owner now s"
| "goal_result isofmt (Op_approve i now) s = approve isofmt i now s"
| "goal_result isofmt (Op_blocker i reason det now) s = record_blocker i reason det now s"
| "goal_result isofmt (Op_depend i dep now) s = add_dependency i dep now s"
| "goal_result isofmt (Op_link i task role) s = map_sum id snd (link_task i task role s)"
| "goal_result isofmt (Op_evidence i cid ref now) s = record_evidence i cid ref now s"
| "goal_result isofmt (Op_evaluate i now) s = map_sum id snd (evaluate i now s)"
| "goal_result isofmt (Op_complete i now) s = map_sum id snd (evaluate_and_maybe_complete isofmt i now s)"

text \<open>A step of the engine: a request that succeeds (new goals get new ids), or the task service
  changing the status of a task.\<close>

fun fresh_op :: "goal_op \<Rightarrow> goal_store \<Rightarrow> bool" where
  "fresh_op (Op_create fresh _ _ _) s = (fresh \<notin> goal_id ` set (goals s))"
| "fresh_op _ s = True"

inductive goal_step :: "(instant \<Rightarrow> string) \<Rightarrow> goal_store \<Rightarrow> goal_store \<Rightarrow> bool" for isofmt where
  request: "fresh_op oper s \<Longrightarrow> goal_result isofmt oper s = Inr s' \<Longrightarrow> goal_step isofmt s s'"
| task_change: "goal_step isofmt s (s\<lparr>task_status := (t, st) # task_status s\<rparr>)"

inductive goal_reachable :: "(instant \<Rightarrow> string) \<Rightarrow> goal_store \<Rightarrow> bool" for isofmt where
  initial: "goal_reachable isofmt \<lparr>goals = [], goal_tasks = [], task_status = [], ledger = []\<rparr>"
| step: "goal_reachable isofmt s \<Longrightarrow> goal_step isofmt s s' \<Longrightarrow> goal_reachable isofmt s'"

inductive_cases goal_stepE: "goal_step isofmt s s'"

section \<open>The dependency graph\<close>

definition dep_edges :: "goal list \<Rightarrow> (uuid \<times> uuid) set" where
  "dep_edges gs = (\<Union>g \<in> set gs. {goal_id g} \<times> set (g_depends_on g))"

lemma dep_edges_Cons: "dep_edges (g # gs) = {goal_id g} \<times> set (g_depends_on g) \<union> dep_edges gs"
  by (simp add: dep_edges_def)

lemma dep_edges_found:
  assumes "distinct (map goal_id gs)" and "row_get goal_id c gs = Some g"
  shows "(c, d) \<in> dep_edges gs \<longleftrightarrow> d \<in> set (g_depends_on g)"
proof -
  have "g' = g" if "g' \<in> set gs" "goal_id g' = c" for g'
    using rows.get_unique [OF assms(1) that(1)] that(2) assms(2) by simp
  moreover have "g \<in> set gs" "goal_id g = c" using row_get_SomeD [OF assms(2)] by auto
  ultimately show ?thesis unfolding dep_edges_def by blast
qed

lemma dep_edges_missing: "row_get goal_id c gs = None \<Longrightarrow> (c, d) \<notin> dep_edges gs"
  by (auto simp: dep_edges_def row_get_None_iff)

lemma reaches_sound:
  assumes ids: "distinct (map goal_id gs)"
  shows "reaches gs target visited stack \<Longrightarrow> \<exists>c \<in> set stack. (c, target) \<in> (dep_edges gs)\<^sup>*"
  using ids
proof (induction gs target visited stack rule: reaches.induct)
  case (1 gs target visited)
  then show ?case by simp
next
  case (2 gs target visited c stack)
  consider (hit) "c = target" | (seen) "c \<noteq> target" "c \<in> set visited"
    | (gone) "c \<noteq> target" "c \<notin> set visited" "row_get goal_id c gs = None"
    | (found) g where "c \<noteq> target" "c \<notin> set visited" "row_get goal_id c gs = Some g"
    by (cases "row_get goal_id c gs") auto
  then show ?case
  proof cases
    case found
    then have "\<exists>d \<in> set (rev (remdups (g_depends_on g)) @ stack). (d, target) \<in> (dep_edges gs)\<^sup>*"
      using "2.IH"(3) [OF found] "2.prems" by simp
    then obtain d where d: "d \<in> set (g_depends_on g) \<or> d \<in> set stack" "(d, target) \<in> (dep_edges gs)\<^sup>*"
      by auto
    show ?thesis
    proof (cases "d \<in> set stack")
      case False
      then have "(c, d) \<in> dep_edges gs"
        using d(1) dep_edges_found [OF "2.prems"(2) found(3)] by simp
      then show ?thesis using d(2) by (auto intro: converse_rtrancl_into_rtrancl)
    qed (use d in auto)
  next
    case gone
    then show ?thesis using "2.IH"(2) [OF gone] "2.prems" by auto
  qed (use 2 in auto)
qed

definition closed_under :: "(uuid \<times> uuid) set \<Rightarrow> uuid set \<Rightarrow> uuid set \<Rightarrow> bool" where
  "closed_under E V W = (\<forall>v \<in> V. \<forall>d. (v, d) \<in> E \<longrightarrow> d \<in> W)"

lemma reaches_complete:
  assumes "distinct (map goal_id gs)"
  shows "\<not> reaches gs target visited stack \<Longrightarrow> target \<notin> set visited \<Longrightarrow>
    closed_under (dep_edges gs) (set visited) (set visited \<union> set stack) \<Longrightarrow>
    \<exists>V. set visited \<union> set stack \<subseteq> V \<and> target \<notin> V \<and> closed_under (dep_edges gs) V V"
  using assms
proof (induction gs target visited stack rule: reaches.induct)
  case (1 gs target visited)
  then show ?case by (intro exI [of _ "set visited"]) simp
next
  case (2 gs target visited c stack)
  have ne: "c \<noteq> target" using "2.prems"(1) by auto
  consider (seen) "c \<in> set visited"
    | (gone) "c \<notin> set visited" "row_get goal_id c gs = None"
    | (found) g where "c \<notin> set visited" "row_get goal_id c gs = Some g"
    by (cases "row_get goal_id c gs") auto
  then show ?case
  proof cases
    case seen
    then have un: "set visited \<union> set (c # stack) = set visited \<union> set stack" by auto
    then show ?thesis using "2.IH"(1) [OF ne seen] "2.prems" ne seen by (simp add: un)
  next
    case gone
    have "closed_under (dep_edges gs) (set (c # visited)) (set (c # visited) \<union> set stack)"
      using "2.prems"(3) dep_edges_missing [OF gone(2)] by (auto simp: closed_under_def)
    then show ?thesis using "2.IH"(2) [OF ne gone] "2.prems" ne gone by auto
  next
    case found
    have "closed_under (dep_edges gs) (set (c # visited))
            (set (c # visited) \<union> set (rev (remdups (g_depends_on g)) @ stack))"
      using "2.prems"(3) dep_edges_found [OF "2.prems"(4) found(2)] by (auto simp: closed_under_def)
    then show ?thesis using "2.IH"(3) [OF ne found] "2.prems" ne found by auto
  qed
qed

lemma reaches_iff:
  assumes "distinct (map goal_id gs)"
  shows "reaches gs target [] [c] \<longleftrightarrow> (c, target) \<in> (dep_edges gs)\<^sup>*"
proof
  assume "reaches gs target [] [c]"
  then show "(c, target) \<in> (dep_edges gs)\<^sup>*" using reaches_sound [OF assms] by fastforce
next
  assume path: "(c, target) \<in> (dep_edges gs)\<^sup>*"
  show "reaches gs target [] [c]"
  proof (rule ccontr)
    assume "\<not> reaches gs target [] [c]"
    then obtain V where V: "c \<in> V" "target \<notin> V" "closed_under (dep_edges gs) V V"
      using reaches_complete [OF assms, of target "[]" "[c]"] by (auto simp: closed_under_def)
    from path have "target \<in> V"
      by (induction rule: rtrancl_induct) (use V in \<open>auto simp: closed_under_def\<close>)
    then show False using V(2) by simp
  qed
qed

section \<open>The invariant of the store\<close>

definition goal_key :: "goal \<Rightarrow> string \<times> string" where
  "goal_key g = (g_source g, g_source_ref g)"

definition link_key :: "goal_task \<Rightarrow> uuid \<times> uuid" where
  "link_key l = (gt_goal l, gt_task l)"

definition goal_inv :: "goal_store \<Rightarrow> bool" where
  "goal_inv s \<longleftrightarrow> distinct (map goal_id (goals s)) \<and> distinct (map goal_key (goals s)) \<and>
     distinct (map link_key (goal_tasks s)) \<and> distinct (map lr_ref (ledger s)) \<and>
     (\<forall>g \<in> set (goals s). g_status g \<in> statuses goal_edges) \<and> acyclic (dep_edges (goals s))"

definition keeps_graph :: "(goal \<Rightarrow> goal) \<Rightarrow> bool" where
  "keeps_graph f = (\<forall>g. goal_id (f g) = goal_id g \<and> goal_key (f g) = goal_key g \<and>
     g_depends_on (f g) = g_depends_on g)"

lemma put_goal_other [simp]:
  "goal_tasks (put_goal i f s) = goal_tasks s" "task_status (put_goal i f s) = task_status s"
  "ledger (put_goal i f s) = ledger s" "goals (put_goal i f s) = row_put goal_id i f (goals s)"
  by (simp_all add: put_goal_def)

lemma record_ledger_other [simp]:
  "goal_tasks (record_ledger ty ref now s) = goal_tasks s"
  "task_status (record_ledger ty ref now s) = task_status s"
  "goals (record_ledger ty ref now s) = goals s"
  by (simp_all add: record_ledger_def)

lemma ledger_refs_distinct:
  "distinct (map lr_ref (ledger s)) \<Longrightarrow> distinct (map lr_ref (ledger (record_ledger ty ref now s)))"
  by (auto simp: record_ledger_def)

lemma record_ledger_inv: "goal_inv s \<Longrightarrow> goal_inv (record_ledger ty ref now s)"
  by (simp add: goal_inv_def ledger_refs_distinct)

lemma dep_edges_row_put: "keeps_graph f \<Longrightarrow> dep_edges (row_put goal_id i f gs) = dep_edges gs"
  by (induction gs) (simp_all add: row_put_def keeps_graph_def dep_edges_Cons)

lemma put_goal_inv:
  assumes "goal_inv s" and f: "keeps_graph f"
    and "\<And>g. get_goal i s = Some g \<Longrightarrow> g_status (f g) \<in> statuses goal_edges"
  shows "goal_inv (put_goal i f s)"
proof -
  have ids: "map goal_id (row_put goal_id i f (goals s)) = map goal_id (goals s)"
    "map goal_key (row_put goal_id i f (goals s)) = map goal_key (goals s)"
    using f by (auto simp: keeps_graph_def row_put_def)
  have "g_status g' \<in> statuses goal_edges" if "g' \<in> set (row_put goal_id i f (goals s))" for g'
  proof (rule rows.put_all [OF _ _ that])
    show "g_status g \<in> statuses goal_edges" if "g \<in> set (goals s)" for g
      using assms(1) that by (simp add: goal_inv_def)
    show "g_status (f g) \<in> statuses goal_edges" if "g \<in> set (goals s)" "goal_id g = i" for g
      using assms(1,3) that rows.get_unique [of goal_id "goals s" g]
      by (auto simp: goal_inv_def get_goal_def)
  qed
  then show ?thesis
    using assms(1) f unfolding goal_inv_def by (simp add: ids dep_edges_row_put)
qed

lemma require_goal_Inr [sum_simps]: "require_goal i s = Inr g \<longleftrightarrow> get_goal i s = Some g"
  by (simp add: require_goal_def split: option.splits)

lemma require_goal_Inl [sum_simps]: "require_goal i s = Inl e \<longleftrightarrow> get_goal i s = None \<and> e = Goal_not_found i"
  by (auto simp: require_goal_def split: option.splits)

lemma get_goal_member: "get_goal i s = Some g \<Longrightarrow> g \<in> set (goals s) \<and> goal_id g = i"
  unfolding get_goal_def by (rule row_get_SomeD)

lemma create_goal_inv:
  assumes "goal_inv s" and "fresh \<notin> goal_id ` set (goals s)"
    and "create_goal fresh ref now rq s = Inr (g, s')"
  shows "goal_inv s'"
proof (cases "s' = s")
  case False
  let ?ref = "case rq_source_ref rq of None \<Rightarrow> ref | Some r \<Rightarrow> if r = [] then ref else r"
  from assms(3) False have none: "find (\<lambda>g. g_source g = rq_source rq \<and> g_source_ref g = ?ref) (goals s) = None"
    and s': "s' = record_ledger ''goal.created'' (''goals:'' @ fresh @ '':created'') now
                   (s\<lparr>goals := goals s @ [g]\<rparr>)"
    and g: "goal_id g = fresh" "goal_key g = (rq_source rq, ?ref)" "g_status g = ''draft''"
      "g_depends_on g = []"
    by (auto simp: create_goal_def sum_simps Let_def goal_key_def split: if_splits option.splits)
  have "goal_key g \<notin> goal_key ` set (goals s)"
    using none g(2) by (auto simp: find_None_iff goal_key_def)
  moreover have "dep_edges (goals s @ [g]) = dep_edges (goals s)"
    using g(4) by (simp add: dep_edges_def)
  moreover have "''draft'' \<in> statuses goal_edges" by (simp add: statuses_def goal_edges_def)
  ultimately have "goal_inv (s\<lparr>goals := goals s @ [g]\<rparr>)"
    using assms(1,2) g by (auto simp: goal_inv_def)
  then show ?thesis unfolding s' by (rule record_ledger_inv)
qed (use assms(1) in simp)

lemma with_status_simps [simp]:
  "goal_id (with_status new owner now g) = goal_id g"
  "goal_key (with_status new owner now g) = goal_key g"
  "g_status (with_status new owner now g) = new"
  "g_depends_on (with_status new owner now g) = g_depends_on g"
  "g_criteria (with_status new owner now g) = g_criteria g"
  "g_requires_owner_approval (with_status new owner now g) = g_requires_owner_approval g"
  by (simp_all add: with_status_def goal_key_def)

lemma transition_Inr:
  assumes "transition_status isofmt i new owner now s = Inr s'"
  obtains g where "get_goal i s = Some g" "assert_goal_transition (g_status g) new = Inr new"
    "\<not> (g_status g = ''waiting_owner'' \<and> new \<noteq> ''waiting_owner'' \<and>
         g_requires_owner_approval g \<and> \<not> owner)"
    "goals s' = row_put goal_id i (with_status new owner now) (goals s)"
    "goal_inv s \<Longrightarrow> goal_inv s'" "goal_tasks s' = goal_tasks s" "task_status s' = task_status s"
proof -
  define s2 where "s2 = record_ledger ''goal.status_changed''
    (''goals:'' @ i @ '':status:'' @ new @ '':'' @ isofmt now) now
    (put_goal i (with_status new owner now) s)"
  define s3 where "s3 = (if new = ''achieved''
           then record_ledger ''goal.achieved'' (''goals:'' @ i @ '':achieved'') now s2 else s2)"
  have "transition_status isofmt i new owner now s =
     bind_sum (require_goal i s) (\<lambda>g.
     bind_sum (map_sum Status_refused id (assert_goal_transition (g_status g) new)) (\<lambda>_.
       if g_status g = ''waiting_owner'' \<and> new \<noteq> ''waiting_owner'' \<and>
          g_requires_owner_approval g \<and> \<not> owner
       then Inl (Owner_approval_required i) else Inr s3))"
    by (simp only: transition_status_def Let_def s3_def s2_def)
  with assms obtain g m where g: "get_goal i s = Some g" "assert_goal_transition (g_status g) new = Inr m"
    and gate: "\<not> (g_status g = ''waiting_owner'' \<and> new \<noteq> ''waiting_owner'' \<and>
         g_requires_owner_approval g \<and> \<not> owner)" and s': "s' = s3"
    by (auto simp only: sum_simps map_sum_def split: if_splits sum.splits)
  have m: "m = new" "new \<in> statuses goal_edges" using g(2) by (simp_all add: goal_sm.guard_iff)
  have "goal_inv (put_goal i (with_status new owner now) s)" if "goal_inv s"
    by (rule put_goal_inv [OF that]) (simp_all add: keeps_graph_def m)
  then have "goal_inv s2" if "goal_inv s" using that unfolding s2_def by (blast intro: record_ledger_inv)
  then have "goal_inv s3" if "goal_inv s"
    using that unfolding s3_def by (cases "new = ''achieved''") (auto intro: record_ledger_inv)
  moreover have "goals s3 = row_put goal_id i (with_status new owner now) (goals s)"
    "goal_tasks s3 = goal_tasks s" "task_status s3 = task_status s"
    by (simp_all add: s3_def s2_def)
  ultimately show ?thesis using that g m gate s' by blast
qed

lemma status_known: "goal_inv s \<Longrightarrow> get_goal i s = Some g \<Longrightarrow> g_status g \<in> statuses goal_edges"
  using get_goal_member by (auto simp: goal_inv_def)

lemma with_dependency_simps [simp]:
  "goal_id (with_dependency dep now g) = goal_id g"
  "goal_key (with_dependency dep now g) = goal_key g"
  "g_status (with_dependency dep now g) = g_status g"
  "set (g_depends_on (with_dependency dep now g)) = insert dep (set (g_depends_on g))"
  "g_criteria (with_dependency dep now g) = g_criteria g"
  "g_requires_owner_approval (with_dependency dep now g) = g_requires_owner_approval g"
  by (auto simp: with_dependency_def goal_key_def)

lemma add_dependency_Inr:
  assumes "add_dependency i dep now s = Inr s'"
  shows "i \<noteq> dep \<and> get_goal i s \<noteq> None \<and> get_goal dep s \<noteq> None \<and> \<not> reaches (goals s) i [] [dep] \<and>
    s' = put_goal i (with_dependency dep now) s"
  using assms by (auto simp: add_dependency_def sum_simps split: if_splits)

lemma dep_edges_add:
  assumes "distinct (map goal_id gs)" and "i \<in> goal_id ` set gs"
  shows "dep_edges (row_put goal_id i (with_dependency dep now) gs) = insert (i, dep) (dep_edges gs)"
  using assms
proof (induction gs)
  case Nil
  then show ?case by simp
next
  case (Cons g gs)
  show ?case
  proof (cases "goal_id g = i")
    case True
    then have "\<forall>r \<in> set gs. goal_id r \<noteq> i" using Cons.prems(1) by (metis distinct.simps(2) image_eqI list.set_map list.simps(9))
    then have "row_put goal_id i (with_dependency dep now) gs = gs" by (intro row_put_id) blast
    then have "row_put goal_id i (with_dependency dep now) (g # gs) = with_dependency dep now g # gs"
      using True by (simp add: row_put_def)
    then show ?thesis using True by (auto simp: dep_edges_Cons)
  next
    case False
    then have "row_put goal_id i (with_dependency dep now) (g # gs) =
               g # row_put goal_id i (with_dependency dep now) gs"
      by (simp add: row_put_def)
    then show ?thesis using Cons False by (auto simp: dep_edges_Cons)
  qed
qed

lemma add_dependency_inv:
  assumes inv: "goal_inv s" and add: "add_dependency i dep now s = Inr s'"
  shows "goal_inv s'"
proof -
  have s': "s' = put_goal i (with_dependency dep now) s" and some: "get_goal i s \<noteq> None"
    and no: "\<not> reaches (goals s) i [] [dep]"
    using add_dependency_Inr [OF add] by auto
  have ids: "distinct (map goal_id (goals s))" using inv by (simp add: goal_inv_def)
  have "(dep, i) \<notin> (dep_edges (goals s))\<^sup>*" using no reaches_iff [OF ids] by simp
  moreover have "i \<in> goal_id ` set (goals s)" using some by (auto dest: get_goal_member)
  ultimately have acyc: "acyclic (dep_edges (goals s'))"
    using inv ids by (simp add: s' dep_edges_add goal_inv_def acyclic_insert)
  have keys: "map goal_id (goals s') = map goal_id (goals s)"
    "map goal_key (goals s') = map goal_key (goals s)" "map g_status (goals s') = map g_status (goals s)"
    by (simp_all add: s' row_put_def)
  have "g_status ` set (goals s') = g_status ` set (goals s)"
    using keys(3) by (metis list.set_map)
  moreover have "g_status ` set (goals s) \<subseteq> statuses goal_edges" using inv by (auto simp: goal_inv_def)
  ultimately have "\<forall>g \<in> set (goals s'). g_status g \<in> statuses goal_edges" by blast
  then show ?thesis using inv acyc keys unfolding goal_inv_def by (simp add: s')
qed

lemma link_task_inv:
  "goal_inv s \<Longrightarrow> link_task i task role s = Inr (l, s') \<Longrightarrow> goal_inv s'"
  by (auto simp: link_task_def sum_simps Let_def goal_inv_def link_key_def find_None_iff
      split: option.splits)

lemma evaluate_Inr:
  assumes "evaluate i now s = Inr (cs, s')"
  obtains g where "get_goal i s = Some g" "evaluate_all s i (g_criteria g) = Inr cs"
    "s' = (if map c_satisfied cs \<noteq> map c_satisfied (g_criteria g)
           then put_goal i (\<lambda>g. g\<lparr>g_criteria := cs, g_updated_at := now\<rparr>) s else s)"
  using assms by (auto simp: evaluate_def sum_simps Let_def)

lemma put_plain_inv:
  assumes "goal_inv s" and "keeps_graph f" and "\<And>g. g_status (f g) = g_status g"
  shows "goal_inv (put_goal i f s)"
  using put_goal_inv [OF assms(1,2)] assms(1,3) status_known by simp

lemma evaluate_inv: "goal_inv s \<Longrightarrow> evaluate i now s = Inr (cs, s') \<Longrightarrow> goal_inv s'"
  by (erule evaluate_Inr) (auto intro!: put_plain_inv simp: keeps_graph_def goal_key_def)

lemma goal_result_inv:
  assumes inv: "goal_inv s" and "fresh_op oper s" and res: "goal_result isofmt oper s = Inr s'"
  shows "goal_inv s'"
proof (cases oper)
  case (Op_create fresh ref now rq)
  then show ?thesis
    using assms create_goal_inv by (auto simp: map_sum_def split: sum.splits)
next
  case (Op_update i e now)
  then show ?thesis
    using inv res by (auto simp: update_goal_def sum_simps keeps_graph_def goal_key_def
        intro!: put_plain_inv split: if_splits)
next
  case (Op_transition i new owner now)
  then show ?thesis using inv res by (auto elim: transition_Inr)
next
  case (Op_approve i now)
  then show ?thesis using inv res by (auto simp: approve_def sum_simps elim: transition_Inr)
next
  case (Op_blocker i reason det now)
  then show ?thesis
    using inv res by (auto simp: record_blocker_def sum_simps keeps_graph_def goal_key_def
        intro!: put_plain_inv)
next
  case (Op_depend i dep now)
  then show ?thesis using inv res add_dependency_inv by simp
next
  case (Op_link i task role)
  then show ?thesis using inv res link_task_inv by (auto simp: map_sum_def split: sum.splits)
next
  case (Op_evidence i cid ref now)
  then show ?thesis
    using inv res by (auto simp: record_evidence_def sum_simps keeps_graph_def goal_key_def
        intro!: put_plain_inv split: if_splits)
next
  case (Op_evaluate i now)
  then show ?thesis using inv res evaluate_inv by (auto simp: map_sum_def split: sum.splits)
next
  case (Op_complete i now)
  then obtain cs where "evaluate_and_maybe_complete isofmt i now s = Inr (cs, s')"
    using res by (auto simp: map_sum_def split: sum.splits)
  then obtain s1 where s1: "evaluate i now s = Inr (cs, s1)"
    and "s' = s1 \<or> transition_status isofmt i ''achieved'' False now s1 = Inr s'"
    by (auto simp: evaluate_and_maybe_complete_def sum_simps split: option.splits if_splits)
  then show ?thesis using evaluate_inv [OF inv s1] by (auto elim: transition_Inr)
qed

lemma task_change_inv: "goal_inv (s\<lparr>task_status := ts\<rparr>) = goal_inv s"
  by (simp add: goal_inv_def)

lemma goal_step_inv: "goal_step isofmt s s' \<Longrightarrow> goal_inv s \<Longrightarrow> goal_inv s'"
  by (erule goal_stepE) (blast intro: goal_result_inv, simp add: task_change_inv)

lemma empty_store_inv: "goal_inv \<lparr>goals = [], goal_tasks = [], task_status = [], ledger = []\<rparr>"
  by (simp add: goal_inv_def dep_edges_def acyclic_def)

lemma reachable_inv: "goal_reachable isofmt s \<Longrightarrow> goal_inv s"
  by (induction rule: goal_reachable.induct) (rule empty_store_inv, rule goal_step_inv)

section \<open>The owner gate\<close>

text \<open>The requests that may end the wait for the owner: an approval, an owner action on the status,
  and the edit that takes the requirement back.\<close>

fun lifts_gate :: "uuid \<Rightarrow> goal_op \<Rightarrow> bool" where
  "lifts_gate i (Op_approve j _) = (j = i)"
| "lifts_gate i (Op_transition j _ owner _) = (j = i \<and> owner)"
| "lifts_gate i (Op_update j e _) = (j = i \<and> e_requires_owner_approval e = Some False)"
| "lifts_gate i _ = False"

definition waits_for_owner :: "uuid \<Rightarrow> goal_store \<Rightarrow> bool" where
  "waits_for_owner i s = (case get_goal i s of None \<Rightarrow> False
     | Some g \<Rightarrow> g_status g = ''waiting_owner'' \<and> g_requires_owner_approval g)"

definition goal_run :: "(instant \<Rightarrow> string) \<Rightarrow> goal_op list \<Rightarrow> goal_store \<Rightarrow> goal_store" where
  "goal_run isofmt ops s =
     fold (\<lambda>oper s. case goal_result isofmt oper s of Inl _ \<Rightarrow> s | Inr s' \<Rightarrow> s') ops s"

lemma get_put_goal:
  "(\<And>g. goal_id (f g) = goal_id g) \<Longrightarrow>
   get_goal j (put_goal i f s) = (if j = i then map_option f (get_goal j s) else get_goal j s)"
  by (simp add: get_goal_def row_get_put)

lemma waits_goals: "goals s' = goals s \<Longrightarrow> waits_for_owner i s' = waits_for_owner i s"
  by (simp add: waits_for_owner_def get_goal_def)

lemma waits_put:
  assumes "waits_for_owner i s" and "\<And>g. goal_id (f g) = goal_id g"
    and "j = i \<Longrightarrow> (\<And>g. g_status (f g) = g_status g)"
    and "j = i \<Longrightarrow> (\<And>g. g_requires_owner_approval g \<Longrightarrow> g_requires_owner_approval (f g))"
  shows "waits_for_owner i (put_goal j f s)"
  using assms by (auto simp: waits_for_owner_def get_put_goal split: option.splits)

lemma waits_append:
  "waits_for_owner i s \<Longrightarrow> waits_for_owner i (s\<lparr>goals := goals s @ gs\<rparr>)"
  by (auto simp: waits_for_owner_def get_goal_def row_get_append split: option.splits)

lemma waits_transition:
  assumes "waits_for_owner i s" and tr: "transition_status isofmt j new owner now s = Inr s'"
    and "j = i \<Longrightarrow> \<not> owner"
  shows "waits_for_owner i s'"
proof -
  from tr obtain g where g: "get_goal j s = Some g"
    "\<not> (g_status g = ''waiting_owner'' \<and> new \<noteq> ''waiting_owner'' \<and>
         g_requires_owner_approval g \<and> \<not> owner)"
    "goals s' = row_put goal_id j (with_status new owner now) (goals s)"
    by (rule transition_Inr)
  have eq: "waits_for_owner i s' = waits_for_owner i (put_goal j (with_status new owner now) s)"
    using g(3) by (intro waits_goals) simp
  show ?thesis
    using assms(1,3) g(1,2)
    unfolding eq by (auto simp: waits_for_owner_def get_put_goal split: option.splits)
qed

lemma waits_evaluate:
  "waits_for_owner i s \<Longrightarrow> evaluate j now s = Inr (cs, s') \<Longrightarrow> waits_for_owner i s'"
  by (erule evaluate_Inr) (auto intro!: waits_put)

lemma waits_step:
  assumes w: "waits_for_owner i s" and "\<not> lifts_gate i oper" and res: "goal_result isofmt oper s = Inr s'"
  shows "waits_for_owner i s'"
proof (cases oper)
  case (Op_create fresh ref now rq)
  then obtain g where cr: "create_goal fresh ref now rq s = Inr (g, s')"
    using res by (auto simp: map_sum_def split: sum.splits)
  then have "goals s' = goals s \<or> goals s' = goals s @ [g]"
    by (auto simp: create_goal_def sum_simps Let_def split: if_splits option.splits)
  then show ?thesis
    using w waits_goals [of s' s] waits_goals [of s' "s\<lparr>goals := goals s @ [g]\<rparr>"] waits_append by auto
next
  case (Op_update j e now)
  then show ?thesis
    using assms by (auto simp: update_goal_def sum_simps given_def intro!: waits_put
        split: if_splits option.splits)
next
  case (Op_transition j new owner now)
  then show ?thesis using assms waits_transition by auto
next
  case (Op_approve j now)
  then show ?thesis using assms waits_transition [OF w] by (auto simp: approve_def sum_simps)
next
  case (Op_blocker j reason det now)
  then show ?thesis using w res by (auto simp: record_blocker_def sum_simps intro!: waits_put)
next
  case (Op_depend j dep now)
  then show ?thesis using w res by (auto dest!: add_dependency_Inr intro!: waits_put)
next
  case (Op_link j task role)
  then show ?thesis
    using w res by (auto simp: link_task_def sum_simps Let_def map_sum_def waits_for_owner_def
        get_goal_def split: sum.splits option.splits)
next
  case (Op_evidence j cid ref now)
  then show ?thesis
    using w res by (auto simp: record_evidence_def sum_simps intro!: waits_put split: if_splits)
next
  case (Op_evaluate j now)
  then show ?thesis using w res waits_evaluate by (auto simp: map_sum_def split: sum.splits)
next
  case (Op_complete j now)
  then obtain cs where "evaluate_and_maybe_complete isofmt j now s = Inr (cs, s')"
    using res by (auto simp: map_sum_def split: sum.splits)
  then obtain s1 where s1: "evaluate j now s = Inr (cs, s1)"
    and "s' = s1 \<or> transition_status isofmt j ''achieved'' False now s1 = Inr s'"
    by (auto simp: evaluate_and_maybe_complete_def sum_simps split: option.splits if_splits)
  then show ?thesis using waits_transition waits_evaluate [OF w s1] by blast
qed

section \<open>Evaluation reads only evidence\<close>

lemma evaluator_ignores_flag:
  "evaluator s i (c\<lparr>c_satisfied := b\<rparr>) = evaluator s i c"
  by (simp add: evaluator_def eval_manual_evidence_def eval_task_status_def eval_ledger_event_def)

lemma evaluator_store:
  assumes "goal_tasks s' = goal_tasks s" "task_status s' = task_status s" "ledger s' = ledger s"
  shows "evaluator s' i c = evaluator s i c"
  using assms
  by (simp add: evaluator_def eval_task_status_def eval_ledger_event_def list_goal_tasks_def
      ledger_query_def)

lemma evaluate_all_Inr:
  "evaluate_all s i cs = Inr rs \<Longrightarrow>
   list_all2 (\<lambda>c r. evaluator s i c = Inr (c_satisfied r) \<and> r = c\<lparr>c_satisfied := c_satisfied r\<rparr>) cs rs"
  by (induction cs arbitrary: rs) (auto simp: sum_simps)

lemma evaluate_all_again:
  assumes "\<And>c. evaluator s' i c = evaluator s i c"
  shows "evaluate_all s i cs = Inr rs \<Longrightarrow> evaluate_all s' i rs = Inr rs"
proof (induction cs arbitrary: rs)
  case Nil
  then show ?case by simp
next
  case (Cons c cs)
  then obtain b rest where "evaluator s i c = Inr b" "evaluate_all s i cs = Inr rest"
    "rs = c\<lparr>c_satisfied := b\<rparr> # rest"
    by (auto simp: sum_simps)
  then show ?case using Cons.IH assms by (simp add: evaluator_ignores_flag)
qed

lemma sort_key_append_less:
  fixes key :: "'a \<Rightarrow> int"
  assumes "\<And>x y. x \<in> set xs \<Longrightarrow> y \<in> set ys \<Longrightarrow> key x < key y"
  shows "sort_key key (xs @ ys) = sort_key key xs @ sort_key key ys"
proof (rule properties_for_sort_key)
  show "mset (sort_key key xs @ sort_key key ys) = mset (xs @ ys)" by simp
  show "sorted (map key (sort_key key xs @ sort_key key ys))"
    using assms by (auto simp: sorted_append less_imp_le)
  fix k
  assume "k \<in> set (sort_key key xs @ sort_key key ys)"
  show "filter (\<lambda>x. key k = key x) (sort_key key xs @ sort_key key ys) =
        filter (\<lambda>x. key k = key x) (xs @ ys)"
    by (simp add: eq_commute [of "key k"] sort_key_stable)
qed

section \<open>Sample inputs\<close>

definition sample_goal :: "uuid \<Rightarrow> string \<Rightarrow> bool \<Rightarrow> criterion list \<Rightarrow> goal" where
  "sample_goal i st gated cs = \<lparr>goal_id = i, g_parent = None, g_title = ''t'', g_intent = ''i'',
     g_status = st, g_priority = 0, g_horizon = ''now'', g_deadline = None, g_criteria = cs,
     g_blockers = [], g_depends_on = [], g_requires_owner_approval = gated, g_approved_at = None,
     g_evidence_refs = [], g_created_at = 0, g_updated_at = 0, g_source = ''owner'',
     g_source_ref = i, g_detail = JObj []\<rparr>"

definition sample_store :: "goal list \<Rightarrow> goal_store" where
  "sample_store gs = \<lparr>goals = gs, goal_tasks = [], task_status = [], ledger = []\<rparr>"

definition sample_request :: "uuid \<Rightarrow> goal_request" where
  "sample_request i = \<lparr>rq_title = ''t'', rq_intent = ''i'', rq_parent = None, rq_priority = 0,
     rq_horizon = ''now'', rq_deadline = None, rq_criteria = [], rq_requires_owner_approval = False,
     rq_source = ''owner'', rq_source_ref = Some i, rq_detail = JObj []\<rparr>"

definition sample_criterion :: "string \<Rightarrow> json list \<Rightarrow> json \<Rightarrow> criterion" where
  "sample_criterion kind refs det = \<lparr>c_id = ''c'', c_statement = ''s'', c_check_kind = kind,
     c_satisfied = False, c_evidence_refs = refs, c_detail = det\<rparr>"

lemma evaluate_settles:
  assumes "get_goal i s = Some g" and s1: "evaluate i now s = Inr (cs, s1)"
  shows "list_all2 (\<lambda>c r. evaluator s i c = Inr (c_satisfied r)) (g_criteria g) cs"
    and "evaluate i later s1 = Inr (cs, s1)"
    and "\<exists>h. get_goal i s1 = Some h \<and> g_status h = g_status g"
proof -
  have ev: "evaluate_all s i (g_criteria g) = Inr cs"
    and st: "s1 = (if map c_satisfied cs \<noteq> map c_satisfied (g_criteria g)
         then put_goal i (\<lambda>g. g\<lparr>g_criteria := cs, g_updated_at := now\<rparr>) s else s)"
    using s1 assms(1) by (auto elim!: evaluate_Inr)
  show "list_all2 (\<lambda>c r. evaluator s i c = Inr (c_satisfied r)) (g_criteria g) cs"
    by (rule list_all2_mono [OF evaluate_all_Inr [OF ev]]) simp
  have same: "evaluator s1 i c = evaluator s i c" for c
    by (rule evaluator_store) (simp_all add: st)
  show "evaluate i later s1 = Inr (cs, s1)"
  proof (cases "map c_satisfied cs = map c_satisfied (g_criteria g)")
    case True
    then show ?thesis using assms(1) ev st by (simp add: evaluate_def require_goal_def Let_def)
  next
    case False
    then have "get_goal i s1 = Some (g\<lparr>g_criteria := cs, g_updated_at := now\<rparr>)"
      using assms(1) st by (simp add: get_put_goal)
    then show ?thesis
      using evaluate_all_again [OF same ev] by (simp add: evaluate_def require_goal_def Let_def)
  qed
  show "\<exists>h. get_goal i s1 = Some h \<and> g_status h = g_status g"
    using assms(1) st by (cases "map c_satisfied cs = map c_satisfied (g_criteria g)") (auto simp: get_put_goal)
qed

section \<open>Properties\<close>

text \<open>
  C30. In every store that the engine can reach, handling its requests one after another, the dependency graph of the goals has no cycle, goal
  ids, the creation keys \<open>(source, source_ref)\<close>, the links \<open>(goal, task)\<close> and the ledger references
  are unique, and every goal has a status of the table.
\<close>
theorem goal_store_invariant:
  assumes "goal_reachable isofmt s"
  shows "acyclic (dep_edges (goals s)) \<and> distinct (map goal_id (goals s)) \<and>
    distinct (map (\<lambda>g. (g_source g, g_source_ref g)) (goals s)) \<and>
    distinct (map (\<lambda>l. (gt_goal l, gt_task l)) (goal_tasks s)) \<and>
    distinct (map lr_ref (ledger s)) \<and> (\<forall>g \<in> set (goals s). g_status g \<in> statuses goal_edges)"
  using reachable_inv [OF assms]
  by (simp add: goal_inv_def goal_key_def [abs_def] link_key_def [abs_def])

theorem goal_store_invariant_witness:
  "\<exists>s. goal_reachable (\<lambda>_. []) s \<and> map goal_id (goals s) = [''a''] \<and> acyclic (dep_edges (goals s))"
proof -
  let ?s0 = "\<lparr>goals = [], goal_tasks = [], task_status = [], ledger = []\<rparr>"
  obtain g s where cr: "create_goal ''a'' ''r'' 0 (sample_request ''a'') ?s0 = Inr (g, s)"
    and ids: "map goal_id (goals s) = [''a'']"
    by (simp add: create_goal_def sample_request_def goal_horizons_def Let_def)
  have "goal_step (\<lambda>_. []) ?s0 s"
    by (rule goal_step.request [where oper = "Op_create ''a'' ''r'' 0 (sample_request ''a'')"])
       (simp_all add: cr)
  then have r: "goal_reachable (\<lambda>_. []) s" using goal_reachable.initial goal_reachable.step by blast
  have "acyclic (dep_edges (goals s))" using goal_store_invariant [OF r] by simp
  then show ?thesis using r ids by (intro exI [of _ s]) simp
qed

text \<open>
  C37. \<open>add_dependency\<close> refuses exactly the edges that would close a cycle: between two existing goals
  it raises the cycle error if and only if the new dependency already depends, through any number
  of edges, on the goal itself; every other edge is added, and it is the only one added.  (Requests are handled one
  after another; of two that overlap see the lemma below.)
\<close>
theorem add_dependency_refuses_exactly_cycles:
  assumes "goal_reachable isofmt s" and "get_goal i s \<noteq> None" and "get_goal dep s \<noteq> None"
  shows "(add_dependency i dep now s = Inl (Goal_cycle i dep)) = ((dep, i) \<in> (dep_edges (goals s))\<^sup>*) \<and>
    ((dep, i) \<notin> (dep_edges (goals s))\<^sup>* \<longrightarrow> (\<exists>s'. add_dependency i dep now s = Inr s' \<and>
       dep_edges (goals s') = insert (i, dep) (dep_edges (goals s))))"
proof -
  have ids: "distinct (map goal_id (goals s))"
    using reachable_inv [OF assms(1)] by (simp add: goal_inv_def)
  have i: "i \<in> goal_id ` set (goals s)" using assms(2) by (auto dest: get_goal_member)
  show ?thesis
    using assms(2,3) i
    by (auto simp: add_dependency_def require_goal_def reaches_iff [OF ids] dep_edges_add [OF ids]
        simp del: reaches.simps)
qed

theorem add_dependency_refuses_exactly_cycles_witness:
  "\<exists>s. goal_reachable (\<lambda>_. []) s \<and> add_dependency ''a'' ''a'' 0 s = Inl (Goal_cycle ''a'' ''a'')"
proof -
  let ?s0 = "\<lparr>goals = [], goal_tasks = [], task_status = [], ledger = []\<rparr>"
  obtain g s where cr: "create_goal ''a'' ''r'' 0 (sample_request ''a'') ?s0 = Inr (g, s)"
    and found: "get_goal ''a'' s \<noteq> None"
    by (simp add: create_goal_def sample_request_def goal_horizons_def get_goal_def row_get_Cons Let_def)
  have "goal_step (\<lambda>_. []) ?s0 s"
    by (rule goal_step.request [where oper = "Op_create ''a'' ''r'' 0 (sample_request ''a'')"])
       (simp_all add: cr)
  then have r: "goal_reachable (\<lambda>_. []) s" using goal_reachable.initial goal_reachable.step by blast
  show ?thesis using add_dependency_refuses_exactly_cycles [OF r found found, of 0] r by auto
qed

text \<open>
  Two requests whose searches both come before both writes: neither search finds the other's edge, each writes
  the row of its own goal, and the graph has a cycle.
\<close>

lemma concurrent_edges_close_a_cycle:
  assumes "distinct (map goal_id (goals s))" "a \<noteq> b" "get_goal a s \<noteq> None" "get_goal b s \<noteq> None"
    and "dep_edges (goals s) = {}"
  shows "add_dependency a b now s = Inr (put_goal a (with_dependency b now) s)"
    and "add_dependency b a now s = Inr (put_goal b (with_dependency a now) s)"
    and "\<not> acyclic (dep_edges (goals (put_goal b (with_dependency a now) (put_goal a (with_dependency b now) s))))"
proof -
  have mem: "a \<in> goal_id ` set (goals s)" "b \<in> goal_id ` set (goals s)"
    using assms(3,4) by (auto dest: get_goal_member)
  show "add_dependency a b now s = Inr (put_goal a (with_dependency b now) s)"
    "add_dependency b a now s = Inr (put_goal b (with_dependency a now) s)"
    using assms by (auto simp: add_dependency_def require_goal_def reaches_iff [OF assms(1)] simp del: reaches.simps)
  have keys: "map goal_id (row_put goal_id a (with_dependency b now) (goals s)) = map goal_id (goals s)"
    by (rule row_put_keys) (simp add: with_dependency_def)
  then have "b \<in> goal_id ` set (row_put goal_id a (with_dependency b now) (goals s))"
    using mem(2) by (metis list.set_map)
  then have "dep_edges (goals (put_goal b (with_dependency a now) (put_goal a (with_dependency b now) s))) = {(b, a), (a, b)}"
    using dep_edges_add [OF assms(1) mem(1), of b now] dep_edges_add [of "row_put goal_id a (with_dependency b now) (goals s)" b a now]
      assms(1,5) keys by (simp add: put_goal_def)
  moreover have "(a, a) \<in> {(b, a), (a, b)}\<^sup>+" by (rule trancl_trans [of a b]) auto
  ultimately show "\<not> acyclic (dep_edges (goals (put_goal b (with_dependency a now) (put_goal a (with_dependency b now) s))))"
    by (auto simp: acyclic_def)
qed

text \<open>
  A goal that requires owner approval stays in \<open>waiting_owner\<close>, with the requirement in place,
  through any sequence of requests (edits, blockers, evidence, evaluation, automatic status
  changes, requests for other goals) in which nobody approves it, makes an owner-flagged status
  change on it, or edits the requirement away.
\<close>
theorem approval_gate_holds:
  assumes "get_goal i s = Some g" and "g_status g = ''waiting_owner''"
    and "g_requires_owner_approval g" and "list_all (\<lambda>oper. \<not> lifts_gate i oper) ops"
  shows "\<exists>g'. get_goal i (goal_run isofmt ops s) = Some g' \<and> g_status g' = ''waiting_owner'' \<and>
    g_requires_owner_approval g'"
proof -
  have "waits_for_owner i (goal_run isofmt ops s)" if "waits_for_owner i s" for s
    using assms(4) that unfolding goal_run_def
    by (induction ops arbitrary: s) (auto simp: waits_step split: sum.splits)
  moreover have "waits_for_owner i s" using assms(1-3) by (simp add: waits_for_owner_def)
  ultimately have "waits_for_owner i (goal_run isofmt ops s)" by blast
  then show ?thesis by (auto simp: waits_for_owner_def split: option.splits)
qed

theorem approval_gate_holds_witness:
  "\<exists>g'. get_goal ''a'' (goal_run (\<lambda>_. []) [Op_transition ''a'' ''active'' False 5, Op_complete ''a'' 6]
       (sample_store [sample_goal ''a'' ''waiting_owner'' True []])) = Some g' \<and>
     g_status g' = ''waiting_owner''"
  using approval_gate_holds [of "''a''" "sample_store [sample_goal ''a'' ''waiting_owner'' True []]"
      "sample_goal ''a'' ''waiting_owner'' True []"
      "[Op_transition ''a'' ''active'' False 5, Op_complete ''a'' 6]" "\<lambda>_. []"]
  by (auto simp: sample_goal_def sample_store_def get_goal_def row_get_Cons)

text \<open>
  A success criterion is satisfied by evidence and by nothing else.  After an evaluation every
  flag is what the criterion's check says of the stored evidence, whatever the flag was before;
  evaluating again gives the same flags and writes nothing; and a goal is completed by evaluation
  only when it was active and has at least one criterion, all of them met.
\<close>
theorem goal_completes_only_on_evidence:
  assumes "get_goal i s = Some g"
    and "evaluate_and_maybe_complete isofmt i now s = Inr (cs, s')"
  shows "list_all2 (\<lambda>c r. evaluator s i c = Inr (c_satisfied r)) (g_criteria g) cs \<and>
    (\<exists>s1. evaluate i now s = Inr (cs, s1) \<and> (\<forall>later. evaluate i later s1 = Inr (cs, s1))) \<and>
    (\<forall>g'. get_goal i s' = Some g' \<longrightarrow> g_status g' = g_status g \<or>
       g_status g = ''active'' \<and> g_status g' = ''achieved'' \<and> g_criteria g \<noteq> [] \<and>
       (\<forall>c \<in> set (g_criteria g). evaluator s i c = Inr True))"
proof (intro conjI allI impI)
  obtain s1 where s1: "evaluate i now s = Inr (cs, s1)"
    and fin: "s' = s1 \<or> (all_satisfied cs \<and> (\<exists>h. get_goal i s1 = Some h \<and> g_status h = ''active'') \<and>
                transition_status isofmt i ''achieved'' False now s1 = Inr s')"
    using assms(2)
    by (auto simp: evaluate_and_maybe_complete_def sum_simps split: option.splits if_splits)
  note settled = evaluate_settles [OF assms(1) s1]
  show fl: "list_all2 (\<lambda>c r. evaluator s i c = Inr (c_satisfied r)) (g_criteria g) cs" by (rule settled(1))
  show "\<exists>s1. evaluate i now s = Inr (cs, s1) \<and> (\<forall>later. evaluate i later s1 = Inr (cs, s1))"
    using s1 settled(2) by blast
  obtain h where h: "get_goal i s1 = Some h" "g_status h = g_status g" using settled(3) by blast
  fix g'
  assume g': "get_goal i s' = Some g'"
  show "g_status g' = g_status g \<or> g_status g = ''active'' \<and> g_status g' = ''achieved'' \<and>
      g_criteria g \<noteq> [] \<and> (\<forall>c \<in> set (g_criteria g). evaluator s i c = Inr True)"
  proof (cases "s' = s1")
    case True
    then show ?thesis using h g' by simp
  next
    case False
    then have all: "all_satisfied cs" and act: "g_status g = ''active''"
      and tr: "transition_status isofmt i ''achieved'' False now s1 = Inr s'"
      using fin h by auto
    have "goals s' = goals (put_goal i (with_status ''achieved'' False now) s1)"
      using tr by (auto elim: transition_Inr)
    then have "get_goal i s' = get_goal i (put_goal i (with_status ''achieved'' False now) s1)"
      by (simp add: get_goal_def)
    then have "g_status g' = ''achieved''" using g' h by (simp add: get_put_goal)
    moreover have "g_criteria g \<noteq> []" using all fl by (auto simp: all_satisfied_def)
    moreover have "evaluator s i c = Inr True" if "c \<in> set (g_criteria g)" for c
      using that fl all by (auto simp: all_satisfied_def list_all2_conv_all_nth list_all_length in_set_conv_nth)
    ultimately show ?thesis using act by blast
  qed
qed

theorem goal_completes_only_on_evidence_witness:
  "list_all2 (\<lambda>c r. evaluator (sample_store [sample_goal ''a'' ''active'' False
        [sample_criterion ''manual_evidence'' [JStr ''e''] (JObj [])]]) ''a'' c = Inr (c_satisfied r))
     [sample_criterion ''manual_evidence'' [JStr ''e''] (JObj [])]
     [(sample_criterion ''manual_evidence'' [JStr ''e''] (JObj []))\<lparr>c_satisfied := True\<rparr>]"
proof -
  let ?c = "sample_criterion ''manual_evidence'' [JStr ''e''] (JObj [])"
  let ?g = "sample_goal ''a'' ''active'' False [?c]"
  let ?s = "sample_store [?g]"
  have g: "get_goal ''a'' ?s = Some ?g"
    by (simp add: sample_store_def get_goal_def row_get_Cons sample_goal_def)
  have "case evaluate_and_maybe_complete (\<lambda>_. []) ''a'' 9 ?s of Inl _ \<Rightarrow> False
        | Inr (cs, s') \<Rightarrow> cs = [?c\<lparr>c_satisfied := True\<rparr>]"
    by code_simp
  then obtain s' where
    "evaluate_and_maybe_complete (\<lambda>_. []) ''a'' 9 ?s = Inr ([?c\<lparr>c_satisfied := True\<rparr>], s')"
    by (auto split: sum.splits prod.splits)
  from goal_completes_only_on_evidence [OF g this] show ?thesis by (simp add: sample_goal_def)
qed

text \<open>
  A ledger criterion forgets its evidence: the check reads only the newest 50 rows of the event
  type and filters them by the source reference afterwards, so a matching row is no longer seen
  once 50 newer rows of the same type that do not match have been written.
\<close>
theorem ledger_criterion_forgets:
  assumes "ledger s = older @ newer" and "50 \<le> length newer"
    and "\<And>r. r \<in> set newer \<Longrightarrow> lr_type r = ty \<and> \<not> is_prefix prefix (lr_ref r)"
    and "\<And>q r. q \<in> set older \<Longrightarrow> r \<in> set newer \<Longrightarrow> lr_at q < lr_at r"
    and "ty \<noteq> []" and "prefix \<noteq> []"
    and "c_detail c = JObj [(''event_type'', JStr ty), (''source_ref_prefix'', JStr prefix)]"
  shows "eval_ledger_event s c = Inr False"
proof -
  let ?of = "filter (\<lambda>r. JStr (lr_type r) = JStr ty)"
  let ?key = "\<lambda>r. - lr_at r"
  have nw: "?of newer = newer" using assms(3) by (simp add: filter_id_conv)
  have "sort_key ?key (rev newer @ rev (?of older)) =
        sort_key ?key (rev newer) @ sort_key ?key (rev (?of older))"
    by (rule sort_key_append_less) (use assms(4) in auto)
  then have rows: "ledger_query s (JStr ty) = take 50 (sort_key ?key (rev newer))"
    using assms(1,2) nw by (simp add: ledger_query_def)
  then have "set (ledger_query s (JStr ty)) \<subseteq> set newer"
    using set_take_subset [of 50 "sort_key ?key (rev newer)"] by simp
  then have "filter (\<lambda>r. is_prefix prefix (lr_ref r)) (ledger_query s (JStr ty)) = []"
    using assms(3) by (auto simp: filter_empty_conv)
  then show ?thesis using assms(5-7) by (auto simp: eval_ledger_event_def Let_def)
qed

theorem ledger_criterion_forgets_witness:
  "let old = \<lparr>lr_type = ''x'', lr_ref = ''task:1'', lr_at = 0\<rparr>;
       new = map (\<lambda>n. \<lparr>lr_type = ''x'', lr_ref = ''other'' @ replicate n CHR ''i'', lr_at = 1 + int n\<rparr>) [0..<50];
       c = sample_criterion ''ledger_event'' []
             (JObj [(''event_type'', JStr ''x''), (''source_ref_prefix'', JStr ''task'')])
   in eval_ledger_event ((sample_store [])\<lparr>ledger := [old]\<rparr>) c = Inr True \<and>
      eval_ledger_event ((sample_store [])\<lparr>ledger := [old] @ new\<rparr>) c = Inr False"
  unfolding Let_def
proof
  show "eval_ledger_event ((sample_store [])\<lparr>ledger := [\<lparr>lr_type = ''x'', lr_ref = ''task:1'', lr_at = 0\<rparr>]\<rparr>)
      (sample_criterion ''ledger_event'' []
             (JObj [(''event_type'', JStr ''x''), (''source_ref_prefix'', JStr ''task'')])) = Inr True"
    by code_simp
qed (rule ledger_criterion_forgets [where ty = "''x''" and prefix = "''task''" and
       older = "[\<lparr>lr_type = ''x'', lr_ref = ''task:1'', lr_at = 0\<rparr>]" and
       newer = "map (\<lambda>n. \<lparr>lr_type = ''x'', lr_ref = ''other'' @ replicate n CHR ''i'', lr_at = 1 + int n\<rparr>) [0..<50]"],
     auto simp: sample_criterion_def)

text \<open>
  A manual criterion can be met at creation: \<open>create_goal\<close> keeps the evidence references of the
  criterion it is given, so the first evaluation of a new goal reports the criterion as satisfied
  although no evidence was ever recorded against it.
\<close>
theorem evidence_given_at_creation_counts:
  assumes "create_goal fresh ref now rq s = Inr (g, s')" and "get_goal fresh s = None"
    and "rq_criteria rq = [(cid, raw)]" and "rc_check_kind raw = None" and "rc_evidence_refs raw \<noteq> []"
    and "s' \<noteq> s"
  shows "\<exists>c s''. evaluate fresh later s' = Inr ([c], s'') \<and> c_satisfied c"
proof -
  from assms obtain c where g: "goal_id g = fresh" "g_criteria g = [c]" "goals s' = goals s @ [g]"
    and c: "c_check_kind c = ''manual_evidence''" "c_evidence_refs c = rc_evidence_refs raw"
    by (auto simp: create_goal_def sum_simps Let_def normalize_criterion_def
        split: if_splits option.splits)
  have "get_goal fresh s' = Some g"
    using assms(2) g by (simp add: get_goal_def row_get_append row_get_Cons)
  moreover have "evaluator s' fresh c = Inr True"
    using c assms(5) by (simp add: evaluator_def eval_manual_evidence_def)
  ultimately show ?thesis using g(2) by (simp add: evaluate_def require_goal_def Let_def)
qed

theorem evidence_given_at_creation_counts_witness:
  "\<exists>g s' c s''. create_goal ''a'' ''r'' 0 ((sample_request ''a'')\<lparr>rq_criteria :=
        [(''c'', \<lparr>rc_id = None, rc_statement = ''s'', rc_check_kind = None,
                  rc_evidence_refs = [JStr ''claim''], rc_detail = JObj []\<rparr>)]\<rparr>) (sample_store [])
        = Inr (g, s') \<and> evaluate ''a'' 5 s' = Inr ([c], s'') \<and> c_satisfied c"
proof -
  let ?raw = "\<lparr>rc_id = None, rc_statement = ''s'', rc_check_kind = None,
                  rc_evidence_refs = [JStr ''claim''], rc_detail = JObj []\<rparr>"
  let ?rq = "(sample_request ''a'')\<lparr>rq_criteria := [(''c'', ?raw)]\<rparr>"
  obtain g s' where cr: "create_goal ''a'' ''r'' 0 ?rq (sample_store []) = Inr (g, s')"
    and ne: "s' \<noteq> sample_store []"
    by (auto simp: create_goal_def sample_request_def goal_horizons_def sample_store_def
        normalize_criterion_def check_kinds_def record_ledger_def Let_def)
  have "get_goal ''a'' (sample_store []) = None" by (simp add: get_goal_def sample_store_def)
  from evidence_given_at_creation_counts [OF cr this _ _ _ ne, of "''c''" ?raw 5] cr show ?thesis
    by auto
qed

end
