(* ===== verification/Broker_Commands.thy ===== *)
theory Broker_Commands imports Json_Value "HOL-Library.AList" "HOL-Library.Product_Lexorder" begin

text \<open>
  The persistence layer of the device broker: command life cycle (\<open>broker/state.py\<close>), the
  server-side authority gate (\<open>devices/authority.py\<close>, \<open>devices/capabilities.py\<close>) and the
  operations on devices, sessions, commands, enrollment tokens and the audit log
  (\<open>broker/service.py\<close>, rows of \<open>broker/models.py\<close>, \<open>broker/audit.py\<close>).  One function is one
  transaction.  Fresh ids, the current time, the token hash and the validity of a public key are
  arguments; a concurrent insert between the look-up and the flush of \<open>create_command\<close> is the row
  \<open>rival\<close>.  Audit metadata is left out.
\<close>

section \<open>Command life cycle\<close>

datatype command_status =
    Pending | Delivered | Accepted | Running | Succeeded | Failed | Expired | Cancelled

definition status_names :: "(string \<times> command_status) list" where
  "status_names =
    [(''pending'', Pending), (''delivered'', Delivered), (''accepted'', Accepted),
     (''running'', Running), (''succeeded'', Succeeded), (''failed'', Failed),
     (''expired'', Expired), (''cancelled'', Cancelled)]"

definition is_terminal :: "command_status \<Rightarrow> bool" where
  "is_terminal s = (s \<in> {Succeeded, Failed, Expired, Cancelled})"

fun rank :: "command_status \<Rightarrow> nat" where
  "rank Pending = 0"
| "rank Delivered = 1"
| "rank Accepted = 2"
| "rank Running = 3"
| "rank Succeeded = 4"
| "rank Failed = 4"
| "rank Expired = 4"
| "rank Cancelled = 4"

datatype decision = Apply | Ignore_duplicate | Ignore_stale | Conflict

definition classify :: "command_status \<Rightarrow> command_status \<Rightarrow> decision" where
  "classify current new =
     (if is_terminal current
      then if new = current then Ignore_duplicate
           else if is_terminal new then Conflict else Ignore_stale
      else if rank new > rank current then Apply
      else if new = current then Ignore_duplicate else Ignore_stale)"

text \<open>An acknowledged status arrives as text; one that is no status raises \<open>ValueError\<close>.\<close>

definition classify_transition :: "command_status \<Rightarrow> string \<Rightarrow> string + (decision \<times> command_status)" where
  "classify_transition current new =
     (case map_of status_names new of None \<Rightarrow> Inl new | Some n \<Rightarrow> Inr (classify current n, n))"

section \<open>Capabilities and the authority gate\<close>

definition family_markers :: "(string \<times> string) list" where
  "family_markers = [(''browser'', ''browser.chrome'')]"

definition family_marker :: "string \<Rightarrow> string option" where
  "family_marker namespace = map_of family_markers namespace"

definition namespace_of :: "string \<Rightarrow> string" where
  "namespace_of required = takeWhile (\<lambda>c. c \<noteq> CHR ''.'') required"

definition has_capability :: "string list \<Rightarrow> string \<Rightarrow> bool" where
  "has_capability caps required =
     (required \<in> set caps \<or>
      (case family_marker (namespace_of required) of None \<Rightarrow> False | Some m \<Rightarrow> m \<in> set caps))"

definition missing_capabilities :: "string list \<Rightarrow> string list \<Rightarrow> string list" where
  "missing_capabilities caps required = filter (\<lambda>r. \<not> has_capability caps r) required"

datatype refusal = Unknown_device | Device_revoked | Capability_not_advertised

record gate_decision =
  gd_allowed :: bool
  gd_would_refuse :: bool
  gd_reason :: "refusal option"
  gd_mode :: string
  gd_capability :: string

record device =
  d_id :: nat
  d_name :: string
  d_platform :: string
  d_public_key :: string
  d_capabilities :: "string list"
  d_enrolled_at :: instant
  d_last_seen_at :: "instant option"
  d_revoked :: bool
  d_revoked_at :: "instant option"
  d_metadata :: "(string \<times> json) list"
  d_software_version :: "string option"
  d_build_id :: "string option"
  d_source_revision :: "string option"

definition gate_modes :: "string list" where
  "gate_modes = [''shadow'', ''enforce'']"

definition set_mode :: "string \<Rightarrow> string" where
  "set_mode mode = (if mode \<notin> set gate_modes then ''shadow'' else mode)"

definition conclude :: "string \<Rightarrow> string \<Rightarrow> refusal option \<Rightarrow> gate_decision" where
  "conclude capability mode reason =
     \<lparr>gd_allowed = (\<not> (reason \<noteq> None \<and> mode = ''enforce'')), gd_would_refuse = (reason \<noteq> None),
      gd_reason = reason, gd_mode = mode, gd_capability = capability\<rparr>"

definition effective_mode :: "string \<Rightarrow> string option \<Rightarrow> string" where
  "effective_mode process_mode mode = (case mode of None \<Rightarrow> process_mode | Some m \<Rightarrow> m)"

definition gate_evaluate :: "string \<Rightarrow> device option \<Rightarrow> string \<Rightarrow> string option \<Rightarrow> gate_decision" where
  "gate_evaluate process_mode dev capability mode =
     (let asked = effective_mode process_mode mode;
          m = (if asked \<notin> set gate_modes then ''shadow'' else asked)
      in case dev of
           None \<Rightarrow> conclude capability m (Some Unknown_device)
         | Some d \<Rightarrow>
             if d_revoked d then conclude capability m (Some Device_revoked)
             else if \<not> has_capability (d_capabilities d) capability
                  then conclude capability m (Some Capability_not_advertised)
             else conclude capability m None)"

section \<open>Rows\<close>

record device_session =
  s_id :: nat
  s_device :: nat
  s_started_at :: instant
  s_ended_at :: "instant option"
  s_software_version :: string
  s_build_id :: "string option"

record device_command =
  c_id :: nat
  c_device :: nat
  c_capability :: string
  c_payload :: json
  c_key :: string
  c_status :: command_status
  c_result :: "json option"
  c_error_class :: "string option"
  c_error_message :: "string option"
  c_trace_id :: string
  c_created_at :: instant
  c_expires_at :: instant
  c_delivered_at :: "instant option"
  c_terminal_at :: "instant option"

record enrollment_token =
  t_hash :: string
  t_expires_at :: instant
  t_used_at :: "instant option"

record audit_event =
  a_category :: string
  a_action :: string
  a_device :: "nat option"
  a_command :: "nat option"
  a_trace_id :: "string option"

record broker_db =
  devices :: "device list"
  sessions :: "device_session list"
  commands :: "device_command list"
  tokens :: "enrollment_token list"
  audits :: "audit_event list"

definition audit ::
    "string \<Rightarrow> string \<Rightarrow> nat option \<Rightarrow> nat option \<Rightarrow> string option \<Rightarrow> broker_db \<Rightarrow> broker_db" where
  "audit category action dev cmd trace_id db =
     db\<lparr>audits := audits db @ [\<lparr>a_category = category, a_action = action, a_device = dev,
                                a_command = cmd, a_trace_id = trace_id\<rparr>]\<rparr>"

section \<open>Enrollment and devices\<close>

definition issue_enrollment_token ::
    "(string \<Rightarrow> string) \<Rightarrow> string \<Rightarrow> int \<Rightarrow> string option \<Rightarrow> instant \<Rightarrow> broker_db \<Rightarrow> (string \<times> instant) \<times> broker_db"
where
  "issue_enrollment_token hash token ttl_s trace_id now db =
     (let expires = now + seconds ttl_s
      in ((token, expires),
          audit ''device'' ''enrollment_token_issued'' None None trace_id
            (db\<lparr>tokens := tokens db @
               [\<lparr>t_hash = hash token, t_expires_at = expires, t_used_at = None\<rparr>]\<rparr>)))"

definition token_usable :: "string \<Rightarrow> instant \<Rightarrow> enrollment_token \<Rightarrow> bool" where
  "token_usable h now t = (t_hash t = h \<and> t_used_at t = None \<and> t_expires_at t > now)"

definition consume_enrollment_token ::
    "(string \<Rightarrow> string) \<Rightarrow> string \<Rightarrow> instant \<Rightarrow> broker_db \<Rightarrow> bool \<times> broker_db" where
  "consume_enrollment_token hash token now db =
     (length (filter (token_usable (hash token) now) (tokens db)) = 1,
      db\<lparr>tokens := map (\<lambda>t. if token_usable (hash token) now t then t\<lparr>t_used_at := Some now\<rparr> else t)
                     (tokens db)\<rparr>)"

definition enroll_device ::
    "(string \<Rightarrow> bool) \<Rightarrow> nat \<Rightarrow> string \<Rightarrow> string \<Rightarrow> string \<Rightarrow> string list \<Rightarrow> string option \<Rightarrow> instant \<Rightarrow>
     broker_db \<Rightarrow> string + device \<times> broker_db" where
  "enroll_device key_ok fresh name platform key caps trace_id now db =
     (if \<not> key_ok key then Inl ''invalid SPKI public key''
      else
        let d = \<lparr>d_id = fresh, d_name = name, d_platform = platform, d_public_key = key,
                 d_capabilities = caps, d_enrolled_at = now, d_last_seen_at = None,
                 d_revoked = False, d_revoked_at = None, d_metadata = [],
                 d_software_version = None, d_build_id = None, d_source_revision = None\<rparr>
        in Inr (d, audit ''device'' ''device_enrolled'' (Some fresh) None trace_id
                     (db\<lparr>devices := devices db @ [d]\<rparr>)))"

definition get_device :: "broker_db \<Rightarrow> nat \<Rightarrow> device option" where
  "get_device db i = row_get d_id i (devices db)"

definition put_device :: "nat \<Rightarrow> (device \<Rightarrow> device) \<Rightarrow> broker_db \<Rightarrow> broker_db" where
  "put_device i f db = db\<lparr>devices := row_put d_id i f (devices db)\<rparr>"

definition list_devices :: "broker_db \<Rightarrow> device list" where
  "list_devices db = sort_key d_enrolled_at (devices db)"

definition revoke_device ::
    "nat \<Rightarrow> string option \<Rightarrow> instant \<Rightarrow> broker_db \<Rightarrow> device option \<times> broker_db" where
  "revoke_device i trace_id now db =
     (case get_device db i of
        None \<Rightarrow> (None, db)
      | Some d \<Rightarrow>
          if d_revoked d then (Some d, db)
          else (Some (d\<lparr>d_revoked := True, d_revoked_at := Some now\<rparr>),
                audit ''device'' ''device_revoked'' (Some i) None trace_id
                  (put_device i (\<lambda>d. d\<lparr>d_revoked := True, d_revoked_at := Some now\<rparr>) db)))"

definition touch_last_seen :: "nat \<Rightarrow> instant \<Rightarrow> broker_db \<Rightarrow> broker_db" where
  "touch_last_seen i now db = put_device i (\<lambda>d. d\<lparr>d_last_seen_at := Some now\<rparr>) db"

definition apply_hello ::
    "nat \<Rightarrow> string list \<Rightarrow> string \<Rightarrow> string option \<Rightarrow> string option \<Rightarrow> broker_db \<Rightarrow> broker_db" where
  "apply_hello i caps version build revision db =
     put_device i (\<lambda>d. d\<lparr>d_capabilities := caps, d_software_version := Some version,
                          d_build_id := build, d_source_revision := revision\<rparr>) db"

definition with_key :: "string \<Rightarrow> json option \<Rightarrow> (string \<times> json) list \<Rightarrow> (string \<times> json) list" where
  "with_key k v kvs = (case v of None \<Rightarrow> kvs | Some j \<Rightarrow> AList.update k j kvs)"

definition update_device_metadata ::
    "nat \<Rightarrow> json option \<Rightarrow> json option \<Rightarrow> json option \<Rightarrow> string option \<Rightarrow> broker_db \<Rightarrow>
     device option \<times> broker_db" where
  "update_device_metadata i aliases labels pol trace_id db =
     (case get_device db i of
        None \<Rightarrow> (None, db)
      | Some d \<Rightarrow>
          let f = (\<lambda>d. d\<lparr>d_metadata := with_key ''policy'' pol
                     (with_key ''labels'' labels (with_key ''aliases'' aliases (d_metadata d)))\<rparr>)
          in (Some (f d), audit ''device'' ''device_metadata_updated'' (Some i) None trace_id
                            (put_device i f db)))"

section \<open>Sessions\<close>

definition start_device_session ::
    "nat \<Rightarrow> nat \<Rightarrow> string \<Rightarrow> string option \<Rightarrow> string option \<Rightarrow> instant \<Rightarrow> broker_db \<Rightarrow>
     device_session \<times> broker_db" where
  "start_device_session fresh dev version build trace_id now db =
     (let row = \<lparr>s_id = fresh, s_device = dev, s_started_at = now, s_ended_at = None,
                 s_software_version = version, s_build_id = build\<rparr>
      in (row, audit ''device_session'' ''session_started'' (Some dev) None trace_id
                 (touch_last_seen dev now (db\<lparr>sessions := sessions db @ [row]\<rparr>))))"

definition end_device_session ::
    "nat \<Rightarrow> nat \<Rightarrow> string option \<Rightarrow> instant \<Rightarrow> broker_db \<Rightarrow> broker_db" where
  "end_device_session sid dev trace_id now db =
     (let open_row = (\<lambda>r. s_id r = sid \<and> s_ended_at r = None);
          db1 = touch_last_seen dev now
                  (db\<lparr>sessions := map (\<lambda>r. if open_row r then r\<lparr>s_ended_at := Some now\<rparr> else r)
                                   (sessions db)\<rparr>)
      in if filter open_row (sessions db) \<noteq> []
         then audit ''device_session'' ''session_ended'' (Some dev) None trace_id db1 else db1)"

definition end_orphan_sessions :: "instant \<Rightarrow> broker_db \<Rightarrow> nat \<times> broker_db" where
  "end_orphan_sessions now db =
     (length (filter (\<lambda>r. s_ended_at r = None) (sessions db)),
      db\<lparr>sessions := map (\<lambda>r. if s_ended_at r = None then r\<lparr>s_ended_at := Some now\<rparr> else r)
                       (sessions db)\<rparr>)"

section \<open>Commands\<close>

definition find_by_key :: "nat \<Rightarrow> string \<Rightarrow> device_command list \<Rightarrow> device_command option" where
  "find_by_key dev key cmds = find (\<lambda>c. c_device c = dev \<and> c_key c = key) cmds"

definition put_command ::
    "nat \<Rightarrow> (device_command \<Rightarrow> device_command) \<Rightarrow> broker_db \<Rightarrow> broker_db" where
  "put_command i f db = db\<lparr>commands := row_put c_id i f (commands db)\<rparr>"

record command_request =
  rq_device :: nat
  rq_capability :: string
  rq_payload :: json
  rq_key :: string
  rq_timeout_s :: int
  rq_trace_id :: string
  rq_gate_mode :: "string option"

definition new_command :: "nat \<Rightarrow> command_request \<Rightarrow> instant \<Rightarrow> device_command" where
  "new_command fresh rq now =
     \<lparr>c_id = fresh, c_device = rq_device rq, c_capability = rq_capability rq,
      c_payload = rq_payload rq, c_key = rq_key rq, c_status = Pending, c_result = None,
      c_error_class = None, c_error_message = None, c_trace_id = rq_trace_id rq,
      c_created_at = now, c_expires_at = now + seconds (rq_timeout_s rq),
      c_delivered_at = None, c_terminal_at = None\<rparr>"

text \<open>
  \<open>rival\<close> is a row that another process commits after the look-up.  The insert fails on the unique key, which a
  rival explains, or on the foreign key of a device that is not there; then no winner is found, and
  \<open>scalar_one\<close> raises.
\<close>

datatype create_failure = Command_refused gate_decision | No_result_found

definition create_command ::
    "string \<Rightarrow> nat \<Rightarrow> command_request \<Rightarrow> device_command option \<Rightarrow> instant \<Rightarrow> broker_db \<Rightarrow>
     create_failure + (device_command \<times> bool) \<times> broker_db" where
  "create_command process_mode fresh rq rival now db =
     (case find_by_key (rq_device rq) (rq_key rq) (commands db) of
        Some existing \<Rightarrow> Inr ((existing, False), db)
      | None \<Rightarrow>
          let gate = gate_evaluate process_mode (get_device db (rq_device rq))
                       (rq_capability rq) (rq_gate_mode rq)
          in if \<not> gd_allowed gate then Inl (Command_refused gate)
             else
               let db1 = (case rival of None \<Rightarrow> db
                          | Some r \<Rightarrow> db\<lparr>commands := commands db @ [r]\<rparr>);
                   c = new_command fresh rq now
               in case find_by_key (rq_device rq) (rq_key rq) (commands db1) of
                    Some winner \<Rightarrow> Inr ((winner, False), db1)
                  | None \<Rightarrow>
                      if get_device db (rq_device rq) = None then Inl No_result_found
                      else Inr ((c, True),
                        audit ''device_command'' ''command_created'' (Some (rq_device rq)) (Some fresh)
                          (Some (rq_trace_id rq)) (db1\<lparr>commands := commands db1 @ [c]\<rparr>)))"

definition get_command :: "broker_db \<Rightarrow> nat \<Rightarrow> nat \<Rightarrow> device_command option" where
  "get_command db dev i =
     (case row_get c_id i (commands db) of None \<Rightarrow> None
      | Some c \<Rightarrow> if c_device c \<noteq> dev then None else Some c)"

definition pending_undelivered_commands :: "nat list \<Rightarrow> instant \<Rightarrow> broker_db \<Rightarrow> device_command list" where
  "pending_undelivered_commands devs now db =
     filter (\<lambda>c. c_device c \<in> set devs \<and> c_status c = Pending \<and> c_expires_at c > now) (commands db)"

definition deliverable_commands :: "nat \<Rightarrow> instant \<Rightarrow> broker_db \<Rightarrow> device_command list" where
  "deliverable_commands dev now db =
     sort_key c_created_at (filter (\<lambda>c. c_device c = dev \<and> \<not> is_terminal (c_status c) \<and>
                                        c_expires_at c > now) (commands db))"

definition recent_command_outcomes :: "nat \<Rightarrow> nat \<Rightarrow> broker_db \<Rightarrow> device_command list" where
  "recent_command_outcomes dev limit db =
     take limit (sort_key (\<lambda>c. case c_terminal_at c of None \<Rightarrow> (0::nat, 0) | Some t \<Rightarrow> (1, - t))
       (filter (\<lambda>c. c_device c = dev \<and> is_terminal (c_status c)) (commands db)))"

definition delivered_row :: "instant \<Rightarrow> device_command \<Rightarrow> device_command" where
  "delivered_row now c =
     c\<lparr>c_delivered_at := (if c_delivered_at c = None then Some now else c_delivered_at c),
       c_status := (if c_status c = Pending then Delivered else c_status c)\<rparr>"

definition mark_command_delivered ::
    "nat \<Rightarrow> instant \<Rightarrow> broker_db \<Rightarrow> device_command option \<times> broker_db" where
  "mark_command_delivered i now db =
     (case row_get c_id i (commands db) of
        None \<Rightarrow> (None, db)
      | Some c \<Rightarrow>
          let changed = (c_delivered_at c = None \<or> c_status c = Pending);
              db1 = put_command i (delivered_row now) db
          in (Some (delivered_row now c),
              if changed
              then audit ''device_command'' ''command_delivered'' (Some (c_device c)) (Some i)
                     (Some (c_trace_id c)) db1
              else db1))"

record ack =
  ack_status :: string
  ack_result :: "json option"
  ack_error_class :: "string option"
  ack_error_message :: "string option"

definition acked_row :: "ack \<Rightarrow> command_status \<Rightarrow> instant \<Rightarrow> device_command \<Rightarrow> device_command" where
  "acked_row a new now c =
     (if new \<in> {Succeeded, Failed}
      then c\<lparr>c_status := new, c_terminal_at := Some now, c_result := ack_result a,
             c_error_class := ack_error_class a, c_error_message := ack_error_message a\<rparr>
      else c\<lparr>c_status := new\<rparr>)"

text \<open>The result tells whether a device defect is to be reported (a failed command).\<close>

definition apply_command_ack ::
    "nat \<Rightarrow> nat \<Rightarrow> ack \<Rightarrow> instant \<Rightarrow> broker_db \<Rightarrow> string + (decision option \<times> bool) \<times> broker_db" where
  "apply_command_ack dev i a now db =
     (case get_command db dev i of
        None \<Rightarrow> Inr ((None, False), db)
      | Some c \<Rightarrow>
          bind_sum (classify_transition (c_status c) (ack_status a)) (\<lambda>(dec, new).
            if dec = Apply
            then Inr ((Some Apply, new = Failed),
                   audit ''device_command'' (''command_ack_'' @ ack_status a) (Some dev) (Some i)
                     (Some (c_trace_id c)) (put_command i (acked_row a new now) db))
            else Inr ((Some dec, False), db)))"

datatype cancel_outcome = Not_found | Already_terminal | Cancel_done | Forward

definition cancelled_row :: "instant \<Rightarrow> device_command \<Rightarrow> device_command" where
  "cancelled_row now c = c\<lparr>c_status := Cancelled, c_terminal_at := Some now,
     c_error_class := Some ''cancelled'',
     c_error_message := Some ''cancelled by owner before delivery''\<rparr>"

definition cancel_command ::
    "nat \<Rightarrow> nat \<Rightarrow> string option \<Rightarrow> instant \<Rightarrow> broker_db \<Rightarrow> cancel_outcome \<times> broker_db" where
  "cancel_command dev i trace_id now db =
     (case get_command db dev i of
        None \<Rightarrow> (Not_found, db)
      | Some c \<Rightarrow>
          if is_terminal (c_status c) then (Already_terminal, db)
          else
            let tr = (case trace_id of Some t \<Rightarrow> if t = [] then Some (c_trace_id c) else Some t
                      | None \<Rightarrow> Some (c_trace_id c));
                db1 = audit ''device_command'' ''command_cancel_requested'' (Some dev) (Some i) tr db
            in if c_status c = Pending
               then (Cancel_done, audit ''device_command'' ''command_cancelled'' (Some dev) (Some i) tr
                                   (put_command i (cancelled_row now) db1))
               else (Forward, db1))"

definition due :: "instant \<Rightarrow> device_command \<Rightarrow> bool" where
  "due now c = (c_status c \<in> {Pending, Delivered} \<and> c_expires_at c \<le> now)"

definition expired_row :: "instant \<Rightarrow> device_command \<Rightarrow> device_command" where
  "expired_row now c = c\<lparr>c_status := Expired, c_terminal_at := Some now,
     c_error_class := Some ''command_expired'', c_error_message := Some ''expired before completion''\<rparr>"

definition expire_due_commands :: "instant \<Rightarrow> broker_db \<Rightarrow> device_command list \<times> broker_db" where
  "expire_due_commands now db =
     (let gone = filter (due now) (commands db)
      in (map (expired_row now) gone,
          fold (\<lambda>c. audit ''device_command'' ''command_expired'' (Some (c_device c)) (Some (c_id c))
                      (Some (c_trace_id c))) gone
            (db\<lparr>commands := map (\<lambda>c. if due now c then expired_row now c else c) (commands db)\<rparr>)))"

section \<open>Requests to the broker\<close>

datatype broker_op =
    Op_issue string int "string option" instant
  | Op_consume string instant
  | Op_enroll nat string string string "string list" "string option" instant
  | Op_revoke nat "string option" instant
  | Op_touch nat instant
  | Op_hello nat "string list" string "string option" "string option"
  | Op_metadata nat "json option" "json option" "json option" "string option"
  | Op_start nat nat string "string option" "string option" instant
  | Op_end nat nat "string option" instant
  | Op_orphans instant
  | Op_create nat command_request "device_command option" instant
  | Op_delivered nat instant
  | Op_ack nat nat ack instant
  | Op_cancel nat nat "string option" instant
  | Op_expire instant

record broker_env =
  be_hash :: "string \<Rightarrow> string"
  be_key_ok :: "string \<Rightarrow> bool"
  be_mode :: string

text \<open>The database after a request; one that raises leaves it as it was.\<close>

fun broker_step :: "broker_env \<Rightarrow> broker_op \<Rightarrow> broker_db \<Rightarrow> broker_db" where
  "broker_step e (Op_issue token ttl tr now) db = snd (issue_enrollment_token (be_hash e) token ttl tr now db)"
| "broker_step e (Op_consume token now) db = snd (consume_enrollment_token (be_hash e) token now db)"
| "broker_step e (Op_enroll i name platform key caps tr now) db =
     (case enroll_device (be_key_ok e) i name platform key caps tr now db of
        Inl _ \<Rightarrow> db | Inr (_, db') \<Rightarrow> db')"
| "broker_step e (Op_revoke i tr now) db = snd (revoke_device i tr now db)"
| "broker_step e (Op_touch i now) db = touch_last_seen i now db"
| "broker_step e (Op_hello i caps v b r) db = apply_hello i caps v b r db"
| "broker_step e (Op_metadata i a l p tr) db = snd (update_device_metadata i a l p tr db)"
| "broker_step e (Op_start i dev v b tr now) db = snd (start_device_session i dev v b tr now db)"
| "broker_step e (Op_end i dev tr now) db = end_device_session i dev tr now db"
| "broker_step e (Op_orphans now) db = snd (end_orphan_sessions now db)"
| "broker_step e (Op_create i rq rival now) db =
     (case create_command (be_mode e) i rq rival now db of Inl _ \<Rightarrow> db | Inr (_, db') \<Rightarrow> db')"
| "broker_step e (Op_delivered i now) db = snd (mark_command_delivered i now db)"
| "broker_step e (Op_ack dev i a now) db =
     (case apply_command_ack dev i a now db of Inl _ \<Rightarrow> db | Inr (_, db') \<Rightarrow> db')"
| "broker_step e (Op_cancel dev i tr now) db = snd (cancel_command dev i tr now db)"
| "broker_step e (Op_expire now) db = snd (expire_due_commands now db)"

text \<open>
  What the database guarantees about a request: new rows get new ids, and a rival row does not
  violate the unique key of the commands.  \<open>ack_names\<close> are the statuses that the frame parser lets
  through.
\<close>

definition rival_ok :: "nat \<Rightarrow> device_command \<Rightarrow> broker_db \<Rightarrow> bool" where
  "rival_ok fresh r db = (c_id r \<noteq> fresh \<and> c_id r \<notin> c_id ` set (commands db) \<and>
     find_by_key (c_device r) (c_key r) (commands db) = None \<and> c_status r = Pending \<and>
     c_terminal_at r = None)"

definition ack_names :: "string list" where
  "ack_names = [''accepted'', ''running'', ''succeeded'', ''failed'']"

fun op_ok :: "broker_op \<Rightarrow> broker_db \<Rightarrow> bool" where
  "op_ok (Op_create i rq rival now) db =
     (i \<notin> c_id ` set (commands db) \<and> (case rival of None \<Rightarrow> True | Some r \<Rightarrow> rival_ok i r db))"
| "op_ok (Op_issue token ttl tr now) db = True"
| "op_ok (Op_ack dev i a now) db = (ack_status a \<in> set ack_names)"
| "op_ok _ db = True"

inductive broker_steps :: "broker_env \<Rightarrow> broker_db \<Rightarrow> broker_db \<Rightarrow> bool" for e where
  none: "broker_steps e db db"
| more: "broker_steps e db db1 \<Longrightarrow> op_ok oper db1 \<Longrightarrow> broker_steps e db (broker_step e oper db1)"

section \<open>How one command row may change\<close>

definition row_rest :: "device_command \<Rightarrow> nat \<times> nat \<times> string \<times> json \<times> string \<times> string \<times> instant \<times> instant" where
  "row_rest c = (c_id c, c_device c, c_capability c, c_payload c, c_key c, c_trace_id c,
     c_created_at c, c_expires_at c)"

definition outcome :: "device_command \<Rightarrow>
    command_status \<times> json option \<times> string option \<times> string option \<times> instant option" where
  "outcome c = (c_status c, c_result c, c_error_class c, c_error_message c, c_terminal_at c)"

definition evolves :: "device_command \<Rightarrow> device_command \<Rightarrow> bool" where
  "evolves c c' \<longleftrightarrow> row_rest c' = row_rest c \<and> rank (c_status c) \<le> rank (c_status c') \<and>
     (is_terminal (c_status c) \<longrightarrow> outcome c' = outcome c)"

lemma evolves_refl: "evolves c c"
  by (simp add: evolves_def)

lemma outcome_status: "outcome c' = outcome c \<Longrightarrow> c_status c' = c_status c"
  by (simp add: outcome_def)

lemma evolves_trans: "evolves a b \<Longrightarrow> evolves b c \<Longrightarrow> evolves a c"
  using outcome_status [of b a] by (auto simp: evolves_def)

interpretation cmd: row_development c_id evolves
  by unfold_locales (rule evolves_refl, rule evolves_trans)

lemma evolves_id: "evolves c c' \<Longrightarrow> c_id c' = c_id c \<and> c_device c' = c_device c \<and> c_key c' = c_key c"
  by (simp add: evolves_def row_rest_def)

lemma rank_le4: "rank s \<le> 4"
  by (cases s) auto

lemma terminal_rank: "is_terminal s \<longleftrightarrow> rank s = 4"
  by (cases s) (auto simp: is_terminal_def)

lemma evolves_delivered: "evolves c (delivered_row now c)"
  by (cases "c_status c")
     (auto simp: evolves_def delivered_row_def row_rest_def outcome_def is_terminal_def)

lemma evolves_acked: "classify (c_status c) new = Apply \<Longrightarrow> evolves c (acked_row a new now c)"
  by (auto simp: evolves_def acked_row_def row_rest_def classify_def terminal_rank split: if_splits)

lemma evolves_cancelled: "\<not> is_terminal (c_status c) \<Longrightarrow> evolves c (cancelled_row now c)"
  using rank_le4 by (simp add: evolves_def cancelled_row_def row_rest_def)

lemma evolves_expired: "due now c \<Longrightarrow> evolves c (expired_row now c)"
  by (auto simp: evolves_def expired_row_def row_rest_def due_def is_terminal_def)

section \<open>The invariant of the command table\<close>

definition cmd_key :: "device_command \<Rightarrow> nat \<times> string" where
  "cmd_key c = (c_device c, c_key c)"

definition stamped :: "device_command \<Rightarrow> bool" where
  "stamped c = (is_terminal (c_status c) \<longleftrightarrow> c_terminal_at c \<noteq> None)"

definition cmds_inv :: "device_command list \<Rightarrow> bool" where
  "cmds_inv cs \<longleftrightarrow> distinct (map c_id cs) \<and> distinct (map cmd_key cs) \<and> list_all stamped cs"

lemma find_by_key_None: "find_by_key d k cs = None \<longleftrightarrow> (d, k) \<notin> cmd_key ` set cs"
  by (auto simp: find_by_key_def find_None_iff cmd_key_def)

lemma find_by_key_Some: "find_by_key d k cs = Some c \<Longrightarrow> c \<in> set cs \<and> c_device c = d \<and> c_key c = k"
  by (auto simp: find_by_key_def find_Some_iff)

lemma find_by_key_unique:
  "distinct (map cmd_key cs) \<Longrightarrow> c \<in> set cs \<Longrightarrow> find_by_key (c_device c) (c_key c) cs = Some c"
  by (induction cs) (auto simp: find_by_key_def cmd_key_def image_iff)

lemma cmds_inv_append:
  "cmds_inv cs \<Longrightarrow> c_id c \<notin> c_id ` set cs \<Longrightarrow> find_by_key (c_device c) (c_key c) cs = None \<Longrightarrow>
   stamped c \<Longrightarrow> cmds_inv (cs @ [c])"
  by (auto simp: cmds_inv_def find_by_key_None cmd_key_def)

lemma cmds_inv_map:
  assumes "cmds_inv cs" and "\<And>c. c \<in> set cs \<Longrightarrow> row_rest (f c) = row_rest c \<and> stamped (f c)"
  shows "cmds_inv (map f cs)"
proof -
  have "map c_id (map f cs) = map c_id cs" "map cmd_key (map f cs) = map cmd_key cs"
    using assms(2) by (auto simp: row_rest_def cmd_key_def)
  moreover have "list_all stamped (map f cs)" using assms(2) by (simp add: list_all_iff)
  ultimately show ?thesis using assms(1) unfolding cmds_inv_def by (simp only:)
qed

lemma stamped_rows:
  "stamped c \<Longrightarrow> stamped (delivered_row now c)"
  "stamped (cancelled_row now c)"
  "stamped (expired_row now c)"
  by (auto simp: stamped_def delivered_row_def cancelled_row_def expired_row_def is_terminal_def)

lemma rows_rest [simp]:
  "row_rest (delivered_row now c) = row_rest c"
  "row_rest (cancelled_row now c) = row_rest c"
  "row_rest (expired_row now c) = row_rest c"
  "row_rest (acked_row a new now c) = row_rest c"
  by (simp_all add: row_rest_def delivered_row_def cancelled_row_def expired_row_def acked_row_def)

lemma stamped_acked:
  "stamped c \<Longrightarrow> \<not> is_terminal (c_status c) \<Longrightarrow> new \<notin> {Expired, Cancelled} \<Longrightarrow>
   stamped (acked_row a new now c)"
  by (auto simp: stamped_def acked_row_def is_terminal_def)

lemma audit_other [simp]:
  "commands (audit cat act dev cmd tr db) = commands db"
  "devices (audit cat act dev cmd tr db) = devices db"
  "sessions (audit cat act dev cmd tr db) = sessions db"
  "tokens (audit cat act dev cmd tr db) = tokens db"
  by (simp_all add: audit_def)

lemma put_device_other [simp]:
  "commands (put_device i f db) = commands db"
  "tokens (put_device i f db) = tokens db"
  by (simp_all add: put_device_def)

lemma put_command_other [simp]:
  "commands (put_command i f db) = row_put c_id i f (commands db)"
  "tokens (put_command i f db) = tokens db"
  "devices (put_command i f db) = devices db"
  by (simp_all add: put_command_def)

lemma fold_audit [simp]:
  "commands (fold (\<lambda>c. audit a b (d c) (e c) (t c)) cs db) = commands db"
  "tokens (fold (\<lambda>c. audit a b (d c) (e c) (t c)) cs db) = tokens db"
  by (induction cs arbitrary: db) auto

section \<open>What a request does to the commands\<close>

text \<open>Every request keeps the command rows, or changes each of them by one of the row updates, or
  appends new pending rows.\<close>

definition cmds_step :: "device_command list \<Rightarrow> device_command list \<Rightarrow> bool" where
  "cmds_step cs cs' \<longleftrightarrow> cmds_inv cs' \<and> developed c_id evolves cs cs'"

lemma cmds_step_refl: "cmds_inv cs \<Longrightarrow> cmds_step cs cs"
  by (simp add: cmds_step_def cmd.developed_refl)

lemma cmds_step_trans: "cmds_step xs ys \<Longrightarrow> cmds_step ys zs \<Longrightarrow> cmds_step xs zs"
  unfolding cmds_step_def using cmd.developed_trans by blast

lemma cmds_step_append:
  assumes "cmds_inv cs" and "c_id c \<notin> c_id ` set cs" and "find_by_key (c_device c) (c_key c) cs = None"
    and "stamped c"
  shows "cmds_step cs (cs @ [c])"
  unfolding cmds_step_def
  using cmds_inv_append [OF assms] cmd.developed_append [OF cmd.developed_refl] by blast

lemma cmds_step_map:
  assumes "cmds_inv cs"
    and "\<And>c. c \<in> set cs \<Longrightarrow> evolves c (f c) \<and> stamped (f c)"
  shows "cmds_step cs (map f cs)"
  unfolding cmds_step_def
  by (intro conjI cmds_inv_map cmd.developed_map) (use assms evolves_id in \<open>auto simp: evolves_def\<close>)

lemma cmds_step_put:
  assumes inv: "cmds_inv cs" and got: "row_get c_id i cs = Some c"
    and "evolves c (f c)" and "stamped (f c)"
  shows "cmds_step cs (row_put c_id i f cs)"
  unfolding row_put_def
proof (rule cmds_step_map [OF inv])
  fix r
  assume r: "r \<in> set cs"
  have "r = c" if "c_id r = i"
    using rows.get_unique [of c_id cs r] inv r that got by (simp add: cmds_inv_def)
  then show "evolves r (if c_id r = i then f r else r) \<and> stamped (if c_id r = i then f r else r)"
    using assms r by (auto simp: evolves_refl cmds_inv_def list_all_iff)
qed

lemma row_get_stamped: "cmds_inv cs \<Longrightarrow> row_get c_id i cs = Some c \<Longrightarrow> stamped c"
  using row_get_SomeD [of c_id i cs c] by (auto simp: cmds_inv_def list_all_iff)

lemma create_step:
  assumes inv: "cmds_inv (commands db)" and ok: "op_ok (Op_create i rq rival now) db"
    and cr: "create_command mode i rq rival now db = Inr ((c, b), db')"
  shows "cmds_step (commands db) (commands db')"
proof (cases "find_by_key (rq_device rq) (rq_key rq) (commands db)")
  case (Some e)
  then show ?thesis using cr cmds_step_refl [OF inv] by (simp add: create_command_def)
next
  case None
  define cs1 where "cs1 = (case rival of None \<Rightarrow> commands db | Some r \<Rightarrow> commands db @ [r])"
  have new: "c_id (new_command i rq now) = i" "c_device (new_command i rq now) = rq_device rq"
    "c_key (new_command i rq now) = rq_key rq" "stamped (new_command i rq now)"
    by (simp_all add: new_command_def stamped_def is_terminal_def)
  have st1: "cmds_step (commands db) cs1"
  proof (cases rival)
    case None
    then show ?thesis using cmds_step_refl [OF inv] by (simp add: cs1_def)
  next
    case (Some r)
    then show ?thesis using ok inv
      by (auto simp: cs1_def rival_ok_def stamped_def is_terminal_def intro!: cmds_step_append)
  qed
  have db': "commands db' = cs1 \<or>
      (find_by_key (rq_device rq) (rq_key rq) cs1 = None \<and> commands db' = cs1 @ [new_command i rq now])"
    using cr None
    by (auto simp: create_command_def cs1_def Let_def split: if_splits option.splits)
  have fresh: "i \<notin> c_id ` set cs1"
    using ok by (auto simp: cs1_def rival_ok_def split: option.splits)
  from db' show ?thesis
  proof
    assume "commands db' = cs1"
    then show ?thesis using st1 by simp
  next
    assume app: "find_by_key (rq_device rq) (rq_key rq) cs1 = None \<and>
      commands db' = cs1 @ [new_command i rq now]"
    have "cmds_step cs1 (cs1 @ [new_command i rq now])"
      using st1 fresh app new by (intro cmds_step_append) (auto simp: cmds_step_def)
    then show ?thesis using app cmds_step_trans [OF st1] by simp
  qed
qed

lemma get_command_SomeD: "get_command db dev i = Some c \<Longrightarrow> row_get c_id i (commands db) = Some c \<and> c_device c = dev"
  by (auto simp: get_command_def split: option.splits if_splits)

lemma ack_step:
  assumes inv: "cmds_inv (commands db)" and name: "ack_status a \<in> set ack_names"
    and ack: "apply_command_ack dev i a now db = Inr (r, db')"
  shows "cmds_step (commands db) (commands db')"
proof (cases "get_command db dev i")
  case None
  then show ?thesis using ack cmds_step_refl [OF inv] by (auto simp: apply_command_ack_def)
next
  case (Some c)
  note c = get_command_SomeD [OF Some]
  have "new \<notin> {Expired, Cancelled}" if "map_of status_names (ack_status a) = Some new" for new
    using that name by (auto simp: ack_names_def status_names_def)
  then show ?thesis
    using ack Some c cmds_step_refl [OF inv] row_get_stamped [OF inv conjunct1 [OF c]]
    by (auto simp: apply_command_ack_def classify_transition_def sum_simps
        intro!: cmds_step_put [OF inv conjunct1 [OF c]] evolves_acked stamped_acked
        split: option.splits if_splits) (auto simp: classify_def split: if_splits)
qed

lemma broker_step_cmds:
  assumes inv: "cmds_inv (commands db)" and ok: "op_ok oper db"
  shows "cmds_step (commands db) (commands (broker_step e oper db))"
proof (cases oper)
  case (Op_create i rq rival now)
  then show ?thesis
    using create_step [OF inv] ok cmds_step_refl [OF inv]
    by (auto split: sum.splits prod.splits simp del: op_ok.simps)
next
  case (Op_delivered i now)
  then show ?thesis
    using cmds_step_refl [OF inv] cmds_step_put [OF inv] evolves_delivered
      stamped_rows(1) row_get_stamped [OF inv]
    by (auto simp: mark_command_delivered_def Let_def split: option.splits)
next
  case (Op_ack dev i a now)
  then show ?thesis
    using ok ack_step [OF inv] cmds_step_refl [OF inv] by (auto split: sum.splits prod.splits)
next
  case (Op_cancel dev i tr now)
  show ?thesis
  proof (cases "get_command db dev i")
    case None
    then show ?thesis using Op_cancel cmds_step_refl [OF inv] by (simp add: cancel_command_def)
  next
    case (Some c)
    note c = get_command_SomeD [OF Some]
    show ?thesis
      using Op_cancel Some cmds_step_refl [OF inv] stamped_rows(2)
        cmds_step_put [OF inv conjunct1 [OF c], of "cancelled_row now"] evolves_cancelled [of c now]
      by (auto simp: cancel_command_def Let_def is_terminal_def)
  qed
next
  case (Op_expire now)
  then show ?thesis
    using inv by (auto simp: expire_due_commands_def Let_def cmds_inv_def list_all_iff
        intro!: cmds_step_map evolves_expired evolves_refl stamped_rows)
qed (use cmds_step_refl [OF inv] in
  \<open>auto simp: issue_enrollment_token_def consume_enrollment_token_def enroll_device_def revoke_device_def
    touch_last_seen_def apply_hello_def update_device_metadata_def start_device_session_def
    end_device_session_def end_orphan_sessions_def Let_def split: option.splits\<close>)

lemma broker_steps_cmds:
  "broker_steps e db db' \<Longrightarrow> cmds_inv (commands db) \<Longrightarrow> cmds_step (commands db) (commands db')"
proof (induction rule: broker_steps.induct)
  case (none db)
  then show ?case by (rule cmds_step_refl)
next
  case (more db db1 oper)
  then have st: "cmds_step (commands db) (commands db1)" by blast
  then have "cmds_step (commands db1) (commands (broker_step e oper db1))"
    using more by (intro broker_step_cmds) (simp_all add: cmds_step_def)
  then show ?case using cmds_step_trans [OF st] by blast
qed

section \<open>Enrollment tokens\<close>

definition spent :: "string \<Rightarrow> instant \<Rightarrow> enrollment_token list \<Rightarrow> bool" where
  "spent h now ts = (\<forall>t \<in> set ts. t_hash t = h \<longrightarrow> t_used_at t \<noteq> None \<or> t_expires_at t \<le> now)"

fun issues :: "(string \<Rightarrow> string) \<Rightarrow> string \<Rightarrow> broker_op \<Rightarrow> bool" where
  "issues hash h (Op_issue token _ _ _) = (hash token = h)"
| "issues hash h _ = False"

lemma broker_step_tokens:
  assumes "spent h start (tokens db)" and "\<not> issues (be_hash e) h oper"
  shows "spent h start (tokens (broker_step e oper db))"
proof (cases oper)
  case (Op_issue token ttl tr now)
  then show ?thesis using assms by (auto simp: issue_enrollment_token_def Let_def spent_def)
next
  case (Op_consume token now)
  then show ?thesis using assms by (auto simp: consume_enrollment_token_def spent_def)
next
  case (Op_create i rq rival now)
  then show ?thesis using assms
    by (auto simp: create_command_def Let_def split: sum.splits option.splits if_splits)
next
  case (Op_ack dev i a now)
  then show ?thesis using assms
    by (auto simp: apply_command_ack_def sum_simps split: sum.splits option.splits if_splits)
qed (use assms in \<open>auto simp: enroll_device_def revoke_device_def mark_command_delivered_def
    touch_last_seen_def apply_hello_def update_device_metadata_def start_device_session_def
    end_device_session_def end_orphan_sessions_def cancel_command_def expire_due_commands_def Let_def
    split: option.splits\<close>)

section \<open>Sample inputs\<close>

definition sample_broker_env :: broker_env where
  "sample_broker_env = \<lparr>be_hash = (\<lambda>s. ''h'' @ s), be_key_ok = (\<lambda>_. True), be_mode = ''enforce''\<rparr>"

definition empty_broker :: broker_db where
  "empty_broker = \<lparr>devices = [], sessions = [], commands = [], tokens = [], audits = []\<rparr>"

definition sample_rq :: command_request where
  "sample_rq = \<lparr>rq_device = 1, rq_capability = ''browser.search'', rq_payload = JObj [],
     rq_key = ''k'', rq_timeout_s = 60, rq_trace_id = ''t'', rq_gate_mode = None\<rparr>"

definition sample_db :: broker_db where
  "sample_db = broker_step sample_broker_env (Op_create 7 sample_rq None 5)
     (broker_step sample_broker_env (Op_enroll 1 ''pc'' ''windows'' ''key'' [''browser.chrome''] None 0) empty_broker)"

definition sample_ack :: "string \<Rightarrow> ack" where
  "sample_ack st = \<lparr>ack_status = st, ack_result = Some (JObj []), ack_error_class = None,
     ack_error_message = None\<rparr>"

lemma sample_cmds: "commands sample_db = [new_command 7 sample_rq 5]"
  by (simp add: sample_db_def sample_broker_env_def sample_rq_def empty_broker_def enroll_device_def audit_def
      create_command_def find_by_key_def gate_evaluate_def get_device_def row_get_Cons conclude_def
      has_capability_def family_marker_def family_markers_def namespace_of_def gate_modes_def effective_mode_def Let_def)

lemma sample_inv: "cmds_inv (commands sample_db)"
  unfolding sample_cmds by (simp add: cmds_inv_def new_command_def stamped_def is_terminal_def)

lemma sample_reachable: "broker_steps sample_broker_env empty_broker sample_db"
proof -
  have "broker_steps sample_broker_env empty_broker
      (broker_step sample_broker_env (Op_enroll 1 ''pc'' ''windows'' ''key'' [''browser.chrome''] None 0) empty_broker)"
    by (intro broker_steps.more broker_steps.none) simp
  then show ?thesis
    unfolding sample_db_def
    by (rule broker_steps.more) (simp add: empty_broker_def enroll_device_def audit_def sample_broker_env_def Let_def)
qed

section \<open>Properties\<close>

text \<open>
  C38. The command table stays well formed under every sequence of requests, redeliveries and racing
  inserts: ids are unique, no device has two commands with one idempotency key, and a command
  carries a terminal time exactly when its status is terminal.
\<close>
theorem command_table_invariant:
  assumes "broker_steps e empty_broker db"
  shows "distinct (map c_id (commands db)) \<and>
    distinct (map (\<lambda>c. (c_device c, c_key c)) (commands db)) \<and>
    (\<forall>c \<in> set (commands db). is_terminal (c_status c) = (c_terminal_at c \<noteq> None))"
proof -
  have "cmds_inv (commands empty_broker)" by (simp add: cmds_inv_def empty_broker_def)
  then have "cmds_inv (commands db)" using broker_steps_cmds [OF assms] by (simp add: cmds_step_def)
  then show ?thesis by (simp add: cmds_inv_def list_all_iff stamped_def cmd_key_def [abs_def])
qed

theorem command_table_invariant_witness:
  "broker_steps sample_broker_env empty_broker sample_db \<and> distinct (map c_id (commands sample_db))"
  using command_table_invariant [OF sample_reachable] sample_reachable by blast

text \<open>
  C1. The life of a command only moves forward.  Between any two moments its identity, device,
  capability, payload, key, trace id, creation and expiry do not change and its status does not
  lose rank; once the status is terminal, the status, the result, the error and the terminal time
  are frozen, whatever acknowledgements, cancellations, redeliveries or sweeps follow.
\<close>
theorem command_life_is_monotone:
  assumes "broker_steps e empty_broker db" and "broker_steps e db db'"
    and "row_get c_id i (commands db) = Some c"
  shows "\<exists>c'. row_get c_id i (commands db') = Some c' \<and> row_rest c' = row_rest c \<and>
    rank (c_status c) \<le> rank (c_status c') \<and>
    (is_terminal (c_status c) \<longrightarrow> outcome c' = outcome c)"
proof -
  have "cmds_inv (commands empty_broker)" by (simp add: cmds_inv_def empty_broker_def)
  then have "cmds_inv (commands db)"
    using broker_steps_cmds [OF assms(1)] by (simp add: cmds_step_def)
  then have "cmds_step (commands db) (commands db')" by (rule broker_steps_cmds [OF assms(2)])
  then show ?thesis
    using cmd.developed_get [OF _ _ assms(3)] by (auto simp: cmds_step_def cmds_inv_def evolves_def)
qed

theorem command_life_is_monotone_witness:
  "\<exists>c'. row_get c_id 7 (commands (broker_step sample_broker_env (Op_cancel 1 7 None 9) sample_db)) = Some c' \<and>
     rank Pending \<le> rank (c_status c')"
proof -
  have "broker_steps sample_broker_env sample_db (broker_step sample_broker_env (Op_cancel 1 7 None 9) sample_db)"
    by (intro broker_steps.more broker_steps.none) simp
  from command_life_is_monotone [OF sample_reachable this, of 7 "new_command 7 sample_rq 5"] show ?thesis
    by (auto simp: sample_cmds row_get_Cons new_command_def)
qed

text \<open>
  C16. Creating a command is idempotent for good: once a request was answered with a command, a
  later request with the same device and idempotency key, after any other traffic, with any other
  capability, payload or gate mode and whatever the device then advertises, is answered with the
  command of the same id, as not created, and changes nothing.
\<close>
theorem create_command_is_idempotent:
  assumes "broker_steps e empty_broker db" and "op_ok (Op_create i rq rival now) db"
    and "create_command (be_mode e) i rq rival now db = Inr ((c, b), db1)"
    and "broker_steps e db1 db2" and "rq_device rq' = rq_device rq" and "rq_key rq' = rq_key rq"
  shows "\<exists>c'. create_command mode j rq' rival' later db2 = Inr ((c', False), db2) \<and> c_id c' = c_id c \<and>
    row_rest c' = row_rest c"
proof -
  have "cmds_inv (commands empty_broker)" by (simp add: cmds_inv_def empty_broker_def)
  then have inv: "cmds_inv (commands db)"
    using broker_steps_cmds [OF assms(1)] by (simp add: cmds_step_def)
  have st1: "cmds_step (commands db) (commands db1)" by (rule create_step [OF inv assms(2,3)])
  then have st2: "cmds_step (commands db1) (commands db2)"
    by (intro broker_steps_cmds [OF assms(4)]) (simp add: cmds_step_def)
  have c: "c \<in> set (commands db1) \<and> c_device c = rq_device rq \<and> c_key c = rq_key rq"
    using assms(3)
    by (auto simp: create_command_def Let_def new_command_def dest!: find_by_key_Some
        split: option.splits if_splits)
  then obtain c' where c': "c' \<in> set (commands db2)" "evolves c c'"
    using st2 by (auto simp: cmds_step_def developed_def)
  then have "find_by_key (rq_device rq') (rq_key rq') (commands db2) = Some c'"
    using find_by_key_unique [of "commands db2" c'] st2 c evolves_id [OF c'(2)] assms(5,6)
    by (auto simp: cmds_step_def cmds_inv_def)
  then show ?thesis using c'(2) evolves_id by (auto simp: create_command_def evolves_def)
qed

theorem create_command_is_idempotent_witness:
  "\<exists>c'. create_command ''enforce'' 8 (sample_rq\<lparr>rq_capability := ''fs.read''\<rparr>) None 99
      (broker_step sample_broker_env (Op_cancel 1 7 None 9) sample_db)
    = Inr ((c', False), broker_step sample_broker_env (Op_cancel 1 7 None 9) sample_db) \<and> c_id c' = 7"
proof -
  have again: "create_command (be_mode sample_broker_env) 9 sample_rq None 6 sample_db =
      Inr ((new_command 7 sample_rq 5, False), sample_db)"
    by (simp add: create_command_def sample_cmds find_by_key_def new_command_def sample_rq_def)
  have ok: "op_ok (Op_create 9 sample_rq None 6) sample_db" by (simp add: sample_cmds new_command_def)
  have "broker_steps sample_broker_env sample_db (broker_step sample_broker_env (Op_cancel 1 7 None 9) sample_db)"
    by (intro broker_steps.more broker_steps.none) simp
  from create_command_is_idempotent [OF sample_reachable ok again this,
      of "sample_rq\<lparr>rq_capability := ''fs.read''\<rparr>" "''enforce''" 8 None 99]
  show ?thesis by (auto simp: new_command_def)
qed

text \<open>
  C39. The authority gate decides exactly as promised.  A request for a command that does not exist
  yet is refused if and only if the mode in force is \<open>enforce\<close> and the device is not authorised for
  it (unknown, revoked, or advertising neither the capability nor its family marker); the refusal
  names the first of these reasons.  Every mode other than \<open>enforce\<close>, a misspelt one included,
  refuses nothing; in such a mode a request for an unknown device, unless another process has just
  created that command, breaks the foreign key and ends in an error of another kind.
\<close>
theorem gate_decides_creation:
  assumes "find_by_key (rq_device rq) (rq_key rq) (commands db) = None"
  defines "dev \<equiv> get_device db (rq_device rq)"
  defines "authorised \<equiv> (\<exists>d. dev = Some d \<and> \<not> d_revoked d \<and>
    has_capability (d_capabilities d) (rq_capability rq))"
  shows "(\<exists>g. create_command mode i rq rival now db = Inl (Command_refused g)) =
      (effective_mode mode (rq_gate_mode rq) = ''enforce'' \<and> \<not> authorised) \<and>
    (\<forall>g. create_command mode i rq rival now db = Inl (Command_refused g) \<longrightarrow> gd_reason g =
      (case dev of None \<Rightarrow> Some Unknown_device
       | Some d \<Rightarrow> if d_revoked d then Some Device_revoked else Some Capability_not_advertised)) \<and>
    (create_command mode i rq rival now db = Inl No_result_found) =
      (effective_mode mode (rq_gate_mode rq) \<noteq> ''enforce'' \<and> dev = None \<and>
       (\<forall>r. rival = Some r \<longrightarrow> c_device r \<noteq> rq_device rq \<or> c_key r \<noteq> rq_key rq))"
proof -
  define gate where
    "gate = gate_evaluate mode (get_device db (rq_device rq)) (rq_capability rq) (rq_gate_mode rq)"
  have allowed: "gd_allowed gate \<longleftrightarrow> \<not> (effective_mode mode (rq_gate_mode rq) = ''enforce'' \<and> \<not> authorised)"
    by (auto simp: gate_def gate_evaluate_def conclude_def gate_modes_def authorised_def dev_def Let_def
        split: option.splits)
  have reason: "gd_reason gate = (case dev of None \<Rightarrow> Some Unknown_device
       | Some d \<Rightarrow> if d_revoked d then Some Device_revoked else Some Capability_not_advertised)"
    if "\<not> gd_allowed gate"
    using that by (auto simp: gate_def gate_evaluate_def conclude_def dev_def Let_def split: option.splits)
  have ref: "create_command mode i rq rival now db = Inl (Command_refused g) \<longleftrightarrow> \<not> gd_allowed gate \<and> g = gate" for g
    using assms(1) by (auto simp: create_command_def gate_def Let_def split: option.splits if_splits)
  have raced: "find_by_key (rq_device rq) (rq_key rq) (commands db @ [r]) = None \<longleftrightarrow>
      (c_device r \<noteq> rq_device rq \<or> c_key r \<noteq> rq_key rq)" for r
    using assms(1) by (auto simp: find_by_key_def find_None_iff)
  have "create_command mode i rq rival now db = Inl No_result_found \<longleftrightarrow>
      gd_allowed gate \<and> dev = None \<and>
      (\<forall>r. rival = Some r \<longrightarrow> c_device r \<noteq> rq_device rq \<or> c_key r \<noteq> rq_key rq)"
  proof (cases rival)
    case None
    then show ?thesis using assms(1) by (auto simp: create_command_def gate_def dev_def Let_def)
  next
    case (Some r)
    then show ?thesis using assms(1) raced [of r]
      by (cases "find_by_key (rq_device rq) (rq_key rq) (commands db @ [r])")
        (auto simp: create_command_def gate_def dev_def Let_def)
  qed
  moreover have "authorised \<Longrightarrow> dev \<noteq> None" by (auto simp: authorised_def)
  ultimately show ?thesis unfolding ref using allowed reason by blast
qed

theorem gate_decides_creation_witness:
  "(\<exists>g. create_command ''enforce'' 8 (sample_rq\<lparr>rq_device := 5\<rparr>) None 9 sample_db = Inl (Command_refused g)) \<and>
   create_command ''enforce'' 8 (sample_rq\<lparr>rq_device := 5, rq_gate_mode := Some ''Enforce''\<rparr>)
            None 9 sample_db = Inl No_result_found"
proof -
  have none: "find_by_key 5 ''k'' (commands sample_db) = None"
    by (simp add: sample_cmds find_by_key_def new_command_def sample_rq_def)
  have "get_device sample_db 5 = None"
    by (simp add: get_device_def sample_db_def sample_broker_env_def sample_rq_def empty_broker_def
        enroll_device_def audit_def create_command_def find_by_key_def gate_evaluate_def row_get_Cons
        conclude_def has_capability_def family_marker_def family_markers_def namespace_of_def
        gate_modes_def effective_mode_def Let_def)
  then show ?thesis
    using gate_decides_creation [of "sample_rq\<lparr>rq_device := 5\<rparr>" sample_db "''enforce''" 8 None 9]
      gate_decides_creation [of "sample_rq\<lparr>rq_device := 5, rq_gate_mode := Some ''Enforce''\<rparr>"
        sample_db "''enforce''" 8 None 9] none
    by (simp add: sample_rq_def effective_mode_def)
qed

text \<open>
  An enrollment token is good for one device: it is accepted only while it is known, unused and
  unexpired, and once it was accepted it is never accepted again, whatever happens in between,
  unless the same token is issued anew.
\<close>
theorem enrollment_token_single_use:
  assumes "fst (consume_enrollment_token (be_hash e) token now db)"
    and "list_all (\<lambda>oper. \<not> issues (be_hash e) (be_hash e token) oper) ops" and "now \<le> later"
  shows "(\<exists>t \<in> set (tokens db). t_hash t = be_hash e token \<and> t_used_at t = None \<and> now < t_expires_at t) \<and>
    \<not> fst (consume_enrollment_token (be_hash e) token later
        (fold (broker_step e) ops (snd (consume_enrollment_token (be_hash e) token now db))))"
proof
  let ?h = "be_hash e token"
  have one: "length (filter (token_usable ?h now) (tokens db)) = 1"
    using assms(1) by (simp add: consume_enrollment_token_def)
  then obtain t where "t \<in> set (filter (token_usable ?h now) (tokens db))"
    by (cases "filter (token_usable ?h now) (tokens db)") auto
  then show "\<exists>t \<in> set (tokens db). t_hash t = ?h \<and> t_used_at t = None \<and> now < t_expires_at t"
    by (auto simp: token_usable_def)
  have "spent ?h now (tokens (snd (consume_enrollment_token (be_hash e) token now db)))"
    by (auto simp: consume_enrollment_token_def spent_def token_usable_def)
  moreover have "spent ?h now (tokens db') \<Longrightarrow> spent ?h now (tokens (fold (broker_step e) ops db'))" for db'
    using assms(2) by (induction ops arbitrary: db') (simp_all add: broker_step_tokens)
  ultimately have "spent ?h now (tokens (fold (broker_step e) ops
      (snd (consume_enrollment_token (be_hash e) token now db))))"
    by blast
  then have "filter (token_usable ?h later) (tokens (fold (broker_step e) ops
      (snd (consume_enrollment_token (be_hash e) token now db)))) = []"
    using assms(3) by (fastforce simp: filter_empty_conv spent_def token_usable_def)
  then show "\<not> fst (consume_enrollment_token (be_hash e) token later
        (fold (broker_step e) ops (snd (consume_enrollment_token (be_hash e) token now db))))"
    by (simp add: consume_enrollment_token_def)
qed

theorem enrollment_token_single_use_witness:
  "\<not> fst (consume_enrollment_token (be_hash sample_broker_env) ''tok'' 20
       (fold (broker_step sample_broker_env) [Op_touch 1 15]
         (snd (consume_enrollment_token (be_hash sample_broker_env) ''tok'' 10
            (broker_step sample_broker_env (Op_issue ''tok'' 600 None 0) empty_broker)))))"
proof -
  have "fst (consume_enrollment_token (be_hash sample_broker_env) ''tok'' 10
            (broker_step sample_broker_env (Op_issue ''tok'' 600 None 0) empty_broker))"
    by (simp add: consume_enrollment_token_def issue_enrollment_token_def empty_broker_def
        sample_broker_env_def token_usable_def Let_def)
  from enrollment_token_single_use [OF this, of "[Op_touch 1 15]" 20] show ?thesis by simp
qed

end
