(* ===== verification/Broker_Runtime.thy ===== *)
theory Broker_Runtime imports Prelude "HOL-Library.AList" begin

text \<open>
  The in-memory side of the device broker (\<open>broker/runtime.py\<close>, delivery and connection life cycle
  of \<open>broker/ws.py\<close>): which device is connected, the claims that keep a command from being sent twice
  on one connection, and the hand-over of all sessions to the other colour of a release.  The
  asynchronous code is a step relation whose steps are the stretches between two awaits.
\<close>

section \<open>One connection and its claims\<close>

definition sent_memory :: nat where
  "sent_memory = 1024"

record connection =
  cn_device :: nat
  cn_session :: nat
  cn_peer_ip :: "string option"
  cn_sent :: "nat list"
  cn_guard :: "nat list option"

definition new_connection :: "nat \<Rightarrow> nat \<Rightarrow> string option \<Rightarrow> connection" where
  "new_connection dev sess ip =
     \<lparr>cn_device = dev, cn_session = sess, cn_peer_ip = ip, cn_sent = [], cn_guard = Some []\<rparr>"

text \<open>The ordered dictionary of claimed ids, oldest first; the oldest are forgotten.\<close>

definition claim :: "nat \<Rightarrow> connection \<Rightarrow> bool \<times> connection" where
  "claim cmd c =
     (if cmd \<in> set (cn_sent c) then (False, c)
      else let kept = cn_sent c @ [cmd]
           in (True, c\<lparr>cn_sent := drop (length kept - sent_memory) kept\<rparr>))"

definition release_claim :: "nat \<Rightarrow> connection \<Rightarrow> connection" where
  "release_claim cmd c = c\<lparr>cn_sent := removeAll cmd (cn_sent c)\<rparr>"

definition remembered :: "connection \<Rightarrow> nat" where
  "remembered c = length (cn_sent c)"

definition note_delivered :: "nat \<Rightarrow> connection \<Rightarrow> connection" where
  "note_delivered cmd c = c\<lparr>cn_guard := map_option (\<lambda>g. List.insert cmd g) (cn_guard c)\<rparr>"

definition already_sent :: "nat \<Rightarrow> connection \<Rightarrow> bool" where
  "already_sent cmd c = (case cn_guard c of None \<Rightarrow> False | Some g \<Rightarrow> cmd \<in> set g)"

definition close_replay_window :: "connection \<Rightarrow> connection" where
  "close_replay_window c = c\<lparr>cn_guard := None\<rparr>"

lemma remembered_bound: "remembered c \<le> sent_memory \<Longrightarrow> remembered (snd (claim cmd c)) \<le> sent_memory"
  by (auto simp: claim_def remembered_def Let_def)

section \<open>Delivery by several paths at once\<close>

text \<open>
  A connection with the deliveries that are inside their send (claimed, not yet sent) and the
  frames that went out.  \<open>claims\<close> counts the claims that were granted.
\<close>

record link =
  lk_conn :: connection
  lk_sending :: "nat list"
  lk_frames :: "nat list"
  lk_claims :: nat

inductive deliver_step :: "link \<Rightarrow> link \<Rightarrow> bool" where
  begin_send: "claim cmd (lk_conn l) = (True, c') \<Longrightarrow>
     deliver_step l (l\<lparr>lk_conn := c', lk_sending := cmd # lk_sending l, lk_claims := Suc (lk_claims l)\<rparr>)"
| duplicate: "claim cmd (lk_conn l) = (False, c') \<Longrightarrow> deliver_step l (l\<lparr>lk_conn := c'\<rparr>)"
| send_done: "cmd \<in> set (lk_sending l) \<Longrightarrow>
     deliver_step l (l\<lparr>lk_conn := note_delivered cmd (lk_conn l),
        lk_sending := remove1 cmd (lk_sending l), lk_frames := lk_frames l @ [cmd]\<rparr>)"
| send_failed: "cmd \<in> set (lk_sending l) \<Longrightarrow>
     deliver_step l (l\<lparr>lk_conn := release_claim cmd (lk_conn l),
        lk_sending := remove1 cmd (lk_sending l)\<rparr>)"
| replay_over: "deliver_step l (l\<lparr>lk_conn := close_replay_window (lk_conn l)\<rparr>)"

inductive link_reachable :: "link \<Rightarrow> bool" where
  connected: "link_reachable \<lparr>lk_conn = new_connection dev sess ip, lk_sending = [], lk_frames = [], lk_claims = 0\<rparr>"
| step: "link_reachable l \<Longrightarrow> deliver_step l l' \<Longrightarrow> link_reachable l'"

inductive_cases deliver_stepE: "deliver_step l l'"

text \<open>While nothing has been forgotten, the memory holds every id that is being sent or was sent.\<close>

definition link_inv :: "link \<Rightarrow> bool" where
  "link_inv l \<longleftrightarrow> lk_claims l \<le> sent_memory \<longrightarrow>
     length (cn_sent (lk_conn l)) \<le> lk_claims l \<and>
     distinct (lk_sending l @ lk_frames l) \<and>
     set (lk_sending l @ lk_frames l) \<subseteq> set (cn_sent (lk_conn l))"

lemma claim_True:
  "claim cmd c = (True, c') \<Longrightarrow> cmd \<notin> set (cn_sent c) \<and>
     c' = c\<lparr>cn_sent := drop (Suc (length (cn_sent c)) - sent_memory) (cn_sent c @ [cmd])\<rparr>"
  by (auto simp: claim_def Let_def split: if_splits)

lemma claim_False: "claim cmd c = (False, c') \<Longrightarrow> c' = c"
  by (auto simp: claim_def Let_def split: if_splits)

lemma link_inv_step:
  assumes "deliver_step l l'" and "link_inv l"
  shows "link_inv l'"
  using assms(1)
proof (cases rule: deliver_step.cases)
  case (begin_send cmd c')
  note c = claim_True [OF begin_send(2)]
  show ?thesis
  proof (cases "Suc (lk_claims l) \<le> sent_memory")
    case True
    then have "length (cn_sent (lk_conn l)) \<le> lk_claims l" using assms(2) by (simp add: link_inv_def)
    then have "cn_sent c' = cn_sent (lk_conn l) @ [cmd]" using c True by simp
    then show ?thesis using assms(2) c True begin_send(1) by (auto simp: link_inv_def)
  qed (simp add: begin_send(1) link_inv_def)
next
  case (duplicate cmd c')
  then show ?thesis using assms(2) claim_False [OF duplicate(2)] by (simp add: link_inv_def)
next
  case (send_done cmd)
  then show ?thesis
    using assms(2) by (auto simp: link_inv_def note_delivered_def set_remove1_eq)
next
  case (send_failed cmd)
  then show ?thesis
    using assms(2)
    by (auto simp: link_inv_def release_claim_def set_remove1_eq
        intro: le_trans [OF length_removeAll_less_eq])
next
  case replay_over
  then show ?thesis using assms(2) by (simp add: link_inv_def close_replay_window_def)
qed

lemma link_reachable_inv: "link_reachable l \<Longrightarrow> link_inv l"
proof (induction rule: link_reachable.induct)
  case (connected dev sess ip)
  then show ?case by (simp add: link_inv_def new_connection_def)
next
  case (step l l')
  then show ?case using link_inv_step by blast
qed

section \<open>The connections of a process\<close>

record runtime =
  connections :: "(nat \<times> connection) list"
  draining :: bool
  drained_at :: "instant option"
  sessions_started :: nat
  sessions_ended :: nat

definition new_runtime :: runtime where
  "new_runtime = \<lparr>connections = [], draining = False, drained_at = None,
     sessions_started = 0, sessions_ended = 0\<rparr>"

definition register_connection :: "connection \<Rightarrow> runtime \<Rightarrow> runtime" where
  "register_connection c r =
     r\<lparr>connections := AList.update (cn_device c) c (connections r),
       sessions_started := Suc (sessions_started r)\<rparr>"

text \<open>Two connection objects are the same when they carry the same session.\<close>

definition unregister_connection :: "connection \<Rightarrow> runtime \<Rightarrow> runtime" where
  "unregister_connection c r =
     (let r1 = (case map_of (connections r) (cn_device c) of
                  None \<Rightarrow> r
                | Some cur \<Rightarrow> if cn_session cur = cn_session c
                              then r\<lparr>connections := AList.delete (cn_device c) (connections r)\<rparr> else r)
      in r1\<lparr>sessions_ended := Suc (sessions_ended r1)\<rparr>)"

definition is_online :: "nat \<Rightarrow> runtime \<Rightarrow> bool" where
  "is_online dev r = (map_of (connections r) dev \<noteq> None)"

definition device_id_for_peer_ip :: "string \<Rightarrow> runtime \<Rightarrow> nat option" where
  "device_id_for_peer_ip ip r =
     (let found = map (cn_device \<circ> snd) (filter (\<lambda>(d, c). cn_peer_ip c = Some ip) (connections r))
      in if length found = 1 then Some (hd found) else None)"

definition drain :: "instant \<Rightarrow> runtime \<Rightarrow> nat \<times> runtime" where
  "drain now r =
     (let r0 = r\<lparr>draining := True, drained_at := Some now\<rparr>
      in foldl (\<lambda>(closed, r). \<lambda>dev. case map_of (connections r) dev of
                  None \<Rightarrow> (closed, r)
                | Some c \<Rightarrow> (Suc closed, unregister_connection c r))
           (0, r0) (map fst (connections r)))"

definition undrain :: "runtime \<Rightarrow> bool \<times> runtime" where
  "undrain r = (draining r, r\<lparr>draining := False, drained_at := None\<rparr>)"

section \<open>The life of a device socket\<close>

text \<open>
  \<open>device_connect\<close> looks at \<open>draining\<close> when the socket is accepted, then runs the handshake (hello,
  challenge, auth and the database, all awaited), and registers the connection afterwards.
\<close>

record socket_state =
  ss_runtime :: runtime
  ss_shaking :: "connection list"
  ss_live :: "connection list"

inductive socket_step :: "socket_state \<Rightarrow> socket_state \<Rightarrow> bool" where
  accepted: "\<not> draining (ss_runtime s) \<Longrightarrow> socket_step s (s\<lparr>ss_shaking := c # ss_shaking s\<rparr>)"
| refused: "draining (ss_runtime s) \<Longrightarrow> socket_step s s"
| failed: "c \<in> set (ss_shaking s) \<Longrightarrow> socket_step s (s\<lparr>ss_shaking := remove1 c (ss_shaking s)\<rparr>)"
| registered: "c \<in> set (ss_shaking s) \<Longrightarrow>
     socket_step s (s\<lparr>ss_shaking := remove1 c (ss_shaking s), ss_live := c # ss_live s,
                      ss_runtime := register_connection c (ss_runtime s)\<rparr>)"
| closed: "c \<in> set (ss_live s) \<Longrightarrow>
     socket_step s (s\<lparr>ss_live := remove1 c (ss_live s),
                      ss_runtime := unregister_connection c (ss_runtime s)\<rparr>)"
| drained: "socket_step s (s\<lparr>ss_runtime := snd (drain now (ss_runtime s))\<rparr>)"
| undrained: "socket_step s (s\<lparr>ss_runtime := snd (undrain (ss_runtime s))\<rparr>)"

inductive socket_steps :: "socket_state \<Rightarrow> socket_state \<Rightarrow> bool" where
  none: "socket_steps s s"
| more: "socket_steps s t \<Longrightarrow> socket_step t u \<Longrightarrow> socket_steps s u"

definition initial_sockets :: socket_state where
  "initial_sockets = \<lparr>ss_runtime = new_runtime, ss_shaking = [], ss_live = []\<rparr>"

lemma map_of_update: "map_of (AList.update k v al) = (map_of al)(k \<mapsto> v)"
  by (rule AList.update_conv')

lemma register_online: "is_online (cn_device c) (register_connection c r)"
  by (simp add: is_online_def register_connection_def map_of_update)

text \<open>A connection that was replaced does not take its successor offline when its loop ends.\<close>

lemma unregister_keeps_successor:
  "map_of (connections r) (cn_device c) = Some cur \<Longrightarrow> cn_session cur \<noteq> cn_session c \<Longrightarrow>
   connections (unregister_connection c r) = connections r"
  by (simp add: unregister_connection_def Let_def)

text \<open>Draining a colour closes every connection and counts each session as ended; the loop of the
  socket counts it a second time when it unregisters.\<close>

lemma unregister_own:
  "map_of (connections r) (cn_device c) = Some c \<Longrightarrow>
   map_of (connections (unregister_connection c r)) = (map_of (connections r))(cn_device c := None) \<and>
   sessions_ended (unregister_connection c r) = Suc (sessions_ended r) \<and>
   draining (unregister_connection c r) = draining r"
  by (simp add: unregister_connection_def Let_def AList.delete_conv')

section \<open>Properties\<close>

text \<open>
  C15. However many paths (the request that created it, the opening replay, the sweep, a worker
  thread) try to deliver the commands of one connection and however their sends interleave and
  fail, no command goes out twice on that connection and none is inside two sends at once, as long
  as no more than \<open>SENT_MEMORY\<close> claims were granted; a command whose send failed may be claimed again.
\<close>
theorem no_command_sent_twice_on_connection:
  assumes "link_reachable l" and "lk_claims l \<le> sent_memory"
  shows "distinct (lk_sending l @ lk_frames l) \<and>
    (\<forall>cmd \<in> set (lk_sending l @ lk_frames l). claim cmd (lk_conn l) = (False, lk_conn l)) \<and>
    fst (claim cmd (release_claim cmd (lk_conn l)))"
proof -
  have "distinct (lk_sending l @ lk_frames l)"
    "set (lk_sending l @ lk_frames l) \<subseteq> set (cn_sent (lk_conn l))"
    using link_reachable_inv [OF assms(1)] assms(2) by (auto simp: link_inv_def)
  then show ?thesis by (auto simp: claim_def release_claim_def Let_def)
qed

theorem no_command_sent_twice_on_connection_witness:
  "\<exists>l. link_reachable l \<and> lk_frames l = [7] \<and> claim 7 (lk_conn l) = (False, lk_conn l)"
proof -
  let ?l0 = "\<lparr>lk_conn = new_connection 1 2 None, lk_sending = [], lk_frames = [], lk_claims = 0\<rparr>"
  obtain c' where c': "claim 7 (lk_conn ?l0) = (True, c')"
    by (simp add: claim_def new_connection_def Let_def)
  let ?l1 = "?l0\<lparr>lk_conn := c', lk_sending := 7 # lk_sending ?l0, lk_claims := Suc (lk_claims ?l0)\<rparr>"
  let ?l2 = "?l1\<lparr>lk_conn := note_delivered 7 (lk_conn ?l1),
        lk_sending := remove1 7 (lk_sending ?l1), lk_frames := lk_frames ?l1 @ [7]\<rparr>"
  have "link_reachable ?l1" by (rule link_reachable.step [OF link_reachable.connected begin_send [OF c']])
  then have r: "link_reachable ?l2" by (rule link_reachable.step [OF _ send_done]) simp
  have "lk_claims ?l2 \<le> sent_memory" by (simp add: sent_memory_def)
  from no_command_sent_twice_on_connection [OF r this] have "claim 7 (lk_conn ?l2) = (False, lk_conn ?l2)"
    by simp
  then show ?thesis using r by (intro exI [of _ ?l2]) simp
qed

text \<open>
  A draining process can still take a device session: the flag is read before the handshake and
  not again, so a connection whose handshake was under way when the process drained is registered
  afterwards and the drained process reports its device online.
\<close>
theorem drained_process_registers_late_handshake:
  fixes c :: connection
  shows "\<exists>s. socket_steps initial_sockets s \<and> draining (ss_runtime s) \<and>
     is_online (cn_device c) (ss_runtime s)"
proof -
  let ?s1 = "initial_sockets\<lparr>ss_shaking := [c]\<rparr>"
  have "socket_step initial_sockets (initial_sockets\<lparr>ss_shaking := c # ss_shaking initial_sockets\<rparr>)"
    by (rule accepted) (simp add: initial_sockets_def new_runtime_def)
  then have 1: "socket_step initial_sockets ?s1" by (simp add: initial_sockets_def)
  let ?s2 = "?s1\<lparr>ss_runtime := snd (drain now (ss_runtime ?s1))\<rparr>"
  have 2: "socket_step ?s1 ?s2" by (rule drained)
  let ?s3 = "?s2\<lparr>ss_shaking := remove1 c (ss_shaking ?s2), ss_live := c # ss_live ?s2,
                 ss_runtime := register_connection c (ss_runtime ?s2)\<rparr>"
  have 3: "socket_step ?s2 ?s3" by (rule registered) simp
  have "socket_steps initial_sockets ?s3"
    using socket_steps.more [OF socket_steps.more [OF socket_steps.more [OF socket_steps.none 1] 2] 3] .
  moreover have "draining (ss_runtime ?s3)"
    by (simp add: initial_sockets_def new_runtime_def drain_def register_connection_def Let_def)
  ultimately show ?thesis using register_online by (intro exI [of _ ?s3]) simp
qed

end
