(* ===== verification/Notification_Store.thy ===== *)
theory Notification_Store imports Json_Value "HOL-Library.Word" "HOL-Library.AList" "HOL-Library.Multiset" begin

text \<open>
  Notifications as durable rows (\<open>notifications/service.py\<close>, \<open>notifications/models.py\<close>) and the
  bounded retry policy that all announcers share (\<open>notifications/delivery.py\<close>).  The owner's zone
  (Europe/Istanbul) has had the fixed offset of three hours since 2016 and is modelled as an offset.
  The first four bytes of the SHA-256 digest of a row id are the argument \<open>digest4\<close>; the float
  arithmetic of the jitter is rounding to the nearest microsecond.
\<close>

section \<open>Bounded retries\<close>

definition max_attempts :: nat where "max_attempts = 6"
definition base_backoff :: instant where "base_backoff = seconds 30"
definition max_backoff :: instant where "max_backoff = seconds 3600"
definition max_jitter :: instant where "max_jitter = seconds 15"

definition jitter :: "32 word \<Rightarrow> instant" where
  "jitter digest4 = (2 * max_jitter * uint digest4 + 0xFFFFFFFF) div (2 * 0xFFFFFFFF)"

definition backoff_for :: "int \<Rightarrow> 32 word \<Rightarrow> instant" where
  "backoff_for attempts digest4 =
     (if attempts \<le> 0 then 0
      else min (base_backoff * 2 ^ nat (attempts - 1)) max_backoff + jitter digest4)"

definition next_attempt_at :: "int \<Rightarrow> instant \<Rightarrow> 32 word \<Rightarrow> instant" where
  "next_attempt_at attempts now digest4 = now + backoff_for attempts digest4"

definition is_exhausted :: "int \<Rightarrow> bool" where
  "is_exhausted attempts = (attempts \<ge> int max_attempts)"

definition may_attempt :: "int \<Rightarrow> instant option \<Rightarrow> instant option \<Rightarrow> instant \<Rightarrow> bool" where
  "may_attempt attempts next_at quarantined now =
     (if quarantined \<noteq> None then False
      else if is_exhausted attempts then False
      else (case next_at of None \<Rightarrow> True | Some t \<Rightarrow> t \<le> now))"

definition record_failure :: "int \<Rightarrow> instant \<Rightarrow> 32 word \<Rightarrow> int \<times> instant option \<times> instant option" where
  "record_failure attempts now digest4 =
     (let n = attempts + 1
      in if is_exhausted n then (n, None, Some now)
         else (n, Some (next_attempt_at n now digest4), None))"

section \<open>Channels\<close>

datatype channel = Toast | Alarm | Sound | Push | Inbox

fun channel_name :: "channel \<Rightarrow> string" where
  "channel_name Toast = ''toast''"
| "channel_name Alarm = ''alarm''"
| "channel_name Sound = ''sound''"
| "channel_name Push = ''push''"
| "channel_name Inbox = ''inbox''"

definition ladder :: "channel list" where
  "ladder = [Toast, Alarm, Sound, Push, Inbox]"

text \<open>Channels sort by their names.\<close>

fun channel_rank :: "channel \<Rightarrow> nat" where
  "channel_rank Alarm = 0"
| "channel_rank Inbox = 1"
| "channel_rank Push = 2"
| "channel_rank Sound = 3"
| "channel_rank Toast = 4"

instantiation channel :: linorder
begin

definition less_eq_channel :: "channel \<Rightarrow> channel \<Rightarrow> bool" where
  "less_eq_channel a b = (channel_rank a \<le> channel_rank b)"

definition less_channel :: "channel \<Rightarrow> channel \<Rightarrow> bool" where
  "less_channel a b = (channel_rank a < channel_rank b)"

instance
proof
  show "a \<le> b \<Longrightarrow> b \<le> a \<Longrightarrow> a = b" for a b :: channel
    by (cases a; cases b) (simp_all add: less_eq_channel_def)
qed (auto simp: less_eq_channel_def less_channel_def)

end

section \<open>Rows\<close>

datatype priority = Urgent | Normal | Low

record notification =
  n_id :: nat
  n_created_at :: instant
  n_kind :: string
  n_title :: string
  n_body :: string
  n_priority :: priority
  n_group :: string
  n_data :: "(string \<times> json) list"
  n_delivered_at :: "instant option"
  n_delivered_via :: "channel option"
  n_attempted :: "channel list"
  n_deferred_until :: "instant option"
  n_read_at :: "instant option"
  n_superseded_at :: "instant option"
  n_attempts :: int
  n_next_attempt_at :: "instant option"
  n_quarantined_at :: "instant option"
  n_exhausted :: bool

section \<open>Quiet hours\<close>

definition day :: instant where "day = seconds 86400"
definition quiet_zone :: instant where "quiet_zone = seconds 10800"
definition quiet_from :: instant where "quiet_from = seconds 82800"
definition quiet_until :: instant where "quiet_until = seconds 27000"

definition local_time :: "instant \<Rightarrow> instant \<Rightarrow> instant" where
  "local_time moment zone = (moment + zone) mod day"

definition in_quiet_hours :: "instant \<Rightarrow> instant \<Rightarrow> instant \<Rightarrow> instant \<Rightarrow> bool" where
  "in_quiet_hours moment start end_at zone =
     (let now = local_time moment zone
      in if start \<le> end_at then start \<le> now \<and> now < end_at
         else now \<ge> start \<or> now < end_at)"

definition quiet_hours_end :: "instant \<Rightarrow> instant \<Rightarrow> instant \<Rightarrow> instant" where
  "quiet_hours_end moment end_at zone =
     (let loc = moment + zone;
          today = (loc div day) * day + end_at;
          chosen = (if today \<le> loc then (loc div day + 1) * day + end_at else today)
      in chosen - zone)"

section \<open>Recording\<close>

record note_request =
  q_kind :: string
  q_title :: string
  q_body :: string
  q_priority :: string
  q_group :: string
  q_data :: "(string \<times> json) list"

definition parse_priority :: "string \<Rightarrow> priority" where
  "parse_priority p =
     (if p = ''urgent'' then Urgent else if p = ''low'' then Low else Normal)"

definition new_row :: "nat \<Rightarrow> note_request \<Rightarrow> instant \<Rightarrow> instant \<Rightarrow> instant \<Rightarrow> notification" where
  "new_row fresh q moment start end_at =
     (let pr = parse_priority (q_priority q)
      in \<lparr>n_id = fresh, n_created_at = moment, n_kind = q_kind q, n_title = q_title q,
          n_body = q_body q, n_priority = pr, n_group = q_group q, n_data = q_data q,
          n_delivered_at = None, n_delivered_via = None, n_attempted = [],
          n_deferred_until =
            (if pr \<noteq> Urgent \<and> in_quiet_hours moment start end_at quiet_zone
             then Some (quiet_hours_end moment end_at quiet_zone) else None),
          n_read_at = None, n_superseded_at = None, n_attempts = 0, n_next_attempt_at = None,
          n_quarantined_at = None, n_exhausted = False\<rparr>)"

definition older_sibling :: "notification \<Rightarrow> notification \<Rightarrow> bool" where
  "older_sibling row r = (n_group r = n_group row \<and> n_id r \<noteq> n_id row \<and>
     n_read_at r = None \<and> n_superseded_at r = None)"

definition supersede_older_in_group ::
    "notification \<Rightarrow> instant \<Rightarrow> notification list \<Rightarrow> notification list" where
  "supersede_older_in_group row now rows =
     map (\<lambda>r. if older_sibling row r then r\<lparr>n_superseded_at := Some now\<rparr> else r) rows"

definition record_note ::
    "nat \<Rightarrow> note_request \<Rightarrow> instant \<Rightarrow> instant \<Rightarrow> instant \<Rightarrow> notification list \<Rightarrow>
     notification \<times> notification list" where
  "record_note fresh q moment start end_at rows =
     (let row = new_row fresh q moment start end_at;
          added = rows @ [row]
      in (row, if q_group q \<noteq> [] then supersede_older_in_group row moment added else added))"

section \<open>Delivery state\<close>

definition next_channel :: "channel list \<Rightarrow> notification \<Rightarrow> channel option" where
  "next_channel available row =
     (if n_delivered_at row \<noteq> None then None
      else find (\<lambda>c. c \<notin> set (n_attempted row) \<and> (c = Inbox \<or> c \<in> set available)) ladder)"

text \<open>The query takes the oldest \<open>limit * 4\<close> undelivered rows; the loop then skips those that are
  deferred or waiting and stops at \<open>limit\<close>.\<close>

definition attemptable :: "instant \<Rightarrow> notification \<Rightarrow> bool" where
  "attemptable moment row =
     ((case n_deferred_until row of None \<Rightarrow> True | Some t \<Rightarrow> t \<le> moment) \<and>
      may_attempt (n_attempts row) (n_next_attempt_at row) (n_quarantined_at row) moment)"

definition undelivered :: "notification \<Rightarrow> bool" where
  "undelivered row = (n_delivered_at row = None \<and> n_superseded_at row = None \<and> n_quarantined_at row = None)"

definition deliverable :: "instant \<Rightarrow> nat \<Rightarrow> notification list \<Rightarrow> notification list" where
  "deliverable moment limit rows =
     take limit (filter (attemptable moment)
       (take (limit * 4) (sort_key n_created_at (filter undelivered rows))))"

definition with_attempt :: "channel \<Rightarrow> notification \<Rightarrow> notification" where
  "with_attempt c row = row\<lparr>n_attempted := sort (remdups (c # n_attempted row))\<rparr>"

definition mark_delivered :: "channel \<Rightarrow> instant \<Rightarrow> notification \<Rightarrow> notification" where
  "mark_delivered c moment row =
     with_attempt c (row\<lparr>n_delivered_at := Some moment, n_delivered_via := Some c\<rparr>)"

definition mark_attempt_failed ::
    "channel \<Rightarrow> channel list \<Rightarrow> instant \<Rightarrow> 32 word \<Rightarrow> notification \<Rightarrow> notification" where
  "mark_attempt_failed c available moment digest4 row =
     (let r1 = with_attempt c row
      in if next_channel available r1 = None
         then (case record_failure (n_attempts r1) moment digest4 of (attempts, next_at, quarantined) \<Rightarrow>
                 r1\<lparr>n_exhausted := True, n_attempts := attempts, n_next_attempt_at := next_at,
                    n_quarantined_at := quarantined\<rparr>)
         else r1)"

section \<open>The inbox and presses\<close>

definition inbox :: "bool \<Rightarrow> bool \<Rightarrow> nat \<Rightarrow> notification list \<Rightarrow> notification list" where
  "inbox unread_only include_superseded limit rows =
     take limit (sort_key (\<lambda>r. - n_created_at r)
       (filter (\<lambda>r. (unread_only \<longrightarrow> n_read_at r = None) \<and>
                    (\<not> include_superseded \<longrightarrow> n_superseded_at r = None)) rows))"

definition mark_read :: "nat \<Rightarrow> instant \<Rightarrow> notification list \<Rightarrow> notification option \<times> notification list" where
  "mark_read i now rows =
     (let f = (\<lambda>r. if n_read_at r = None then r\<lparr>n_read_at := Some now\<rparr> else r)
      in (map_option f (row_get n_id i rows), row_put n_id i f rows))"

definition max_toast_targets :: nat where "max_toast_targets = 8"
definition max_presses :: nat where "max_presses = 8"

fun strings_of :: "json \<Rightarrow> string list" where
  "strings_of (JList xs) = concat (map (\<lambda>j. case j of JStr s \<Rightarrow> [s] | _ \<Rightarrow> []) xs)"
| "strings_of (JObj kvs) = map fst kvs"
| "strings_of (JStr s) = map (\<lambda>c. [c]) s"
| "strings_of _ = []"

definition toast_targets :: "notification \<Rightarrow> string list" where
  "toast_targets row = strings_of (dict_get ''notify_targets'' (JObj (n_data row)))"

text \<open>The device id is given as its canonical text; \<open>None\<close> is a port that could not say.\<close>

definition note_toast_target :: "string option \<Rightarrow> notification \<Rightarrow> bool \<times> notification" where
  "note_toast_target dev row =
     (case dev of None \<Rightarrow> (False, row)
      | Some target \<Rightarrow>
          let targets = toast_targets row
          in if target \<in> set targets then (True, row)
             else let kept = targets @ [target];
                      last8 = drop (length kept - max_toast_targets) kept
                  in (True, row\<lparr>n_data := AList.update ''notify_targets'' (JList (map JStr last8))
                                            (n_data row)\<rparr>))"

datatype press_result =
    Press_recorded | Press_duplicate | Press_unknown | Press_not_offered | Press_limit | Press_wrong_device

fun dicts_of :: "json \<Rightarrow> json list" where
  "dicts_of (JList xs) = filter is_dict xs"
| "dicts_of _ = []"

definition offered_actions :: "notification \<Rightarrow> string list" where
  "offered_actions row =
     map (\<lambda>a. str_of (dict_get ''id'' a)) (dicts_of (dict_get ''actions'' (JObj (n_data row))))"

definition presses :: "notification \<Rightarrow> json list" where
  "presses row = dicts_of (dict_get ''actions_pressed'' (JObj (n_data row)))"

definition press_entry :: "string \<Rightarrow> string \<Rightarrow> string \<Rightarrow> string \<Rightarrow> json" where
  "press_entry action stamp received dev =
     JObj [(''action_id'', JStr action), (''pressed_at'', JStr stamp),
           (''received_at'', JStr received), (''device_id'', JStr dev)]"

definition record_action ::
    "nat \<Rightarrow> string \<Rightarrow> string \<Rightarrow> string option \<Rightarrow> string \<Rightarrow> notification list \<Rightarrow>
     press_result \<times> notification list" where
  "record_action i action stamp dev received rows =
     (case row_get n_id i rows of
        None \<Rightarrow> (Press_unknown, rows)
      | Some row \<Rightarrow>
          (case dev of None \<Rightarrow> (Press_wrong_device, rows)
           | Some d \<Rightarrow>
              if d \<notin> set (toast_targets row) then (Press_wrong_device, rows)
              else if action \<notin> set (offered_actions row) then (Press_not_offered, rows)
              else if \<exists>p \<in> set (presses row). dict_get ''action_id'' p = JStr action \<and>
                        dict_get ''pressed_at'' p = JStr stamp then (Press_duplicate, rows)
              else if length (presses row) \<ge> max_presses then (Press_limit, rows)
              else (Press_recorded, row_put n_id i (\<lambda>r. r\<lparr>n_data :=
                      AList.update ''actions_pressed''
                        (JList (presses r @ [press_entry action stamp received d])) (n_data r)\<rparr>) rows)))"

section \<open>Retries\<close>

lemma jitter_bounds: "0 \<le> jitter d \<and> jitter d \<le> max_jitter"
proof -
  have u: "0 \<le> uint d" "uint d \<le> 0xFFFFFFFF"
    using uint_range_size [of d] by (auto simp: word_size)
  have "(30000000 * uint d + 4294967295) div 8589934590 \<le> (128849023144967295::int) div 8589934590"
    using u by (intro zdiv_mono1) simp_all
  moreover have "0 \<le> (30000000 * uint d + 4294967295) div 8589934590"
    using u by (intro pos_imp_zdiv_nonneg_iff [THEN iffD2]) simp_all
  ultimately show ?thesis by (simp add: jitter_def max_jitter_def)
qed

text \<open>The offset reaches the bound that the code's documentation excludes.\<close>

lemma jitter_reaches_bound: "jitter 0xFFFFFFFF = max_jitter"
  by (simp add: jitter_def max_jitter_def)

text \<open>The six attempts of a row are over within seventeen minutes; the cap of an hour never binds.\<close>

lemma retry_span:
  "(\<Sum>n \<leftarrow> [1, 2, 3, 4, 5]. backoff_for n d) \<le> seconds 1020 \<and>
   (\<forall>n \<in> {1..5}. base_backoff * 2 ^ nat (n - 1) < max_backoff)"
proof
  show "(\<Sum>n \<leftarrow> [1, 2, 3, 4, 5]. backoff_for n d) \<le> seconds 1020"
    using jitter_bounds [of d] by (simp add: backoff_for_def base_backoff_def max_backoff_def max_jitter_def)
  have "n \<in> {1, 2, 3, 4, 5}" if "n \<in> {1..5}" for n :: int using that by auto
  then show "\<forall>n \<in> {1..5}. base_backoff * 2 ^ nat (n - 1) < max_backoff"
    by (fastforce simp: base_backoff_def max_backoff_def)
qed

section \<open>Quiet hours\<close>

lemma mod_day: "0 \<le> r \<Longrightarrow> r < day \<Longrightarrow> (q * day + r) mod day = r"
  by (simp add: day_def)

lemma quiet_hours_end_bounds:
  assumes "0 \<le> e" and "e < day"
  shows "moment < quiet_hours_end moment e zone \<and> quiet_hours_end moment e zone \<le> moment + day \<and>
    local_time (quiet_hours_end moment e zone) zone = e"
proof -
  define q l where "q = (moment + zone) div day" and "l = (moment + zone) mod day"
  have m: "moment + zone = q * day + l" "0 \<le> l" "l < day"
    by (simp_all add: q_def l_def day_def)
  have eq: "quiet_hours_end moment e zone = (if e \<le> l then (q + 1) * day + e else q * day + e) - zone"
    using m by (simp add: quiet_hours_end_def Let_def q_def [symmetric])
  show ?thesis
    using m assms mod_day [OF assms, of q] mod_day [OF assms, of "q + 1"]
    by (auto simp: eq local_time_def algebra_simps)
qed

lemma quiet_until_end:
  assumes s: "0 \<le> s" "s < day" and e: "0 \<le> e" "e < day" and ne: "s \<noteq> e"
    and quiet: "in_quiet_hours moment s e zone"
    and t: "moment \<le> t" "t < quiet_hours_end moment e zone"
  shows "in_quiet_hours t s e zone"
proof -
  define q l where "q = (moment + zone) div day" and "l = (moment + zone) mod day"
  have m: "moment + zone = q * day + l" "0 \<le> l" "l < day"
    by (simp_all add: q_def l_def day_def)
  have lq: "if s \<le> e then s \<le> l \<and> l < e else l \<ge> s \<or> l < e"
    using quiet by (simp add: in_quiet_hours_def local_time_def l_def Let_def)
  have eq: "quiet_hours_end moment e zone = (if e \<le> l then (q + 1) * day + e else q * day + e) - zone"
    using m by (simp add: quiet_hours_end_def Let_def q_def [symmetric])
  consider (today) "t + zone < (q + 1) * day" | (tomorrow) "(q + 1) * day \<le> t + zone" by linarith
  then show ?thesis
  proof cases
    case today
    define r where "r = t + zone - q * day"
    have r: "l \<le> r" "r < day" "t + zone = q * day + r" using today t(1) m by (auto simp: r_def algebra_simps)
    then have loc: "local_time t zone = r" using mod_day [of r q] m(2) by (simp add: local_time_def)
    show ?thesis using lq r t(2) eq m by (auto simp: in_quiet_hours_def loc Let_def split: if_splits)
  next
    case tomorrow
    define r where "r = t + zone - (q + 1) * day"
    have el: "e \<le> l" using tomorrow t(2) eq e by (auto split: if_splits simp: algebra_simps)
    then have r: "0 \<le> r" "r < e" using tomorrow t(2) eq by (auto simp: r_def)
    then have "local_time t zone = r"
      using mod_day [of r "q + 1"] e(2) by (simp add: local_time_def r_def)
    then show ?thesis using lq el r by (auto simp: in_quiet_hours_def Let_def split: if_splits)
  qed
qed

section \<open>The table of notifications\<close>

text \<open>Everything that happens to the table, one commit at a time.\<close>

inductive note_step :: "notification list \<Rightarrow> notification list \<Rightarrow> bool" where
  recorded: "fresh \<notin> n_id ` set rows \<Longrightarrow>
     note_step rows (snd (record_note fresh q moment start end_at rows))"
| read: "note_step rows (snd (mark_read i now rows))"
| delivered: "note_step rows (row_put n_id i (mark_delivered c now) rows)"
| failed: "note_step rows (row_put n_id i (mark_attempt_failed c available now d) rows)"
| targeted: "note_step rows (row_put n_id i (\<lambda>r. snd (note_toast_target dev r)) rows)"
| pressed: "note_step rows (snd (record_action i action stamp dev received rows))"

inductive note_reachable :: "notification list \<Rightarrow> bool" where
  empty: "note_reachable []"
| step: "note_reachable rows \<Longrightarrow> note_step rows rows' \<Longrightarrow> note_reachable rows'"

definition live :: "notification \<Rightarrow> bool" where
  "live r = (n_read_at r = None \<and> n_superseded_at r = None)"

definition group_inv :: "notification list \<Rightarrow> bool" where
  "group_inv rows = (distinct (map n_id rows) \<and>
     (\<forall>r \<in> set rows. \<forall>r' \<in> set rows. live r \<longrightarrow> live r' \<longrightarrow> n_group r \<noteq> [] \<longrightarrow>
        n_group r' = n_group r \<longrightarrow> n_id r' = n_id r))"

definition calm :: "(notification \<Rightarrow> notification) \<Rightarrow> bool" where
  "calm f = (\<forall>r. n_id (f r) = n_id r \<and> n_group (f r) = n_group r \<and> (live (f r) \<longrightarrow> live r))"

lemma group_invI:
  assumes "distinct (map n_id rows)"
    and "\<And>r r'. r \<in> set rows \<Longrightarrow> r' \<in> set rows \<Longrightarrow> live r \<Longrightarrow> live r' \<Longrightarrow> n_group r \<noteq> [] \<Longrightarrow>
      n_group r' = n_group r \<Longrightarrow> n_id r' = n_id r"
  shows "group_inv rows"
  unfolding group_inv_def using assms by blast

lemma group_invD:
  "group_inv rows \<Longrightarrow> r \<in> set rows \<Longrightarrow> r' \<in> set rows \<Longrightarrow> live r \<Longrightarrow> live r' \<Longrightarrow> n_group r \<noteq> [] \<Longrightarrow>
    n_group r' = n_group r \<Longrightarrow> n_id r' = n_id r"
  unfolding group_inv_def by blast

lemma group_inv_map:
  assumes "group_inv rows" and "calm f"
  shows "group_inv (map f rows)"
proof -
  have same: "n_id (f r) = n_id r" "n_group (f r) = n_group r" "live (f r) \<Longrightarrow> live r" for r
    using assms(2) by (simp_all add: calm_def)
  show ?thesis
  proof (rule group_invI)
    show "distinct (map n_id (map f rows))"
      using assms(1) same(1) by (simp add: group_inv_def comp_def)
  next
    fix x x' assume "x \<in> set (map f rows)" "x' \<in> set (map f rows)"
      and x: "live x" "live x'" "n_group x \<noteq> []" "n_group x' = n_group x"
    then obtain r r' where r: "r \<in> set rows" "r' \<in> set rows" "x = f r" "x' = f r'" by auto
    then show "n_id x' = n_id x"
      using group_invD [OF assms(1) r(1,2)] x same by simp
  qed
qed

lemma group_inv_put: "group_inv rows \<Longrightarrow> calm f \<Longrightarrow> group_inv (row_put n_id i f rows)"
  unfolding row_put_def by (rule group_inv_map) (auto simp: calm_def)

lemma calm_updates:
  "calm (mark_delivered c now)"
  "calm (mark_attempt_failed c available now d)"
  "calm (\<lambda>r. snd (note_toast_target dev r))"
  "calm (\<lambda>r. r\<lparr>n_data := g r\<rparr>)"
  "calm (\<lambda>r. if n_read_at r = None then r\<lparr>n_read_at := Some now\<rparr> else r)"
  by (auto simp: calm_def mark_delivered_def mark_attempt_failed_def with_attempt_def
      note_toast_target_def live_def Let_def split: option.splits prod.splits)

lemma group_inv_record:
  assumes "group_inv rows" and fresh: "fresh \<notin> n_id ` set rows"
  shows "group_inv (snd (record_note fresh q moment start end_at rows))"
proof -
  define row where "row = new_row fresh q moment start end_at"
  have row: "n_id row = fresh" "n_group row = q_group q" "live row"
    by (simp_all add: row_def new_row_def live_def Let_def)
  have ids: "distinct (map n_id (rows @ [row]))"
    using assms row by (auto simp: group_inv_def)
  have keep: "map n_id (supersede_older_in_group row moment rs) = map n_id rs" for rs
    by (simp add: supersede_older_in_group_def)
  show ?thesis
  proof (cases "q_group q = []")
    case True
    have "group_inv (rows @ [row])"
    proof (rule group_invI [OF ids])
      fix r r' assume "r \<in> set (rows @ [row])" "r' \<in> set (rows @ [row])"
        and r: "live r" "live r'" "n_group r \<noteq> []" "n_group r' = n_group r"
      then have "r \<in> set rows" "r' \<in> set rows" using row(2) True by auto
      then show "n_id r' = n_id r" by (rule group_invD [OF assms(1) _ _ r])
    qed
    then show ?thesis using True by (simp add: record_note_def Let_def row_def [symmetric])
  next
    case False
    define rs where "rs = supersede_older_in_group row moment (rows @ [row])"
    have old: "r = row \<or> (r \<in> set rows \<and> n_group r \<noteq> n_group row)" if "r \<in> set rs" "live r" for r
      using that ids row fresh
      by (auto simp: image_iff rs_def supersede_older_in_group_def older_sibling_def live_def split: if_splits)
    have "group_inv rs"
    proof (rule group_invI)
      show "distinct (map n_id rs)" using ids keep [of "rows @ [row]"] by (simp only: rs_def)
    next
      fix r r' assume r: "r \<in> set rs" "r' \<in> set rs" "live r" "live r'" "n_group r \<noteq> []"
        "n_group r' = n_group r"
      consider "r = row" "r' = row" | "r \<in> set rows" "r' \<in> set rows"
        using old [OF r(1,3)] old [OF r(2,4)] r(6) by metis
      then show "n_id r' = n_id r"
        by cases (rule arg_cong [of _ _ n_id], simp, rule group_invD [OF assms(1) _ _ r(3-6)])
    qed
    then show ?thesis using False by (simp add: record_note_def Let_def row_def [symmetric] rs_def)
  qed
qed

lemma note_reachable_inv: "note_reachable rows \<Longrightarrow> group_inv rows"
proof (induction rule: note_reachable.induct)
  case empty
  then show ?case by (simp add: group_inv_def)
next
  case (step rows rows')
  from step.hyps(2) step.IH show ?case
  proof cases
    case (pressed i action stamp dev received)
    have "snd (record_action i action stamp dev received rows) = rows \<or>
      (\<exists>g. snd (record_action i action stamp dev received rows) = row_put n_id i (\<lambda>r. r\<lparr>n_data := g r\<rparr>) rows)"
      by (auto simp: record_action_def Let_def split: option.splits)
    then show ?thesis using pressed(1) step.IH group_inv_put [OF step.IH calm_updates(4)] by auto
  qed (auto simp: mark_read_def Let_def intro: group_inv_record group_inv_put calm_updates)
qed

section \<open>What the sweep sees\<close>

lemma sort_key_append_split:
  assumes "\<And>x y. x \<in> set xs \<Longrightarrow> y \<in> set ys \<Longrightarrow> f x \<le> f y"
  shows "sort_key f (xs @ ys) = sort_key f xs @ sort_key f ys"
proof (rule properties_for_sort_key)
  show "mset (sort_key f xs @ sort_key f ys) = mset (xs @ ys)" by simp
  show "filter (\<lambda>x. f k = f x) (sort_key f xs @ sort_key f ys) = filter (\<lambda>x. f k = f x) (xs @ ys)" for k
    by (simp add: sort_key_stable eq_commute [of "f k"])
  show "sorted (map f (sort_key f xs @ sort_key f ys))"
    using assms by (auto simp: sorted_append)
qed

lemma deliverable_members: "set (deliverable moment limit rows) \<subseteq> {r \<in> set rows. undelivered r \<and> attemptable moment r}"
  by (auto simp: deliverable_def dest!: in_set_takeD)

lemma deliverable_blocked:
  assumes "\<And>r. r \<in> set older \<Longrightarrow> undelivered r \<and> \<not> attemptable moment r"
    and "limit * 4 \<le> length older"
    and "\<And>r r'. r \<in> set older \<Longrightarrow> r' \<in> set newer \<Longrightarrow> n_created_at r \<le> n_created_at r'"
  shows "deliverable moment limit (older @ newer) = []"
proof -
  have "sort_key n_created_at (filter undelivered (older @ newer)) =
      sort_key n_created_at older @ sort_key n_created_at (filter undelivered newer)"
    using assms(1,3) sort_key_append_split [of older "filter undelivered newer" n_created_at] by auto
  then have "take (limit * 4) (sort_key n_created_at (filter undelivered (older @ newer))) =
      take (limit * 4) (sort_key n_created_at older)"
    using assms(2) by simp
  moreover have "filter (attemptable moment) (take (limit * 4) (sort_key n_created_at older)) = []"
    using assms(1) by (auto simp: filter_empty_conv dest!: in_set_takeD)
  ultimately show ?thesis by (simp add: deliverable_def)
qed

section \<open>Sample inputs\<close>

definition sample_note :: "string \<Rightarrow> note_request" where
  "sample_note pr = \<lparr>q_kind = ''goal.update'', q_title = ''t'', q_body = ''b'', q_priority = pr,
     q_group = ''goal:1'', q_data = []\<rparr>"

definition midnight_note :: "nat \<Rightarrow> string \<Rightarrow> instant \<Rightarrow> notification" where
  "midnight_note i pr at_time = new_row i (sample_note pr) at_time quiet_from quiet_until"

section \<open>Properties\<close>

text \<open>
  Quiet hours hold a row back exactly as long as they last.  A new row is deferred if and only if
  it is not urgent and it was recorded inside the quiet hours; then every moment up to the instant it
  is deferred to is inside the quiet hours and the row is not attemptable there, and at that instant,
  within a day, the quiet hours are over and the row is attemptable.  This holds for any window,
  also one that spans midnight.
\<close>
theorem deferral_lasts_as_long_as_quiet_hours:
  fixes fresh :: nat and q :: note_request and moment :: instant
  assumes "0 \<le> s" and "s < day" and "0 \<le> e" and "e < day" and "s \<noteq> e"
  defines "row \<equiv> new_row fresh q moment s e"
  shows "(n_deferred_until row = None \<longleftrightarrow>
      parse_priority (q_priority q) = Urgent \<or> \<not> in_quiet_hours moment s e quiet_zone) \<and>
    (\<forall>t. n_deferred_until row = Some t \<longrightarrow> moment < t \<and> t \<le> moment + day \<and>
      \<not> in_quiet_hours t s e quiet_zone \<and> attemptable t row \<and>
      (\<forall>u. moment \<le> u \<longrightarrow> u < t \<longrightarrow> in_quiet_hours u s e quiet_zone \<and> \<not> attemptable u row))"
proof -
  have over: "\<not> in_quiet_hours (quiet_hours_end moment e quiet_zone) s e quiet_zone"
    using quiet_hours_end_bounds [OF assms(3,4), of moment quiet_zone]
    by (auto simp: in_quiet_hours_def Let_def)
  have fresh_row: "attemptable t row \<longleftrightarrow> (case n_deferred_until row of None \<Rightarrow> True | Some u \<Rightarrow> u \<le> t)" for t
    by (simp add: row_def new_row_def attemptable_def may_attempt_def is_exhausted_def max_attempts_def Let_def)
  have deferred: "n_deferred_until row = (if parse_priority (q_priority q) \<noteq> Urgent \<and>
      in_quiet_hours moment s e quiet_zone then Some (quiet_hours_end moment e quiet_zone) else None)"
    by (simp add: row_def new_row_def Let_def)
  show ?thesis
    using over quiet_hours_end_bounds [OF assms(3,4), of moment quiet_zone]
      quiet_until_end [OF assms(1-5), of moment quiet_zone]
    by (simp add: deferred fresh_row)
qed

theorem deferral_lasts_as_long_as_quiet_hours_witness:
  "n_deferred_until (midnight_note 1 ''normal'' (seconds 75600)) = Some (seconds 102600) \<and>
   \<not> in_quiet_hours (seconds 102600) quiet_from quiet_until quiet_zone"
proof -
  have d: "n_deferred_until (new_row 1 (sample_note ''normal'') (seconds 75600) quiet_from quiet_until) =
      Some (seconds 102600)"
    by (simp add: new_row_def sample_note_def parse_priority_def in_quiet_hours_def local_time_def
        quiet_hours_end_def quiet_from_def quiet_until_def quiet_zone_def day_def Let_def)
  then show ?thesis
    using deferral_lasts_as_long_as_quiet_hours [of quiet_from quiet_until 1 "sample_note ''normal''" "seconds 75600"]
    by (simp add: midnight_note_def quiet_from_def quiet_until_def day_def)
qed

text \<open>
  Retries are bounded.  The first five failures each set a next attempt, at least the doubled
  back-off (capped at an hour) and at most fifteen seconds more in the future, and an attempt is
  allowed exactly from then on; from the sixth failure on the row is quarantined and no attempt is
  allowed at any time.
\<close>
theorem retries_are_bounded:
  assumes "0 \<le> n"
  shows "(n < 5 \<longrightarrow> (\<exists>t. record_failure n now d = (n + 1, Some t, None) \<and>
      now + min (seconds 30 * 2 ^ nat n) (seconds 3600) \<le> t \<and>
      t \<le> now + min (seconds 30 * 2 ^ nat n) (seconds 3600) + seconds 15 \<and>
      (\<forall>u. may_attempt (n + 1) (Some t) None u = (t \<le> u)))) \<and>
    (5 \<le> n \<longrightarrow> record_failure n now d = (n + 1, None, Some now) \<and>
      (\<forall>nxt q u. \<not> may_attempt (n + 1) nxt q u))"
  using assms jitter_bounds [of d]
  by (auto simp: record_failure_def is_exhausted_def max_attempts_def next_attempt_at_def backoff_for_def
      may_attempt_def base_backoff_def max_backoff_def max_jitter_def Let_def)

theorem retries_are_bounded_witness:
  "record_failure 5 1000 0 = (6, None, Some 1000) \<and> \<not> may_attempt 6 None None 2000"
  using retries_are_bounded [of 5 1000 0] by simp

text \<open>
  At most one live row per group.  In every table that recording, reading, delivering, failing,
  presses and toast targets can produce, two rows of one non-empty group that are both unread and
  not superseded are the same row; so an inbox of unread rows shows each group at most once.
\<close>
theorem inbox_shows_group_once:
  assumes "note_reachable rows" and "r \<in> set (inbox True False limit rows)"
    and "r' \<in> set (inbox True False limit rows)" and "n_group r \<noteq> []" and "n_group r' = n_group r"
  shows "r' = r"
proof -
  have inv: "group_inv rows" by (rule note_reachable_inv [OF assms(1)])
  have m: "x \<in> set rows \<and> live x" if "x \<in> set (inbox True False limit rows)" for x
    using that by (auto simp: inbox_def live_def dest!: in_set_takeD)
  have "n_id r' = n_id r" using group_invD [OF inv] m [OF assms(2)] m [OF assms(3)] assms(4,5) by blast
  then show ?thesis
    using inv m [OF assms(2)] m [OF assms(3)] by (auto simp: group_inv_def distinct_map inj_on_def)
qed

theorem inbox_shows_group_once_witness:
  "let rows = snd (record_note 2 (sample_note ''low'') 9 quiet_from quiet_until
       (snd (record_note 1 (sample_note ''low'') 5 quiet_from quiet_until [])))
   in length rows = 2 \<and> (\<forall>r \<in> set (inbox True False 50 rows). \<forall>r' \<in> set (inbox True False 50 rows). r' = r)"
proof -
  define rows where "rows = snd (record_note 2 (sample_note ''low'') 9 quiet_from quiet_until
       (snd (record_note 1 (sample_note ''low'') 5 quiet_from quiet_until [])))"
  have one: "note_reachable (snd (record_note 1 (sample_note ''low'') 5 quiet_from quiet_until []))"
    by (rule note_reachable.step [OF note_reachable.empty]) (rule note_step.recorded, simp)
  have reach: "note_reachable rows" unfolding rows_def
    by (rule note_reachable.step [OF one], rule note_step.recorded)
      (simp add: record_note_def sample_note_def new_row_def supersede_older_in_group_def older_sibling_def Let_def)
  have grp: "\<forall>r \<in> set rows. n_group r = ''goal:1''" and len: "length rows = 2"
    by (simp_all add: rows_def record_note_def sample_note_def new_row_def supersede_older_in_group_def
        older_sibling_def Let_def)
  have sub: "set (inbox True False 50 rows) \<subseteq> set rows" by (auto simp: inbox_def dest!: in_set_takeD)
  have "r' = r" if "r \<in> set (inbox True False 50 rows)" "r' \<in> set (inbox True False 50 rows)" for r r'
    using inbox_shows_group_once [OF reach that] grp sub that by (metis list.distinct(1) subsetD)
  then show ?thesis using len unfolding rows_def [symmetric] Let_def by blast
qed

text \<open>
  What a sweep sees.  While at most \<open>limit * 4\<close> rows are undelivered and at most \<open>limit\<close> of them
  attemptable, a sweep sees exactly the attemptable rows.  But the window is cut before the rows
  that must wait are skipped: once \<open>limit * 4\<close> undelivered rows that must wait are older than all
  others, the sweep sees nothing, however urgent the newer rows are.
\<close>
theorem sweep_window:
  "(length (filter undelivered rows) \<le> limit * 4 \<longrightarrow>
      length (filter (\<lambda>r. undelivered r \<and> attemptable moment r) rows) \<le> limit \<longrightarrow>
      set (deliverable moment limit rows) = {r \<in> set rows. undelivered r \<and> attemptable moment r}) \<and>
   (\<forall>older newer. rows = older @ newer \<longrightarrow>
      (\<forall>r \<in> set older. undelivered r \<and> \<not> attemptable moment r) \<longrightarrow>
      limit * 4 \<le> length older \<longrightarrow>
      (\<forall>r \<in> set older. \<forall>r' \<in> set newer. n_created_at r \<le> n_created_at r') \<longrightarrow>
      deliverable moment limit rows = [])"
proof (intro conjI impI allI)
  assume w: "length (filter undelivered rows) \<le> limit * 4"
    and l: "length (filter (\<lambda>r. undelivered r \<and> attemptable moment r) rows) \<le> limit"
  let ?s = "filter (attemptable moment) (sort_key n_created_at (filter undelivered rows))"
  have "mset ?s = mset (filter (\<lambda>r. undelivered r \<and> attemptable moment r) rows)"
    by (simp add: filter_filter_mset conj_commute)
  then have "length ?s \<le> limit" using l by (metis size_mset)
  then have "deliverable moment limit rows = ?s" using w by (simp add: deliverable_def)
  then show "set (deliverable moment limit rows) = {r \<in> set rows. undelivered r \<and> attemptable moment r}"
    by auto
next
  fix older newer
  assume "rows = older @ newer" "\<forall>r \<in> set older. undelivered r \<and> \<not> attemptable moment r"
    "limit * 4 \<le> length older" "\<forall>r \<in> set older. \<forall>r' \<in> set newer. n_created_at r \<le> n_created_at r'"
  then show "deliverable moment limit rows = []" using deliverable_blocked by blast
qed

theorem sweep_window_witness:
  "let older = map (\<lambda>i. midnight_note i ''normal'' (seconds 75600)) [0..<4]
   in deliverable (seconds 75700) 1 (older @ [midnight_note 9 ''urgent'' (seconds 75650)]) = [] \<and>
      attemptable (seconds 75700) (midnight_note 9 ''urgent'' (seconds 75650))"
proof -
  have held: "undelivered (midnight_note i ''normal'' (seconds 75600)) \<and>
      \<not> attemptable (seconds 75700) (midnight_note i ''normal'' (seconds 75600)) \<and>
      n_created_at (midnight_note i ''normal'' (seconds 75600)) = seconds 75600" for i
    by (simp add: midnight_note_def undelivered_def attemptable_def new_row_def sample_note_def parse_priority_def
        in_quiet_hours_def local_time_def quiet_hours_end_def quiet_from_def quiet_until_def quiet_zone_def
        day_def Let_def)
  have now_ok: "attemptable (seconds 75700) (midnight_note 9 ''urgent'' (seconds 75650))"
    "n_created_at (midnight_note 9 ''urgent'' (seconds 75650)) = seconds 75650"
    by (simp_all add: midnight_note_def attemptable_def new_row_def sample_note_def parse_priority_def
        may_attempt_def is_exhausted_def max_attempts_def Let_def)
  show ?thesis
    using conjunct2 [OF sweep_window [of "map (\<lambda>i. midnight_note i ''normal'' (seconds 75600)) [0..<4] @
        [midnight_note 9 ''urgent'' (seconds 75650)]" 1 "seconds 75700"]] held now_ok
    by (auto simp: Let_def)
qed

end
