(* ===== verification/Owner_Caller.thy ===== *)
theory Owner_Caller imports Notification_Store begin

text \<open>
  Telephone calls to the owner (\<open>telephony/policy.py\<close>, \<open>telephony/service.py\<close>).

  The state is \<open>OwnerCaller._pending\<close> (a dict from call SID to pending call), the telephony rows of
  the ledger (written once per \<open>source_ref\<close>) and the notifications.  \<open>dials\<close> is not state of the
  code: it is the history of the calls the provider accepted, which the promises are about.  The
  provider's answers are arguments: the SID of an accepted call (\<open>None\<close> is \<open>TelephonyError\<close>), and the
  status text (empty for an error).  Greeting, audio and severity of a call are left out, and texts
  are written in ASCII letters.  A
  \<open>source_ref\<close> made from a new uuid never equals another one.
\<close>

section \<open>The policy\<close>

datatype urgency = Critical | Owner_asked | Important

definition rules :: "string \<Rightarrow> urgency option" where
  "rules kind = map_of
     [(''security.critical'', Critical), (''release.failed'', Important), (''alarm.call_me'', Owner_asked),
      (''spend.unanswered'', Important), (''aktivra.important'', Important), (''telephony.test'', Owner_asked)] kind"

definition notification_kinds :: "(string \<times> string) list" where
  "notification_kinds =
     [(''recovery.alert'', ''release.failed''), (''release.rolled_back'', ''release.failed''),
      (''security.critical'', ''security.critical''), (''alarm.call_me'', ''alarm.call_me''),
      (''spend.unanswered'', ''spend.unanswered''), (''aktivra.important'', ''aktivra.important'')]"

definition alert_only_kinds :: "string list" where
  "alert_only_kinds = [''urgent_alert.test'']"

definition alert_categories :: "(string \<times> string) list" where
  "alert_categories =
     [(''security.critical'', ''sistem''), (''release.failed'', ''sistem''), (''alarm.call_me'', ''ev''),
      (''spend.unanswered'', ''sistem''), (''aktivra.important'', ''Aktivra''), (''urgent_alert.test'', ''sistem'')]"

definition call_kind_for_notification :: "string \<Rightarrow> string option" where
  "call_kind_for_notification kind = map_of notification_kinds kind"

definition important_kind :: "string \<Rightarrow> string option" where
  "important_kind kind = (if kind \<in> set alert_only_kinds then Some kind else map_of notification_kinds kind)"

definition is_important_notification :: "string \<Rightarrow> bool" where
  "is_important_notification kind = (important_kind kind \<noteq> None)"

definition alert_category :: "string \<Rightarrow> string" where
  "alert_category kind =
     (case important_kind kind of
        None \<Rightarrow> ''''
      | Some reason \<Rightarrow>
          if reason = [] then ''''
          else (case map_of alert_categories reason of None \<Rightarrow> '''' | Some c \<Rightarrow> c))"

definition important_notification_kinds :: "string set" where
  "important_notification_kinds = set (map fst notification_kinds @ alert_only_kinds)"

definition is_critical :: "string \<Rightarrow> bool" where
  "is_critical kind = (rules kind = Some Critical)"

datatype call_reason = Because urgency | Not_important | Quiet_hours | Hourly_cap

record call_decision =
  cd_call :: bool
  cd_reason :: call_reason

definition decide :: "string \<Rightarrow> instant \<Rightarrow> nat \<Rightarrow> nat \<Rightarrow> call_decision" where
  "decide kind now calls_in_last_hour max_per_hour =
     (case rules kind of
        None \<Rightarrow> \<lparr>cd_call = False, cd_reason = Not_important\<rparr>
      | Some urgency \<Rightarrow>
          if calls_in_last_hour \<ge> max_per_hour then \<lparr>cd_call = False, cd_reason = Hourly_cap\<rparr>
          else if urgency = Important \<and> in_quiet_hours now quiet_from quiet_until quiet_zone
               then \<lparr>cd_call = False, cd_reason = Quiet_hours\<rparr>
          else \<lparr>cd_call = True, cd_reason = Because urgency\<rparr>)"

section \<open>The number\<close>

definition number_noise :: "char \<Rightarrow> bool" where
  "number_noise c = (is_space c \<or> c \<in> set ''-().'')"

definition e164 :: "string \<Rightarrow> bool" where
  "e164 s = (case s of
     p # d # rest \<Rightarrow> p = CHR ''+'' \<and> is_digit d \<and> d \<noteq> CHR ''0'' \<and> list_all is_digit rest \<and>
       7 \<le> length rest \<and> length rest \<le> 14
   | _ \<Rightarrow> False)"

definition normalize_number :: "string \<Rightarrow> string" where
  "normalize_number v =
     (let cleaned = filter (\<lambda>c. \<not> number_noise c) v;
          cleaned2 = (if is_prefix ''00'' cleaned then CHR ''+'' # drop 2 cleaned else cleaned)
      in if e164 cleaned2 then cleaned2 else [])"

section \<open>State\<close>

datatype call_event = Call_refused | Call_skipped | Call_placed | Call_failed | Call_ended

datatype call_ref =
    Uuid_ref | Note_ref nat | Placed_ref string | Ended_ref string | Retry_skipped_ref string

record log_row =
  lr_event :: call_event
  lr_ref :: call_ref
  lr_at :: instant

record pending_call =
  pc_sid :: string
  pc_kind :: string
  pc_message :: string
  pc_attempt :: nat
  pc_placed_at :: instant

record dial =
  d_sid :: string
  d_at :: instant
  d_attempt :: nat
  d_origin :: "nat option"

record caller =
  pendings :: "(string \<times> pending_call) list"
  call_log :: "log_row list"
  notices :: "notification list"
  dials :: "dial list"

record caller_config =
  cc_configured :: bool
  cc_owner :: string
  cc_max :: nat

definition retry_after :: instant where "retry_after = seconds 300"
definition give_up_after :: instant where "give_up_after = seconds 1800"
definition notification_lookback :: instant where "notification_lookback = seconds 900"
definition hour :: instant where "hour = seconds 3600"

text \<open>\<open>ledger.record\<close> returns the existing row when the \<open>source_ref\<close> is known.\<close>

definition write_log :: "call_event \<Rightarrow> call_ref \<Rightarrow> instant \<Rightarrow> caller \<Rightarrow> caller" where
  "write_log ev ref moment c =
     (if ref \<noteq> Uuid_ref \<and> ref \<in> lr_ref ` set (call_log c) then c
      else c\<lparr>call_log := call_log c @ [\<lparr>lr_event = ev, lr_ref = ref, lr_at = moment\<rparr>]\<rparr>)"

definition calls_in_last_hour :: "instant \<Rightarrow> caller \<Rightarrow> nat" where
  "calls_in_last_hour moment c =
     length (filter (\<lambda>r. lr_event r = Call_placed \<and> moment - hour \<le> lr_at r) (call_log c))"

section \<open>Calling\<close>

datatype call_error = Not_configured | Refused | Telephony_error
datatype call_outcome = Placed string nat | Skipped call_reason

definition place ::
    "string option \<Rightarrow> string \<Rightarrow> string \<Rightarrow> nat \<Rightarrow> instant \<Rightarrow> nat option \<Rightarrow> caller \<Rightarrow>
     (call_error + call_outcome) \<times> caller" where
  "place placed kind message attempt moment origin c =
     (case placed of
        None \<Rightarrow> (Inl Telephony_error, write_log Call_failed Uuid_ref moment c)
      | Some sid \<Rightarrow>
          (let c1 = c\<lparr>pendings := AList.update sid \<lparr>pc_sid = sid, pc_kind = kind, pc_message = message,
                        pc_attempt = attempt, pc_placed_at = moment\<rparr> (pendings c),
                      dials := dials c @ [\<lparr>d_sid = sid, d_at = moment, d_attempt = attempt, d_origin = origin\<rparr>]\<rparr>;
               ref = (case origin of Some n \<Rightarrow> if attempt = 1 then Note_ref n else Placed_ref sid
                                   | None \<Rightarrow> Placed_ref sid)
           in (Inr (Placed sid attempt), write_log Call_placed ref moment c1)))"

definition call_owner ::
    "caller_config \<Rightarrow> string option \<Rightarrow> string \<Rightarrow> string \<Rightarrow> string option \<Rightarrow> nat option \<Rightarrow> instant \<Rightarrow> caller \<Rightarrow>
     (call_error + call_outcome) \<times> caller" where
  "call_owner cfg placed kind message to origin moment c =
     (if \<not> cc_configured cfg then (Inl Not_configured, c)
      else if (case to of None \<Rightarrow> False | Some n \<Rightarrow> normalize_number n \<noteq> cc_owner cfg)
      then (Inl Refused, write_log Call_refused Uuid_ref moment c)
      else (let decision = decide kind moment (calls_in_last_hour moment c) (cc_max cfg)
            in if \<not> cd_call decision
               then (Inr (Skipped (cd_reason decision)),
                     write_log Call_skipped (case origin of Some n \<Rightarrow> Note_ref n | None \<Rightarrow> Uuid_ref) moment c)
               else place placed kind message 1 moment origin c))"

section \<open>After the call\<close>

definition answered_statuses :: "string list" where "answered_statuses = [''completed'']"
definition in_flight :: "string list" where "in_flight = [''queued'', ''initiated'', ''ringing'', ''in-progress'']"
definition not_answered :: "string list" where "not_answered = [''busy'', ''no-answer'', ''failed'', ''canceled'']"

record counts =
  n_answered :: nat
  n_retried :: nat
  n_notified :: nat
  n_unknown :: nat

definition may_retry :: "caller_config \<Rightarrow> pending_call \<Rightarrow> instant \<Rightarrow> caller \<Rightarrow> bool \<times> caller" where
  "may_retry cfg p moment c =
     (if cd_call (decide (pc_kind p) moment (calls_in_last_hour moment c) (cc_max cfg)) then (True, c)
      else (False, write_log Call_skipped (Retry_skipped_ref (pc_sid p)) moment c))"

definition notify_unanswered :: "nat \<Rightarrow> pending_call \<Rightarrow> instant \<Rightarrow> caller \<Rightarrow> caller" where
  "notify_unanswered fresh p moment c =
     c\<lparr>notices := snd (record_note fresh
        \<lparr>q_kind = ''telephony.unanswered'', q_title = ''Seni aradim, ulasamadim'', q_body = pc_message p,
         q_priority = (if is_critical (pc_kind p) then ''urgent'' else ''normal''),
         q_group = ''telephony:'' @ pc_kind p,
         q_data = [(''call_sid'', JStr (pc_sid p)), (''reason'', JStr (pc_kind p))]\<rparr>
        moment quiet_from quiet_until (notices c))\<rparr>"

text \<open>One pending call of the sweep: \<open>status\<close> is what the provider reports of it, \<open>retry\<close> its answer
  should the retry be placed, \<open>fresh\<close> the id of a notification.\<close>

definition finish_call ::
    "caller_config \<Rightarrow> string \<Rightarrow> string option \<Rightarrow> nat \<Rightarrow> instant \<Rightarrow> pending_call \<Rightarrow> counts \<times> caller \<Rightarrow> counts \<times> caller" where
  "finish_call cfg status retry fresh moment p nc =
     (let n = fst nc;
          c = snd nc;
          c1 = write_log Call_ended (Ended_ref (pc_sid p)) moment
                 (c\<lparr>pendings := AList.delete (pc_sid p) (pendings c)\<rparr>)
      in if status \<in> set answered_statuses then (n\<lparr>n_answered := n_answered n + 1\<rparr>, c1)
         else (let n1 = (if status \<notin> set not_answered then n\<lparr>n_unknown := n_unknown n + 1\<rparr> else n);
                   mr = (if pc_attempt p = 1 then may_retry cfg p moment c1 else (False, c1));
                   pl = place retry (pc_kind p) (pc_message p) 2 moment None (snd mr);
                   c2 = (if fst mr then snd pl else snd mr)
               in if fst mr \<and> isOk (fst pl) then (n1\<lparr>n_retried := n_retried n1 + 1\<rparr>, c2)
                  else (n1\<lparr>n_notified := n_notified n1 + 1\<rparr>, notify_unanswered fresh p moment c2)))"

definition sweep_one ::
    "caller_config \<Rightarrow> (string \<Rightarrow> string) \<Rightarrow> (string \<Rightarrow> string option) \<Rightarrow> (string \<Rightarrow> nat) \<Rightarrow> instant \<Rightarrow>
     pending_call \<Rightarrow> counts \<times> caller \<Rightarrow> counts \<times> caller" where
  "sweep_one cfg status retry fresh moment p nc =
     (if moment - pc_placed_at p < retry_after then nc
      else (let st = status (pc_sid p)
            in if st \<in> set in_flight \<or> st = []
               then (if moment - pc_placed_at p < give_up_after then nc
                     else finish_call cfg (if st = [] then ''unknown'' else st) (retry (pc_sid p))
                            (fresh (pc_sid p)) moment p nc)
               else finish_call cfg st (retry (pc_sid p)) (fresh (pc_sid p)) moment p nc))"

definition sweep_calls ::
    "caller_config \<Rightarrow> (string \<Rightarrow> string) \<Rightarrow> (string \<Rightarrow> string option) \<Rightarrow> (string \<Rightarrow> nat) \<Rightarrow> instant \<Rightarrow>
     caller \<Rightarrow> counts \<times> caller" where
  "sweep_calls cfg status retry fresh moment c =
     fold (sweep_one cfg status retry fresh moment) (map snd (pendings c))
       (\<lparr>n_answered = 0, n_retried = 0, n_notified = 0, n_unknown = 0\<rparr>, c)"

section \<open>The events that ring\<close>

definition event_message :: "notification \<Rightarrow> string" where
  "event_message r =
     (let title = strip (n_title r);
          body = strip (n_body r)
      in if title = [] then body else if body = [] then title else title @ ''. '' @ body)"

definition call_todo :: "instant \<Rightarrow> caller \<Rightarrow> (string \<times> string \<times> nat) list" where
  "call_todo moment c =
     concat (map (\<lambda>r. case call_kind_for_notification (n_kind r) of
                        None \<Rightarrow> []
                      | Some kind \<Rightarrow> if Note_ref (n_id r) \<in> lr_ref ` set (call_log c) then []
                                     else [(kind, event_message r, n_id r)])
       (sort_key n_created_at (filter (\<lambda>r. moment - notification_lookback \<le> n_created_at r) (notices c))))"

definition call_event_one ::
    "caller_config \<Rightarrow> (nat \<Rightarrow> string option) \<Rightarrow> instant \<Rightarrow> string \<times> string \<times> nat \<Rightarrow> nat \<times> caller \<Rightarrow> nat \<times> caller" where
  "call_event_one cfg placed moment todo nc =
     (case todo of (kind, message, i) \<Rightarrow>
        (case call_owner cfg (placed i) kind message None (Some i) moment (snd nc) of
           (Inr (Placed _ _), c) \<Rightarrow> (fst nc + 1, c)
         | (_, c) \<Rightarrow> (fst nc, c)))"

definition call_for_notifications ::
    "caller_config \<Rightarrow> (nat \<Rightarrow> string option) \<Rightarrow> instant \<Rightarrow> caller \<Rightarrow> nat \<times> caller" where
  "call_for_notifications cfg placed moment c =
     (if \<not> cc_configured cfg then (0, c)
      else fold (call_event_one cfg placed moment) (call_todo moment c) (0, c))"

section \<open>Everything that happens to the caller\<close>

datatype caller_op =
    Op_call "string option" string string "string option"
  | Op_sweep "string \<Rightarrow> string" "string \<Rightarrow> string option" "string \<Rightarrow> nat"
  | Op_events "nat \<Rightarrow> string option"
  | Op_note nat note_request

fun caller_step :: "caller_config \<Rightarrow> caller_op \<Rightarrow> instant \<Rightarrow> caller \<Rightarrow> caller" where
  "caller_step cfg (Op_call placed kind message to) now c = snd (call_owner cfg placed kind message to None now c)"
| "caller_step cfg (Op_sweep status retry fresh) now c = snd (sweep_calls cfg status retry fresh now c)"
| "caller_step cfg (Op_events placed) now c = snd (call_for_notifications cfg placed now c)"
| "caller_step cfg (Op_note fresh q) now c =
     c\<lparr>notices := snd (record_note fresh q now quiet_from quiet_until (notices c))\<rparr>"

section \<open>What stays true\<close>

definition in_hour :: "instant \<Rightarrow> instant \<Rightarrow> bool" where
  "in_hour m x = (m - hour \<le> x \<and> x \<le> m)"

definition sids :: "caller \<Rightarrow> string set" where "sids c = d_sid ` set (dials c)"

definition refs :: "caller \<Rightarrow> call_ref set" where "refs c = lr_ref ` set (call_log c)"

definition first_calls :: "caller \<Rightarrow> nat" where
  "first_calls c = length (filter (\<lambda>d. d_attempt d = 1) (dials c))"

definition second_calls :: "caller \<Rightarrow> nat" where
  "second_calls c = length (filter (\<lambda>d. d_attempt d = 2) (dials c))"

definition open_firsts :: "caller \<Rightarrow> nat" where
  "open_firsts c = length (filter (\<lambda>q. pc_attempt (snd q) = 1) (pendings c))"

definition origins :: "caller \<Rightarrow> nat list" where
  "origins c = List.map_filter d_origin (dials c)"

definition dial_times :: "caller \<Rightarrow> instant list" where "dial_times c = map d_at (dials c)"

definition placed_times :: "caller \<Rightarrow> instant list" where
  "placed_times c = map lr_at (filter (\<lambda>r. lr_event r = Call_placed) (call_log c))"

definition log_inv :: "caller_config \<Rightarrow> instant \<Rightarrow> caller \<Rightarrow> bool" where
  "log_inv cfg t c =
     (placed_times c = dial_times c \<and> (\<forall>x \<in> set (dial_times c). x \<le> t) \<and>
      (\<forall>s. Placed_ref s \<in> refs c \<longrightarrow> s \<in> sids c) \<and>
      (\<forall>m. length (filter (in_hour m) (dial_times c)) \<le> cc_max cfg))"

definition pending_inv :: "caller \<Rightarrow> bool" where
  "pending_inv c =
     (distinct (map fst (pendings c)) \<and> (\<forall>(i, p) \<in> set (pendings c). pc_sid p = i \<and> i \<in> sids c) \<and>
      distinct (map d_sid (dials c)) \<and> (\<forall>d \<in> set (dials c). d_attempt d = 1 \<or> d_attempt d = 2) \<and>
      second_calls c + open_firsts c \<le> first_calls c)"

definition origin_inv :: "caller \<Rightarrow> bool" where
  "origin_inv c = (distinct (origins c) \<and> (\<forall>n \<in> set (origins c). Note_ref n \<in> refs c) \<and>
     distinct (map n_id (notices c)))"

definition caller_inv :: "caller_config \<Rightarrow> instant \<Rightarrow> caller \<Rightarrow> bool" where
  "caller_inv cfg t c = (log_inv cfg t c \<and> pending_inv c \<and> origin_inv c)"

lemma write_log_simps [simp]:
  "pendings (write_log ev ref m c) = pendings c"
  "dials (write_log ev ref m c) = dials c"
  "notices (write_log ev ref m c) = notices c"
  by (simp_all add: write_log_def)

lemma refs_write_log: "refs (write_log ev ref m c) = insert ref (refs c)"
  by (auto simp: write_log_def refs_def)

lemma sids_write_log [simp]: "sids (write_log ev ref m c) = sids c"
  by (simp add: sids_def)

lemma caller_inv_later: "caller_inv cfg t c \<Longrightarrow> t \<le> m \<Longrightarrow> caller_inv cfg m c"
  unfolding caller_inv_def log_inv_def by (meson order_trans)

lemma write_other_inv:
  assumes inv: "caller_inv cfg t c" and "ev \<noteq> Call_placed" and "\<And>s. ref \<noteq> Placed_ref s"
  shows "caller_inv cfg t (write_log ev ref m c)"
proof -
  have "placed_times (write_log ev ref m c) = placed_times c" "dial_times (write_log ev ref m c) = dial_times c"
    using assms(2) by (simp_all add: write_log_def placed_times_def dial_times_def)
  then show ?thesis
    using inv assms(3) by (auto simp: caller_inv_def log_inv_def pending_inv_def origin_inv_def refs_write_log
        second_calls_def open_firsts_def first_calls_def origins_def)
qed

lemma count_log:
  assumes "log_inv cfg t c" and "t \<le> m"
  shows "length (filter (in_hour m) (dial_times c)) = calls_in_last_hour m c"
proof -
  have "x \<le> m" if "x \<in> set (dial_times c)" for x using that assms by (force simp: log_inv_def)
  then have "filter (in_hour m) (dial_times c) = filter (\<lambda>x. m - hour \<le> x) (dial_times c)"
    by (intro filter_cong) (auto simp: in_hour_def)
  also have "\<dots> = filter (\<lambda>x. m - hour \<le> x) (placed_times c)" using assms by (simp add: log_inv_def)
  also have "length \<dots> = calls_in_last_hour m c"
    by (simp add: calls_in_last_hour_def placed_times_def filter_map comp_def conj_commute)
  finally show ?thesis .
qed

lemma length_filter_mono: "(\<And>x. x \<in> set xs \<Longrightarrow> P x \<Longrightarrow> Q x) \<Longrightarrow> length (filter P xs) \<le> length (filter Q xs)"
  by (induction xs) auto

lemma window_grows:
  assumes inv: "log_inv cfg t c" and "t \<le> m" and room: "calls_in_last_hour m c < cc_max cfg"
  shows "length (filter (in_hour k) (dial_times c @ [m])) \<le> cc_max cfg"
proof (cases "in_hour k m")
  case False
  then show ?thesis using inv by (simp add: log_inv_def)
next
  case True
  have "length (filter (in_hour k) (dial_times c)) \<le> length (filter (in_hour m) (dial_times c))"
    using inv assms(2) True by (intro length_filter_mono) (fastforce simp: log_inv_def in_hour_def)
  then show ?thesis using True room count_log [OF inv assms(2)] by simp
qed

lemma set_update_other: "i \<noteq> k \<Longrightarrow> (i, x) \<in> set al \<Longrightarrow> (i, x) \<in> set (AList.update k v al)"
  by (induction al) auto

lemma update_new: "k \<notin> fst ` set al \<Longrightarrow> AList.update k v al = al @ [(k, v)]"
  by (induction al) auto

lemma place_inv:
  assumes inv: "caller_inv cfg t c" and t: "t \<le> m"
    and room: "calls_in_last_hour m c < cc_max cfg"
    and fresh: "\<And>s. placed = Some s \<Longrightarrow> s \<notin> sids c"
    and origin: "\<And>n. origin = Some n \<Longrightarrow> attempt = 1 \<and> Note_ref n \<notin> refs c"
    and attempt: "attempt = 1 \<or> attempt = 2 \<and> second_calls c + open_firsts c < first_calls c"
  shows "caller_inv cfg m (snd (place placed kind message attempt m origin c))"
proof (cases placed)
  case None
  have "caller_inv cfg m c" by (rule caller_inv_later [OF inv t])
  then show ?thesis using None by (simp add: place_def write_other_inv)
next
  case (Some s)
  define p where "p = \<lparr>pc_sid = s, pc_kind = kind, pc_message = message, pc_attempt = attempt, pc_placed_at = m\<rparr>"
  define d where "d = \<lparr>d_sid = s, d_at = m, d_attempt = attempt, d_origin = origin\<rparr>"
  define ref where "ref = (case origin of Some n \<Rightarrow> if attempt = 1 then Note_ref n else Placed_ref s
                                   | None \<Rightarrow> Placed_ref s)"
  define c' where "c' = snd (place placed kind message attempt m origin c)"
  have s: "s \<notin> sids c" "s \<notin> fst ` set (pendings c)"
    using fresh [OF Some] inv by (auto simp: caller_inv_def pending_inv_def)
  have new: "ref \<noteq> Uuid_ref" "ref \<notin> refs c"
    using inv s(1) origin by (auto simp: ref_def caller_inv_def log_inv_def split: option.splits)
  have c': "pendings c' = pendings c @ [(s, p)]" "dials c' = dials c @ [d]" "notices c' = notices c"
    "call_log c' = call_log c @ [\<lparr>lr_event = Call_placed, lr_ref = ref, lr_at = m\<rparr>]"
    using s(2) new by (simp_all add: c'_def place_def Some Let_def p_def [symmetric] d_def [symmetric]
        ref_def [symmetric] write_log_def refs_def update_new)
  show ?thesis
    unfolding c'_def [symmetric] caller_inv_def
  proof (intro conjI)
    have "dial_times c' = dial_times c @ [m]" "placed_times c' = placed_times c @ [m]"
      by (simp_all add: c' dial_times_def placed_times_def d_def)
    moreover have "refs c' = insert ref (refs c)" "sids c' = insert s (sids c)"
      by (auto simp: refs_def sids_def c' d_def)
    moreover have "ref = Placed_ref x \<Longrightarrow> x = s" for x by (auto simp: ref_def split: option.splits if_splits)
    moreover have "log_inv cfg t c" using inv by (simp add: caller_inv_def)
    ultimately show "log_inv cfg m c'"
      using window_grows [OF _ t room] t unfolding log_inv_def by force
    show "pending_inv c'"
      using inv s attempt
      by (auto simp: caller_inv_def pending_inv_def c' p_def d_def sids_def second_calls_def open_firsts_def
          first_calls_def image_iff)
    show "origin_inv c'"
      using inv origin
      by (auto simp: caller_inv_def origin_inv_def origins_def c' d_def refs_def ref_def map_filter_def
          split: option.splits)
  qed
qed

lemma decide_room: "cd_call (decide kind m n k) \<Longrightarrow> n < k"
  by (auto simp: decide_def split: option.splits if_splits)

lemma call_owner_inv:
  assumes inv: "caller_inv cfg t c" and t: "t \<le> m"
    and fresh: "\<And>s. placed = Some s \<Longrightarrow> s \<notin> sids c"
    and origin: "\<And>n. origin = Some n \<Longrightarrow> Note_ref n \<notin> refs c"
  shows "caller_inv cfg m (snd (call_owner cfg placed kind message to origin m c))"
proof -
  have later: "caller_inv cfg m c" by (rule caller_inv_later [OF inv t])
  have "caller_inv cfg m (snd (place placed kind message 1 m origin c))"
    if "cd_call (decide kind m (calls_in_last_hour m c) (cc_max cfg))"
    using decide_room [OF that] fresh origin by (intro place_inv [OF inv t]) auto
  then show ?thesis
    using later by (auto simp: call_owner_def Let_def intro!: write_other_inv split: option.splits)
qed

lemma note_ids: "map n_id (snd (record_note fresh q m a b rows)) = map n_id rows @ [fresh]"
  by (auto simp: record_note_def supersede_older_in_group_def new_row_def Let_def)

lemma note_inv:
  assumes "caller_inv cfg t c" and "fresh \<notin> n_id ` set (notices c)"
  shows "caller_inv cfg t (c\<lparr>notices := snd (record_note fresh q m a b (notices c))\<rparr>)"
  using assms by (simp add: caller_inv_def log_inv_def pending_inv_def origin_inv_def note_ids placed_times_def
      dial_times_def refs_def sids_def second_calls_def open_firsts_def first_calls_def origins_def)

lemma open_firsts_delete:
  assumes "distinct (map fst al)" and "(i, p) \<in> set al"
  shows "length (filter (\<lambda>q. pc_attempt (snd q) = 1) al) =
    length (filter (\<lambda>q. pc_attempt (snd q) = 1) (AList.delete i al)) + (if pc_attempt p = 1 then 1 else 0)"
  using assms
proof (induction al)
  case Nil
  then show ?case by simp
next
  case (Cons x al)
  show ?case
  proof (cases "fst x = i")
    case True
    then have "x = (i, p)" using Cons.prems by (auto simp: image_iff)
    moreover have "AList.delete i al = al"
      using True Cons.prems(1) by (auto simp: AList.delete_eq image_iff intro!: filter_True)
    ultimately show ?thesis by simp
  next
    case False
    then show ?thesis using Cons by auto
  qed
qed

lemma ended_inv:
  assumes inv: "caller_inv cfg m c" and p: "(pc_sid p, p) \<in> set (pendings c)"
  defines "c1 \<equiv> write_log Call_ended (Ended_ref (pc_sid p)) m (c\<lparr>pendings := AList.delete (pc_sid p) (pendings c)\<rparr>)"
  shows "caller_inv cfg m c1" and "sids c1 = sids c" and "notices c1 = notices c"
    and "pc_attempt p = 1 \<Longrightarrow> second_calls c1 + open_firsts c1 < first_calls c1"
    and "pendings c1 = AList.delete (pc_sid p) (pendings c)"
proof -
  define c0 where "c0 = c\<lparr>pendings := AList.delete (pc_sid p) (pendings c)\<rparr>"
  have dist: "distinct (map fst (pendings c))" and le: "second_calls c + open_firsts c \<le> first_calls c"
    using inv by (simp_all add: caller_inv_def pending_inv_def)
  note count = open_firsts_delete [OF dist p]
  have sub: "set (AList.delete i al) \<subseteq> set al" for i and al :: "(string \<times> pending_call) list"
    by (auto simp: AList.delete_eq)
  have slack: "second_calls c0 + open_firsts c0 + (if pc_attempt p = 1 then 1 else 0) \<le> first_calls c0"
    using le count by (simp add: c0_def second_calls_def open_firsts_def first_calls_def)
  have "caller_inv cfg m c0"
    using inv slack sub [of "pc_sid p" "pendings c"]
    by (auto simp: c0_def caller_inv_def log_inv_def pending_inv_def origin_inv_def placed_times_def dial_times_def
        refs_def sids_def origins_def distinct_delete)
  then show "caller_inv cfg m c1" unfolding c1_def c0_def by (rule write_other_inv) simp_all
  show "sids c1 = sids c" "notices c1 = notices c" "pendings c1 = AList.delete (pc_sid p) (pendings c)"
    by (simp_all add: c1_def sids_def)
  show "second_calls c1 + open_firsts c1 < first_calls c1" if "pc_attempt p = 1"
    using slack that by (simp add: c1_def c0_def second_calls_def open_firsts_def first_calls_def)
qed

lemma may_retry_inv:
  assumes "caller_inv cfg m c"
  shows "caller_inv cfg m (snd (may_retry cfg p m c))"
  using assms by (auto simp: may_retry_def intro: write_other_inv)

lemma may_retry_frame:
  "pendings (snd (may_retry cfg p m c)) = pendings c" "dials (snd (may_retry cfg p m c)) = dials c"
  "notices (snd (may_retry cfg p m c)) = notices c"
  "fst (may_retry cfg p m c) \<Longrightarrow> calls_in_last_hour m (snd (may_retry cfg p m c)) < cc_max cfg"
  by (auto simp: may_retry_def split: if_splits intro: decide_room)

lemma place_frame:
  "notices (snd (place placed kind message attempt m origin c)) = notices c"
  "sids (snd (place placed kind message attempt m origin c)) \<subseteq> sids c \<union> set_option placed"
  "\<not> isOk (fst (place placed kind message attempt m origin c)) \<Longrightarrow>
     dials (snd (place placed kind message attempt m origin c)) = dials c"
  "i \<notin> set_option placed \<Longrightarrow> (i, x) \<in> set (pendings c) \<Longrightarrow>
     (i, x) \<in> set (pendings (snd (place placed kind message attempt m origin c)))"
  by (auto simp: place_def sids_def Let_def split: option.splits intro: set_update_other)

lemma finish_call_inv:
  fixes n :: counts and st :: string
  assumes inv: "caller_inv cfg m c" and p: "(pc_sid p, p) \<in> set (pendings c)"
    and sid: "\<And>s. retry = Some s \<Longrightarrow> s \<notin> sids c" and nid: "fresh \<notin> n_id ` set (notices c)"
  defines "c' \<equiv> snd (finish_call cfg st retry fresh m p (n, c))"
  shows "caller_inv cfg m c'"
    and "sids c' \<subseteq> sids c \<union> set_option retry"
    and "n_id ` set (notices c') \<subseteq> insert fresh (n_id ` set (notices c))"
    and "\<And>i x. i \<noteq> pc_sid p \<Longrightarrow> (i, x) \<in> set (pendings c) \<Longrightarrow> (i, x) \<in> set (pendings c')"
proof -
  define c1 where "c1 = write_log Call_ended (Ended_ref (pc_sid p)) m (c\<lparr>pendings := AList.delete (pc_sid p) (pendings c)\<rparr>)"
  note ended = ended_inv [OF inv p, folded c1_def]
  define mr where "mr = (if pc_attempt p = 1 then may_retry cfg p m c1 else (False, c1))"
  have mr_inv: "caller_inv cfg m (snd mr)" using ended(1) may_retry_inv by (auto simp: mr_def)
  have mr_frame: "pendings (snd mr) = pendings c1" "dials (snd mr) = dials c1" "notices (snd mr) = notices c"
    using may_retry_frame ended(3) by (auto simp: mr_def)
  have mr_sids: "sids (snd mr) = sids c" using mr_frame(2) ended(2) by (simp add: sids_def)
  define pl where "pl = place retry (pc_kind p) (pc_message p) 2 m None (snd mr)"
  have pl_inv: "caller_inv cfg m (snd pl)" if "fst mr" unfolding pl_def
  proof (rule place_inv [OF mr_inv])
    have one: "pc_attempt p = 1" "mr = may_retry cfg p m c1" using that by (auto simp: mr_def split: if_splits)
    show "calls_in_last_hour m (snd mr) < cc_max cfg" using may_retry_frame(4) that one(2) by blast
    show "s \<notin> sids (snd mr)" if "retry = Some s" for s using sid [OF that] mr_sids by simp
    show "(2 :: nat) = 1 \<or> (2 :: nat) = 2 \<and> second_calls (snd mr) + open_firsts (snd mr) < first_calls (snd mr)"
      using ended(4) [OF one(1)] mr_frame by (simp add: second_calls_def open_firsts_def first_calls_def)
  qed simp_all
  define c2 where "c2 = (if fst mr then snd pl else snd mr)"
  have c2: "caller_inv cfg m c2" "sids c2 \<subseteq> sids c \<union> set_option retry" "notices c2 = notices c"
    using pl_inv mr_inv place_frame(1,2) mr_frame(3) mr_sids unfolding c2_def pl_def by (auto, blast)
  have keep: "(i, x) \<in> set (pendings c2)" if "i \<noteq> pc_sid p" "(i, x) \<in> set (pendings c)" for i x
  proof -
    have "(i, x) \<in> set (pendings c1)" using that by (auto simp: ended(5) AList.delete_eq)
    moreover have "i \<notin> set_option retry"
      using inv that(2) sid by (auto simp: caller_inv_def pending_inv_def)
    ultimately show ?thesis using place_frame(4) mr_frame(1) by (auto simp: c2_def pl_def)
  qed
  have c': "c' = (if st \<in> set answered_statuses then c1
      else if fst mr \<and> isOk (fst pl) then c2 else notify_unanswered fresh p m c2)"
    unfolding c'_def finish_call_def Let_def fst_conv snd_conv c1_def [symmetric] mr_def [symmetric]
      pl_def [symmetric] c2_def [symmetric] by simp
  have note2: "caller_inv cfg m (notify_unanswered fresh p m c2)"
    unfolding notify_unanswered_def using c2 nid by (intro note_inv) simp_all
  show "caller_inv cfg m c'" using ended(1) c2(1) note2 by (simp add: c')
  show "sids c' \<subseteq> sids c \<union> set_option retry"
    using ended(2) c2(2) by (auto simp: c' notify_unanswered_def sids_def)
  have "n_id ` set (notices (notify_unanswered fresh p m c2)) \<subseteq> insert fresh (n_id ` set (notices c))"
    using arg_cong [OF note_ids, of set] c2(3) by (simp add: notify_unanswered_def)
  then show "n_id ` set (notices c') \<subseteq> insert fresh (n_id ` set (notices c))"
    using ended(3) c2(3) by (auto simp: c')
  show "(i, x) \<in> set (pendings c')" if "i \<noteq> pc_sid p" "(i, x) \<in> set (pendings c)" for i x
    using keep [OF that] that by (auto simp: c' ended(5) AList.delete_eq notify_unanswered_def)
qed

lemma sweep_one_inv:
  fixes n :: counts and status :: "string \<Rightarrow> string" and fresh :: "string \<Rightarrow> nat"
  assumes inv: "caller_inv cfg m c" and p: "(pc_sid p, p) \<in> set (pendings c)"
    and sid: "\<And>s. retry (pc_sid p) = Some s \<Longrightarrow> s \<notin> sids c" and nid: "fresh (pc_sid p) \<notin> n_id ` set (notices c)"
  defines "c' \<equiv> snd (sweep_one cfg status retry fresh m p (n, c))"
  shows "caller_inv cfg m c' \<and> sids c' \<subseteq> sids c \<union> set_option (retry (pc_sid p)) \<and>
    n_id ` set (notices c') \<subseteq> insert (fresh (pc_sid p)) (n_id ` set (notices c)) \<and>
    (\<forall>i x. i \<noteq> pc_sid p \<longrightarrow> (i, x) \<in> set (pendings c) \<longrightarrow> (i, x) \<in> set (pendings c'))"
proof -
  have "c' = c \<or> (\<exists>st. c' = snd (finish_call cfg st (retry (pc_sid p)) (fresh (pc_sid p)) m p (n, c)))"
    by (auto simp: c'_def sweep_one_def Let_def)
  then consider "c' = c" | st where
      "c' = snd (finish_call cfg st (retry (pc_sid p)) (fresh (pc_sid p)) m p (n, c))" by blast
  then show ?thesis
  proof cases
    case 1
    then show ?thesis using inv by auto
  next
    case (2 st)
    then show ?thesis
      using finish_call_inv [OF inv p, where retry = "retry (pc_sid p)" and fresh = "fresh (pc_sid p)" and st = st and n = n] sid nid by auto
  qed
qed

lemma sweep_fold_inv:
  assumes "caller_inv cfg m c" and "distinct (map pc_sid ps)"
    and "\<And>p. p \<in> set ps \<Longrightarrow> (pc_sid p, p) \<in> set (pendings c)"
    and "\<And>p s. p \<in> set ps \<Longrightarrow> retry (pc_sid p) = Some s \<Longrightarrow> s \<notin> sids c"
    and "\<And>p. p \<in> set ps \<Longrightarrow> fresh (pc_sid p) \<notin> n_id ` set (notices c)"
    and inj: "\<And>i j s. retry i = Some s \<Longrightarrow> retry j = Some s \<Longrightarrow> i = j" and "inj fresh"
  shows "caller_inv cfg m (snd (fold (sweep_one cfg status retry fresh m) ps (n, c)))"
  using assms(1-5)
proof (induction ps arbitrary: n c)
  case Nil
  then show ?case by simp
next
  case (Cons p ps)
  define nc where "nc = sweep_one cfg status retry fresh m p (n, c)"
  note one = sweep_one_inv [OF Cons.prems(1), of p retry fresh status n, folded nc_def]
  have step: "caller_inv cfg m (snd nc)" "sids (snd nc) \<subseteq> sids c \<union> set_option (retry (pc_sid p))"
    "n_id ` set (notices (snd nc)) \<subseteq> insert (fresh (pc_sid p)) (n_id ` set (notices c))"
    "\<And>i x. i \<noteq> pc_sid p \<Longrightarrow> (i, x) \<in> set (pendings c) \<Longrightarrow> (i, x) \<in> set (pendings (snd nc))"
    using one Cons.prems(3,4,5) [of p] by auto
  have other: "pc_sid q \<noteq> pc_sid p" if "q \<in> set ps" for q using Cons.prems(2) that by (force simp: image_iff)
  have "caller_inv cfg m (snd (fold (sweep_one cfg status retry fresh m) ps (fst nc, snd nc)))"
  proof (rule Cons.IH [OF step(1)])
    show "distinct (map pc_sid ps)" using Cons.prems(2) by simp
    fix q assume q: "q \<in> set ps"
    show "(pc_sid q, q) \<in> set (pendings (snd nc))"
      using step(4) [OF other [OF q]] Cons.prems(3) q by simp
    show "fresh (pc_sid q) \<notin> n_id ` set (notices (snd nc))"
      using step(3) Cons.prems(5) [of q] q other [OF q] \<open>inj fresh\<close> by (auto dest: injD)
    show "s \<notin> sids (snd nc)" if "retry (pc_sid q) = Some s" for s
      using step(2) Cons.prems(4) [of q s] q that other [OF q] inj by (auto dest!: subsetD)
  qed
  then show ?case by (simp add: nc_def)
qed

lemma call_frame:
  "refs (snd (call_owner cfg placed kind message to (Some i) m c)) \<subseteq> refs c \<union> {Uuid_ref, Note_ref i}"
  "sids (snd (call_owner cfg placed kind message to origin m c)) \<subseteq> sids c \<union> set_option placed"
proof -
  have c1: "refs (c\<lparr>pendings := ps, dials := ds\<rparr>) = refs c" for ps ds by (simp add: refs_def)
  show "refs (snd (call_owner cfg placed kind message to (Some i) m c)) \<subseteq> refs c \<union> {Uuid_ref, Note_ref i}"
    by (auto simp: call_owner_def place_def refs_write_log c1 Let_def split: option.splits if_splits)
  show "sids (snd (call_owner cfg placed kind message to origin m c)) \<subseteq> sids c \<union> set_option placed"
    using place_frame(2) [of placed kind message 1 m origin c] by (auto simp: call_owner_def Let_def)
qed

lemma call_event_snd:
  "snd (call_event_one cfg placed m (kind, message, i) nc) =
     snd (call_owner cfg (placed i) kind message None (Some i) m (snd nc))"
  by (auto simp: call_event_one_def split: prod.splits sum.splits call_outcome.splits)

lemma events_fold_inv:
  assumes "caller_inv cfg t c" and "t \<le> m" and "distinct (map (snd \<circ> snd) todo)"
    and "\<And>x. x \<in> set todo \<Longrightarrow> Note_ref (snd (snd x)) \<notin> refs c"
    and "\<And>x s. x \<in> set todo \<Longrightarrow> placed (snd (snd x)) = Some s \<Longrightarrow> s \<notin> sids c"
    and inj: "\<And>i j s. placed i = Some s \<Longrightarrow> placed j = Some s \<Longrightarrow> i = j"
  shows "caller_inv cfg m (snd (fold (call_event_one cfg placed m) todo (k, c)))"
  using assms(1-5)
proof (induction todo arbitrary: k c t)
  case Nil
  then show ?case using caller_inv_later by simp
next
  case (Cons x todo)
  obtain kind message i where x: "x = (kind, message, i)" by (cases x)
  define nc where "nc = call_event_one cfg placed m x (k, c)"
  have snd_nc: "snd nc = snd (call_owner cfg (placed i) kind message None (Some i) m c)"
    by (simp add: nc_def x call_event_snd)
  have later: "snd (snd y) \<noteq> i" if "y \<in> set todo" for y using Cons.prems(3) that by (force simp: x image_iff)
  have "caller_inv cfg m (snd (fold (call_event_one cfg placed m) todo (fst nc, snd nc)))"
  proof (rule Cons.IH)
    show "caller_inv cfg m (snd nc)" unfolding snd_nc
      using Cons.prems(4,5) [of x] by (intro call_owner_inv [OF Cons.prems(1,2)]) (auto simp: x)
    show "distinct (map (snd \<circ> snd) todo)" using Cons.prems(3) by (simp add: comp_def)
    fix y assume y: "y \<in> set todo"
    show "Note_ref (snd (snd y)) \<notin> refs (snd nc)"
      using call_frame(1) [of cfg "placed i" kind message None i m c] Cons.prems(4) [of y] y later [OF y]
      by (auto simp: snd_nc)
    show "s \<notin> sids (snd nc)" if "placed (snd (snd y)) = Some s" for s
      using call_frame(2) [of cfg "placed i" kind message None "Some i" m c] Cons.prems(5) [of y s] y that
        inj [OF that, of i] later [OF y] by (auto simp: snd_nc dest!: subsetD)
  qed simp
  then show ?case by (simp add: nc_def)
qed

lemma call_todo_ids:
  assumes "distinct (map n_id (notices c))"
  shows "distinct (map (snd \<circ> snd) (call_todo m c))"
    and "x \<in> set (call_todo m c) \<Longrightarrow> Note_ref (snd (snd x)) \<notin> refs c"
proof -
  define rs where "rs = sort_key n_created_at (filter (\<lambda>r. m - notification_lookback \<le> n_created_at r) (notices c))"
  have "distinct (map n_id (filter (\<lambda>r. m - notification_lookback \<le> n_created_at r) (notices c)))"
    using assms by (rule distinct_map_filter)
  then have dist: "distinct (map n_id rs)" unfolding rs_def by (simp add: distinct_map)
  have D: "distinct (map (snd \<circ> snd) (concat (map f rs)))"
    if F: "\<And>r. f r = [] \<or> (\<exists>k t. f r = [(k, t, n_id r)])" for f :: "notification \<Rightarrow> (string \<times> string \<times> nat) list"
    using dist
  proof (induction rs)
    case (Cons r rs)
    have inrs: "snd (snd x) \<in> n_id ` set rs" if mem: "x \<in> set (concat (map f rs))" for x
    proof -
      from mem obtain r' where r': "r' \<in> set rs" "x \<in> set (f r')" by auto
      then have "snd (snd x) = n_id r'" using F [of r'] by auto
      then show ?thesis using r'(1) by simp
    qed
    have "snd (snd x) \<noteq> n_id r" if "x \<in> set (concat (map f rs))" for x
      using inrs [OF that] Cons.prems by auto
    then have "n_id r \<notin> (snd \<circ> snd) ` set (concat (map f rs))" by (metis comp_apply imageE)
    moreover have "distinct (map (snd \<circ> snd) (concat (map f rs)))" using Cons by (simp add: comp_def)
    ultimately show ?case using F [of r] by (elim disjE exE) (simp_all add: comp_def)
  qed simp
  show "distinct (map (snd \<circ> snd) (call_todo m c))"
    unfolding call_todo_def rs_def [symmetric] by (rule D) (auto split: option.splits)
  show "Note_ref (snd (snd x)) \<notin> refs c" if "x \<in> set (call_todo m c)"
    using that by (auto simp: call_todo_def refs_def split: option.splits if_splits)
qed

text \<open>SIDs are unique at the provider, row ids are primary keys.\<close>

fun caller_op_ok :: "caller_op \<Rightarrow> caller \<Rightarrow> bool" where
  "caller_op_ok (Op_call placed kind message to) c = (\<forall>s. placed = Some s \<longrightarrow> s \<notin> sids c)"
| "caller_op_ok (Op_sweep status retry fresh) c =
     ((\<forall>i s. retry i = Some s \<longrightarrow> s \<notin> sids c) \<and> (\<forall>i j s. retry i = Some s \<longrightarrow> retry j = Some s \<longrightarrow> i = j) \<and>
      inj fresh \<and> (\<forall>i. fresh i \<notin> n_id ` set (notices c)))"
| "caller_op_ok (Op_events placed) c =
     ((\<forall>i s. placed i = Some s \<longrightarrow> s \<notin> sids c) \<and> (\<forall>i j s. placed i = Some s \<longrightarrow> placed j = Some s \<longrightarrow> i = j))"
| "caller_op_ok (Op_note fresh q) c = (fresh \<notin> n_id ` set (notices c))"

lemma caller_step_inv:
  assumes inv: "caller_inv cfg t c" and t: "t \<le> m" and ok: "caller_op_ok op c"
  shows "caller_inv cfg m (caller_step cfg op m c)"
proof (cases op)
  case (Op_call placed kind message to)
  then show ?thesis using ok by (auto intro!: call_owner_inv [OF inv t])
next
  case (Op_sweep status retry fresh)
  have later: "caller_inv cfg m c" by (rule caller_inv_later [OF inv t])
  have keys: "pc_sid (snd q) = fst q" if "q \<in> set (pendings c)" for q
    using inv that by (auto simp: caller_inv_def pending_inv_def)
  then have "map pc_sid (map snd (pendings c)) = map fst (pendings c)" by simp
  moreover have "distinct (map fst (pendings c))" using inv by (simp add: caller_inv_def pending_inv_def)
  ultimately have "distinct (map pc_sid (map snd (pendings c)))" by (simp only:)
  moreover have "(pc_sid p, p) \<in> set (pendings c)" if "p \<in> set (map snd (pendings c))" for p
    using that keys by fastforce
  ultimately show ?thesis
    unfolding Op_sweep caller_step.simps sweep_calls_def
    using ok by (intro sweep_fold_inv [OF later]) (auto simp: Op_sweep)
next
  case (Op_events placed)
  have "distinct (map n_id (notices c))" using inv by (simp add: caller_inv_def origin_inv_def)
  note todo = call_todo_ids [OF this]
  show ?thesis
    unfolding Op_events caller_step.simps call_for_notifications_def
    using ok events_fold_inv [OF inv t todo(1), of m placed] todo(2) caller_inv_later [OF inv t]
    by (auto simp: Op_events)
next
  case (Op_note fresh q)
  then show ?thesis using ok note_inv [OF caller_inv_later [OF inv t]] by simp
qed

inductive caller_reachable :: "caller_config \<Rightarrow> caller \<Rightarrow> instant \<Rightarrow> bool" for cfg where
  start: "caller_reachable cfg \<lparr>pendings = [], call_log = [], notices = [], dials = []\<rparr> t"
| more: "caller_reachable cfg c t \<Longrightarrow> t \<le> m \<Longrightarrow> caller_op_ok op c \<Longrightarrow>
    caller_reachable cfg (caller_step cfg op m c) m"

lemma caller_reachable_inv: "caller_reachable cfg c t \<Longrightarrow> caller_inv cfg t c"
proof (induction rule: caller_reachable.induct)
  case start
  then show ?case
    by (simp add: caller_inv_def log_inv_def pending_inv_def origin_inv_def placed_times_def dial_times_def
        refs_def sids_def second_calls_def open_firsts_def first_calls_def origins_def map_filter_def)
qed (rule caller_step_inv)

section \<open>Sample inputs\<close>

definition sample_cfg :: caller_config where
  "sample_cfg = \<lparr>cc_configured = True, cc_owner = ''+905551112233'', cc_max = 1\<rparr>"

definition no_calls :: caller where
  "no_calls = \<lparr>pendings = [], call_log = [], notices = [], dials = []\<rparr>"

definition test_call :: "string \<Rightarrow> caller_op" where
  "test_call sid = Op_call (Some sid) ''telephony.test'' ''t'' None"

definition called_once :: caller where
  "called_once = caller_step sample_cfg (test_call ''CA1'') (seconds 50000) no_calls"

lemma called_once_reachable: "caller_reachable sample_cfg called_once (seconds 50000)"
  unfolding called_once_def
  by (rule caller_reachable.more [OF caller_reachable.start [of _ 0], folded no_calls_def])
    (simp_all add: test_call_def no_calls_def sids_def)

lemma called_once_dials:
  "dials called_once = [\<lparr>d_sid = ''CA1'', d_at = seconds 50000, d_attempt = 1, d_origin = None\<rparr>]"
  by (simp add: called_once_def test_call_def no_calls_def call_owner_def place_def sample_cfg_def decide_def
      rules_def calls_in_last_hour_def Let_def)

section \<open>Properties\<close>

text \<open>
  The hourly cap holds for every reason.  In every state that calls, sweeps, event scans and new
  notifications can produce while time moves on, no window of an hour holds more than
  \<open>max_per_hour\<close> calls that the provider accepted, retries and critical calls included.
\<close>
theorem hourly_cap_holds:
  assumes "caller_reachable cfg c t"
  shows "length (filter (\<lambda>d. m - hour \<le> d_at d \<and> d_at d \<le> m) (dials c)) \<le> cc_max cfg"
  using caller_reachable_inv [OF assms]
  by (auto simp: caller_inv_def log_inv_def dial_times_def filter_map comp_def in_hour_def)

theorem hourly_cap_holds_witness:
  "length (dials called_once) = 1 \<and>
   length (filter (\<lambda>d. seconds 50000 - hour \<le> d_at d \<and> d_at d \<le> seconds 50000)
     (dials (caller_step sample_cfg (test_call ''CA2'') (seconds 50000) called_once))) \<le> 1"
proof -
  have "caller_reachable sample_cfg (caller_step sample_cfg (test_call ''CA2'') (seconds 50000) called_once) (seconds 50000)"
    by (rule caller_reachable.more [OF called_once_reachable]) (simp_all add: test_call_def sids_def called_once_dials)
  from hourly_cap_holds [OF this, of "seconds 50000"] show ?thesis
    by (simp add: called_once_dials sample_cfg_def)
qed

text \<open>
  Nobody is called a third time.  Every call is a first call or a retry, the retries never
  outnumber the first calls that are already over, and one notification leads to at most one first
  call, whatever the provider reports and however passes repeat.
\<close>
theorem one_call_one_retry:
  assumes "caller_reachable cfg c t"
  shows "(\<forall>d \<in> set (dials c). d_attempt d = 1 \<or> d_attempt d = 2) \<and>
    length (filter (\<lambda>d. d_attempt d = 2) (dials c)) + length (filter (\<lambda>q. pc_attempt (snd q) = 1) (pendings c))
      \<le> length (filter (\<lambda>d. d_attempt d = 1) (dials c)) \<and>
    distinct (List.map_filter d_origin (dials c))"
  using caller_reachable_inv [OF assms]
  by (simp add: caller_inv_def pending_inv_def origin_inv_def second_calls_def open_firsts_def first_calls_def
      origins_def)

theorem one_call_one_retry_witness:
  "length (filter (\<lambda>q. pc_attempt (snd q) = 1) (pendings called_once)) \<le> length (dials called_once)"
  using one_call_one_retry [OF called_once_reachable] by (simp add: called_once_dials)

section \<open>Where the promises end\<close>

text \<open>
  The cap is read before the provider is asked and written after: two calls that both decide before
  either is in the ledger pass a cap of one.
\<close>

lemma cap_race:
  "let allowed = cd_call (decide ''telephony.test'' 0 (calls_in_last_hour 0 no_calls) 1);
       first = snd (place (Some ''CA1'') ''telephony.test'' ''t'' 1 0 None no_calls);
       both = snd (place (Some ''CA2'') ''telephony.test'' ''t'' 1 0 None first)
   in allowed \<and> length (dials both) = 2 \<and> calls_in_last_hour 0 both = 2"
  by (simp add: decide_def rules_def calls_in_last_hour_def no_calls_def place_def write_log_def hour_def Let_def)

text \<open>
  A call the provider refused leaves no row under the notification's \<open>source_ref\<close>: the next pass
  asks the provider again about the same notification.
\<close>

lemma refused_call_is_asked_again:
  assumes "x \<in> set (call_todo m c)" and "snd (place None kind message 1 m (Some (snd (snd x))) c) = c'"
  shows "x \<in> set (call_todo m c') \<and> dials c' = dials c"
  using assms by (auto simp: place_def call_todo_def write_log_def split: option.splits if_splits)

text \<open>The notice of an unanswered call never rings.\<close>

lemma unanswered_notice_never_rings: "call_kind_for_notification ''telephony.unanswered'' = None"
  by (simp add: call_kind_for_notification_def notification_kinds_def)

end
