(* ===== verification/Alarm_Receipts.thy ===== *)
theory Alarm_Receipts imports Prelude "HOL-Library.AList" begin

text \<open>
  What became of an alarm (\<open>urgent_alert/receipts.py\<close>, \<open>urgent_alert/store_sql.py\<close>, the pass of
  \<open>urgent_alert/loop.py\<close>).  The locale \<open>receipt_store\<close> is the \<open>ReceiptStore\<close> protocol as the poll
  uses it; the store in memory and the store on the table \<open>urgent_alert_receipts\<close> both interpret it.
  The provider's answers are functions of the receipt id, fixed during one pass.  The flag
  \<open>ledger_ok\<close> says whether the ledger write after the commit of a new receipt succeeds; the ledger
  writes of \<open>close\<close> are taken to succeed.
\<close>

section \<open>Data\<close>

record alarm_receipt =
  receipt_id :: string
  sent_at :: instant
  expires_at :: instant

record open_receipt =
  or_note :: nat
  or_receipt :: alarm_receipt

record receipt_status =
  acknowledged_at :: "instant option"
  st_expired :: bool
  st_expires_at :: "instant option"

datatype alarm_outcome = Seen | Unseen | Cancelled

record alert_event =
  ev_kind :: alarm_outcome
  ev_note :: nat
  ev_receipt :: string
  ev_at :: instant

abbreviation rid :: "open_receipt \<Rightarrow> string" where "rid r \<equiv> receipt_id (or_receipt r)"

definition receipt_lifetime :: instant where "receipt_lifetime = seconds 604800"

section \<open>The poll\<close>

definition receipt_verdict :: "open_receipt \<Rightarrow> receipt_status option \<Rightarrow> instant \<Rightarrow> alert_event option" where
  "receipt_verdict item status now =
     (let receipt = or_receipt item;
          event = (\<lambda>k t. Some \<lparr>ev_kind = k, ev_note = or_note item, ev_receipt = receipt_id receipt, ev_at = t\<rparr>)
      in case status of
           Some st \<Rightarrow>
             (case acknowledged_at st of
                Some t \<Rightarrow> event Seen t
              | None \<Rightarrow>
                  if st_expired st
                  then event Unseen (case st_expires_at st of Some t \<Rightarrow> t | None \<Rightarrow> expires_at receipt)
                  else None)
         | None \<Rightarrow>
             if now > sent_at receipt + receipt_lifetime then event Unseen (expires_at receipt) else None)"

fun poll_items ::
    "(string \<Rightarrow> alarm_outcome \<Rightarrow> instant \<Rightarrow> 's \<Rightarrow> 's) \<Rightarrow> (string \<Rightarrow> receipt_status option) \<Rightarrow> instant \<Rightarrow>
     open_receipt list \<Rightarrow> 's \<Rightarrow> alert_event list \<times> 's" where
  "poll_items close poll now [] s = ([], s)"
| "poll_items close poll now (item # items) s =
     (case receipt_verdict item (poll (rid item)) now of
        None \<Rightarrow> poll_items close poll now items s
      | Some e \<Rightarrow>
          (case poll_items close poll now items (close (rid item) (ev_kind e) (ev_at e) s) of
             (es, s') \<Rightarrow> (e # es, s')))"

definition poll_open_receipts ::
    "('s \<Rightarrow> open_receipt list) \<Rightarrow> (string \<Rightarrow> alarm_outcome \<Rightarrow> instant \<Rightarrow> 's \<Rightarrow> 's) \<Rightarrow>
     (string \<Rightarrow> receipt_status option) \<Rightarrow> instant \<Rightarrow> 's \<Rightarrow> alert_event list \<times> 's" where
  "poll_open_receipts list_open close poll now s = poll_items close poll now (list_open s) s"

section \<open>The store in memory\<close>

record memory_store =
  ms_open :: "(string \<times> open_receipt) list"
  ms_closed :: "string \<rightharpoonup> alarm_outcome \<times> instant"

definition memory_open :: "nat \<Rightarrow> alarm_receipt \<Rightarrow> memory_store \<Rightarrow> memory_store" where
  "memory_open note r s =
     s\<lparr>ms_open := AList.update (receipt_id r) \<lparr>or_note = note, or_receipt = r\<rparr> (ms_open s)\<rparr>"

definition memory_list_open :: "memory_store \<Rightarrow> open_receipt list" where
  "memory_list_open s = map snd (ms_open s)"

definition memory_close :: "string \<Rightarrow> alarm_outcome \<Rightarrow> instant \<Rightarrow> memory_store \<Rightarrow> memory_store" where
  "memory_close i out t s =
     (case map_of (ms_open s) i of
        None \<Rightarrow> s
      | Some _ \<Rightarrow> s\<lparr>ms_open := AList.delete i (ms_open s), ms_closed := (ms_closed s)(i \<mapsto> (out, t))\<rparr>)"

section \<open>The store on the table\<close>

datatype alarm_source = Pushover | Inbox_source

record receipt_row =
  rr_note :: nat
  rr_receipt :: alarm_receipt
  rr_closed_at :: "instant option"
  rr_outcome :: "alarm_outcome option"
  rr_seen_at :: "instant option"
  rr_source :: alarm_source

datatype ledger_line = Alert_sent nat string | Alert_seen nat string | Alert_unseen nat string

record sql_store =
  ss_rows :: "receipt_row list"
  ss_ledger :: "ledger_line list"

definition row_id :: "receipt_row \<Rightarrow> string" where "row_id r = receipt_id (rr_receipt r)"
definition is_open :: "receipt_row \<Rightarrow> bool" where "is_open r = (rr_closed_at r = None)"
definition row_item :: "receipt_row \<Rightarrow> open_receipt" where
  "row_item r = \<lparr>or_note = rr_note r, or_receipt = rr_receipt r\<rparr>"

text \<open>The first component tells whether the call returned; the column \<open>receipt_id\<close> is unique.\<close>

definition sql_open :: "bool \<Rightarrow> nat \<Rightarrow> alarm_receipt \<Rightarrow> sql_store \<Rightarrow> bool \<times> sql_store" where
  "sql_open ledger_ok note r s =
     (if receipt_id r \<in> row_id ` set (ss_rows s) then (False, s)
      else let s1 = s\<lparr>ss_rows := ss_rows s @ [\<lparr>rr_note = note, rr_receipt = r, rr_closed_at = None,
                        rr_outcome = None, rr_seen_at = None, rr_source = Pushover\<rparr>]\<rparr>
           in if ledger_ok then (True, s1\<lparr>ss_ledger := ss_ledger s1 @ [Alert_sent note (receipt_id r)]\<rparr>)
              else (False, s1))"

definition sql_list_open :: "sql_store \<Rightarrow> open_receipt list" where
  "sql_list_open s = map row_item (sort_key (\<lambda>r. sent_at (rr_receipt r)) (filter is_open (ss_rows s)))"

definition count_open :: "sql_store \<Rightarrow> nat" where
  "count_open s = length (filter is_open (ss_rows s))"

definition read_elsewhere :: "(nat \<Rightarrow> instant option) \<Rightarrow> sql_store \<Rightarrow> (open_receipt \<times> instant) list" where
  "read_elsewhere read_at s =
     concat (map (\<lambda>r. case read_at (rr_note r) of None \<Rightarrow> [] | Some t \<Rightarrow> [(row_item r, t)])
       (filter is_open (ss_rows s)))"

definition closed_row :: "alarm_outcome \<Rightarrow> instant \<Rightarrow> instant \<Rightarrow> alarm_source \<Rightarrow> receipt_row \<Rightarrow> receipt_row" where
  "closed_row out t clock src r =
     r\<lparr>rr_closed_at := Some clock, rr_outcome := Some out, rr_source := src,
       rr_seen_at := (if out = Seen \<or> src \<noteq> Pushover then Some t else rr_seen_at r)\<rparr>"

definition report :: "alarm_outcome \<Rightarrow> nat \<Rightarrow> string \<Rightarrow> ledger_line" where
  "report out note i = (if out = Unseen then Alert_unseen note i else Alert_seen note i)"

definition sql_close ::
    "instant \<Rightarrow> alarm_source \<Rightarrow> string \<Rightarrow> alarm_outcome \<Rightarrow> instant \<Rightarrow> sql_store \<Rightarrow> sql_store" where
  "sql_close clock src i out t s =
     (case find (\<lambda>r. row_id r = i \<and> is_open r) (ss_rows s) of
        None \<Rightarrow> s
      | Some r \<Rightarrow>
          s\<lparr>ss_rows := map (\<lambda>x. if row_id x = i \<and> is_open x then closed_row out t clock src x else x) (ss_rows s),
            ss_ledger := ss_ledger s @ [report out (rr_note r) i]\<rparr>)"

definition last_closed :: "sql_store \<Rightarrow> (alarm_outcome \<times> instant option) option" where
  "last_closed s =
     (case sort_key (\<lambda>r. - the (rr_closed_at r)) (filter (\<lambda>r. \<not> is_open r) (ss_rows s)) of
        [] \<Rightarrow> None
      | r # _ \<Rightarrow> (case rr_outcome r of None \<Rightarrow> None | Some out \<Rightarrow> Some (out, rr_seen_at r)))"

section \<open>One pass of the loop\<close>

fun cancel_read :: "instant \<Rightarrow> (open_receipt \<times> instant) list \<Rightarrow> sql_store \<Rightarrow> sql_store" where
  "cancel_read clock [] s = s"
| "cancel_read clock ((item, t) # rest) s =
     cancel_read clock rest (sql_close clock Inbox_source (rid item) Cancelled t s)"

definition loop_pass ::
    "bool \<Rightarrow> (nat \<Rightarrow> instant option) \<Rightarrow> (string \<Rightarrow> receipt_status option) \<Rightarrow> instant \<Rightarrow> instant \<Rightarrow>
     sql_store \<Rightarrow> alert_event list \<times> sql_store" where
  "loop_pass has_provider read_at poll clock now s =
     (if \<not> has_provider \<or> count_open s = 0 then ([], s)
      else poll_open_receipts sql_list_open (sql_close clock Pushover) poll now
             (cancel_read clock (read_elsewhere read_at s) s))"

section \<open>The protocol\<close>

locale receipt_store =
  fixes list_open :: "'s \<Rightarrow> open_receipt list"
    and close :: "string \<Rightarrow> alarm_outcome \<Rightarrow> instant \<Rightarrow> 's \<Rightarrow> 's"
    and ok :: "'s \<Rightarrow> bool"
  assumes open_distinct: "ok s \<Longrightarrow> distinct (map rid (list_open s))"
    and close_ok: "ok s \<Longrightarrow> ok (close i out t s)"
    and close_open: "ok s \<Longrightarrow> list_open (close i out t s) = filter (\<lambda>r. rid r \<noteq> i) (list_open s)"
begin

lemma poll_items_ok: "ok s \<Longrightarrow> ok (snd (poll_items close poll now items s))"
  by (induction items arbitrary: s) (auto simp: close_ok split: option.splits prod.splits, metis close_ok snd_conv)

lemma poll_items_events:
  "fst (poll_items close poll now items s) = List.map_filter (\<lambda>r. receipt_verdict r (poll (rid r)) now) items"
  by (induction items arbitrary: s) (auto simp: map_filter_simps split: option.splits prod.splits, metis fst_conv)

lemma poll_items_open:
  "ok s \<Longrightarrow> list_open (snd (poll_items close poll now items s)) =
     filter (\<lambda>r. \<not> (\<exists>x \<in> set items. rid x = rid r \<and> receipt_verdict x (poll (rid x)) now \<noteq> None)) (list_open s)"
proof (induction items arbitrary: s)
  case Nil
  then show ?case by simp
next
  case (Cons item items)
  show ?case
  proof (cases "receipt_verdict item (poll (rid item)) now")
    case None
    then show ?thesis using Cons by (auto intro: filter_cong)
  next
    case (Some e)
    let ?s = "close (rid item) (ev_kind e) (ev_at e) s"
    have "list_open (snd (poll_items close poll now (item # items) s)) =
        list_open (snd (poll_items close poll now items ?s))"
      using Some by (simp split: prod.splits)
    also have "\<dots> = filter (\<lambda>r. \<not> (\<exists>x \<in> set items. rid x = rid r \<and> receipt_verdict x (poll (rid x)) now \<noteq> None))
        (filter (\<lambda>r. rid r \<noteq> rid item) (list_open s))"
      using Cons.IH [OF close_ok [OF Cons.prems]] close_open [OF Cons.prems] by simp
    finally show ?thesis using Some by (auto simp: filter_filter intro!: filter_cong)
  qed
qed

text \<open>A pass reports exactly the receipts with a receipt_verdict, each once, and leaves open the others.\<close>

lemma poll_exact:
  assumes "ok s"
  shows "fst (poll_open_receipts list_open close poll now s) =
      List.map_filter (\<lambda>r. receipt_verdict r (poll (rid r)) now) (list_open s)"
    and "list_open (snd (poll_open_receipts list_open close poll now s)) =
      filter (\<lambda>r. receipt_verdict r (poll (rid r)) now = None) (list_open s)"
    and "ok (snd (poll_open_receipts list_open close poll now s))"
proof -
  show "fst (poll_open_receipts list_open close poll now s) =
      List.map_filter (\<lambda>r. receipt_verdict r (poll (rid r)) now) (list_open s)"
    by (simp add: poll_open_receipts_def poll_items_events)
  show "ok (snd (poll_open_receipts list_open close poll now s))"
    by (simp add: poll_open_receipts_def poll_items_ok assms)
  have inj: "x = r" if "x \<in> set (list_open s)" "r \<in> set (list_open s)" "rid x = rid r" for x r
    using that open_distinct [OF assms] by (auto simp: distinct_map inj_on_def)
  show "list_open (snd (poll_open_receipts list_open close poll now s)) =
      filter (\<lambda>r. receipt_verdict r (poll (rid r)) now = None) (list_open s)"
    unfolding poll_open_receipts_def poll_items_open [OF assms]
    by (rule filter_cong) (auto dest: inj)
qed

end

definition memory_ok :: "memory_store \<Rightarrow> bool" where
  "memory_ok s = (distinct (map fst (ms_open s)) \<and> (\<forall>(i, r) \<in> set (ms_open s). rid r = i))"

interpretation memory: receipt_store memory_list_open memory_close memory_ok
proof unfold_locales
  fix s assume ok: "memory_ok s"
  then have ids: "map (\<lambda>p. rid (snd p)) (ms_open s) = map fst (ms_open s)"
    by (auto simp: memory_ok_def)
  then show "distinct (map rid (memory_list_open s))"
    using ok unfolding memory_ok_def memory_list_open_def by (metis (no_types, lifting) comp_def map_map map_eq_conv)
  fix i out t
  have del: "set (AList.delete i (ms_open s)) \<subseteq> set (ms_open s)" by (auto simp: AList.delete_eq)
  show "memory_ok (memory_close i out t s)"
    using ok del by (auto simp: memory_ok_def memory_close_def distinct_delete split: option.splits)
  have "filter (\<lambda>r. rid r \<noteq> i) (map snd (ms_open s)) = map snd (filter (\<lambda>p. rid (snd p) \<noteq> i) (ms_open s))"
    by (simp add: filter_map comp_def)
  also have "\<dots> = map snd (AList.delete i (ms_open s))"
    using ok by (auto simp: AList.delete_eq memory_ok_def split_def intro!: arg_cong [of _ _ "map snd"] filter_cong)
  finally have del2: "filter (\<lambda>r. rid r \<noteq> i) (map snd (ms_open s)) = map snd (AList.delete i (ms_open s))" .
  have "AList.delete i (ms_open s) = ms_open s" if "map_of (ms_open s) i = None"
    using that by (auto simp: AList.delete_eq map_of_eq_None_iff image_iff intro!: filter_True)
  then show "memory_list_open (memory_close i out t s) = filter (\<lambda>r. rid r \<noteq> i) (memory_list_open s)"
    by (cases "map_of (ms_open s) i") (simp_all add: memory_list_open_def memory_close_def del2)
qed

lemma set_AList_update: "set (AList.update k v al) \<subseteq> insert (k, v) (set al)"
  by (induction al) auto

lemma memory_open_ok: "memory_ok s \<Longrightarrow> memory_ok (memory_open n r s)"
  using set_AList_update [of "receipt_id r" "\<lparr>or_note = n, or_receipt = r\<rparr>" "ms_open s"]
  by (auto simp: memory_ok_def memory_open_def distinct_update)

definition sql_ok :: "sql_store \<Rightarrow> bool" where
  "sql_ok s = distinct (map row_id (ss_rows s))"

lemma find_open_None:
  "find (\<lambda>r. row_id r = i \<and> is_open r) rows = None \<longleftrightarrow> (\<forall>r \<in> set rows. is_open r \<longrightarrow> row_id r \<noteq> i)"
  by (auto simp: find_None_iff)

lemma closed_row_simps [simp]:
  "row_id (closed_row out t clock src r) = row_id r"
  "\<not> is_open (closed_row out t clock src r)"
  "rr_note (closed_row out t clock src r) = rr_note r"
  "rr_outcome (closed_row out t clock src r) = Some out"
  by (simp_all add: closed_row_def row_id_def is_open_def)

lemma close_rows_open:
  "filter is_open (map (\<lambda>x. if row_id x = i \<and> is_open x then closed_row out t clock src x else x) rows) =
   filter (\<lambda>r. row_id r \<noteq> i) (filter is_open rows)"
  by (induction rows) auto

lemma close_rows_keys [simp]:
  "map row_id (map (\<lambda>x. if row_id x = i \<and> is_open x then closed_row out t clock src x else x) rows) =
   map row_id rows"
  by (induction rows) auto

lemma rid_row_item [simp]: "rid (row_item r) = row_id r"
  by (simp add: row_item_def row_id_def)

lemma sql_close_open_rows:
  "filter is_open (ss_rows (sql_close clock src i out t s)) = filter (\<lambda>r. row_id r \<noteq> i) (filter is_open (ss_rows s))"
proof (cases "find (\<lambda>r. row_id r = i \<and> is_open r) (ss_rows s)")
  case None
  then have "filter (\<lambda>r. row_id r \<noteq> i) (filter is_open (ss_rows s)) = filter is_open (ss_rows s)"
    unfolding find_open_None filter_filter by (intro filter_cong) auto
  then show ?thesis using None by (simp add: sql_close_def)
next
  case (Some r)
  then show ?thesis by (simp add: sql_close_def close_rows_open del: filter_filter)
qed

lemma sql_close_list_open:
  "sql_list_open (sql_close clock src i out t s) = filter (\<lambda>r. rid r \<noteq> i) (sql_list_open s)"
proof -
  have "filter (\<lambda>r. rid r \<noteq> i) (sql_list_open s) =
      map row_item (filter (\<lambda>r. row_id r \<noteq> i) (sort_key (\<lambda>r. sent_at (rr_receipt r)) (filter is_open (ss_rows s))))"
    by (simp add: sql_list_open_def filter_map comp_def)
  also have "\<dots> = sql_list_open (sql_close clock src i out t s)"
    unfolding sql_list_open_def sql_close_open_rows by (simp only: filter_sort)
  finally show ?thesis ..
qed

interpretation sql: receipt_store sql_list_open "sql_close clock src" sql_ok for clock src
proof unfold_locales
  fix s assume "sql_ok s"
  then have "distinct (map row_id (filter is_open (ss_rows s)))"
    by (auto simp: sql_ok_def distinct_map_filter)
  then have "distinct (map row_id (sort_key (\<lambda>r. sent_at (rr_receipt r)) (filter is_open (ss_rows s))))"
    by (simp add: distinct_map)
  then show "distinct (map rid (sql_list_open s))" by (simp add: sql_list_open_def comp_def)
  show "sql_ok (sql_close clock src i out t s)" for i out t
    using \<open>sql_ok s\<close> close_rows_keys by (auto simp: sql_ok_def sql_close_def simp del: map_map split: option.splits)
qed (rule sql_close_list_open)

section \<open>What the ledger says of an alarm\<close>

definition reports :: "string \<Rightarrow> sql_store \<Rightarrow> ledger_line list" where
  "reports i s = filter (\<lambda>l. case l of Alert_sent _ _ \<Rightarrow> False | Alert_seen _ j \<Rightarrow> j = i
                              | Alert_unseen _ j \<Rightarrow> j = i) (ss_ledger s)"

definition told :: "string \<Rightarrow> sql_store \<Rightarrow> ledger_line list" where
  "told i s = (case row_get row_id i (ss_rows s) of
     None \<Rightarrow> []
   | Some r \<Rightarrow> (case rr_outcome r of None \<Rightarrow> [] | Some out \<Rightarrow> [report out (rr_note r) i]))"

definition ledger_inv :: "sql_store \<Rightarrow> bool" where
  "ledger_inv s = (sql_ok s \<and> (\<forall>r \<in> set (ss_rows s). is_open r = (rr_outcome r = None)) \<and>
     (\<forall>i. reports i s = told i s))"

lemma reports_append:
  "reports i (s\<lparr>ss_ledger := ss_ledger s @ [report out n j]\<rparr>) = reports i s @ (if i = j then [report out n j] else [])"
  by (auto simp: reports_def report_def)

lemma ledger_inv_close:
  assumes "ledger_inv s"
  shows "ledger_inv (sql_close clock src i out t s)"
proof (cases "find (\<lambda>r. row_id r = i \<and> is_open r) (ss_rows s)")
  case None
  then show ?thesis using assms by (simp add: sql_close_def)
next
  case (Some r)
  then have r: "r \<in> set (ss_rows s)" "row_id r = i" "is_open r"
    by (auto simp: find_Some_iff)
  define f where "f = closed_row out t clock src"
  have dist: "distinct (map row_id (ss_rows s))" using assms by (simp add: ledger_inv_def sql_ok_def)
  have only: "x = r" if "x \<in> set (ss_rows s)" "row_id x = i" for x
    using that r dist by (auto simp: distinct_map inj_on_def)
  have step: "(if row_id x = i \<and> is_open x then f x else x) = (if row_id x = i then f x else x)"
    if "x \<in> set (ss_rows s)" for x
    using only [OF that] r by auto
  have put: "map (\<lambda>x. if row_id x = i \<and> is_open x then closed_row out t clock src x else x) (ss_rows s) =
      row_put row_id i f (ss_rows s)"
    unfolding row_put_def f_def [symmetric] using step by (intro map_cong) auto
  have close: "sql_close clock src i out t s =
      s\<lparr>ss_rows := row_put row_id i f (ss_rows s), ss_ledger := ss_ledger s @ [report out (rr_note r) i]\<rparr>"
    using Some unfolding sql_close_def by (simp only: put option.case)
  have got: "row_get row_id i (ss_rows s) = Some r"
    using rows.get_unique [of row_id "ss_rows s" r] dist r by simp
  have key: "row_id (f x) = row_id x" for x by (simp add: f_def)
  have same: "row_get row_id i (row_put row_id i f (ss_rows s)) = Some (f r)"
    by (rule rows.get_put_same [OF key dist got])
  have other: "row_get row_id j (row_put row_id i f rs) = row_get row_id j rs" if "j \<noteq> i" for j rs
    using that key by (simp add: row_get_put)
  have none: "told i s = []"
    using assms r by (auto simp: told_def got ledger_inv_def)
  have "reports j (sql_close clock src i out t s) = told j (sql_close clock src i out t s)" for j
  proof (cases "j = i")
    case True
    then show ?thesis
      using assms none same by (simp add: close reports_def report_def told_def f_def ledger_inv_def)
  next
    case False
    then show ?thesis
      using assms other [OF False] by (auto simp: close reports_def report_def told_def ledger_inv_def)
  qed
  moreover have "is_open x = (rr_outcome x = None)" if "x \<in> set (row_put row_id i f (ss_rows s))" for x
    using that assms by (auto simp: row_put_def ledger_inv_def f_def split: if_splits)
  moreover have "sql_ok (sql_close clock src i out t s)"
    using assms by (intro sql.close_ok) (simp add: ledger_inv_def)
  ultimately show ?thesis unfolding ledger_inv_def by (simp add: close)
qed

lemma ledger_inv_open: "ledger_inv s \<Longrightarrow> ledger_inv (snd (sql_open ledger_ok n r s))"
  by (auto simp: ledger_inv_def sql_open_def sql_ok_def row_id_def is_open_def reports_def told_def Let_def
      row_get_append row_get_Cons split: option.splits dest: row_get_SomeD)

lemma ledger_inv_poll: "ledger_inv s \<Longrightarrow> ledger_inv (snd (poll_items (sql_close clock src) poll now items s))"
proof (induction items arbitrary: s)
  case Nil
  then show ?case by simp
next
  case (Cons item items)
  show ?case
  proof (cases "receipt_verdict item (poll (rid item)) now")
    case None
    then show ?thesis using Cons by simp
  next
    case (Some e)
    then show ?thesis
      using Cons.IH [OF ledger_inv_close [OF Cons.prems, of clock src "rid item" "ev_kind e" "ev_at e"]]
      by (auto simp: split_def)
  qed
qed

lemma ledger_inv_cancel: "ledger_inv s \<Longrightarrow> ledger_inv (cancel_read clock items s)"
  by (induction clock items s rule: cancel_read.induct) (auto intro: ledger_inv_close)

lemma ledger_inv_pass: "ledger_inv s \<Longrightarrow> ledger_inv (snd (loop_pass has_provider read_at poll clock now s))"
  by (simp add: loop_pass_def poll_open_receipts_def ledger_inv_poll ledger_inv_cancel)

inductive alarms_reachable :: "sql_store \<Rightarrow> bool" where
  none: "alarms_reachable \<lparr>ss_rows = [], ss_ledger = []\<rparr>"
| rang: "alarms_reachable s \<Longrightarrow> alarms_reachable (snd (sql_open ledger_ok n r s))"
| passed: "alarms_reachable s \<Longrightarrow> alarms_reachable (snd (loop_pass has_provider read_at poll clock now s))"

lemma alarms_reachable_inv: "alarms_reachable s \<Longrightarrow> ledger_inv s"
proof (induction rule: alarms_reachable.induct)
  case none
  then show ?case by (simp add: ledger_inv_def sql_ok_def reports_def told_def)
qed (auto intro: ledger_inv_open ledger_inv_pass)

section \<open>Properties\<close>

definition sample_receipt :: alarm_receipt where
  "sample_receipt = \<lparr>receipt_id = ''r1'', sent_at = 0, expires_at = seconds 10800\<rparr>"

definition sample_receipts :: sql_store where
  "sample_receipts = snd (sql_open True 4 sample_receipt \<lparr>ss_rows = [], ss_ledger = []\<rparr>)"

definition expired_status :: "string \<Rightarrow> receipt_status option" where
  "expired_status i = Some \<lparr>acknowledged_at = None, st_expired = True, st_expires_at = None\<rparr>"

lemma sample_receipts_reachable: "alarms_reachable sample_receipts"
  unfolding sample_receipts_def by (intro alarms_reachable.rang alarms_reachable.none)

text \<open>
  The ledger tells the outcome of every alarm exactly once.  However openings, polls and
  cancellations of receipts follow each other, the ledger holds for an alarm that is closed exactly
  one line \<open>alert.seen\<close> or \<open>alert.unseen\<close>, the one its row records, and none for an open one.
\<close>
theorem alarm_outcome_told_once:
  assumes "alarms_reachable s" and "r \<in> set (ss_rows s)"
  shows "if is_open r then reports (row_id r) s = []
    else \<exists>out. rr_outcome r = Some out \<and> reports (row_id r) s = [report out (rr_note r) (row_id r)]"
proof -
  have inv: "ledger_inv s" by (rule alarms_reachable_inv [OF assms(1)])
  then have "row_get row_id (row_id r) (ss_rows s) = Some r"
    using assms(2) by (intro rows.get_unique) (simp_all add: ledger_inv_def sql_ok_def)
  then show ?thesis using inv assms(2) by (auto simp: ledger_inv_def told_def split: option.splits)
qed

theorem alarm_outcome_told_once_witness:
  "\<exists>r \<in> set (ss_rows sample_receipts). is_open r \<and> reports ''r1'' sample_receipts = []"
proof -
  define r where "r = hd (ss_rows sample_receipts)"
  have r: "r \<in> set (ss_rows sample_receipts)" "is_open r" "row_id r = ''r1''"
    by (simp_all add: r_def sample_receipts_def sql_open_def sample_receipt_def is_open_def row_id_def Let_def)
  then show ?thesis using alarm_outcome_told_once [OF sample_receipts_reachable r(1)] by auto
qed

text \<open>
  A poll reports exactly the receipts that have a receipt_verdict, each once, in the order they were
  sent, and afterwards exactly the others are open; so a second poll never reports one again, and
  a receipt the provider no longer answers for is reported once its lifetime of a week is over.
\<close>
theorem poll_reports_exactly:
  fixes clock now :: instant and poll :: "string \<Rightarrow> receipt_status option"
  assumes "alarms_reachable s"
  defines "result \<equiv> poll_open_receipts sql_list_open (sql_close clock Pushover) poll now s"
  shows "fst result = List.map_filter (\<lambda>r. receipt_verdict r (poll (rid r)) now) (sql_list_open s) \<and>
    sql_list_open (snd result) = filter (\<lambda>r. receipt_verdict r (poll (rid r)) now = None) (sql_list_open s) \<and>
    (\<forall>r \<in> set (sql_list_open (snd result)). poll (rid r) = None \<longrightarrow>
       now \<le> sent_at (or_receipt r) + receipt_lifetime)"
proof -
  have "sql_ok s" using alarms_reachable_inv [OF assms(1)] by (simp add: ledger_inv_def)
  note exact = sql.poll_exact(1,2) [OF this, where clock = clock and src = Pushover and poll = poll and now = now]
  show ?thesis unfolding result_def exact
    by (auto simp: receipt_verdict_def Let_def split: if_splits option.splits)
qed

theorem poll_reports_exactly_witness:
  "length (fst (poll_open_receipts sql_list_open (sql_close 9 Pushover) expired_status 9 sample_receipts)) = 1 \<and>
   sql_list_open (snd (poll_open_receipts sql_list_open (sql_close 9 Pushover) expired_status 9 sample_receipts)) = []"
  using poll_reports_exactly [OF sample_receipts_reachable, where clock = 9 and poll = expired_status and now = 9]
  by (simp add: sample_receipts_def sql_open_def sample_receipt_def sql_list_open_def is_open_def row_item_def
      receipt_verdict_def expired_status_def map_filter_simps Let_def)

end
