(* ===== verification/Notification_Ladder.thy ===== *)
theory Notification_Ladder imports Owner_Caller Alarm_Receipts "HOL-Library.Sublist" begin

text \<open>
  Reaching the owner (\<open>notifications/ladder.py\<close>, the payload contract of \<open>notifications/toast.py\<close>,
  \<open>urgent_alert/rung.py\<close>, \<open>urgent_alert/presence.py\<close>, the category check of \<open>urgent_alert/text.py\<close>).

  A rung is a record of its two methods over a state \<open>'w\<close> of the world outside (devices, providers,
  stores).  What a rung may write on the row is its \<open>data_json\<close>; a raised exception is an outcome.
  The device port, the alarm provider, the receipt store, the check of the link and Web Push are
  arguments of the rungs that use them.  \<open>available()\<close> returns: in every rung of the repository it reads attributes.
  \<open>deliver_one\<close> calls it outside its \<open>try\<close>, so a rung whose \<open>available()\<close> raised would end the pass.
\<close>

section \<open>Rungs\<close>

datatype attempt = Reached | Missed | Raised

type_synonym note_data = "(string \<times> json) list"

record 'w rung =
  r_available :: "'w \<Rightarrow> bool"
  r_deliver :: "notification \<Rightarrow> 'w \<Rightarrow> attempt \<times> note_data \<times> 'w"

type_synonym 'w rungs = "channel \<Rightarrow> 'w rung option"

section \<open>The toast payload\<close>

definition max_title :: nat where "max_title = 64"
definition max_body :: nat where "max_body = 256"
definition max_group_key :: nat where "max_group_key = 128"
definition max_actions :: nat where "max_actions = 3"
definition max_action_id :: nat where "max_action_id = 32"
definition max_label :: nat where "max_label = 24"

fun priority_name :: "priority \<Rightarrow> string" where
  "priority_name Urgent = ''urgent''"
| "priority_name Normal = ''normal''"
| "priority_name Low = ''low''"

definition action_char :: "char \<Rightarrow> bool" where
  "action_char c = (c \<in> set ''abcdefghijklmnopqrstuvwxyz0123456789_'')"

definition action_id_ok :: "string \<Rightarrow> bool" where
  "action_id_ok s = (s \<noteq> [] \<and> list_all action_char s)"

datatype toast_error = Toast_refused | Toast_crash

fun text_or :: "string \<Rightarrow> json \<Rightarrow> string" where
  "text_or k (JObj kvs) = (case map_of kvs k of None \<Rightarrow> [] | Some v \<Rightarrow> str_of v)"
| "text_or k j = []"

fun build_action :: "json \<Rightarrow> toast_error + json" where
  "build_action (JObj kvs) =
     (let action_id = text_or ''id'' (JObj kvs);
          label = text_or ''label'' (JObj kvs)
      in if \<not> action_id_ok action_id then Inl Toast_refused
         else if length action_id > max_action_id then Inl Toast_refused
         else if strip label = [] then Inl Toast_refused
         else if length label > max_label then Inl Toast_refused
         else Inr (JObj [(''id'', JStr action_id), (''label'', JStr label)]))"
| "build_action j = Inl Toast_crash"

fun build_actions :: "json list \<Rightarrow> toast_error + json list" where
  "build_actions [] = Inr []"
| "build_actions (a # as) = bind_sum (build_action a) (\<lambda>b. bind_sum (build_actions as) (\<lambda>bs. Inr (b # bs)))"

fun json_items :: "json \<Rightarrow> json list option" where
  "json_items (JList xs) = Some xs"
| "json_items (JObj kvs) = Some (map (\<lambda>p. JStr (fst p)) kvs)"
| "json_items (JStr s) = Some (map (\<lambda>c. JStr [c]) s)"
| "json_items j = None"

definition build_toast :: "notification \<Rightarrow> toast_error + json" where
  "build_toast row =
     (let title = (if n_title row = [] then n_kind row else n_title row);
          body = n_body row;
          actions = dict_get ''actions'' (JObj (n_data row));
          head = [(''notification_id'', JInt (int (n_id row))), (''title'', JStr title), (''body'', JStr body),
                  (''priority'', JStr (priority_name (n_priority row)))] @
                 (if n_group row = [] then [] else [(''group_key'', JStr (n_group row))])
      in if strip title = [] then Inl Toast_refused
         else if length title > max_title then Inl Toast_refused
         else if strip body = [] then Inl Toast_refused
         else if length body > max_body then Inl Toast_refused
         else if length (n_group row) > max_group_key then Inl Toast_refused
         else if \<not> truthy actions then Inr (JObj head)
         else (case json_items actions of
                 None \<Rightarrow> Inl Toast_crash
               | Some items \<Rightarrow>
                   if length items > max_actions then Inl Toast_refused
                   else bind_sum (build_actions items) (\<lambda>bs. Inr (JObj (head @ [(''actions'', JList bs)])))))"

definition was_shown :: "json \<Rightarrow> bool" where
  "was_shown result = (dict_get ''shown'' result = JBool True)"

section \<open>The toast rung\<close>

record port_outcome =
  po_ok :: bool
  po_result :: json
  po_device :: "string option"

type_synonym 'w port = "string \<Rightarrow> json \<Rightarrow> nat \<Rightarrow> 'w \<Rightarrow> port_outcome option \<times> 'w"

definition toast_deliver ::
    "'w port \<Rightarrow> (notification \<Rightarrow> 'w \<Rightarrow> bool) option \<Rightarrow> ('w \<Rightarrow> bool) option \<Rightarrow> notification \<Rightarrow> 'w \<Rightarrow>
     attempt \<times> note_data \<times> 'w" where
  "toast_deliver port must_reach_owner owner_present row w =
     (case build_toast row of
        Inl Toast_refused \<Rightarrow> (Missed, n_data row, w)
      | Inl Toast_crash \<Rightarrow> (Raised, n_data row, w)
      | Inr payload \<Rightarrow>
          (case port ''desktop.notify'' payload (n_id row) w of
             (None, w1) \<Rightarrow> (Raised, n_data row, w1)
           | (Some out, w1) \<Rightarrow>
               if \<not> po_ok out then (Missed, n_data row, w1)
               else if \<not> was_shown (po_result out) then (Missed, n_data row, w1)
               else (let row1 = snd (note_toast_target (po_device out) row);
                         must = (case must_reach_owner of None \<Rightarrow> False | Some f \<Rightarrow> f row1 w1);
                         present = (case owner_present of None \<Rightarrow> False | Some f \<Rightarrow> f w1)
                     in if must \<and> \<not> present then (Missed, n_data row1, w1)
                        else (Reached, n_data row1, w1))))"

definition toast_rung ::
    "'w port option \<Rightarrow> (notification \<Rightarrow> 'w \<Rightarrow> bool) option \<Rightarrow> ('w \<Rightarrow> bool) option \<Rightarrow> 'w rung" where
  "toast_rung device_action must_reach_owner owner_present =
     \<lparr>r_available = (\<lambda>w. device_action \<noteq> None),
      r_deliver = (\<lambda>row w. case device_action of
         None \<Rightarrow> (Raised, n_data row, w)
       | Some port \<Rightarrow> toast_deliver port must_reach_owner owner_present row w)\<rparr>"

section \<open>Presence\<close>

record device_status =
  ds_idle :: "instant option"
  ds_observed_at :: instant

definition present_within :: instant where "present_within = seconds 120"
definition fresh_within :: instant where "fresh_within = seconds 90"

definition idle_readings :: "instant \<Rightarrow> device_status list \<Rightarrow> instant list" where
  "idle_readings moment statuses =
     concat (map (\<lambda>s. case ds_idle s of
                        None \<Rightarrow> []
                      | Some idle \<Rightarrow>
                          (let age = moment - ds_observed_at s
                           in if \<bar>age\<bar> > fresh_within then [] else [idle + max age 0])) statuses)"

definition owner_idle :: "instant \<Rightarrow> device_status list \<Rightarrow> instant option" where
  "owner_idle moment statuses =
     (case idle_readings moment statuses of [] \<Rightarrow> None | i # is \<Rightarrow> Some (fold min is i))"

definition owner_present :: "instant \<Rightarrow> device_status list \<Rightarrow> bool" where
  "owner_present moment statuses =
     (case owner_idle moment statuses of None \<Rightarrow> False | Some idle \<Rightarrow> idle < present_within)"

section \<open>What an alarm may say\<close>

definition categories :: "string list" where
  "categories = [''Aktivra'', ''ev'', ''haber'', ''sistem'']"

definition max_alarm_body :: nat where "max_alarm_body = 1024"

definition word_char :: "char \<Rightarrow> bool" where
  "word_char c = (is_digit c \<or> c = CHR ''_'' \<or> (let n = of_char (lower c) :: nat in 97 \<le> n \<and> n \<le> 122))"

definition currencies :: "string list" where "currencies = [''tl'', ''try'', ''lira'']"

text \<open>The currency word at the start of \<open>s\<close>, up to a word boundary when \<open>bound\<close>.\<close>

definition currency_at :: "bool \<Rightarrow> string \<Rightarrow> bool" where
  "currency_at bound s =
     (\<exists>w \<in> set currencies. is_prefix w (map lower s) \<and>
        (bound \<longrightarrow> (case drop (length w) s of [] \<Rightarrow> True | c # _ \<Rightarrow> \<not> word_char c)))"

fun amount_from :: "bool \<Rightarrow> string \<Rightarrow> bool" where
  "amount_from after_word [] = False"
| "amount_from after_word (c # s) =
     ((\<not> after_word \<and> currency_at True (c # s)) \<or>
      (is_digit c \<and> currency_at False
         (dropWhile is_space (dropWhile (\<lambda>x. is_digit x \<or> x \<in> set ''.,'') s))) \<or>
      amount_from (word_char c) s)"

definition phone_char :: "char \<Rightarrow> bool" where
  "phone_char c = (is_digit c \<or> is_space c \<or> c \<in> set ''().-'')"

fun has_phone :: "string \<Rightarrow> bool" where
  "has_phone [] = False"
| "has_phone (c # s) =
     ((is_digit c \<and> list_ex is_digit (drop 6 (takeWhile phone_char s))) \<or> has_phone s)"

fun words_of :: "string \<Rightarrow> nat" where
  "words_of [] = 0"
| "words_of [c] = (if is_space c then 0 else 1)"
| "words_of (c # d # s) = (if \<not> is_space c \<and> is_space d then 1 else 0) + words_of (d # s)"

datatype text_refusal = Too_long | Amount | Email | Phone | Digits | More_than_one_word | Not_a_category

definition text_refusal :: "string \<Rightarrow> text_refusal option" where
  "text_refusal category =
     (if length category > max_alarm_body then Some Too_long
      else if amount_from False category then Some Amount
      else if CHR ''@'' \<in> set category then Some Email
      else if has_phone category then Some Phone
      else if list_ex is_digit category then Some Digits
      else if words_of category > 1 then Some More_than_one_word
      else if category \<notin> set categories then Some Not_a_category
      else None)"

section \<open>The alarm rung\<close>

record 'w alarm_config =
  ac_configured :: "'w \<Rightarrow> bool"
  ac_send :: "string \<Rightarrow> string \<Rightarrow> 'w \<Rightarrow> alarm_receipt option \<times> 'w"
  ac_cancel :: "string \<Rightarrow> 'w \<Rightarrow> 'w"
  ac_store :: "nat \<Rightarrow> alarm_receipt \<Rightarrow> 'w \<Rightarrow> bool \<times> 'w"
  ac_link :: "notification \<Rightarrow> string"
  ac_link_ok :: "string \<Rightarrow> bool"

definition important_row :: "notification \<Rightarrow> bool" where
  "important_row row = is_important_notification (n_kind row)"

definition category_for :: "notification \<Rightarrow> string" where
  "category_for row = alert_category (n_kind row)"

definition rings_for :: "'w alarm_config \<Rightarrow> notification \<Rightarrow> 'w \<Rightarrow> bool" where
  "rings_for a row w = (ac_configured a w \<and> important_row row)"

definition alarm_deliver :: "'w alarm_config \<Rightarrow> notification \<Rightarrow> 'w \<Rightarrow> attempt \<times> note_data \<times> 'w" where
  "alarm_deliver a row w =
     (if \<not> important_row row then (Missed, n_data row, w)
      else if text_refusal (category_for row) \<noteq> None \<or> \<not> ac_link_ok a (ac_link a row)
      then (Missed, n_data row, w)
      else (case ac_send a (category_for row) (ac_link a row) w of
              (None, w1) \<Rightarrow> (Missed, n_data row, w1)
            | (Some receipt, w1) \<Rightarrow>
                (case ac_store a (n_id row) receipt w1 of
                   (True, w2) \<Rightarrow> (Reached, n_data row, w2)
                 | (False, w2) \<Rightarrow> (Missed, n_data row, ac_cancel a (receipt_id receipt) w2))))"

definition alarm_rung :: "'w alarm_config \<Rightarrow> 'w rung" where
  "alarm_rung a = \<lparr>r_available = ac_configured a, r_deliver = alarm_deliver a\<rparr>"

section \<open>Push and inbox\<close>

text \<open>\<open>send_all\<close> is the provider's work: how many subscriptions were attempted and how many accepted;
  \<open>None\<close> is an exception.\<close>

definition push_rung :: "bool \<Rightarrow> (notification \<Rightarrow> 'w \<Rightarrow> (nat \<times> nat) option \<times> 'w) \<Rightarrow> 'w rung" where
  "push_rung has_key send_all =
     \<lparr>r_available = (\<lambda>w. has_key),
      r_deliver = (\<lambda>row w.
        if \<not> has_key then (Missed, n_data row, w)
        else (case send_all row w of
                (None, w1) \<Rightarrow> (Raised, n_data row, w1)
              | (Some (attempted, accepted), w1) \<Rightarrow>
                  if attempted = 0 then (Missed, n_data row, w1)
                  else if accepted = 0 then (Missed, n_data row, w1)
                  else (Reached, n_data row, w1)))\<rparr>"

definition inbox_rung :: "'w rung" where
  "inbox_rung = \<lparr>r_available = (\<lambda>w. True), r_deliver = (\<lambda>row w. (Reached, n_data row, w))\<rparr>"

definition default_rungs ::
    "'w port option \<Rightarrow> 'w rung option \<Rightarrow> 'w alarm_config option \<Rightarrow> ('w \<Rightarrow> bool) \<Rightarrow> 'w rungs" where
  "default_rungs device_action push alarm owner_here =
     (\<lambda>c. case c of
        Toast \<Rightarrow> (if device_action = None then None
                  else (case alarm of
                          None \<Rightarrow> Some (toast_rung device_action None None)
                        | Some a \<Rightarrow> Some (toast_rung device_action (Some (rings_for a)) (Some owner_here))))
      | Alarm \<Rightarrow> map_option alarm_rung alarm
      | Sound \<Rightarrow> None
      | Push \<Rightarrow> push
      | Inbox \<Rightarrow> Some inbox_rung)"

section \<open>One pass down the ladder\<close>

definition rung_ready :: "'w rungs \<Rightarrow> 'w \<Rightarrow> channel \<Rightarrow> bool" where
  "rung_ready rungs w c = (case rungs c of None \<Rightarrow> False | Some rg \<Rightarrow> r_available rg w)"

definition available_channels :: "'w rungs \<Rightarrow> 'w \<Rightarrow> channel list" where
  "available_channels rungs w = filter (rung_ready rungs w) ladder"

definition unattempted :: "notification \<Rightarrow> nat" where
  "unattempted row = length (filter (\<lambda>c. c \<notin> set (n_attempted row)) ladder)"

lemma set_with_attempt: "set (n_attempted (with_attempt c row)) = insert c (set (n_attempted row))"
  by (simp add: with_attempt_def del: sort_key_simps remdups.simps)

lemma attempted_simps [simp]:
  "set (n_attempted (mark_attempt_failed c avail now d row)) = insert c (set (n_attempted row))"
  "set (n_attempted (mark_delivered c now row)) = insert c (set (n_attempted row))"
  by (simp_all add: mark_attempt_failed_def mark_delivered_def Let_def set_with_attempt split: prod.splits)

lemma find_SomeD: "find P xs = Some x \<Longrightarrow> x \<in> set xs \<and> P x"
  by (induction xs) (auto split: if_splits)

lemma next_channel_Some:
  "next_channel avail row = Some c \<Longrightarrow>
     c \<in> set ladder \<and> c \<notin> set (n_attempted row) \<and> n_delivered_at row = None \<and> (c = Inbox \<or> c \<in> set avail)"
  unfolding next_channel_def by (auto dest!: find_SomeD split: if_splits)

lemma unattempted_less:
  assumes "c \<in> set ladder" and "c \<notin> set (n_attempted row)" and "set (n_attempted row') = insert c (set (n_attempted row))"
  shows "unattempted row' < unattempted row"
proof -
  have "filter (\<lambda>x. x \<notin> set (n_attempted row')) ladder =
      filter (\<lambda>x. x \<noteq> c) (filter (\<lambda>x. x \<notin> set (n_attempted row)) ladder)"
    unfolding filter_filter assms(3) by (rule filter_cong) auto
  moreover have "c \<in> set (filter (\<lambda>x. x \<notin> set (n_attempted row)) ladder)" using assms by simp
  ultimately show ?thesis unfolding unattempted_def by (simp only:) (rule length_filter_less, simp_all)
qed

function ladder_loop ::
    "'w rungs \<Rightarrow> channel list \<Rightarrow> instant \<Rightarrow> 32 word \<Rightarrow> notification \<Rightarrow> 'w \<Rightarrow> channel option \<times> notification \<times> 'w" where
  "ladder_loop rungs avail now d row w =
     (case next_channel avail row of
        None \<Rightarrow> (None, row, w)
      | Some c \<Rightarrow>
          (case rungs c of
             None \<Rightarrow> ladder_loop rungs avail now d (mark_attempt_failed c avail now d row) w
           | Some rg \<Rightarrow>
               if \<not> r_available rg w
               then ladder_loop rungs avail now d (mark_attempt_failed c avail now d row) w
               else (case r_deliver rg row w of (result, data, w1) \<Rightarrow>
                       if result = Reached
                       then (Some c, mark_delivered c now (row\<lparr>n_data := data\<rparr>), w1)
                       else ladder_loop rungs avail now d
                              (mark_attempt_failed c avail now d (row\<lparr>n_data := data\<rparr>)) w1)))"
  by pat_completeness auto

termination
  by (relation "measure (\<lambda>(rungs, avail, now, d, row, w). unattempted row)")
    (auto dest!: next_channel_Some intro: unattempted_less)

declare ladder_loop.simps [simp del]

definition deliver_one ::
    "'w rungs \<Rightarrow> instant \<Rightarrow> 32 word \<Rightarrow> notification \<Rightarrow> 'w \<Rightarrow> channel option \<times> notification \<times> 'w" where
  "deliver_one rungs now d row w = ladder_loop rungs (available_channels rungs w) now d row w"

section \<open>The sweep\<close>

definition sweep_row ::
    "'w rungs \<Rightarrow> instant \<Rightarrow> (nat \<Rightarrow> 32 word) \<Rightarrow> nat \<Rightarrow>
     (channel \<Rightarrow> nat) \<times> notification list \<times> 'w \<Rightarrow> (channel \<Rightarrow> nat) \<times> notification list \<times> 'w" where
  "sweep_row rungs now dig i st =
     (case st of (n, rows, w) \<Rightarrow>
        (case row_get n_id i rows of
           None \<Rightarrow> (n, rows, w)
         | Some row \<Rightarrow>
             (case deliver_one rungs now (dig i) row w of (result, row1, w1) \<Rightarrow>
                (case result of None \<Rightarrow> n | Some c \<Rightarrow> n(c := n c + 1),
                 row_put n_id i (\<lambda>_. row1) rows, w1))))"

definition ladder_sweep ::
    "'w rungs \<Rightarrow> instant \<Rightarrow> (nat \<Rightarrow> 32 word) \<Rightarrow> nat \<Rightarrow> notification list \<Rightarrow> 'w \<Rightarrow>
     (channel \<Rightarrow> nat) \<times> notification list \<times> 'w" where
  "ladder_sweep rungs now dig limit rows w =
     fold (sweep_row rungs now dig) (map n_id (deliverable now limit rows)) ((\<lambda>_. 0), rows, w)"

section \<open>What a pass does\<close>

definition candidates :: "channel list \<Rightarrow> notification \<Rightarrow> channel list" where
  "candidates avail row = filter (\<lambda>c. c \<notin> set (n_attempted row) \<and> (c = Inbox \<or> c \<in> set avail)) ladder"

lemma ladder_distinct: "distinct ladder" by (simp add: ladder_def)

lemma find_filter: "find P xs = (case filter P xs of [] \<Rightarrow> None | x # _ \<Rightarrow> Some x)"
  by (induction xs) auto

lemma next_candidate:
  "n_delivered_at row = None \<Longrightarrow>
     next_channel avail row = (case candidates avail row of [] \<Rightarrow> None | c # _ \<Rightarrow> Some c)"
  by (simp add: next_channel_def candidates_def find_filter)

lemma candidates_step:
  assumes "candidates avail row = c # cs" and att: "set (n_attempted row') = insert c (set (n_attempted row))"
  shows "candidates avail row' = cs"
proof -
  have "candidates avail row' = filter (\<lambda>x. x \<noteq> c) (candidates avail row)"
    unfolding candidates_def filter_filter att by (rule filter_cong) auto
  moreover have "c \<notin> set cs"
    using assms(1) distinct_filter [OF ladder_distinct] unfolding candidates_def by (metis distinct.simps(2))
  ultimately show ?thesis using assms(1) by (simp add: filter_id_conv) (metis filter_True)
qed

lemma failed_frame:
  assumes "n_delivered_at row = None"
  shows "n_delivered_at (mark_attempt_failed c avail now d row) = None"
    and "n_kind (mark_attempt_failed c avail now d row) = n_kind row"
    and "n_id (mark_attempt_failed c avail now d row) = n_id row"
  using assms by (auto simp: mark_attempt_failed_def with_attempt_def Let_def split: prod.splits)

lemma failed_not_last:
  assumes "next_channel avail (with_attempt c row) \<noteq> None"
  shows "mark_attempt_failed c avail now d row = with_attempt c row"
  using assms by (auto simp: mark_attempt_failed_def Let_def)

text \<open>The loop over the candidates, one at a time.\<close>

lemma ladder_loop_step:
  assumes "n_delivered_at row = None"
  shows "ladder_loop rungs avail now d row w =
    (case candidates avail row of
       [] \<Rightarrow> (None, row, w)
     | c # cs \<Rightarrow>
         if rung_ready rungs w c
         then (case r_deliver (the (rungs c)) row w of (result, data, w1) \<Rightarrow>
                 if result = Reached then (Some c, mark_delivered c now (row\<lparr>n_data := data\<rparr>), w1)
                 else ladder_loop rungs avail now d (mark_attempt_failed c avail now d (row\<lparr>n_data := data\<rparr>)) w1)
         else ladder_loop rungs avail now d (mark_attempt_failed c avail now d row) w)"
  by (subst ladder_loop.simps)
    (auto simp: next_candidate [OF assms] rung_ready_def split: list.splits option.splits)

lemma data_frame [simp]:
  "n_attempted (row\<lparr>n_data := x\<rparr>) = n_attempted row" "n_delivered_at (row\<lparr>n_data := x\<rparr>) = n_delivered_at row"
  "candidates avail (row\<lparr>n_data := x\<rparr>) = candidates avail row"
  by (simp_all add: candidates_def)

lemma inbox_candidate: "Inbox \<notin> set (n_attempted row) \<Longrightarrow> Inbox \<in> set (candidates avail row)"
  by (simp add: candidates_def ladder_def)

lemma not_last_when_inbox:
  assumes "Inbox \<notin> set (n_attempted row)" and "c \<noteq> Inbox" and "n_delivered_at row = None"
  shows "mark_attempt_failed c avail now d row = with_attempt c row"
proof (rule failed_not_last)
  have "Inbox \<notin> set (n_attempted (with_attempt c row))" using assms by (simp add: set_with_attempt)
  from inbox_candidate [OF this, of avail] have "candidates avail (with_attempt c row) \<noteq> []" by auto
  moreover have "n_delivered_at (with_attempt c row) = None" using assms(3) by (simp add: with_attempt_def)
  ultimately show "next_channel avail (with_attempt c row) \<noteq> None"
    by (auto simp: next_candidate split: list.splits)
qed

definition retry_state :: "notification \<Rightarrow> int \<times> instant option \<times> instant option \<times> bool" where
  "retry_state row = (n_attempts row, n_next_attempt_at row, n_quarantined_at row, n_exhausted row)"

lemma retry_state_frame [simp]:
  "retry_state (with_attempt c row) = retry_state row"
  "retry_state (row\<lparr>n_data := x\<rparr>) = retry_state row"
  "retry_state (mark_delivered c now row) = retry_state row"
  "n_delivered_at (with_attempt c row) = n_delivered_at row"
  "n_delivered_at (mark_delivered c now row) = Some now"
  "n_delivered_via (mark_delivered c now row) = Some c"
  "n_id (with_attempt c row) = n_id row"
  "n_id (mark_delivered c now row) = n_id row"
  by (simp_all add: retry_state_def with_attempt_def mark_delivered_def)

lemma loop_reaches:
  assumes "rungs Inbox = Some inbox_rung" and "n_delivered_at row = None" and "Inbox \<notin> set (n_attempted row)"
    and "candidates avail row = cs"
  shows "\<exists>c row' w'. ladder_loop rungs avail now d row w = (Some c, row', w') \<and> c \<in> set cs \<and>
    n_delivered_at row' = Some now \<and> n_delivered_via row' = Some c \<and> n_id row' = n_id row \<and>
    retry_state row' = retry_state row"
  using assms(2-4)
proof (induction cs arbitrary: row w)
  case Nil
  then show ?case using inbox_candidate [OF Nil.prems(2), of avail] by simp
next
  case (Cons c cs)
  show ?case
  proof (cases "c = Inbox")
    case True
    then show ?thesis
      using Cons.prems assms(1) by (simp add: ladder_loop_step rung_ready_def inbox_rung_def)
  next
    case False
    have failed: "mark_attempt_failed c avail now d (row\<lparr>n_data := x\<rparr>) = with_attempt c (row\<lparr>n_data := x\<rparr>)"
      "mark_attempt_failed c avail now d row = with_attempt c row" for x
      using Cons.prems False by (auto intro!: not_last_when_inbox)
    have again: "\<exists>c' row' w'. ladder_loop rungs avail now d (with_attempt c r) w1 = (Some c', row', w') \<and>
        c' \<in> set cs \<and> n_delivered_at row' = Some now \<and> n_delivered_via row' = Some c' \<and>
        n_id row' = n_id r \<and> retry_state row' = retry_state r"
      if "n_attempted r = n_attempted row" "n_delivered_at r = None" for r w1
      using Cons.IH [of "with_attempt c r" w1] that Cons.prems False
        candidates_step [OF Cons.prems(3), of "with_attempt c r"]
      by (simp add: set_with_attempt)
    show ?thesis
      using Cons.prems again [of row w] again [of "row\<lparr>n_data := x\<rparr>" for x]
      by (fastforce simp: ladder_loop_step failed split: prod.splits)
  qed
qed

text \<open>The same rungs, writing down in which order they were called.\<close>

definition logging :: "'w rungs \<Rightarrow> ('w \<times> channel list) rungs" where
  "logging rungs = (\<lambda>c. map_option (\<lambda>rg.
     \<lparr>r_available = (\<lambda>(w, l). r_available rg w),
      r_deliver = (\<lambda>row (w, l). case r_deliver rg row w of (result, data, w1) \<Rightarrow> (result, data, w1, l @ [c]))\<rparr>)
     (rungs c))"

lemma logging_ready: "rung_ready (logging rungs) (w, l) c = rung_ready rungs w c"
  by (simp add: rung_ready_def logging_def split: option.splits)

lemma logging_available: "available_channels (logging rungs) (w, l) = available_channels rungs w"
  by (simp add: available_channels_def logging_ready cong: filter_cong)

lemma logging_deliver:
  "rung_ready rungs w c \<Longrightarrow> r_deliver (the (logging rungs c)) row (w, l) =
     (case r_deliver (the (rungs c)) row w of (result, data, w1) \<Rightarrow> (result, data, w1, l @ [c]))"
  by (auto simp: rung_ready_def logging_def split: option.splits)

lemma loop_logged:
  assumes "n_delivered_at row = None" and "candidates avail row = cs"
  shows "\<exists>tried. subseq tried cs \<and>
    ladder_loop (logging rungs) avail now d row (w, l) =
      (case ladder_loop rungs avail now d row w of (res, row', w') \<Rightarrow> (res, row', w', l @ tried)) \<and>
    (case fst (ladder_loop rungs avail now d row w) of None \<Rightarrow> True | Some c \<Rightarrow> tried \<noteq> [] \<and> last tried = c)"
  using assms
proof (induction cs arbitrary: row w l)
  case Nil
  then show ?case by (simp add: ladder_loop_step)
next
  case (Cons c cs)
  define failed where "failed r = mark_attempt_failed c avail now d r" for r
  have again: "\<exists>tried. subseq tried cs \<and>
      ladder_loop (logging rungs) avail now d (failed r) (w1, l1) =
        (case ladder_loop rungs avail now d (failed r) w1 of (res, row', w') \<Rightarrow> (res, row', w', l1 @ tried)) \<and>
      (case fst (ladder_loop rungs avail now d (failed r) w1) of
         None \<Rightarrow> True | Some c \<Rightarrow> tried \<noteq> [] \<and> last tried = c)"
    if "n_attempted r = n_attempted row" "n_delivered_at r = None" for r w1 l1
    using Cons.IH [of "failed r"] failed_frame(1) [OF that(2)] candidates_step [OF Cons.prems(2), of "failed r"] that(1)
    by (simp add: failed_def)
  show ?case
  proof (cases "rung_ready rungs w c")
    case False
    obtain tried where "subseq tried cs"
      "ladder_loop (logging rungs) avail now d (failed row) (w, l) =
        (case ladder_loop rungs avail now d (failed row) w of (res, row', w') \<Rightarrow> (res, row', w', l @ tried))"
      "case fst (ladder_loop rungs avail now d (failed row) w) of
         None \<Rightarrow> True | Some c \<Rightarrow> tried \<noteq> [] \<and> last tried = c"
      using again [of row w l] Cons.prems(1) by blast
    then show ?thesis using False Cons.prems
      by (intro exI [of _ tried]) (auto simp: ladder_loop_step logging_ready failed_def)
  next
    case True
    obtain res data w1 where del: "r_deliver (the (rungs c)) row w = (res, data, w1)" by (cases "r_deliver (the (rungs c)) row w")
    show ?thesis
    proof (cases "res = Reached")
      case reached: True
      then show ?thesis using True del Cons.prems
        by (intro exI [of _ "[c]"]) (simp add: ladder_loop_step logging_ready logging_deliver)
    next
      case missed: False
      obtain tried where t: "subseq tried cs"
        "ladder_loop (logging rungs) avail now d (failed (row\<lparr>n_data := data\<rparr>)) (w1, l @ [c]) =
          (case ladder_loop rungs avail now d (failed (row\<lparr>n_data := data\<rparr>)) w1 of
             (res, row', w') \<Rightarrow> (res, row', w', (l @ [c]) @ tried))"
        "case fst (ladder_loop rungs avail now d (failed (row\<lparr>n_data := data\<rparr>)) w1) of
           None \<Rightarrow> True | Some c \<Rightarrow> tried \<noteq> [] \<and> last tried = c"
        using again [of "row\<lparr>n_data := data\<rparr>" w1 "l @ [c]"] Cons.prems(1) by auto
      then show ?thesis using True missed del Cons.prems
        by (intro exI [of _ "c # tried"])
          (auto simp: ladder_loop_step logging_ready logging_deliver failed_def split: option.splits prod.splits)
    qed
  qed
qed

section \<open>The night trap\<close>

lemma important_category_passes:
  assumes "is_important_notification k"
  shows "text_refusal (alert_category k) = None"
proof -
  have "alert_category k \<in> {''sistem'', ''ev'', ''Aktivra''}"
    using assms
    by (auto simp: is_important_notification_def important_kind_def alert_only_kinds_def alert_category_def
        notification_kinds_def alert_categories_def split: if_splits)
  moreover have "text_refusal ''sistem'' = None" "text_refusal ''ev'' = None" "text_refusal ''Aktivra'' = None"
    by code_simp+
  ultimately show ?thesis by auto
qed

lemma toast_needs_presence:
  assumes "\<And>r w. n_kind r = n_kind row \<Longrightarrow> must r w" and "\<And>w. \<not> here w"
  shows "fst (toast_deliver port (Some must) (Some here) row w) \<noteq> Reached"
proof -
  have "n_kind (snd (note_toast_target dev row)) = n_kind row" for dev
    by (simp add: note_toast_target_def Let_def split: option.splits)
  then show ?thesis using assms
    by (auto simp: toast_deliver_def Let_def split: sum.splits toast_error.splits option.splits prod.splits)
qed

lemma subseq_distinct: "subseq xs ys \<Longrightarrow> distinct ys \<Longrightarrow> distinct xs"
  by (induction rule: list_emb.induct) (auto elim: list_emb_set)

lemma candidates_alarm:
  assumes "Alarm \<notin> set (n_attempted row)" and "Alarm \<in> set avail"
  obtains cs where "Toast \<notin> set cs"
    and "candidates avail row = (if Toast \<in> set (candidates avail row) then [Toast] else []) @ Alarm # cs"
proof
  define P where "P c = (c \<notin> set (n_attempted row) \<and> (c = Inbox \<or> c \<in> set avail))" for c
  have P: "P Alarm" using assms by (simp add: P_def)
  have cand: "candidates avail row = filter P ladder" by (simp add: candidates_def P_def [abs_def])
  have "Toast \<in> set (candidates avail row) \<longleftrightarrow> P Toast" by (simp add: cand ladder_def)
  then show "candidates avail row =
      (if Toast \<in> set (candidates avail row) then [Toast] else []) @ Alarm # filter P [Sound, Push, Inbox]"
    using P by (simp add: cand ladder_def)
  show "Toast \<notin> set (filter P [Sound, Push, Inbox])" by simp
qed

lemma loop_in_candidates:
  assumes "n_delivered_at row = None" and "fst (ladder_loop rungs avail now d row w) = Some c"
  shows "c \<in> set (candidates avail row)"
proof -
  obtain tried where "subseq tried (candidates avail row)" "tried \<noteq> [] \<and> last tried = c"
    using loop_logged [OF assms(1) refl, where avail = avail and rungs = rungs and now = now and d = d and w = w and l = "[]"] assms(2) by auto
  then show ?thesis by (metis last_in_set subseq_order.order_trans subseq_singleton_left)
qed

lemma alarm_reached:
  assumes "is_important_notification (n_kind row)" and "\<And>l. ac_link_ok a l"
    and "\<And>c l w. \<exists>r w1. ac_send a c l w = (Some r, w1)" and "\<And>i r w. \<exists>w1. ac_store a i r w = (True, w1)"
  shows "fst (alarm_deliver a row w) = Reached"
proof -
  obtain r w1 where send: "ac_send a (category_for row) (ac_link a row) w = (Some r, w1)" using assms(3) by blast
  obtain w2 where "ac_store a (n_id row) r w1 = (True, w2)" using assms(4) by blast
  then show ?thesis
    using assms(1,2) send important_category_passes [OF assms(1)]
    by (simp add: alarm_deliver_def important_row_def category_for_def)
qed

lemma alarm_first:
  assumes "candidates avail row = Alarm # cs" and "n_delivered_at row = None"
    and "rungs Alarm = Some (alarm_rung a)" and "ac_configured a w"
    and "fst (alarm_deliver a row w) = Reached"
  shows "fst (ladder_loop rungs avail now d row w) = Some Alarm"
  using assms by (auto simp: ladder_loop_step rung_ready_def alarm_rung_def split: prod.splits)

section \<open>The sweep delivers\<close>

definition due_row :: "notification list \<Rightarrow> nat \<Rightarrow> bool" where
  "due_row rows i = (\<exists>row. row_get n_id i rows = Some row \<and> n_delivered_at row = None \<and> Inbox \<notin> set (n_attempted row))"

definition delivered_now :: "instant \<Rightarrow> notification list \<Rightarrow> nat \<Rightarrow> bool" where
  "delivered_now now rows i = (\<exists>row. row_get n_id i rows = Some row \<and> n_delivered_at row = Some now)"

lemma row_get_put_const: "row_get key i rows = Some r \<Longrightarrow> key r' = i \<Longrightarrow>
    row_get key j (row_put key i (\<lambda>_. r') rows) = (if j = i then Some r' else row_get key j rows)"
  by (simp add: row_get_put)

lemma sum_channels_add:
  "sum (n(c := n c + 1)) (set ladder) = sum n (set ladder) + (1 :: nat)"
  by (cases c) (simp_all add: ladder_def)

lemma sweep_row_delivers:
  assumes "rungs Inbox = Some inbox_rung" and "due_row rows i"
    and "sweep_row rungs now dig i (n, rows, w) = (n', rows', w')"
  shows "delivered_now now rows' i \<and> (\<forall>j. j \<noteq> i \<longrightarrow> row_get n_id j rows' = row_get n_id j rows) \<and>
    sum n' (set ladder) = sum n (set ladder) + 1"
proof -
  obtain row where row: "row_get n_id i rows = Some row" "n_delivered_at row = None" "Inbox \<notin> set (n_attempted row)"
    using assms(2) by (auto simp: due_row_def)
  obtain c row' w1 where one: "deliver_one rungs now (dig i) row w = (Some c, row', w1)" "n_delivered_at row' = Some now"
    "n_id row' = n_id row"
    using loop_reaches [of rungs row "available_channels rungs w" _ now "dig i" w, OF assms(1) row(2,3) refl]
    by (auto simp: deliver_one_def)
  have id: "n_id row = i" using row_get_SomeD [OF row(1)] by simp
  have "n' = n(c := n c + 1)" "rows' = row_put n_id i (\<lambda>_. row') rows"
    using assms(3) row(1) one(1) by (simp_all add: sweep_row_def)
  then show ?thesis
    using row_get_put_const [OF row(1), of row'] one(2,3) id sum_channels_add [of n c] by (auto simp: delivered_now_def)
qed

lemma sweep_fold_delivers:
  assumes "rungs Inbox = Some inbox_rung" and "distinct is" and "\<forall>i \<in> set is. due_row rows i"
    and "fold (sweep_row rungs now dig) is (n, rows, w) = (n', rows', w')"
  shows "(\<forall>i \<in> set is. delivered_now now rows' i) \<and>
    (\<forall>j. j \<notin> set is \<longrightarrow> row_get n_id j rows' = row_get n_id j rows) \<and>
    sum n' (set ladder) = sum n (set ladder) + length is"
  using assms(2-4)
proof (induction "is" arbitrary: n rows w)
  case Nil
  then show ?case by simp
next
  case (Cons i js)
  obtain n1 rows1 w1 where one: "sweep_row rungs now dig i (n, rows, w) = (n1, rows1, w1)"
    by (cases "sweep_row rungs now dig i (n, rows, w)")
  have step: "delivered_now now rows1 i" "\<And>j. j \<noteq> i \<Longrightarrow> row_get n_id j rows1 = row_get n_id j rows"
    "sum n1 (set ladder) = sum n (set ladder) + 1"
    using sweep_row_delivers [OF assms(1) _ one] Cons.prems(2) by auto
  have "\<forall>j \<in> set js. due_row rows1 j"
    using Cons.prems step(2) by (auto simp: due_row_def) (metis)
  moreover have "fold (sweep_row rungs now dig) js (n1, rows1, w1) = (n', rows', w')"
    using Cons.prems(3) one by simp
  ultimately have rest: "\<forall>j \<in> set js. delivered_now now rows' j"
    "\<forall>j. j \<notin> set js \<longrightarrow> row_get n_id j rows' = row_get n_id j rows1"
    "sum n' (set ladder) = sum n1 (set ladder) + length js"
    using Cons.IH Cons.prems(1) by auto
  have "i \<notin> set js" using Cons.prems(1) by simp
  then have "delivered_now now rows' i" using step(1) rest(2) by (simp add: delivered_now_def)
  then show ?case using rest step by simp
qed

section \<open>Sample inputs\<close>

definition sample_port :: "nat port" where
  "sample_port cap payload key w =
     (Some \<lparr>po_ok = True, po_result = JObj [(''shown'', JBool True)], po_device = Some ''pc''\<rparr>, w + 1)"

definition sample_alarm :: "nat alarm_config" where
  "sample_alarm = \<lparr>ac_configured = (\<lambda>_. True),
     ac_send = (\<lambda>c l w. (Some \<lparr>receipt_id = ''r'', sent_at = 0, expires_at = 1\<rparr>, w + 1)),
     ac_cancel = (\<lambda>_ w. w), ac_store = (\<lambda>_ _ w. (True, w + 1)), ac_link = (\<lambda>_. ''l''), ac_link_ok = (\<lambda>_. True)\<rparr>"

definition sample_rungs :: "nat rungs" where
  "sample_rungs = default_rungs (Some sample_port) None (Some sample_alarm) (\<lambda>_. False)"

definition sample_row :: notification where
  "sample_row = new_row 3 \<lparr>q_kind = ''security.critical'', q_title = ''t'', q_body = ''b'', q_priority = ''urgent'',
     q_group = [], q_data = []\<rparr> 5 quiet_from quiet_until"

lemma sample_row_simps:
  "n_delivered_at sample_row = None" "n_attempted sample_row = []" "n_kind sample_row = ''security.critical''"
  "n_id sample_row = 3"
  by (simp_all add: sample_row_def new_row_def Let_def)

lemma sample_rungs_inbox: "sample_rungs Inbox = Some inbox_rung"
  by (simp add: sample_rungs_def default_rungs_def)

section \<open>Properties\<close>



text \<open>
  Every rung is tried at most once, in the order of the ladder.  With rungs that write down when
  they are called, a pass calls a subsequence of the channels of the ladder that were not attempted
  for this row before, ends with the channel it reports, and otherwise does what the plain rungs do.
\<close>
theorem rungs_tried_once_in_order:
  assumes "n_delivered_at row = None"
  shows "\<exists>tried. deliver_one (logging rungs) now d row (w, l) =
      (case deliver_one rungs now d row w of (res, row', w') \<Rightarrow> (res, row', w', l @ tried)) \<and>
    subseq tried (filter (\<lambda>c. c \<notin> set (n_attempted row)) ladder) \<and> distinct tried \<and>
    (\<forall>c. fst (deliver_one rungs now d row w) = Some c \<longrightarrow> tried \<noteq> [] \<and> last tried = c)"
proof -
  let ?avail = "available_channels rungs w"
  obtain tried where t: "subseq tried (candidates ?avail row)"
    "ladder_loop (logging rungs) ?avail now d row (w, l) =
      (case ladder_loop rungs ?avail now d row w of (res, row', w') \<Rightarrow> (res, row', w', l @ tried))"
    "case fst (ladder_loop rungs ?avail now d row w) of None \<Rightarrow> True | Some c \<Rightarrow> tried \<noteq> [] \<and> last tried = c"
    using loop_logged [OF assms refl, where rungs = rungs and avail = ?avail and now = now and d = d and w = w and l = l]
    by blast
  have "candidates ?avail row =
      filter (\<lambda>c. c = Inbox \<or> c \<in> set ?avail) (filter (\<lambda>c. c \<notin> set (n_attempted row)) ladder)"
    by (simp add: candidates_def conj_commute)
  then have sub: "subseq tried (filter (\<lambda>c. c \<notin> set (n_attempted row)) ladder)"
    using t(1) subseq_order.order_trans subseq_filter_left by metis
  moreover have "distinct tried"
    using subseq_distinct [OF sub] distinct_filter [OF ladder_distinct] by blast
  ultimately show ?thesis
    using t(2,3) by (intro exI [of _ tried]) (auto simp: deliver_one_def logging_available)
qed

theorem rungs_tried_once_in_order_witness:
  "\<exists>tried. snd (snd (snd (deliver_one (logging sample_rungs) 9 0 sample_row (0, [])))) = tried \<and> distinct tried"
  using rungs_tried_once_in_order [OF sample_row_simps(1), of sample_rungs 9 0 0 "[]"]
  by (cases "deliver_one sample_rungs 9 0 sample_row 0") auto

text \<open>
  The night trap.  For an important row, with the alarm rung configured and the owner not known
  to be at a desk, a shown toast never ends the ladder; and when the alarm provider accepts and the
  receipt is kept, the pass ends with the ringing phone, whatever the device answered to the toast.
\<close>
theorem night_trap:
  fixes device :: "'w port option" and push :: "'w rung option" and d :: "32 word"
  assumes "n_delivered_at row = None" and "Alarm \<notin> set (n_attempted row)"
    and "is_important_notification (n_kind row)" and "\<And>w. ac_configured a w" and "\<And>w. \<not> here w"
  defines "rungs \<equiv> default_rungs device push (Some a) here"
  shows "fst (deliver_one rungs now d row w) \<noteq> Some Toast \<and>
    ((\<forall>l. ac_link_ok a l) \<longrightarrow> (\<forall>c l w. \<exists>r w1. ac_send a c l w = (Some r, w1)) \<longrightarrow>
      (\<forall>i r w. \<exists>w1. ac_store a i r w = (True, w1)) \<longrightarrow> fst (deliver_one rungs now d row w) = Some Alarm)"
proof -
  let ?avail = "available_channels rungs w"
  have rungs: "rungs Alarm = Some (alarm_rung a)" by (simp add: rungs_def default_rungs_def)
  have alarm: "Alarm \<in> set ?avail"
    using assms(4) by (simp add: available_channels_def rung_ready_def rungs alarm_rung_def ladder_def)
  have toast: "Toast \<notin> set ?avail \<or> (\<exists>port. rungs Toast =
      Some (toast_rung (Some port) (Some (rings_for a)) (Some here)))"
    by (auto simp: available_channels_def rung_ready_def rungs_def default_rungs_def toast_rung_def)
  have ends: "fst (ladder_loop rungs ?avail now d r w1) = Some Alarm"
    if "candidates ?avail r = Alarm # cs" "n_delivered_at r = None" "n_kind r = n_kind row"
      "\<forall>l. ac_link_ok a l" "\<forall>c l w. \<exists>r w1. ac_send a c l w = (Some r, w1)"
      "\<forall>i r w. \<exists>w1. ac_store a i r w = (True, w1)" for r w1 cs
    using that assms(3,4) by (intro alarm_first [where a = a and rungs = rungs, OF _ _ rungs] alarm_reached) auto
  obtain cs where cs: "candidates ?avail row = (if Toast \<in> set (candidates ?avail row) then [Toast] else []) @ Alarm # cs"
    "Toast \<notin> set cs"
    using candidates_alarm [OF assms(2) alarm] by metis
  show ?thesis
  proof (cases "Toast \<in> set (candidates ?avail row)")
    case False
    then show ?thesis
      using loop_in_candidates [OF assms(1), of rungs ?avail now d w Toast] ends [of row cs w] cs assms(1)
      by (auto simp: deliver_one_def)
  next
    case True
    then obtain port where port: "rungs Toast = Some (toast_rung (Some port) (Some (rings_for a)) (Some here))"
      using toast by (auto simp: candidates_def)
    obtain res data w1 where del: "toast_deliver port (Some (rings_for a)) (Some here) row w = (res, data, w1)"
      by (cases "toast_deliver port (Some (rings_for a)) (Some here) row w")
    have "res \<noteq> Reached"
      using toast_needs_presence [of row "rings_for a" here port w] assms(3-5) del
      by (auto simp: rings_for_def important_row_def)
    define r where "r = mark_attempt_failed Toast ?avail now d (row\<lparr>n_data := data\<rparr>)"
    have r: "candidates ?avail r = Alarm # cs" "n_delivered_at r = None" "n_kind r = n_kind row"
      using candidates_step [of ?avail row Toast "Alarm # cs" r] cs(1) True assms(1)
        failed_frame [of "row\<lparr>n_data := data\<rparr>"] by (simp_all add: r_def)
    have "ladder_loop rungs ?avail now d row w = ladder_loop rungs ?avail now d r w1"
      using cs(1) True assms(1) del \<open>res \<noteq> Reached\<close> port
      by (simp add: ladder_loop_step rung_ready_def toast_rung_def r_def)
    then show ?thesis
      using loop_in_candidates [OF r(2), of rungs ?avail now d w1 Toast] ends [OF r] r(1) cs(2)
      by (auto simp: deliver_one_def)
  qed
qed

theorem night_trap_witness: "fst (deliver_one sample_rungs 9 0 sample_row 0) = Some Alarm"
  using night_trap [of sample_row sample_alarm "\<lambda>_. False" "Some sample_port" None 9 0 0]
  by (simp add: sample_rungs_def sample_row_simps sample_alarm_def is_important_notification_def important_kind_def
      alert_only_kinds_def notification_kinds_def)

text \<open>
  A sweep delivers every row it sees, each once.  With an inbox rung, every row that is
  deliverable at the start is delivered at the end, all other rows are unchanged, and the counts of
  the channels add up to the number of the rows seen.
\<close>
theorem sweep_delivers_all_it_sees:
  assumes "rungs Inbox = Some inbox_rung" and "distinct (map n_id rows)"
    and "\<forall>r \<in> set rows. n_delivered_at r = None \<longrightarrow> Inbox \<notin> set (n_attempted r)"
    and "ladder_sweep rungs now dig limit rows w = (n, rows', w')"
  shows "(\<forall>r \<in> set (deliverable now limit rows).
       \<exists>r'. row_get n_id (n_id r) rows' = Some r' \<and> n_delivered_at r' = Some now) \<and>
    (\<forall>i. i \<notin> n_id ` set (deliverable now limit rows) \<longrightarrow> row_get n_id i rows' = row_get n_id i rows) \<and>
    sum n (set ladder) = length (deliverable now limit rows)"
proof -
  have mem: "r \<in> set rows \<and> n_delivered_at r = None" if "r \<in> set (deliverable now limit rows)" for r
    using deliverable_members that by (fastforce simp: undelivered_def)
  have "distinct (map n_id (sort_key n_created_at (filter undelivered rows)))"
    using distinct_map_filter [OF assms(2)] by (simp add: distinct_map)
  then have dist: "distinct (map n_id (deliverable now limit rows))"
    by (simp add: deliverable_def take_map [symmetric] distinct_map_filter)
  have "\<forall>i \<in> set (map n_id (deliverable now limit rows)). due_row rows i"
    using mem assms(3) rows.get_unique [OF assms(2)] by (fastforce simp: due_row_def)
  from sweep_fold_delivers [OF assms(1) dist this assms(4) [unfolded ladder_sweep_def]]
  show ?thesis by (auto simp: delivered_now_def)
qed

theorem sweep_delivers_all_it_sees_witness:
  "\<exists>n rows' w'. ladder_sweep sample_rungs 9 (\<lambda>_. 0) 25 [sample_row] 0 = (n, rows', w') \<and>
     (\<exists>r'. row_get n_id 3 rows' = Some r' \<and> n_delivered_at r' = Some 9)"
proof -
  obtain n rows' w' where sweep: "ladder_sweep sample_rungs 9 (\<lambda>_. 0) 25 [sample_row] 0 = (n, rows', w')"
    by (cases "ladder_sweep sample_rungs 9 (\<lambda>_. 0) 25 [sample_row] 0")
  have "sample_row \<in> set (deliverable 9 25 [sample_row])"
    by (simp add: deliverable_def sample_row_def new_row_def undelivered_def attemptable_def may_attempt_def
        is_exhausted_def max_attempts_def parse_priority_def Let_def)
  then show ?thesis
    using sweep_delivers_all_it_sees [of sample_rungs, OF sample_rungs_inbox _ _ sweep] sweep by (fastforce simp: sample_row_simps)
qed

section \<open>Where the promises end\<close>

text \<open>
  A row whose ladder is exhausted without having been delivered (a ladder with no inbox rung) keeps
  all its channels as attempted: every later pass finds no channel, tries nothing, counts nothing
  and sets no later attempt, so the row is neither retried nor ever quarantined.
\<close>

lemma exhausted_row_never_retried:
  assumes "next_channel (available_channels rungs w) row = None"
  shows "deliver_one rungs now d row w = (None, row, w)"
  using assms by (simp add: deliver_one_def ladder_loop.simps [of rungs])

text \<open>
  A fault of the ledger while a receipt is opened: the alarm is cancelled and the rung reports that
  it did not reach the owner, but the receipt stays open and the loop will report on it.
\<close>

lemma ledger_fault_leaves_receipt_open:
  assumes "receipt_id r \<notin> row_id ` set (ss_rows s)"
  shows "\<not> fst (sql_open False n r s) \<and> count_open (snd (sql_open False n r s)) = count_open s + 1"
  using assms by (simp add: sql_open_def count_open_def is_open_def Let_def)

end
