(* ===== verification/Confirmation_Gate.thy ===== *)
theory Confirmation_Gate imports Json_Value begin

text \<open>
  The owner-confirmation gate (\<open>actions/confirmation_gate.py\<close>) and the life of a row that is read
  back, confirmed and then acted on outside: the part that \<open>MailService.send\<close> and
  \<open>CalendarService.commit\<close> share.  The row type is a parameter, its operations are the record
  \<open>row_ops\<close>, and the locale \<open>confirmed_rows\<close> states what the operations promise; \<open>Mail_Draft\<close> and
  \<open>Calendar_Proposal\<close> interpret it on their own definitions.

  Requests interleave at the statements of the code.  An edit, a read-back and a discard are two steps: the row is
  loaded and checked, and later the changed columns are written by id, without a lock or a version (the ORM's
  unit of work); whatever happened in between is not looked at again.  A confirmation is the check of the gate,
  the compare-and-swap, the refresh of the row with the call of the provider, and the write that records success
  (columns of the refreshed row) or failure (one UPDATE).
\<close>

section \<open>The gate\<close>

datatype gate_reason =
    Not_read_back | No_confirmation | Already_sent | Send_disabled | Account_missing | Confirmation_not_owner

record confirmation =
  cf_source :: string
  cf_session :: string
  cf_turn :: "int option"
  cf_owner_intent_ok :: bool

definition source_rest :: string where "source_rest = ''rest''"
definition source_voice :: string where "source_voice = ''voice''"
definition source_owner_policy :: string where "source_owner_policy = ''owner_policy''"

text \<open>\<open>Inr ()\<close> is \<open>GateResult(True, None)\<close>.\<close>

definition check_gate ::
    "string \<Rightarrow> string \<Rightarrow> string \<Rightarrow> instant option \<Rightarrow> string option \<Rightarrow> int option \<Rightarrow>
     confirmation option \<Rightarrow> bool \<Rightarrow> bool \<Rightarrow> gate_reason + unit" where
  "check_gate state prepared_state read_back_state read_back_at read_back_session read_back_turn
     confirmation host_flag_enabled provider_available =
     (if \<not> provider_available then Inl Account_missing
      else if state = prepared_state \<or> read_back_at = None then Inl Not_read_back
      else if state \<noteq> read_back_state then Inl Already_sent
      else (case confirmation of
              None \<Rightarrow> Inl No_confirmation
            | Some c \<Rightarrow>
                bind_sum
                  (if cf_source c = source_rest then Inr ()
                   else if cf_source c = source_owner_policy
                   then (if Some (cf_session c) \<noteq> read_back_session then Inl Not_read_back
                         else if \<not> cf_owner_intent_ok c then Inl Confirmation_not_owner
                         else Inr ())
                   else if cf_source c = source_voice
                   then (if Some (cf_session c) \<noteq> read_back_session then Inl Not_read_back
                         else if \<not> cf_owner_intent_ok c then Inl Confirmation_not_owner
                         else (case read_back_turn of
                                 None \<Rightarrow> Inr ()
                               | Some t \<Rightarrow>
                                   (case cf_turn c of
                                      None \<Rightarrow> Inl No_confirmation
                                    | Some u \<Rightarrow> if u \<le> t then Inl No_confirmation else Inr ())))
                   else Inl No_confirmation)
                  (\<lambda>_. if \<not> host_flag_enabled then Inl Send_disabled else Inr ())))"

text \<open>What counts as the owner's word for a row that was read back in \<open>session\<close> at \<open>turn\<close>.\<close>

definition owners_word :: "string option \<Rightarrow> int option \<Rightarrow> confirmation \<Rightarrow> bool" where
  "owners_word session turn c =
     (cf_source c = source_rest \<or>
      (cf_source c = source_owner_policy \<or>
       cf_source c = source_voice \<and> (\<forall>t. turn = Some t \<longrightarrow> (\<exists>u. cf_turn c = Some u \<and> t < u))) \<and>
      session = Some (cf_session c) \<and> cf_owner_intent_ok c)"

text \<open>The claims the routes and the voice tools make; the gate judges them.\<close>

definition rest_confirmation :: "string \<Rightarrow> confirmation" where
  "rest_confirmation owner =
     \<lparr>cf_source = source_rest, cf_session = owner, cf_turn = None, cf_owner_intent_ok = False\<rparr>"

definition voice_confirmation :: "string \<Rightarrow> int option \<Rightarrow> string \<Rightarrow> string \<Rightarrow> confirmation" where
  "voice_confirmation session turn intent expected =
     \<lparr>cf_source = source_voice, cf_session = session, cf_turn = turn, cf_owner_intent_ok = (intent = expected)\<rparr>"

text \<open>Who confirmed, as \<open>confirmed_by_label\<close> stamps it on the row.\<close>

definition confirmed_by_label :: "confirmation \<Rightarrow> string" where
  "confirmed_by_label c =
     (if cf_source c = source_rest then source_rest @ '':'' @ cf_session c
      else source_voice @ '':'' @ cf_session c @ '':'' @
        (case cf_turn c of None \<Rightarrow> ''None'' | Some n \<Rightarrow> show_int n))"

section \<open>Receipts\<close>

fun gate_code :: "gate_reason \<Rightarrow> string" where
  "gate_code Not_read_back = ''not_read_back''"
| "gate_code No_confirmation = ''no_confirmation''"
| "gate_code Already_sent = ''already_sent''"
| "gate_code Send_disabled = ''send_disabled''"
| "gate_code Account_missing = ''account_missing''"
| "gate_code Confirmation_not_owner = ''confirmation_not_owner''"

record receipt =
  rc_capability :: string
  rc_requested :: string
  rc_execution :: string
  rc_terminal :: string
  rc_error :: "string option"

datatype answer = Needs_clarification | Receipt receipt

definition executed :: "string \<Rightarrow> string \<Rightarrow> answer" where
  "executed capability requested = Receipt \<lparr>rc_capability = capability, rc_requested = requested,
     rc_execution = ''executed'', rc_terminal = ''verified'', rc_error = None\<rparr>"

definition refused :: "string \<Rightarrow> string \<Rightarrow> string \<Rightarrow> answer" where
  "refused capability requested error = Receipt \<lparr>rc_capability = capability, rc_requested = requested,
     rc_execution = ''refused'', rc_terminal = ''failed'', rc_error = Some error\<rparr>"

definition failed :: "string \<Rightarrow> string \<Rightarrow> string \<Rightarrow> answer" where
  "failed capability requested error = Receipt \<lparr>rc_capability = capability, rc_requested = requested,
     rc_execution = ''failed'', rc_terminal = ''failed'', rc_error = Some error\<rparr>"

section \<open>Rows that are confirmed\<close>

text \<open>A read-back is spoken to a voice session on a turn, or is the Cockpit's listing of what is pending.\<close>

datatype reading = Spoken "string option" "int option" | Listed string

record ('r, 'e, 'c) row_ops =
  ro_state :: "'r \<Rightarrow> string"
  ro_session :: "'r \<Rightarrow> string option"
  ro_turn :: "'r \<Rightarrow> int option"
  ro_gate :: "'r \<Rightarrow> confirmation option \<Rightarrow> bool \<Rightarrow> bool \<Rightarrow> gate_reason + unit"
  ro_edit :: "'e \<Rightarrow> instant \<Rightarrow> 'r \<Rightarrow> 'r option"
  ro_read_back :: "reading \<Rightarrow> instant \<Rightarrow> 'r \<Rightarrow> 'r option"
  ro_discard :: "instant \<Rightarrow> 'r \<Rightarrow> 'r"
  ro_claim :: "confirmation \<Rightarrow> instant \<Rightarrow> 'r \<Rightarrow> 'r option"
  ro_payload :: "'r \<Rightarrow> 'c"
  ro_revert :: "string \<Rightarrow> instant \<Rightarrow> 'r \<Rightarrow> 'r"
  ro_finish :: "string \<Rightarrow> instant \<Rightarrow> 'r \<Rightarrow> 'r"
  ro_store :: "'r \<Rightarrow> 'r \<Rightarrow> 'r \<Rightarrow> 'r"

text \<open>
  One column of the ORM's UPDATE: written when the object's value is not the one it was loaded with.
  \<open>ro_store loaded object row\<close> does this for every column of a row.
\<close>

definition flushed :: "'a \<Rightarrow> 'a \<Rightarrow> 'a \<Rightarrow> 'a" where
  "flushed loaded object row = (if object = loaded then row else object)"

text \<open>A request that confirms: past the gate (with the row the gate saw), past the compare-and-swap,
  waiting for the provider (with the row as refreshed for the call).\<close>

datatype 'r phase = Gated 'r confirmation | Claimed 'r confirmation | Called 'r

fun busy :: "'r phase \<Rightarrow> bool" where
  "busy (Gated r c) = False"
| "busy (Claimed r c) = True"
| "busy (Called r) = True"

text \<open>A request that writes the row: what it does to the row it loaded.\<close>

datatype 'e task = Edit 'e | Read_back reading | Discard

fun is_discard :: "'e task \<Rightarrow> bool" where
  "is_discard Discard = True"
| "is_discard (Edit e) = False"
| "is_discard (Read_back a) = False"

fun task_row :: "('r, 'e, 'c) row_ops \<Rightarrow> 'e task \<Rightarrow> instant \<Rightarrow> 'r \<Rightarrow> 'r option" where
  "task_row ops (Edit e) now r = ro_edit ops e now r"
| "task_row ops (Read_back a) now r = ro_read_back ops a now r"
| "task_row ops Discard now r = Some (ro_discard ops now r)"

text \<open>
  \<open>w_row\<close> is the row in the database, \<open>w_requests\<close> the confirmations under way, \<open>w_writers\<close> the edits,
  read-backs and discards that have loaded the row.  The rest is history: the last read-back with the row it
  left (\<open>w_read\<close>), the calls of the provider with the confirmation, the row its gate saw and the last read-back,
  how many calls succeeded, and how many edits and read-backs wrote over a row that was no longer the one they
  had loaded (\<open>w_stale\<close>).
\<close>

record ('r, 'c) provider_call =
  k_payload :: 'c
  k_confirmation :: confirmation
  k_gate_row :: 'r
  k_read :: "(reading \<times> 'r) option"

record ('r, 'e, 'c) row_world =
  w_row :: 'r
  w_requests :: "(nat \<times> 'r phase) list"
  w_writers :: "(nat \<times> 'r \<times> 'e task) list"
  w_read :: "(reading \<times> 'r) option"
  w_calls :: "('r, 'c) provider_call list"
  w_succeeded :: nat
  w_stale :: nat

datatype 'e row_event =
    Load nat "'e task"
  | Write nat instant
  | Begin nat confirmation bool bool
  | Claim nat instant
  | Call_provider nat
  | Succeed nat string instant
  | Fail nat string instant

fun row_step :: "('r, 'e, 'c) row_ops \<Rightarrow> 'e row_event \<Rightarrow> ('r, 'e, 'c) row_world \<Rightarrow> ('r, 'e, 'c) row_world" where
  "row_step ops (Load i t) w =
     (if i \<in> fst ` set (w_writers w) then w
      else w\<lparr>w_writers := (i, w_row w, t) # w_writers w\<rparr>)"
| "row_step ops (Write i now) w =
     (case map_of (w_writers w) i of
        None \<Rightarrow> w
      | Some (loaded, t) \<Rightarrow>
          (let w1 = w\<lparr>w_writers := filter (\<lambda>q. fst q \<noteq> i) (w_writers w)\<rparr>
           in case task_row ops t now loaded of
                None \<Rightarrow> w1
              | Some object \<Rightarrow>
                  (let row = ro_store ops loaded object (w_row w)
                   in w1\<lparr>w_row := row,
                     w_read := (case t of Read_back a \<Rightarrow> Some (a, row) | _ \<Rightarrow> w_read w),
                     w_stale := w_stale w + (if is_discard t \<or> w_row w = loaded then 0 else 1)\<rparr>)))"
| "row_step ops (Begin i c host provider) w =
     (if i \<in> fst ` set (w_requests w) then w
      else (case ro_gate ops (w_row w) (Some c) host provider of
              Inl _ \<Rightarrow> w
            | Inr _ \<Rightarrow> w\<lparr>w_requests := (i, Gated (w_row w) c) # w_requests w\<rparr>))"
| "row_step ops (Claim i now) w =
     (case map_of (w_requests w) i of
        Some (Gated r c) \<Rightarrow>
          (case ro_claim ops c now (w_row w) of
             None \<Rightarrow> w\<lparr>w_requests := filter (\<lambda>q. fst q \<noteq> i) (w_requests w)\<rparr>
           | Some row \<Rightarrow> w\<lparr>w_row := row,
               w_requests := (i, Claimed r c) # filter (\<lambda>q. fst q \<noteq> i) (w_requests w)\<rparr>)
      | _ \<Rightarrow> w)"
| "row_step ops (Call_provider i) w =
     (case map_of (w_requests w) i of
        Some (Claimed r c) \<Rightarrow>
          w\<lparr>w_requests := (i, Called (w_row w)) # filter (\<lambda>q. fst q \<noteq> i) (w_requests w),
            w_calls := w_calls w @ [\<lparr>k_payload = ro_payload ops (w_row w), k_confirmation = c,
                         k_gate_row = r, k_read = w_read w\<rparr>]\<rparr>
      | _ \<Rightarrow> w)"
| "row_step ops (Succeed i answer now) w =
     (case map_of (w_requests w) i of
        Some (Called r) \<Rightarrow>
          w\<lparr>w_row := ro_store ops r (ro_finish ops answer now r) (w_row w),
            w_requests := filter (\<lambda>q. fst q \<noteq> i) (w_requests w), w_succeeded := w_succeeded w + 1\<rparr>
      | _ \<Rightarrow> w)"
| "row_step ops (Fail i error now) w =
     (case map_of (w_requests w) i of
        Some (Called r) \<Rightarrow>
          w\<lparr>w_row := ro_revert ops error now (w_row w),
            w_requests := filter (\<lambda>q. fst q \<noteq> i) (w_requests w)\<rparr>
      | _ \<Rightarrow> w)"

definition new_world :: "'r \<Rightarrow> ('r, 'e, 'c) row_world" where
  "new_world r = \<lparr>w_row = r, w_requests = [], w_writers = [], w_read = None, w_calls = [], w_succeeded = 0,
     w_stale = 0\<rparr>"

definition run_events ::
    "('r, 'e, 'c) row_ops \<Rightarrow> 'e row_event list \<Rightarrow> ('r, 'e, 'c) row_world \<Rightarrow> ('r, 'e, 'c) row_world" where
  "run_events ops es w = fold (row_step ops) es w"

section \<open>What the gate lets through\<close>

lemma check_gate_Inr:
  "check_gate state prepared rb at session turn conf host provider = Inr u \<longleftrightarrow>
     provider \<and> state \<noteq> prepared \<and> at \<noteq> None \<and> state = rb \<and> host \<and>
     (\<exists>c. conf = Some c \<and> owners_word session turn c)"
  by (auto simp: check_gate_def owners_word_def source_rest_def source_voice_def source_owner_policy_def
      bind_sum_def split: option.splits if_splits)

text \<open>The confirmation a request carries is one that somebody gave.\<close>

fun given :: "'e row_event list \<Rightarrow> confirmation set" where
  "given [] = {}"
| "given (Begin i c host provider # es) = insert c (given es)"
| "given (ev # es) = given es"

fun phase_confirmation :: "'r phase \<Rightarrow> confirmation option" where
  "phase_confirmation (Gated r c) = Some c"
| "phase_confirmation (Claimed r c) = Some c"
| "phase_confirmation (Called r) = None"

definition all_given :: "confirmation set \<Rightarrow> ('r, 'e, 'c) row_world \<Rightarrow> bool" where
  "all_given A w = ((\<forall>q \<in> set (w_requests w). set_option (phase_confirmation (snd q)) \<subseteq> A) \<and>
     (\<forall>k \<in> set (w_calls w). k_confirmation k \<in> A))"

lemma all_given_step:
  assumes "all_given A w"
  shows "all_given (A \<union> given [ev]) (row_step ops ev w)"
proof -
  have old: "set_option (phase_confirmation (snd q)) \<subseteq> A" if "q \<in> set (w_requests w)" for q
    using assms that by (simp add: all_given_def)
  have "c \<in> A" if "map_of (w_requests w) i = Some (Gated r c) \<or> map_of (w_requests w) i = Some (Claimed r c)" for i r c
    using old that by (force dest: map_of_SomeD)
  then show ?thesis using assms
    by (cases ev) (auto simp: all_given_def Let_def split: prod.split option.split sum.split phase.split)
qed

lemma all_given_run: "all_given A w \<Longrightarrow> all_given (A \<union> given es) (run_events ops es w)"
proof (induction es arbitrary: A w)
  case Nil
  then show ?case by (simp add: run_events_def)
next
  case (Cons ev es)
  have "all_given ((A \<union> given [ev]) \<union> given es) (run_events ops es (row_step ops ev w))"
    by (rule Cons.IH [OF all_given_step [OF Cons.prems]])
  moreover have "(A \<union> given [ev]) \<union> given es = A \<union> given (ev # es)" by (cases ev) auto
  ultimately show ?case by (simp add: run_events_def)
qed

lemma calls_given: "k \<in> set (w_calls (run_events ops es (new_world r))) \<Longrightarrow> k_confirmation k \<in> given es"
  using all_given_run [of "{}" "new_world r" es ops] by (simp add: all_given_def new_world_def)

lemma length_filter_conj: "length (filter (\<lambda>q. P q \<and> Q q) xs) \<le> length (filter Q xs)"
  by (induction xs) auto

section \<open>The promises of the operations\<close>

locale confirmed_rows =
  fixes ops :: "('r, 'e, 'c) row_ops"
    and prepared read_back working finished discarded :: string
  assumes states: "distinct [prepared, read_back, working, finished, discarded]"
    and gate_word: "ro_gate ops r (Some c) host provider = Inr u \<Longrightarrow>
      ro_state ops r = read_back \<and> owners_word (ro_session ops r) (ro_turn ops r) c"
    and edit_law: "ro_edit ops e t r = Some r' \<Longrightarrow>
      ro_state ops r \<in> {prepared, read_back} \<and> ro_state ops r' = prepared"
    and read_law: "ro_read_back ops a t r = Some r' \<Longrightarrow>
      ro_state ops r \<in> {prepared, read_back} \<and> ro_state ops r' = read_back"
    and discard_law: "ro_state ops (ro_discard ops t r) = discarded \<and>
      ro_payload ops (ro_discard ops t r) = ro_payload ops r"
    and claim_law: "ro_claim ops c t r = Some r' \<Longrightarrow>
      ro_state ops r = read_back \<and> ro_state ops r' = working \<and> ro_payload ops r' = ro_payload ops r"
    and revert_law: "ro_state ops (ro_revert ops err t r) = read_back \<and>
      ro_payload ops (ro_revert ops err t r) = ro_payload ops r"
    and finish_law: "ro_state ops (ro_finish ops ans t r) = finished \<and>
      ro_payload ops (ro_finish ops ans t r) = ro_payload ops r"
    and store_unchanged: "ro_store ops r r' r = r'"
    and store_state: "ro_state ops (ro_store ops r r' q) = flushed (ro_state ops r) (ro_state ops r') (ro_state ops q)"
    and store_payload: "ro_payload ops r' = ro_payload ops r \<Longrightarrow> ro_payload ops (ro_store ops r r' q) = ro_payload ops q"
begin

lemma states_ne:
  "read_back \<noteq> working" "read_back \<noteq> discarded" "read_back \<noteq> finished" "prepared \<noteq> read_back"
  "prepared \<noteq> working" "prepared \<noteq> discarded" "prepared \<noteq> finished"
  "working \<noteq> finished" "working \<noteq> discarded" "finished \<noteq> discarded"
  using states by auto

subsection \<open>Whatever overlaps\<close>

text \<open>
  What holds whatever overlaps: the word behind every request and call, and a count.  A row that is still open, a
  request past its claim and a success are one token each; only a stale write makes another.
\<close>

definition word_ok :: "'r \<Rightarrow> confirmation \<Rightarrow> bool" where
  "word_ok r c = (ro_state ops r = read_back \<and> owners_word (ro_session ops r) (ro_turn ops r) c)"

fun request_ok :: "'r phase \<Rightarrow> bool" where
  "request_ok (Gated r c) = word_ok r c"
| "request_ok (Claimed r c) = word_ok r c"
| "request_ok (Called r) = True"

definition busy_requests :: "('r, 'e, 'c) row_world \<Rightarrow> (nat \<times> 'r phase) list" where
  "busy_requests w = filter (\<lambda>q. busy (snd q)) (w_requests w)"

definition open_state :: "string \<Rightarrow> bool" where
  "open_state st = (st = prepared \<or> st = read_back)"

definition tokens :: "('r, 'e, 'c) row_world \<Rightarrow> nat" where
  "tokens w = length (busy_requests w) + w_succeeded w + (if open_state (ro_state ops (w_row w)) then 1 else 0)"

definition words_inv :: "('r, 'e, 'c) row_world \<Rightarrow> bool" where
  "words_inv w =
     (distinct (map fst (w_requests w)) \<and> (\<forall>q \<in> set (w_requests w). request_ok (snd q)) \<and>
      (\<forall>k \<in> set (w_calls w). word_ok (k_gate_row k) (k_confirmation k)) \<and> tokens w \<le> 1 + w_stale w)"

lemma words_invI:
  assumes "distinct (map fst (w_requests w))" "\<And>q. q \<in> set (w_requests w) \<Longrightarrow> request_ok (snd q)"
    "\<And>k. k \<in> set (w_calls w) \<Longrightarrow> word_ok (k_gate_row k) (k_confirmation k)" "tokens w \<le> 1 + w_stale w"
  shows "words_inv w"
  using assms unfolding words_inv_def by blast

lemma words_invD:
  assumes "words_inv w"
  shows "distinct (map fst (w_requests w))" "q \<in> set (w_requests w) \<Longrightarrow> request_ok (snd q)"
    "k \<in> set (w_calls w) \<Longrightarrow> word_ok (k_gate_row k) (k_confirmation k)" "tokens w \<le> 1 + w_stale w"
  using assms unfolding words_inv_def by blast+

lemma new_world_words: "words_inv (new_world r)"
  by (intro words_invI) (simp_all add: new_world_def busy_requests_def tokens_def)

lemma open_states [simp]:
  "open_state prepared" "open_state read_back" "\<not> open_state working" "\<not> open_state finished" "\<not> open_state discarded"
  using states by (auto simp: open_state_def)

text \<open>The request whose number is \<open>i\<close> leaves the busy ones, or joins them.\<close>

lemma busy_split:
  assumes "distinct (map fst xs)" and "(i, p) \<in> set xs"
  shows "length (filter (\<lambda>q. busy (snd q)) xs) =
    length (filter (\<lambda>q. busy (snd q)) (filter (\<lambda>q. fst q \<noteq> i) xs)) + (if busy p then 1 else 0)"
  using assms
proof (induction xs)
  case Nil
  then show ?case by simp
next
  case (Cons x xs)
  show ?case
  proof (cases "x = (i, p)")
    case True
    then have "filter (\<lambda>q. fst q \<noteq> i) xs = xs" using Cons.prems(1) by (force simp: filter_id_conv)
    then show ?thesis using True by simp
  next
    case False
    then have mem: "(i, p) \<in> set xs" using Cons.prems(2) by simp
    then have "i \<in> set (map fst xs)" by force
    then have "fst x \<noteq> i" using Cons.prems(1) by auto
    then show ?thesis using Cons.IH Cons.prems(1) mem by simp
  qed
qed

lemma busy_at:
  assumes "words_inv w" and "map_of (w_requests w) i = Some p"
  shows "length (busy_requests w) =
    length (filter (\<lambda>q. busy (snd q)) (filter (\<lambda>q. fst q \<noteq> i) (w_requests w))) + (if busy p then 1 else 0)"
  unfolding busy_requests_def by (rule busy_split [OF words_invD(1) [OF assms(1)] map_of_SomeD [OF assms(2)]])

lemma write_words:
  assumes inv: "words_inv w"
  shows "words_inv (row_step ops (Write i t) w)"
proof (cases "map_of (w_writers w) i")
  case None
  then show ?thesis using inv by simp
next
  case (Some p)
  obtain loaded task where p: "p = (loaded, task)" by (cases p) auto
  show ?thesis
  proof (cases "task_row ops task t loaded")
    case None
    then show ?thesis using Some p inv by (simp add: words_inv_def tokens_def busy_requests_def)
  next
    case object: (Some r)
    let ?row = "ro_store ops loaded r (w_row w)"
    have opens: "open_state (ro_state ops (w_row w)) \<or> (\<not> is_discard task \<and> w_row w \<noteq> loaded)"
      if new: "open_state (ro_state ops ?row)"
    proof (cases task)
      case Discard
      then show ?thesis
        using new object discard_law [of t loaded] by (auto simp: store_state flushed_def split: if_splits)
    next
      case (Edit e)
      then show ?thesis using object edit_law [of e t loaded r] by (auto simp: open_state_def)
    next
      case (Read_back a)
      then show ?thesis using object read_law [of a t loaded r] by (auto simp: open_state_def)
    qed
    show ?thesis
    proof (rule words_invI)
      show "tokens (row_step ops (Write i t) w) \<le> 1 + w_stale (row_step ops (Write i t) w)"
        using Some p object opens words_invD(4) [OF inv] by (auto simp: Let_def tokens_def busy_requests_def)
    qed (use Some p object words_invD [OF inv] in \<open>simp_all add: Let_def\<close>)
  qed
qed

lemma begin_words:
  assumes inv: "words_inv w"
  shows "words_inv (row_step ops (Begin i c host provider) w)"
proof (cases "i \<in> fst ` set (w_requests w) \<or> (\<exists>e. ro_gate ops (w_row w) (Some c) host provider = Inl e)")
  case True
  then show ?thesis using inv by auto
next
  case False
  then obtain u where gate: "ro_gate ops (w_row w) (Some c) host provider = Inr u"
    by (cases "ro_gate ops (w_row w) (Some c) host provider") auto
  have ok: "word_ok (w_row w) c" using gate_word [OF gate] by (simp add: word_ok_def)
  have fresh: "i \<notin> fst ` set (w_requests w)" using False by blast
  show ?thesis using gate fresh ok words_invD [OF inv]
    by (intro words_invI) (auto simp: busy_requests_def tokens_def)
qed

lemma claim_words:
  assumes inv: "words_inv w"
  shows "words_inv (row_step ops (Claim i t) w)"
proof (cases "\<exists>r c. map_of (w_requests w) i = Some (Gated r c)")
  case False
  then show ?thesis using inv by (auto split: option.splits phase.splits)
next
  case True
  then obtain r c where rc: "map_of (w_requests w) i = Some (Gated r c)" by blast
  then have ok: "word_ok r c" using words_invD(2) [OF inv map_of_SomeD [OF rc]] by simp
  have keys: "distinct (map fst (filter (\<lambda>q. fst q \<noteq> i) (w_requests w)))"
    by (rule distinct_map_filter [OF words_invD(1) [OF inv]])
  show ?thesis
  proof (cases "ro_claim ops c t (w_row w)")
    case None
    then show ?thesis using rc keys words_invD(2-4) [OF inv] busy_at [OF inv rc]
      by (intro words_invI) (simp_all add: tokens_def busy_requests_def)
  next
    case (Some row)
    then have states: "ro_state ops (w_row w) = read_back" "ro_state ops row = working"
      using claim_law [OF Some] by simp_all
    show ?thesis
    proof (rule words_invI)
      show "tokens (row_step ops (Claim i t) w) \<le> 1 + w_stale (row_step ops (Claim i t) w)"
        using rc Some states words_invD(4) [OF inv] busy_at [OF inv rc] by (simp add: tokens_def busy_requests_def)
    qed (use rc Some ok keys words_invD(2,3) [OF inv] in auto)
  qed
qed

lemma call_words:
  assumes inv: "words_inv w"
  shows "words_inv (row_step ops (Call_provider i) w)"
proof (cases "\<exists>r c. map_of (w_requests w) i = Some (Claimed r c)")
  case False
  then show ?thesis using inv by (auto split: option.splits phase.splits)
next
  case True
  then obtain r c where rc: "map_of (w_requests w) i = Some (Claimed r c)" by blast
  then have ok: "word_ok r c" using words_invD(2) [OF inv map_of_SomeD [OF rc]] by simp
  have keys: "distinct (map fst (filter (\<lambda>q. fst q \<noteq> i) (w_requests w)))"
    by (rule distinct_map_filter [OF words_invD(1) [OF inv]])
  show ?thesis using rc ok keys words_invD [OF inv] busy_at [OF inv rc]
    by (intro words_invI) (auto simp: tokens_def busy_requests_def)
qed

lemma end_words:
  assumes inv: "words_inv w" and called: "map_of (w_requests w) i = Some (Called r)"
  shows "words_inv (row_step ops (Succeed i ans t) w)" and "words_inv (row_step ops (Fail i err t) w)"
proof -
  have keys: "distinct (map fst (filter (\<lambda>q. fst q \<noteq> i) (w_requests w)))"
    by (rule distinct_map_filter [OF words_invD(1) [OF inv]])
  have "open_state (ro_state ops (ro_store ops r (ro_finish ops ans t r) (w_row w))) \<Longrightarrow>
      open_state (ro_state ops (w_row w))"
    using finish_law [of ans t r] by (auto simp: store_state flushed_def split: if_splits)
  then show "words_inv (row_step ops (Succeed i ans t) w)"
    using called keys words_invD [OF inv] busy_at [OF inv called]
    by (intro words_invI) (auto simp: tokens_def busy_requests_def)
  show "words_inv (row_step ops (Fail i err t) w)"
    using called keys words_invD [OF inv] busy_at [OF inv called]
    by (intro words_invI) (auto simp: tokens_def busy_requests_def)
qed

lemma step_words:
  assumes "words_inv w"
  shows "words_inv (row_step ops ev w)"
proof (cases ev)
  case (Load i t)
  then show ?thesis using assms by (simp add: words_inv_def tokens_def busy_requests_def)
next
  case (Succeed i ans t)
  then show ?thesis using assms end_words(1) [OF assms, of i]
    by (cases "\<exists>r. map_of (w_requests w) i = Some (Called r)") (auto split: option.split phase.split)
next
  case (Fail i err t)
  then show ?thesis using assms end_words(2) [OF assms, of i]
    by (cases "\<exists>r. map_of (w_requests w) i = Some (Called r)") (auto split: option.split phase.split)
qed (use assms write_words begin_words claim_words call_words in \<open>simp_all only:\<close>)

lemma run_words: "words_inv w \<Longrightarrow> words_inv (run_events ops es w)"
  unfolding run_events_def by (induction es arbitrary: w) (simp_all add: step_words)

subsection \<open>Where no write was stale\<close>

lemma stale_grows: "w_stale w \<le> w_stale (row_step ops ev w)"
  by (cases ev) (auto simp: Let_def split: option.split prod.split sum.split phase.split)

lemma run_stale_grows: "w_stale w \<le> w_stale (run_events ops es w)"
proof (induction es arbitrary: w)
  case Nil
  then show ?case by (simp add: run_events_def)
next
  case (Cons ev es)
  have "w_stale w \<le> w_stale (row_step ops ev w)" by (rule stale_grows)
  also have "\<dots> \<le> w_stale (run_events ops es (row_step ops ev w))" by (rule Cons.IH)
  finally show ?case by (simp add: run_events_def)
qed

definition was_read :: "(reading \<times> 'r) option \<Rightarrow> 'c \<Rightarrow> bool" where
  "was_read rd c = (\<exists>a r. rd = Some (a, r) \<and> ro_payload ops r = c)"

text \<open>The row of a request under way has been read back as it is, and is being worked on.\<close>

definition at_work :: "('r, 'e, 'c) row_world \<Rightarrow> bool" where
  "at_work w = ((ro_state ops (w_row w) = working \<or> ro_state ops (w_row w) = discarded) \<and>
     was_read (w_read w) (ro_payload ops (w_row w)))"

definition calm_inv :: "('r, 'e, 'c) row_world \<Rightarrow> bool" where
  "calm_inv w =
     ((busy_requests w \<noteq> [] \<longrightarrow> at_work w) \<and>
      (ro_state ops (w_row w) = read_back \<longrightarrow> was_read (w_read w) (ro_payload ops (w_row w))) \<and>
      (\<forall>k \<in> set (w_calls w). was_read (k_read k) (k_payload k)))"

lemma calm_invI:
  assumes "busy_requests w \<noteq> [] \<Longrightarrow> at_work w"
    "ro_state ops (w_row w) = read_back \<Longrightarrow> was_read (w_read w) (ro_payload ops (w_row w))"
    "\<And>k. k \<in> set (w_calls w) \<Longrightarrow> was_read (k_read k) (k_payload k)"
  shows "calm_inv w"
  using assms unfolding calm_inv_def by blast

lemma calm_invD:
  assumes "calm_inv w"
  shows "busy_requests w \<noteq> [] \<Longrightarrow> at_work w"
    "ro_state ops (w_row w) = read_back \<Longrightarrow> was_read (w_read w) (ro_payload ops (w_row w))"
    "k \<in> set (w_calls w) \<Longrightarrow> was_read (k_read k) (k_payload k)"
  using assms unfolding calm_inv_def by blast+

lemma new_world_calm: "ro_state ops r = prepared \<Longrightarrow> calm_inv (new_world r)"
  using states_ne by (intro calm_invI) (simp_all add: new_world_def busy_requests_def)

text \<open>While no write was stale, an open row has no request past its claim.\<close>

lemma idle_row:
  assumes "words_inv w" and "w_stale w = 0" and "open_state (ro_state ops (w_row w))"
  shows "busy_requests w = []"
  using words_invD(4) [OF assms(1)] assms(2,3) by (simp add: tokens_def)

lemma busy_row:
  assumes "words_inv w" "calm_inv w" "w_stale w = 0" and "map_of (w_requests w) i = Some p" "busy p"
  shows "at_work w" "filter (\<lambda>q. fst q \<noteq> i \<and> busy (snd q)) (w_requests w) = []"
proof -
  have mem: "(i, p) \<in> set (busy_requests w)"
    using map_of_SomeD [OF assms(4)] assms(5) by (simp add: busy_requests_def)
  then have "busy_requests w \<noteq> []" by auto
  then show "at_work w" by (rule calm_invD(1) [OF assms(2)])
  have "length (busy_requests w) \<le> 1" using words_invD(4) [OF assms(1)] assms(3) by (simp add: tokens_def)
  then have "busy_requests w = [(i, p)]" using mem by (cases "busy_requests w") auto
  then have "filter (\<lambda>q. fst q \<noteq> i) (busy_requests w) = []" by simp
  then show "filter (\<lambda>q. fst q \<noteq> i \<and> busy (snd q)) (w_requests w) = []"
    by (simp add: busy_requests_def conj_commute)
qed

lemma write_calm:
  assumes inv: "words_inv w" "calm_inv w" and calm: "w_stale (row_step ops (Write i t) w) = 0"
  shows "calm_inv (row_step ops (Write i t) w)"
proof (cases "map_of (w_writers w) i")
  case None
  then show ?thesis using inv by simp
next
  case (Some p)
  have still: "w_stale w = 0" using stale_grows [of w "Write i t"] calm by simp
  obtain loaded task where p: "p = (loaded, task)" by (cases p) auto
  show ?thesis
  proof (cases "task_row ops task t loaded")
    case None
    then show ?thesis using Some p inv by (simp add: calm_inv_def at_work_def busy_requests_def)
  next
    case object: (Some r)
    show ?thesis
    proof (cases task)
      case Discard
      then have "ro_state ops r = discarded" "ro_payload ops r = ro_payload ops loaded"
        using object discard_law [of t loaded] by auto
      then show ?thesis using Some p object Discard calm_invD [OF inv(2)] store_payload [of r loaded "w_row w"] states_ne
        by (intro calm_invI) (auto simp: Let_def store_state flushed_def at_work_def busy_requests_def split: if_splits)
    next
      case (Edit e)
      then have same: "w_row w = loaded" using calm Some p object by (auto simp: Let_def split: if_splits)
      have law: "open_state (ro_state ops loaded)" "ro_state ops r = prepared"
        using edit_law [of e t loaded r] object Edit by (auto simp: open_state_def)
      have "busy_requests w = []" using idle_row [OF inv(1) still] law(1) same by simp
      then show ?thesis using Some p object Edit same law states_ne calm_invD(3) [OF inv(2)]
        by (intro calm_invI) (auto simp: Let_def store_unchanged busy_requests_def)
    next
      case (Read_back a)
      then have same: "w_row w = loaded" using calm Some p object by (auto simp: Let_def split: if_splits)
      have law: "open_state (ro_state ops loaded)"
        using read_law [of a t loaded r] object Read_back by (auto simp: open_state_def)
      have "busy_requests w = []" using idle_row [OF inv(1) still] law same by simp
      then show ?thesis using Some p object Read_back same calm_invD(3) [OF inv(2)]
        by (intro calm_invI) (auto simp: Let_def store_unchanged busy_requests_def was_read_def)
    qed
  qed
qed

lemma begin_calm: "calm_inv w \<Longrightarrow> calm_inv (row_step ops (Begin i c host provider) w)"
  by (auto simp: calm_inv_def at_work_def busy_requests_def split: sum.split)

lemma claim_calm:
  assumes inv: "words_inv w" "calm_inv w" and still: "w_stale w = 0"
  shows "calm_inv (row_step ops (Claim i t) w)"
proof (cases "\<exists>r c. map_of (w_requests w) i = Some (Gated r c)")
  case False
  then show ?thesis using inv by (auto split: option.splits phase.splits)
next
  case True
  then obtain r c where rc: "map_of (w_requests w) i = Some (Gated r c)" by blast
  show ?thesis
  proof (cases "ro_claim ops c t (w_row w)")
    case None
    have "filter (\<lambda>q. fst q \<noteq> i \<and> busy (snd q)) (w_requests w) \<noteq> [] \<Longrightarrow> busy_requests w \<noteq> []"
      by (auto simp: busy_requests_def filter_empty_conv)
    then show ?thesis using rc None calm_invD [OF inv(2)]
      by (intro calm_invI) (auto simp: busy_requests_def [of "w_requests_update f w" for f] at_work_def)
  next
    case (Some row)
    note law = claim_law [OF Some]
    then have "was_read (w_read w) (ro_payload ops row)" using calm_invD(2) [OF inv(2)] by simp
    then show ?thesis using rc Some law states_ne calm_invD(3) [OF inv(2)]
      by (intro calm_invI) (auto simp: at_work_def)
  qed
qed

lemma call_calm:
  assumes inv: "words_inv w" "calm_inv w" and still: "w_stale w = 0"
  shows "calm_inv (row_step ops (Call_provider i) w)"
proof (cases "\<exists>r c. map_of (w_requests w) i = Some (Claimed r c)")
  case False
  then show ?thesis using inv by (auto split: option.splits phase.splits)
next
  case True
  then obtain r c where rc: "map_of (w_requests w) i = Some (Claimed r c)" by blast
  have "at_work w" using busy_row(1) [OF inv still rc] by simp
  then show ?thesis using rc states_ne calm_invD(3) [OF inv(2)]
    by (intro calm_invI) (auto simp: at_work_def)
qed

lemma end_calm:
  assumes inv: "words_inv w" "calm_inv w" and still: "w_stale w = 0"
    and called: "map_of (w_requests w) i = Some (Called r)"
  shows "calm_inv (row_step ops (Succeed i ans t) w)" and "calm_inv (row_step ops (Fail i err t) w)"
proof -
  have work: "at_work w" "filter (\<lambda>q. fst q \<noteq> i \<and> busy (snd q)) (w_requests w) = []"
    using busy_row [OF inv still called] by simp_all
  show "calm_inv (row_step ops (Succeed i ans t) w)"
    using called work finish_law [of ans t r] states_ne calm_invD(3) [OF inv(2)]
    by (intro calm_invI) (auto simp: busy_requests_def at_work_def store_state flushed_def split: if_splits)
  show "calm_inv (row_step ops (Fail i err t) w)"
    using called work revert_law [of err t "w_row w"] calm_invD(3) [OF inv(2)]
    by (intro calm_invI) (auto simp: busy_requests_def at_work_def)
qed

lemma step_calm:
  assumes inv: "words_inv w" "calm_inv w" and calm: "w_stale (row_step ops ev w) = 0"
  shows "calm_inv (row_step ops ev w)"
proof -
  have still: "w_stale w = 0" using stale_grows [of w ev] calm by simp
  show ?thesis
  proof (cases ev)
    case (Load i t)
    then show ?thesis using inv by (simp add: calm_inv_def at_work_def busy_requests_def)
  next
    case (Write i t)
    then show ?thesis using write_calm [OF inv] calm by simp
  next
    case (Begin i c host provider)
    then show ?thesis using begin_calm [OF inv(2)] by simp
  next
    case (Claim i t)
    then show ?thesis using claim_calm [OF inv still] by simp
  next
    case (Call_provider i)
    then show ?thesis using call_calm [OF inv still] by simp
  next
    case (Succeed i ans t)
    then show ?thesis using inv end_calm(1) [OF inv still, of i]
      by (cases "\<exists>r. map_of (w_requests w) i = Some (Called r)") (auto split: option.split phase.split)
  next
    case (Fail i err t)
    then show ?thesis using inv end_calm(2) [OF inv still, of i]
      by (cases "\<exists>r. map_of (w_requests w) i = Some (Called r)") (auto split: option.split phase.split)
  qed
qed

lemma run_calm:
  assumes "words_inv w" "calm_inv w" "w_stale (run_events ops es w) = 0"
  shows "calm_inv (run_events ops es w)"
  using assms
proof (induction es arbitrary: w)
  case Nil
  then show ?case by (simp add: run_events_def)
next
  case (Cons ev es)
  have calm: "w_stale (run_events ops es (row_step ops ev w)) = 0" using Cons.prems(3) by (simp add: run_events_def)
  then have "w_stale (row_step ops ev w) = 0" using run_stale_grows [of "row_step ops ev w" es] by simp
  then have "calm_inv (run_events ops es (row_step ops ev w))"
    using Cons.IH step_words step_calm Cons.prems(1,2) calm by blast
  then show ?case by (simp add: run_events_def)
qed

subsection \<open>What follows\<close>

lemma calls_worded:
  assumes "k \<in> set (w_calls (run_events ops es (new_world r)))"
  shows "word_ok (k_gate_row k) (k_confirmation k)"
  by (rule words_invD(3) [OF run_words [OF new_world_words] assms])

text \<open>Where no write was stale, nothing is called outside that was not read back as it stands.\<close>

lemma calls_read:
  assumes "ro_state ops r = prepared" "w_stale (run_events ops es (new_world r)) = 0"
    and "k \<in> set (w_calls (run_events ops es (new_world r)))"
  shows "was_read (k_read k) (k_payload k)"
  by (rule calm_invD(3) [OF run_calm [OF new_world_words new_world_calm [OF assms(1)] assms(2)] assms(3)])

text \<open>Each success beyond the first, and each confirmation at work beside it, is paid for by a stale write.\<close>

lemma successes_counted:
  "length (filter (\<lambda>q. busy (snd q)) (w_requests (run_events ops es (new_world r)))) +
     w_succeeded (run_events ops es (new_world r)) \<le> 1 + w_stale (run_events ops es (new_world r))"
  using words_invD(4) [OF run_words [OF new_world_words, of es r]] by (simp add: tokens_def busy_requests_def)

lemma no_call_after_success:
  assumes "words_inv w" "w_stale w = 0" and "w_succeeded w \<noteq> 0"
  shows "w_calls (row_step ops ev w) = w_calls w"
proof -
  have "busy_requests w = []"
    using words_invD(4) [OF assms(1)] assms(2,3) by (cases "busy_requests w") (simp_all add: tokens_def)
  then have "map_of (w_requests w) i \<noteq> Some (Claimed r c)" for i r c
    using map_of_SomeD [of "w_requests w" i "Claimed r c"] by (force simp: busy_requests_def filter_empty_conv)
  then show ?thesis by (cases ev) (auto simp: Let_def split: option.splits phase.splits sum.splits prod.splits)
qed

lemma step_keeps_success: "w_succeeded w \<noteq> 0 \<Longrightarrow> w_succeeded (row_step ops ev w) \<noteq> 0"
  by (cases ev) (auto simp: Let_def split: option.splits phase.splits sum.splits prod.splits)

lemma calls_final:
  assumes "words_inv w" "w_stale (run_events ops es w) = 0" and "w_succeeded w \<noteq> 0"
  shows "w_calls (run_events ops es w) = w_calls w"
  using assms
proof (induction es arbitrary: w)
  case Nil
  then show ?case by (simp add: run_events_def)
next
  case (Cons ev es)
  have calm: "w_stale (run_events ops es (row_step ops ev w)) = 0" using Cons.prems(2) by (simp add: run_events_def)
  then have "w_stale w = 0"
    using stale_grows [of w ev] run_stale_grows [of "row_step ops ev w" es] by simp
  then show ?case
    using Cons.IH [OF step_words [OF Cons.prems(1)] calm step_keeps_success [OF Cons.prems(3)]]
      no_call_after_success [OF Cons.prems(1) _ Cons.prems(3)] by (simp add: run_events_def)
qed

lemma no_call_once_done:
  assumes "w_succeeded (run_events ops es (new_world r)) \<noteq> 0" "w_stale (run_events ops (es @ fs) (new_world r)) = 0"
  shows "w_calls (run_events ops (es @ fs) (new_world r)) = w_calls (run_events ops es (new_world r))"
  using calls_final [OF run_words [OF new_world_words] _ assms(1), of fs] assms(2) by (simp add: run_events_def)

end

end
