(* ===== verification/Object_Focus.thy ===== *)
theory Object_Focus imports Prelude "HOL-Library.Word" begin

text \<open>
  The owner's focus: \<open>ids.py\<close> (\<open>focus_row_id\<close>, a time-ordered UUIDv7) and \<open>operator/focus.py\<close>
  (\<open>set_focus\<close>, \<open>current\<close>, \<open>previous\<close>, \<open>stack\<close>).

  \<open>id_clock\<close> is the module state \<open>(_focus_id_last_ms, _focus_id_counter)\<close>; the millisecond clock and
  the 62 random bits of a call are arguments.  \<open>focus_clock\<close> is \<open>_focus_last_selected_at\<close>.  The table
  \<open>object_focus\<close> is the list of its rows; \<open>focus_stack_rows\<close> is the query
  \<open>ORDER BY selected_at DESC, id DESC LIMIT 120\<close> of one kind.
\<close>

unbundle bit_operations_syntax

section \<open>Time-ordered row ids\<close>

record id_clock =
  ic_last_ms :: int
  ic_counter :: int

definition tick_id :: "int \<Rightarrow> id_clock \<Rightarrow> id_clock" where
  "tick_id ms k =
     (if ms \<le> ic_last_ms k
      then (let c = ic_counter k + 1 in
            if c > 0xFFF then \<lparr>ic_last_ms = ic_last_ms k + 1, ic_counter = 0\<rparr>
            else \<lparr>ic_last_ms = ic_last_ms k, ic_counter = c\<rparr>)
      else \<lparr>ic_last_ms = ms, ic_counter = 0\<rparr>)"

definition id_value :: "int \<Rightarrow> int \<Rightarrow> int \<Rightarrow> int" where
  "id_value ms counter rand_b =
     push_bit 80 (ms AND (push_bit 48 1 - 1)) OR push_bit 76 7 OR push_bit 64 counter OR
     push_bit 62 2 OR rand_b"

definition focus_row_id :: "int \<Rightarrow> int \<Rightarrow> id_clock \<Rightarrow> int \<times> id_clock" where
  "focus_row_id ms random k =
     (let k' = tick_id ms k
      in (id_value (ic_last_ms k') (ic_counter k') (random AND (push_bit 62 1 - 1)), k'))"

text \<open>The ids of a run of calls, each with the clock it reads and its random bits.\<close>

fun focus_row_ids :: "(int \<times> int) list \<Rightarrow> id_clock \<Rightarrow> int list" where
  "focus_row_ids [] k = []"
| "focus_row_ids ((ms, random) # rest) k =
     (let (i, k') = focus_row_id ms random k in i # focus_row_ids rest k')"

section \<open>The focus table\<close>

definition focus_stack_limit :: nat where "focus_stack_limit = 20"
definition scan_rows :: nat where "scan_rows = focus_stack_limit * 6"

definition focus_kinds :: "string list" where
  "focus_kinds = [''window'', ''app'', ''file'', ''document'', ''folder'', ''message'', ''thread'',
     ''draft'', ''event'', ''proposal'', ''artifact'', ''project'', ''scene'', ''creative'', ''memory'']"

record focus_row =
  fr_id :: int
  fr_kind :: string
  fr_object :: string
  fr_label :: string
  fr_source :: string
  fr_selected_at :: instant

definition next_default_selected_at :: "instant \<Rightarrow> instant option \<Rightarrow> instant \<times> instant option" where
  "next_default_selected_at now prev =
     (let now = (case prev of None \<Rightarrow> now | Some l \<Rightarrow> if now \<le> l then l + 1 else now)
      in (now, Some now))"

text \<open>\<open>None\<close> is \<open>UnknownFocusKind\<close>.  \<open>at\<close> is \<open>now or _next_default_selected_at()\<close>.\<close>

definition set_focus ::
    "string \<Rightarrow> string \<Rightarrow> string \<Rightarrow> string \<Rightarrow> int \<Rightarrow> instant \<Rightarrow> focus_row list \<Rightarrow> focus_row list option" where
  "set_focus kind object_id label source new_id at rows =
     (if kind \<notin> set focus_kinds then None
      else Some (rows @ [\<lparr>fr_id = new_id, fr_kind = kind, fr_object = take 200 object_id,
              fr_label = take 200 label, fr_source = take 32 source, fr_selected_at = at\<rparr>]))"

definition focus_stack_rows :: "string \<Rightarrow> focus_row list \<Rightarrow> focus_row list" where
  "focus_stack_rows kind rows =
     take scan_rows
       (rev (sort_key fr_selected_at (sort_key fr_id (filter (\<lambda>r. fr_kind r = kind) rows))))"

text \<open>The loop of \<open>_distinct\<close>: \<open>seen\<close>, and the rows kept so far in reverse.\<close>

fun distinct_loop :: "string list \<Rightarrow> focus_row list \<Rightarrow> focus_row list \<Rightarrow> focus_row list" where
  "distinct_loop seen out [] = rev out"
| "distinct_loop seen out (r # rs) =
     (if fr_object r \<in> set seen then distinct_loop seen out rs
      else if length (r # out) \<ge> focus_stack_limit then rev (r # out)
      else distinct_loop (fr_object r # seen) (r # out) rs)"

definition distinct_rows :: "focus_row list \<Rightarrow> focus_row list" where
  "distinct_rows rows = distinct_loop [] [] rows"

definition focus_stack :: "string \<Rightarrow> focus_row list \<Rightarrow> focus_row list" where
  "focus_stack kind rows = distinct_rows (focus_stack_rows kind rows)"

definition focus_current :: "string \<Rightarrow> focus_row list \<Rightarrow> focus_row option" where
  "focus_current kind rows = (case focus_stack kind rows of [] \<Rightarrow> None | r # _ \<Rightarrow> Some r)"

definition focus_previous :: "string \<Rightarrow> focus_row list \<Rightarrow> focus_row option" where
  "focus_previous kind rows = (case focus_stack kind rows of _ # r # _ \<Rightarrow> Some r | _ \<Rightarrow> None)"

section \<open>Ids\<close>

lemma or_is_add: "0 \<le> b \<Longrightarrow> b < 2 ^ n \<Longrightarrow> push_bit n a OR b = push_bit n a + (b :: int)"
proof -
  assume "0 \<le> b" "b < 2 ^ n"
  then have b: "take_bit n b = b" by (simp add: take_bit_int_eq_self)
  have "push_bit n a AND take_bit n b = 0" by (auto simp: bit_eq_iff bit_simps)
  then have "push_bit n a AND b = 0" by (simp only: b)
  then show ?thesis by (simp add: disjunctive_add_eq_or)
qed

lemma id_value_sum:
  assumes "0 \<le> counter" "counter \<le> 0xFFF" "0 \<le> r" "r < 2 ^ 62"
  shows "id_value ms counter r = (ms mod 2 ^ 48) * 2 ^ 80 + 7 * 2 ^ 76 + counter * 2 ^ 64 + 2 * 2 ^ 62 + r"
proof -
  have e: "(push_bit 62 2 OR r) = 2 * 2 ^ 62 + r"
    using assms or_is_add [of r 62 2] by (simp add: push_bit_eq_mult)
  have d: "push_bit 64 counter OR (2 * 2 ^ 62 + r) = counter * 2 ^ 64 + (2 * 2 ^ 62 + r)"
    using assms or_is_add [of "2 * 2 ^ 62 + r" 64 counter] by (simp add: push_bit_eq_mult)
  have c: "push_bit 76 7 OR (counter * 2 ^ 64 + (2 * 2 ^ 62 + r)) = 7 * 2 ^ 76 + (counter * 2 ^ 64 + (2 * 2 ^ 62 + r))"
    using assms or_is_add [of "counter * 2 ^ 64 + (2 * 2 ^ 62 + r)" 76 7] by (simp add: push_bit_eq_mult)
  have m: "ms AND (push_bit 48 1 - 1) = ms mod 2 ^ 48"
    using take_bit_eq_mask [of 48 ms] by (simp add: push_bit_eq_mult take_bit_eq_mod mask_eq_exp_minus_1)
  have "push_bit 80 (ms mod 2 ^ 48) OR (7 * 2 ^ 76 + (counter * 2 ^ 64 + (2 * 2 ^ 62 + r))) =
      (ms mod 2 ^ 48) * 2 ^ 80 + (7 * 2 ^ 76 + (counter * 2 ^ 64 + (2 * 2 ^ 62 + r)))"
    using assms or_is_add [of "7 * 2 ^ 76 + (counter * 2 ^ 64 + (2 * 2 ^ 62 + r))" 80 "ms mod 2 ^ 48"]
    by (simp add: push_bit_eq_mult)
  then show ?thesis unfolding id_value_def m by (simp only: or.assoc e d c add.assoc)
qed

text \<open>\<open>above k\<close> is the least value no id made so far reaches.\<close>

definition id_clock_ok :: "id_clock \<Rightarrow> bool" where
  "id_clock_ok k = (0 \<le> ic_last_ms k \<and> 0 \<le> ic_counter k \<and> ic_counter k \<le> 0xFFF)"

definition above :: "id_clock \<Rightarrow> int" where
  "above k = ic_last_ms k * 2 ^ 80 + 7 * 2 ^ 76 + (ic_counter k + 1) * 2 ^ 64"

lemma tick_id_ok: "id_clock_ok k \<Longrightarrow> id_clock_ok (tick_id ms k)"
  by (auto simp: id_clock_ok_def tick_id_def Let_def)

lemma tick_id_bound:
  "ms \<le> n \<Longrightarrow> ic_last_ms k \<le> n \<Longrightarrow> ic_last_ms (tick_id ms k) \<le> n + 1"
  by (auto simp: tick_id_def Let_def)

lemma random_bits: "0 \<le> random AND (push_bit 62 1 - 1 :: int)" "random AND (push_bit 62 1 - 1 :: int) < 2 ^ 62"
proof -
  have "random AND (push_bit 62 1 - 1 :: int) = random mod 2 ^ 62"
    using take_bit_eq_mask [of 62 random] by (simp add: push_bit_eq_mult take_bit_eq_mod mask_eq_exp_minus_1)
  then show "0 \<le> random AND (push_bit 62 1 - 1 :: int)" "random AND (push_bit 62 1 - 1 :: int) < 2 ^ 62"
    by simp_all
qed

lemma tick_value_between:
  assumes "id_clock_ok k" and "0 \<le> (r :: int)" and "r < 2 ^ 62"
  shows "above k \<le> ic_last_ms (tick_id ms k) * 2 ^ 80 + 7 * 2 ^ 76 + ic_counter (tick_id ms k) * 2 ^ 64 +
      2 * 2 ^ 62 + r"
proof (cases "ms \<le> ic_last_ms k")
  case True
  then show ?thesis using assms by (auto simp: above_def tick_id_def id_clock_ok_def Let_def)
next
  case False
  then have "ic_last_ms k + 1 \<le> ms" by simp
  then have "(ic_last_ms k + 1) * 2 ^ 80 \<le> ms * 2 ^ 80" by (rule mult_right_mono) simp
  then show ?thesis using False assms by (simp add: above_def tick_id_def id_clock_ok_def)
qed

lemma focus_row_id_between:
  assumes ok: "id_clock_ok k" and bound: "ic_last_ms (tick_id ms k) < 2 ^ 48"
  shows "above k \<le> fst (focus_row_id ms random k)"
    and "fst (focus_row_id ms random k) < above (tick_id ms k)"
    and "fst (focus_row_id ms random k) < 2 ^ 128"
proof -
  let ?k = "tick_id ms k"
  obtain r where r: "r = random AND (push_bit 62 1 - 1)" and r_range: "0 \<le> r" "r < 2 ^ 62"
    using random_bits [of random] by blast
  have ok': "id_clock_ok ?k" by (rule tick_id_ok [OF ok])
  then have small: "ic_last_ms ?k mod 2 ^ 48 = ic_last_ms ?k"
    using bound by (simp add: id_clock_ok_def)
  have val: "fst (focus_row_id ms random k) =
      ic_last_ms ?k * 2 ^ 80 + 7 * 2 ^ 76 + ic_counter ?k * 2 ^ 64 + 2 * 2 ^ 62 + r"
    using id_value_sum [of "ic_counter ?k" r "ic_last_ms ?k"] ok' r_range small
    by (simp only: focus_row_id_def id_clock_ok_def Let_def fst_conv r [symmetric])
  show "above k \<le> fst (focus_row_id ms random k)"
    unfolding val by (rule tick_value_between [OF ok r_range])
  show "fst (focus_row_id ms random k) < above ?k" "fst (focus_row_id ms random k) < 2 ^ 128"
    using ok' bound r_range unfolding val by (auto simp: above_def id_clock_ok_def)
qed

lemma focus_row_ids_above:
  assumes "id_clock_ok k" "ic_last_ms k \<le> n" "\<forall>c \<in> set calls. fst c \<le> n" "n + int (length calls) < 2 ^ 48"
  shows "(\<forall>i \<in> set (focus_row_ids calls k). above k \<le> i \<and> i < 2 ^ 128) \<and>
    sorted_wrt (<) (focus_row_ids calls k)"
  using assms
proof (induction calls arbitrary: k n)
  case Nil
  then show ?case by simp
next
  case (Cons c calls)
  obtain ms random where c: "c = (ms, random)" by (cases c)
  let ?k = "tick_id ms k"
  have bound: "ic_last_ms ?k \<le> n + 1" using Cons.prems c by (intro tick_id_bound) auto
  have id: "above k \<le> fst (focus_row_id ms random k)" "fst (focus_row_id ms random k) < above ?k"
    "fst (focus_row_id ms random k) < 2 ^ 128"
    using focus_row_id_between [OF Cons.prems(1), of ms random] bound Cons.prems(4) by auto
  have "\<forall>c \<in> set calls. fst c \<le> n + 1" using Cons.prems(3) by auto
  then have IH: "(\<forall>i \<in> set (focus_row_ids calls ?k). above ?k \<le> i \<and> i < 2 ^ 128) \<and>
      sorted_wrt (<) (focus_row_ids calls ?k)"
    using Cons.prems bound by (intro Cons.IH [of ?k "n + 1"] tick_id_ok) auto
  have step: "focus_row_ids (c # calls) k = fst (focus_row_id ms random k) # focus_row_ids calls ?k"
    by (simp add: c focus_row_id_def Let_def)
  show ?case unfolding step using IH id by fastforce
qed

section \<open>The stack\<close>

lemma sort_key_snoc:
  "\<forall>y \<in> set xs. f y \<le> f x \<Longrightarrow> sort_key f (xs @ [x]) = sort_key f xs @ [x]"
proof (induction xs)
  case Nil
  then show ?case by simp
next
  case (Cons a xs)
  have "insort_key f a (ys @ [x]) = insort_key f a ys @ [x]" for ys
    using Cons.prems by (induction ys) auto
  then show ?case using Cons by simp
qed

lemma distinct_loop_spec:
  assumes "set seen = fr_object ` set out" "distinct (map fr_object out)" "length out < focus_stack_limit"
  shows "distinct (map fr_object (distinct_loop seen out rs)) \<and>
    length (distinct_loop seen out rs) \<le> focus_stack_limit \<and>
    set (distinct_loop seen out rs) \<subseteq> set out \<union> set rs \<and>
    (\<exists>more. distinct_loop seen out rs = rev out @ more)"
  using assms
proof (induction seen out rs rule: distinct_loop.induct)
  case (1 seen out)
  then show ?case by (simp add: rev_map [symmetric])
next
  case (2 seen out r rs)
  consider "fr_object r \<in> set seen" | "fr_object r \<notin> set seen" "length (r # out) \<ge> focus_stack_limit"
    | "fr_object r \<notin> set seen" "\<not> length (r # out) \<ge> focus_stack_limit" by blast
  then show ?case
  proof cases
    case 1
    then show ?thesis using 2 by auto
  next
    case 2
    then show ?thesis using "2.prems" by (auto simp: rev_map [symmetric])
  next
    case 3
    have "distinct (map fr_object (distinct_loop (fr_object r # seen) (r # out) rs)) \<and>
        length (distinct_loop (fr_object r # seen) (r # out) rs) \<le> focus_stack_limit \<and>
        set (distinct_loop (fr_object r # seen) (r # out) rs) \<subseteq> set (r # out) \<union> set rs \<and>
        (\<exists>more. distinct_loop (fr_object r # seen) (r # out) rs = rev (r # out) @ more)"
      using 3 "2.prems" by (intro "2.IH"(2)) auto
    then show ?thesis using 3 by auto
  qed
qed

lemma focus_stack_spec:
  "distinct (map fr_object (focus_stack kind rows)) \<and> length (focus_stack kind rows) \<le> focus_stack_limit \<and>
   set (focus_stack kind rows) \<subseteq> set rows"
proof -
  have "set (focus_stack_rows kind rows) \<subseteq> set rows"
    unfolding focus_stack_rows_def using set_take_subset by fastforce
  then show ?thesis
    using distinct_loop_spec [of "[]" "[]" "focus_stack_rows kind rows"]
    by (auto simp: focus_stack_def distinct_rows_def focus_stack_limit_def)
qed

lemma distinct_rows_head: "\<exists>more. distinct_rows (r # rs) = r # more"
proof -
  have "\<exists>more. distinct_loop [fr_object r] [r] rs = rev [r] @ more"
    by (rule conjunct2 [OF conjunct2 [OF conjunct2 [OF distinct_loop_spec]]])
      (simp_all add: focus_stack_limit_def)
  then show ?thesis by (simp add: distinct_rows_def focus_stack_limit_def)
qed

lemma distinct_rows_second:
  assumes "fr_object s \<noteq> fr_object r"
  shows "\<exists>more. distinct_rows (r # s # rs) = r # s # more"
proof -
  have "\<exists>more. distinct_loop [fr_object s, fr_object r] [s, r] rs = rev [s, r] @ more"
    by (rule conjunct2 [OF conjunct2 [OF conjunct2 [OF distinct_loop_spec]]])
      (use assms in \<open>simp_all add: focus_stack_limit_def\<close>)
  then show ?thesis using assms by (simp add: distinct_rows_def focus_stack_limit_def)
qed

lemma focus_current_eq: "focus_current kind rows = (case focus_stack_rows kind rows of [] \<Rightarrow> None | r # _ \<Rightarrow> Some r)"
proof (cases "focus_stack_rows kind rows")
  case Nil
  then show ?thesis by (simp add: focus_current_def focus_stack_def distinct_rows_def)
next
  case (Cons r rs)
  then show ?thesis using distinct_rows_head [of r rs]
    by (auto simp: focus_current_def focus_stack_def)
qed

lemma stack_rows_snoc:
  assumes "fr_kind r = kind"
    and "\<forall>q \<in> set rows. fr_kind q = kind \<longrightarrow> fr_selected_at q \<le> fr_selected_at r \<and> fr_id q \<le> fr_id r"
  shows "focus_stack_rows kind (rows @ [r]) = r # take (scan_rows - 1) (focus_stack_rows kind rows)"
proof -
  let ?old = "filter (\<lambda>q. fr_kind q = kind) rows"
  have "sort_key fr_id (?old @ [r]) = sort_key fr_id ?old @ [r]"
    using assms(2) by (intro sort_key_snoc) auto
  moreover have "sort_key fr_selected_at (sort_key fr_id ?old @ [r]) =
      sort_key fr_selected_at (sort_key fr_id ?old) @ [r]"
    using assms(2) by (intro sort_key_snoc) auto
  ultimately show ?thesis using assms(1)
    by (simp add: focus_stack_rows_def scan_rows_def focus_stack_limit_def)
qed

text \<open>
  What the owner's pointing means: the object that was focused last is the current one, and,
  when it is another object than the one that was current, that one is now the previous one, so
  that "the previous one" reads back exactly one step.  The row's instant and id must not lie before those of the
  rows of its kind, which the strictly increasing default clock and the time-ordered ids give.
\<close>

theorem focus_follows_the_owner:
  assumes set: "set_focus kind obj label source i at rows = Some rows'"
    and latest: "\<forall>q \<in> set rows. fr_kind q = kind \<longrightarrow> fr_selected_at q \<le> at \<and> fr_id q \<le> i"
  shows "map_option fr_object (focus_current kind rows') = Some (take 200 obj) \<and>
    (\<forall>c. focus_current kind rows = Some c \<longrightarrow> fr_object c \<noteq> take 200 obj \<longrightarrow>
       focus_previous kind rows' = Some c)"
proof -
  obtain r where r: "rows' = rows @ [r]" "fr_kind r = kind" "fr_object r = take 200 obj"
      "fr_selected_at r = at" "fr_id r = i"
    using set by (auto simp: set_focus_def split: if_splits)
  let ?old = "take (scan_rows - 1) (focus_stack_rows kind rows)"
  have stack: "focus_stack_rows kind rows' = r # ?old"
    unfolding r(1) using latest r by (intro stack_rows_snoc) auto
  have "focus_previous kind rows' = Some c"
    if "focus_current kind rows = Some c" "fr_object c \<noteq> take 200 obj" for c
  proof -
    have "\<exists>cs. focus_stack_rows kind rows = c # cs" using that(1)
      by (simp add: focus_current_eq split: list.splits)
    then obtain rs where "?old = c # rs"
      by (auto simp add: scan_rows_def focus_stack_limit_def take_Cons' del: take_Suc_Cons)
    then show ?thesis using distinct_rows_second [of c r rs] that(2) stack r(3)
      by (auto simp: focus_previous_def focus_stack_def)
  qed
  then show ?thesis using stack r(3) by (simp add: focus_current_eq)
qed

lemma focus_follows_the_owner_witness:
  "\<exists>rows'. set_focus ''draft'' ''d2'' [] [] 9 7 [\<lparr>fr_id = 8, fr_kind = ''draft'', fr_object = ''d1'',
       fr_label = [], fr_source = [], fr_selected_at = 7\<rparr>] = Some rows' \<and>
     map_option fr_object (focus_current ''draft'' rows') = Some ''d2''"
proof -
  let ?rows = "[\<lparr>fr_id = 8, fr_kind = ''draft'', fr_object = ''d1'', fr_label = [], fr_source = [],
    fr_selected_at = 7\<rparr>]"
  obtain rows' where set: "set_focus ''draft'' ''d2'' [] [] 9 7 ?rows = Some rows'"
    by (simp add: set_focus_def focus_kinds_def)
  then show ?thesis
    using focus_follows_the_owner [of "''draft''" "''d2''" "[]" "[]" 9 7 ?rows rows'] by simp
qed

text \<open>
  Ids never collide and sort in the order they were made: whatever the wall clock reads, forward,
  stuck or stepping back, and whatever the random bits, the ids of any run of calls within the 48 bits of
  milliseconds increase strictly, and each is a value \<open>uuid.UUID\<close> accepts.
\<close>

theorem focus_ids_increase:
  assumes "id_clock_ok k" and "ic_last_ms k \<le> n" and "\<forall>c \<in> set calls. fst c \<le> n"
    and "n + int (length calls) < 2 ^ 48"
  shows "sorted_wrt (<) (focus_row_ids calls k) \<and> (\<forall>i \<in> set (focus_row_ids calls k). 0 \<le> i \<and> i < 2 ^ 128)"
proof -
  have "0 \<le> above k" using assms(1) by (simp add: above_def id_clock_ok_def)
  then show ?thesis using focus_row_ids_above [OF assms] by fastforce
qed

lemma focus_ids_increase_witness:
  "sorted_wrt (<) (focus_row_ids [(5, 1), (3, 0), (5, 9)] \<lparr>ic_last_ms = 0, ic_counter = 0\<rparr>)"
  using focus_ids_increase [of "\<lparr>ic_last_ms = 0, ic_counter = 0\<rparr>" 5 "[(5, 1), (3, 0), (5, 9)]"]
  by (simp add: id_clock_ok_def)

text \<open>The default clock hands out no instant twice.\<close>

lemma default_clock_increases:
  "next_default_selected_at now prev = (at, prev') \<Longrightarrow> prev' = Some at \<and> now \<le> at \<and> (\<forall>l. prev = Some l \<longrightarrow> l < at)"
  by (auto simp: next_default_selected_at_def Let_def split: option.splits if_splits)

text \<open>
  Only the latest 120 rows of a kind are scanned: one object focused 120 times in a row hides every
  older one from the stack.
\<close>

lemma distinct_loop_seen: "\<forall>r \<in> set rs. fr_object r \<in> set seen \<Longrightarrow> distinct_loop seen out rs = rev out"
  by (induction rs) auto

lemma repeats_hide_older:
  assumes "\<forall>r \<in> set (focus_stack_rows kind rows). fr_object r = obj"
  shows "focus_previous kind rows = None"
proof (cases "focus_stack_rows kind rows")
  case Nil
  then show ?thesis by (simp add: focus_previous_def focus_stack_def distinct_rows_def)
next
  case (Cons r rs)
  then have "distinct_loop [fr_object r] [r] rs = [r]"
    using assms by (subst distinct_loop_seen) auto
  then show ?thesis using Cons
    by (simp add: focus_previous_def focus_stack_def distinct_rows_def focus_stack_limit_def)
qed

end
