(* ===== verification/Mail_Draft.thy ===== *)
theory Mail_Draft imports Confirmation_Gate Object_Focus begin

text \<open>
  Mail drafts: \<open>mail/models.py\<close> (\<open>MailDraftRow\<close>), the drafting, reading, sending and discarding half of
  \<open>mail/service.py\<close> and the pending listing of \<open>mail/routes.py\<close>.

  \<open>mail_db\<close> holds the two tables these operations use: the drafts and the focus.  What lies outside
  is in \<open>mail_env\<close>: the router's test for secrets, the address test (\<open>email.utils.parseaddr\<close>), the
  provider with its optional multi-account methods, and the sender.  \<open>draft_ops\<close> is the draft's
  instance of the confirmed rows, \<open>send\<close> the whole of \<open>MailService.send\<close> without interruption.
\<close>

section \<open>The row\<close>

record mail_draft =
  md_id :: string
  md_kind :: string
  md_to :: "string list"
  md_cc :: "string list"
  md_subject :: string
  md_body :: string
  md_in_reply_to :: "string option"
  md_account_key :: "string option"
  md_state :: string
  md_read_back_at :: "instant option"
  md_read_back_session_id :: "string option"
  md_read_back_turn :: "int option"
  md_confirmed_at :: "instant option"
  md_confirmed_by :: "string option"
  md_last_error :: "string option"
  md_sent_message_id :: "string option"
  md_created_at :: instant
  md_updated_at :: instant

definition draft_prepared :: string where "draft_prepared = ''prepared''"
definition draft_read_back :: string where "draft_read_back = ''read_back''"
definition draft_sending :: string where "draft_sending = ''sending''"
definition draft_sent :: string where "draft_sent = ''sent''"
definition draft_discarded :: string where "draft_discarded = ''discarded''"

lemmas draft_states = draft_prepared_def draft_read_back_def draft_sending_def draft_sent_def draft_discarded_def

definition kind_reply :: string where "kind_reply = ''reply''"
definition kind_new :: string where "kind_new = ''new''"

definition new_draft ::
    "string \<Rightarrow> string \<Rightarrow> string \<Rightarrow> string \<Rightarrow> string \<Rightarrow> string option \<Rightarrow> string option \<Rightarrow> instant \<Rightarrow> mail_draft" where
  "new_draft new_id kind to subject body in_reply_to account now =
     \<lparr>md_id = new_id, md_kind = kind, md_to = [to], md_cc = [], md_subject = subject, md_body = body,
      md_in_reply_to = in_reply_to, md_account_key = account, md_state = draft_prepared,
      md_read_back_at = None, md_read_back_session_id = None, md_read_back_turn = None,
      md_confirmed_at = None, md_confirmed_by = None, md_last_error = None, md_sent_message_id = None,
      md_created_at = now, md_updated_at = now\<rparr>"

section \<open>Writing one row\<close>

record draft_edit =
  de_subject :: "string option"
  de_body :: "string option"
  de_to :: "string option"

definition draft_open :: "mail_draft \<Rightarrow> bool" where
  "draft_open r = (md_state r = draft_prepared \<or> md_state r = draft_read_back)"

definition edit_row :: "draft_edit \<Rightarrow> instant \<Rightarrow> mail_draft \<Rightarrow> mail_draft option" where
  "edit_row e now r =
     (if \<not> draft_open r then None
      else Some (r\<lparr>md_subject := (case de_subject e of None \<Rightarrow> md_subject r | Some s \<Rightarrow> s),
                   md_body := (case de_body e of None \<Rightarrow> md_body r | Some s \<Rightarrow> s),
                   md_to := (case de_to e of None \<Rightarrow> md_to r | Some s \<Rightarrow> [s]),
                   md_state := draft_prepared, md_read_back_at := None, md_read_back_session_id := None,
                   md_read_back_turn := None, md_updated_at := now\<rparr>))"

text \<open>\<open>read_draft\<close>, and the Cockpit's listing, which touches only rows still \<open>prepared\<close>.\<close>

fun read_row :: "reading \<Rightarrow> instant \<Rightarrow> mail_draft \<Rightarrow> mail_draft option" where
  "read_row (Spoken session turn) now r =
     (if \<not> draft_open r then None
      else Some (r\<lparr>md_state := draft_read_back, md_read_back_at := Some now,
                   md_read_back_session_id := session, md_read_back_turn := turn\<rparr>))"
| "read_row (Listed owner) now r =
     (if md_state r \<noteq> draft_prepared then None
      else Some (r\<lparr>md_state := draft_read_back, md_read_back_at := Some now,
                   md_read_back_session_id := Some (source_rest @ '':'' @ owner),
                   md_read_back_turn := None, md_updated_at := now\<rparr>))"

definition discard_row :: "instant \<Rightarrow> mail_draft \<Rightarrow> mail_draft" where
  "discard_row now r = r\<lparr>md_state := draft_discarded, md_updated_at := now\<rparr>"

definition draft_gate :: "mail_draft \<Rightarrow> confirmation option \<Rightarrow> bool \<Rightarrow> bool \<Rightarrow> gate_reason + unit" where
  "draft_gate r conf host provider =
     check_gate (md_state r) draft_prepared draft_read_back (md_read_back_at r)
       (md_read_back_session_id r) (md_read_back_turn r) conf host provider"

text \<open>The compare-and-swap: \<open>None\<close> is \<open>rowcount = 0\<close>.\<close>

definition claim_row :: "confirmation \<Rightarrow> instant \<Rightarrow> mail_draft \<Rightarrow> mail_draft option" where
  "claim_row c now r =
     (if md_state r = draft_read_back
      then Some (r\<lparr>md_state := draft_sending, md_confirmed_at := Some now,
                   md_confirmed_by := Some (confirmed_by_label c), md_updated_at := now\<rparr>)
      else None)"

definition revert_row :: "string \<Rightarrow> instant \<Rightarrow> mail_draft \<Rightarrow> mail_draft" where
  "revert_row error now r = r\<lparr>md_state := draft_read_back, md_last_error := Some error, md_updated_at := now\<rparr>"

definition sent_row :: "string \<Rightarrow> instant \<Rightarrow> mail_draft \<Rightarrow> mail_draft" where
  "sent_row message_id now r =
     r\<lparr>md_state := draft_sent, md_sent_message_id := Some message_id, md_updated_at := now\<rparr>"

text \<open>What the provider is given from the row; the chain of references is recomputed from the original.\<close>

record draft_input =
  di_kind :: string
  di_to :: "string list"
  di_cc :: "string list"
  di_subject :: string
  di_body :: string
  di_in_reply_to :: "string option"
  di_account :: "string option"
  di_references :: "string list"

definition draft_content :: "mail_draft \<Rightarrow> string list \<Rightarrow> draft_input" where
  "draft_content r references = \<lparr>di_kind = md_kind r, di_to = md_to r, di_cc = md_cc r,
     di_subject = md_subject r, di_body = md_body r, di_in_reply_to = md_in_reply_to r,
     di_account = md_account_key r, di_references = references\<rparr>"

text \<open>The flush of a draft object: the columns that differ from the loaded row are written.\<close>

definition store_draft :: "mail_draft \<Rightarrow> mail_draft \<Rightarrow> mail_draft \<Rightarrow> mail_draft" where
  "store_draft old new row =
     \<lparr>md_id = flushed (md_id old) (md_id new) (md_id row),
      md_kind = flushed (md_kind old) (md_kind new) (md_kind row),
      md_to = flushed (md_to old) (md_to new) (md_to row),
      md_cc = flushed (md_cc old) (md_cc new) (md_cc row),
      md_subject = flushed (md_subject old) (md_subject new) (md_subject row),
      md_body = flushed (md_body old) (md_body new) (md_body row),
      md_in_reply_to = flushed (md_in_reply_to old) (md_in_reply_to new) (md_in_reply_to row),
      md_account_key = flushed (md_account_key old) (md_account_key new) (md_account_key row),
      md_state = flushed (md_state old) (md_state new) (md_state row),
      md_read_back_at = flushed (md_read_back_at old) (md_read_back_at new) (md_read_back_at row),
      md_read_back_session_id =
        flushed (md_read_back_session_id old) (md_read_back_session_id new) (md_read_back_session_id row),
      md_read_back_turn = flushed (md_read_back_turn old) (md_read_back_turn new) (md_read_back_turn row),
      md_confirmed_at = flushed (md_confirmed_at old) (md_confirmed_at new) (md_confirmed_at row),
      md_confirmed_by = flushed (md_confirmed_by old) (md_confirmed_by new) (md_confirmed_by row),
      md_last_error = flushed (md_last_error old) (md_last_error new) (md_last_error row),
      md_sent_message_id = flushed (md_sent_message_id old) (md_sent_message_id new) (md_sent_message_id row),
      md_created_at = flushed (md_created_at old) (md_created_at new) (md_created_at row),
      md_updated_at = flushed (md_updated_at old) (md_updated_at new) (md_updated_at row)\<rparr>"

definition draft_ops :: "(mail_draft, draft_edit, draft_input) row_ops" where
  "draft_ops = \<lparr>ro_state = md_state, ro_session = md_read_back_session_id, ro_turn = md_read_back_turn,
     ro_gate = draft_gate, ro_edit = edit_row, ro_read_back = read_row, ro_discard = discard_row,
     ro_claim = claim_row, ro_payload = (\<lambda>r. draft_content r []), ro_revert = revert_row,
     ro_finish = sent_row, ro_store = store_draft\<rparr>"

lemma draft_gate_Inr:
  "draft_gate r (Some c) host provider = Inr u \<longleftrightarrow>
     provider \<and> host \<and> md_state r = draft_read_back \<and> md_read_back_at r \<noteq> None \<and>
     owners_word (md_read_back_session_id r) (md_read_back_turn r) c"
  by (auto simp: draft_gate_def check_gate_Inr draft_states)

lemma store_draft_unchanged: "store_draft r r' r = r'"
  by (rule mail_draft.equality) (simp_all add: store_draft_def flushed_def)

lemma store_draft_fields [simp]:
  "md_state (store_draft old new row) = flushed (md_state old) (md_state new) (md_state row)"
  "md_body (store_draft old new row) = flushed (md_body old) (md_body new) (md_body row)"
  by (simp_all add: store_draft_def)

lemma store_draft_content:
  "draft_content new [] = draft_content old [] \<Longrightarrow> draft_content (store_draft old new row) [] = draft_content row []"
  by (simp add: draft_content_def store_draft_def flushed_def)

interpretation draft: confirmed_rows draft_ops draft_prepared draft_read_back draft_sending draft_sent draft_discarded
proof unfold_locales
  show "distinct [draft_prepared, draft_read_back, draft_sending, draft_sent, draft_discarded]"
    by (simp add: draft_states)
  show "ro_read_back draft_ops a t r = Some r' \<Longrightarrow>
      ro_state draft_ops r \<in> {draft_prepared, draft_read_back} \<and> ro_state draft_ops r' = draft_read_back"
    for a t r r' by (cases a) (auto simp: draft_ops_def draft_open_def split: if_splits)
  show "ro_payload draft_ops r' = ro_payload draft_ops r \<Longrightarrow>
      ro_payload draft_ops (ro_store draft_ops r r' q) = ro_payload draft_ops q" for r r' q
    by (simp add: draft_ops_def store_draft_content)
qed (auto simp: draft_ops_def draft_gate_Inr edit_row_def draft_open_def discard_row_def claim_row_def
  revert_row_def sent_row_def draft_content_def store_draft_unchanged split: if_splits)

section \<open>The database and what lies outside\<close>

record mail_db =
  mdb_drafts :: "mail_draft list"
  mdb_focus :: "focus_row list"

record mail_message =
  mm_message_id :: string
  mm_from_email :: string
  mm_subject :: string
  mm_references :: "string list"
  mm_account_key :: string

text \<open>
  The optional methods of a provider are options: \<open>None\<close> is \<open>not callable\<close>.  \<open>pv_get_message\<close>
  gives \<open>None\<close> also where the lookup raises.
\<close>

record mail_provider =
  pv_has_accounts :: "bool option"
  pv_account_names :: "string list option"
  pv_entries :: "(string \<times> string) list option"
  pv_resolve_key :: "(string \<Rightarrow> (string \<times> string) option) option"
  pv_get_message :: "string \<Rightarrow> mail_message option"

record mail_env =
  me_secret :: "string \<Rightarrow> bool"
  me_valid_address :: "string \<Rightarrow> bool"
  me_provider :: "mail_provider option"
  me_sender :: "(draft_input \<Rightarrow> string + string) option"

definition account_ready :: "mail_env \<Rightarrow> bool" where
  "account_ready env =
     (case me_provider env of
        None \<Rightarrow> False
      | Some p \<Rightarrow> (case pv_has_accounts p of None \<Rightarrow> True | Some b \<Rightarrow> b))"

definition named_accounts :: "mail_env \<Rightarrow> string list" where
  "named_accounts env =
     (case me_provider env of
        None \<Rightarrow> []
      | Some p \<Rightarrow> (case pv_account_names p of None \<Rightarrow> [] | Some ns \<Rightarrow> ns))"

text \<open>\<open>Inl ()\<close> is the refusal (\<open>account_unknown\<close>), \<open>Inr key\<close> the key to draft from.\<close>

definition resolve_account :: "mail_env \<Rightarrow> string option \<Rightarrow> unit + string option" where
  "resolve_account env requested =
     (let accounts = (case me_provider env of
                        None \<Rightarrow> []
                      | Some p \<Rightarrow> (case pv_entries p of None \<Rightarrow> [] | Some es \<Rightarrow> es))
      in case accounts of
           [] \<Rightarrow> Inr None
         | (key, name) # _ \<Rightarrow>
             (case requested of
                None \<Rightarrow> Inr (Some key)
              | Some r \<Rightarrow>
                  if strip r = [] then Inr (Some key)
                  else (case me_provider env of
                          None \<Rightarrow> Inl ()
                        | Some p \<Rightarrow> (case pv_resolve_key p of
                              None \<Rightarrow> Inl ()
                            | Some f \<Rightarrow> (case f r of None \<Rightarrow> Inl () | Some (k, _) \<Rightarrow> Inr (Some k))))))"

definition focus_draft :: "mail_draft \<Rightarrow> int \<Rightarrow> instant \<Rightarrow> mail_db \<Rightarrow> mail_db" where
  "focus_draft r fid now db =
     db\<lparr>mdb_focus := (case set_focus ''draft'' (md_id r) (md_subject r) ''mail_draft'' fid now (mdb_focus db) of
                        None \<Rightarrow> mdb_focus db | Some rows \<Rightarrow> rows)\<rparr>"

definition current_draft :: "mail_db \<Rightarrow> mail_draft option" where
  "current_draft db =
     (case focus_current ''draft'' (mdb_focus db) of
        None \<Rightarrow> None
      | Some e \<Rightarrow> row_get md_id (fr_object e) (mdb_drafts db))"

definition put_draft :: "mail_draft \<Rightarrow> mail_db \<Rightarrow> mail_db" where
  "put_draft r db = db\<lparr>mdb_drafts := row_put md_id (md_id r) (\<lambda>_. r) (mdb_drafts db)\<rparr>"

definition add_draft :: "mail_draft \<Rightarrow> int \<Rightarrow> instant \<Rightarrow> mail_db \<Rightarrow> mail_db" where
  "add_draft r fid now db = focus_draft r fid now (db\<lparr>mdb_drafts := mdb_drafts db @ [r]\<rparr>)"

section \<open>Preparing\<close>

definition reply_subject :: "string \<Rightarrow> string" where
  "reply_subject subject = (if is_prefix ''re:'' (map lower subject) then subject else ''Re: '' @ subject)"

text \<open>\<open>target\<close> is what \<open>_resolve_message\<close> found; \<open>new_id\<close> and \<open>fid\<close> are the ids of the new rows.\<close>

definition draft_reply ::
    "mail_env \<Rightarrow> string \<Rightarrow> mail_message option \<Rightarrow> string \<Rightarrow> int \<Rightarrow> instant \<Rightarrow> mail_db \<Rightarrow> answer \<times> mail_db" where
  "draft_reply env body target new_id fid now db =
     (if me_secret env body then (refused ''mail.draft'' ''prepared'' ''secret_refused'', db)
      else if \<not> account_ready env then (refused ''mail.draft'' ''read'' ''account_missing'', db)
      else (case target of
              None \<Rightarrow> (Needs_clarification, db)
            | Some m \<Rightarrow>
                if \<not> me_valid_address env (mm_from_email m)
                then (refused ''mail.draft'' ''prepared'' ''invalid_recipient'', db)
                else (executed ''mail.draft'' ''prepared'',
                      add_draft (new_draft new_id kind_reply (mm_from_email m)
                          (reply_subject (mm_subject m)) body (Some (mm_message_id m))
                          (if named_accounts env \<noteq> [] then Some (mm_account_key m) else None) now)
                        fid now db)))"

definition draft_new ::
    "mail_env \<Rightarrow> string \<Rightarrow> string \<Rightarrow> string \<Rightarrow> string option \<Rightarrow> string \<Rightarrow> int \<Rightarrow> instant \<Rightarrow> mail_db \<Rightarrow>
     answer \<times> mail_db" where
  "draft_new env to subject body account new_id fid now db =
     (if me_secret env body \<or> me_secret env subject
      then (refused ''mail.draft'' ''prepared'' ''secret_refused'', db)
      else if \<not> account_ready env then (refused ''mail.draft'' ''read'' ''account_missing'', db)
      else if \<not> me_valid_address env to then (refused ''mail.draft'' ''prepared'' ''invalid_recipient'', db)
      else (case resolve_account env account of
              Inl _ \<Rightarrow> (refused ''mail.draft'' ''prepared'' ''account_unknown'', db)
            | Inr key \<Rightarrow>
                (executed ''mail.draft'' ''prepared'',
                 add_draft (new_draft new_id kind_new to subject body None key now) fid now db)))"

definition edit_draft ::
    "mail_env \<Rightarrow> draft_edit \<Rightarrow> int \<Rightarrow> instant \<Rightarrow> mail_db \<Rightarrow> answer \<times> mail_db" where
  "edit_draft env e fid now db =
     (if me_secret env (case de_body e of None \<Rightarrow> [] | Some b \<Rightarrow> b) \<or>
         me_secret env (case de_subject e of None \<Rightarrow> [] | Some s \<Rightarrow> s)
      then (refused ''mail.edit_draft'' ''prepared'' ''secret_refused'', db)
      else if \<exists>t \<in> set_option (de_to e). \<not> me_valid_address env t
      then (refused ''mail.edit_draft'' ''prepared'' ''invalid_recipient'', db)
      else (case current_draft db of
              None \<Rightarrow> (Needs_clarification, db)
            | Some r \<Rightarrow>
                (case edit_row e now r of
                   None \<Rightarrow> (Needs_clarification, db)
                 | Some r' \<Rightarrow> (executed ''mail.edit_draft'' ''prepared'',
                              focus_draft r' fid now (put_draft r' db)))))"

definition read_draft :: "string option \<Rightarrow> int option \<Rightarrow> instant \<Rightarrow> mail_db \<Rightarrow> answer \<times> mail_db" where
  "read_draft session turn now db =
     (case current_draft db of
        None \<Rightarrow> (Needs_clarification, db)
      | Some r \<Rightarrow>
          (case read_row (Spoken session turn) now r of
             None \<Rightarrow> (Needs_clarification, db)
           | Some r' \<Rightarrow> (executed ''mail.read_draft'' ''read'', put_draft r' db)))"

text \<open>The Cockpit's listing reads back every draft that is still only prepared.\<close>

definition list_pending_drafts :: "string \<Rightarrow> instant \<Rightarrow> mail_db \<Rightarrow> mail_db" where
  "list_pending_drafts owner now db =
     db\<lparr>mdb_drafts := map (\<lambda>r. case read_row (Listed owner) now r of None \<Rightarrow> r | Some r' \<Rightarrow> r')
        (mdb_drafts db)\<rparr>"

section \<open>Sending\<close>

definition max_references :: nat where "max_references = 50"

definition reply_references :: "mail_env \<Rightarrow> mail_draft \<Rightarrow> string list" where
  "reply_references env r =
     (if md_kind r \<noteq> kind_reply then []
      else (case md_in_reply_to r of
              None \<Rightarrow> []
            | Some original \<Rightarrow>
                if original = [] then []
                else (let found = (case me_provider env of None \<Rightarrow> None | Some p \<Rightarrow> pv_get_message p original);
                          chain = filter (\<lambda>x. x \<noteq> []) (case found of None \<Rightarrow> [] | Some m \<Rightarrow> mm_references m);
                          chain = (if original \<in> set chain then chain else chain @ [original])
                      in drop (length chain - max_references) chain)))"

definition target_draft :: "string option \<Rightarrow> mail_db \<Rightarrow> mail_draft option" where
  "target_draft draft_id db =
     (case draft_id of
        None \<Rightarrow> current_draft db
      | Some i \<Rightarrow> if i = [] then current_draft db else row_get md_id i (mdb_drafts db))"

definition account_unknown_error :: string where "account_unknown_error = ''MailAccountUnknownError''"

text \<open>\<open>now\<close> is read at the claim, \<open>failed_at\<close> after the provider raised; the last result is what the
  sender was called with.\<close>

definition send ::
    "mail_env \<Rightarrow> string option \<Rightarrow> bool \<Rightarrow> confirmation option \<Rightarrow> instant \<Rightarrow> instant \<Rightarrow> mail_db \<Rightarrow>
     answer \<times> mail_db \<times> draft_input list" where
  "send env draft_id host confirmation now failed_at db =
     (case target_draft draft_id db of
        None \<Rightarrow> (Needs_clarification, db, [])
      | Some r \<Rightarrow>
          (case draft_gate r confirmation host (account_ready env) of
             Inl reason \<Rightarrow> (refused ''mail.send'' ''sent'' (gate_code reason), db, [])
           | Inr _ \<Rightarrow>
               (case (me_sender env, confirmation) of
                  (Some sender, Some c) \<Rightarrow>
                    (case claim_row c now r of
                       None \<Rightarrow> (refused ''mail.send'' ''sent'' (gate_code Already_sent), db, [])
                     | Some claimed \<Rightarrow>
                         (let input = draft_content claimed (reply_references env claimed)
                          in case sender input of
                               Inl error \<Rightarrow>
                                 (failed ''mail.send'' ''sent''
                                    (if error = account_unknown_error then ''account_unknown'' else ''send_failed''),
                                  put_draft (revert_row error failed_at claimed) db, [input])
                             | Inr message_id \<Rightarrow>
                                 (executed ''mail.send'' ''sent'',
                                  put_draft (sent_row message_id now claimed) db, [input])))
                | _ \<Rightarrow> (refused ''mail.send'' ''sent'' (gate_code Send_disabled), db, []))))"

definition discard :: "string option \<Rightarrow> instant \<Rightarrow> mail_db \<Rightarrow> answer \<times> mail_db" where
  "discard draft_id now db =
     (case target_draft draft_id db of
        None \<Rightarrow> (Needs_clarification, db)
      | Some r \<Rightarrow> (executed ''mail.discard'' ''discarded'', put_draft (discard_row now r) db))"

text \<open>\<open>mail_send\<close> of the voice tools, and \<open>confirm_draft\<close> of the routes (\<open>None\<close> is the 404).\<close>

definition voice_mail_send ::
    "mail_env \<Rightarrow> bool \<Rightarrow> string \<Rightarrow> int option \<Rightarrow> string \<Rightarrow> instant \<Rightarrow> instant \<Rightarrow> mail_db \<Rightarrow>
     answer \<times> mail_db \<times> draft_input list" where
  "voice_mail_send env host session turn intent now failed_at db =
     send env None host (Some (voice_confirmation session turn intent ''mail_send'')) now failed_at db"

definition confirm_draft ::
    "mail_env \<Rightarrow> bool \<Rightarrow> string \<Rightarrow> string \<Rightarrow> instant \<Rightarrow> instant \<Rightarrow> mail_db \<Rightarrow>
     (answer \<times> mail_db \<times> draft_input list) option" where
  "confirm_draft env host owner draft_id now failed_at db =
     (if row_get md_id draft_id (mdb_drafts db) = None then None
      else Some (send env (Some draft_id) host (Some (rest_confirmation owner)) now failed_at db))"

section \<open>References\<close>

lemma reply_references_bounded: "length (reply_references env r) \<le> max_references"
  by (auto simp: reply_references_def Let_def split: option.split)

lemma reply_answers_its_original:
  assumes "md_kind r = kind_reply" "md_in_reply_to r = Some original" "original \<noteq> []"
    and "\<forall>p m. me_provider env = Some p \<longrightarrow> pv_get_message p original = Some m \<longrightarrow> original \<notin> set (mm_references m)"
  shows "reply_references env r \<noteq> [] \<and> last (reply_references env r) = original"
proof -
  let ?chain = "filter (\<lambda>x. x \<noteq> []) (case (case me_provider env of None \<Rightarrow> None | Some p \<Rightarrow> pv_get_message p original)
    of None \<Rightarrow> [] | Some m \<Rightarrow> mm_references m)"
  have "original \<notin> set ?chain" using assms(4) by (auto split: option.splits)
  then have "reply_references env r = drop (length (?chain @ [original]) - max_references) (?chain @ [original])"
    using assms(1-3) by (auto simp: reply_references_def Let_def)
  then show ?thesis by (simp add: max_references_def)
qed

section \<open>Properties\<close>

lemma draft_ops_simps [simp]:
  "ro_state draft_ops = md_state" "ro_session draft_ops = md_read_back_session_id"
  "ro_turn draft_ops = md_read_back_turn" "ro_gate draft_ops = draft_gate" "ro_edit draft_ops = edit_row"
  "ro_read_back draft_ops = read_row" "ro_discard draft_ops = discard_row" "ro_claim draft_ops = claim_row"
  "ro_payload draft_ops = (\<lambda>r. draft_content r [])" "ro_revert draft_ops = revert_row"
  "ro_finish draft_ops = sent_row" "ro_store draft_ops = store_draft"
  by (simp_all add: draft_ops_def)

text \<open>The confirmations the mail surfaces can make: the Cockpit's and a voice turn's.\<close>

definition mail_confirmation :: "confirmation \<Rightarrow> bool" where
  "mail_confirmation c = (cf_source c = source_rest \<or> cf_source c = source_voice)"

lemma mail_surfaces [simp]:
  "mail_confirmation (rest_confirmation owner)" "mail_confirmation (voice_confirmation s n i e)"
  by (simp_all add: mail_confirmation_def rest_confirmation_def voice_confirmation_def)

text \<open>
  C2. No mail leaves without the owner's word.  However drafts are edited, read back, listed and discarded
  while any number of confirmations race, with every load and every write a step of its own, the confirmation behind
  every call of the sender is the Cockpit's own button or a voice turn that the router resolved to "send", in the
  very session of the read-back its gate saw, and on a strictly later turn than that read-back.  And as long as no
  edit or read-back has written over a row that changed after it was loaded, what the sender is given is the content
  of the draft as it stood when it was last read back.  The condition is needed
  (\<open>stale_edit_sends_unread_text\<close>): the code takes no lock and checks no version there.
\<close>

theorem mail_needs_owners_word:
  assumes prepared: "md_state r = draft_prepared"
    and surfaces: "\<forall>c \<in> given es. mail_confirmation c"
    and call: "k \<in> set (w_calls (run_events draft_ops es (new_world r)))"
  shows "md_state (k_gate_row k) = draft_read_back \<and>
    (cf_source (k_confirmation k) = source_rest \<or>
     cf_owner_intent_ok (k_confirmation k) \<and>
     md_read_back_session_id (k_gate_row k) = Some (cf_session (k_confirmation k)) \<and>
     (\<forall>t. md_read_back_turn (k_gate_row k) = Some t \<longrightarrow>
        (\<exists>u. cf_turn (k_confirmation k) = Some u \<and> t < u))) \<and>
    (w_stale (run_events draft_ops es (new_world r)) = 0 \<longrightarrow>
      (\<exists>a q. k_read k = Some (a, q) \<and> draft_content q [] = k_payload k))"
proof -
  have word: "draft.word_ok (k_gate_row k) (k_confirmation k)" by (rule draft.calls_worded [OF call])
  have "mail_confirmation (k_confirmation k)" using surfaces calls_given [OF call] by blast
  then have "cf_source (k_confirmation k) \<noteq> source_owner_policy"
    by (auto simp: mail_confirmation_def source_rest_def source_voice_def source_owner_policy_def)
  moreover have "draft.was_read (k_read k) (k_payload k)" if "w_stale (run_events draft_ops es (new_world r)) = 0"
    using draft.calls_read [OF _ that call] prepared by simp
  ultimately show ?thesis using word by (auto simp: draft.word_ok_def draft.was_read_def owners_word_def)
qed

definition sample_draft :: mail_draft where
  "sample_draft = new_draft ''d1'' kind_new ''a@b.c'' ''hi'' ''text'' None None 0"

definition sample_events :: "draft_edit row_event list" where
  "sample_events = [Load 0 (Read_back (Spoken (Some ''s'') (Some 3))), Write 0 1,
     Begin 0 (voice_confirmation ''s'' (Some 4) ''mail_send'' ''mail_send'') True True, Claim 0 2, Call_provider 0]"

definition calls_seen :: "draft_edit row_event list \<Rightarrow> (string \<times> string \<times> string option) list" where
  "calls_seen es = map (\<lambda>k. (di_body (k_payload k), md_body (k_gate_row k), map_option (\<lambda>p. md_body (snd p)) (k_read k)))
     (w_calls (run_events draft_ops es (new_world sample_draft)))"

lemma sample_call: "calls_seen sample_events = [(''text'', ''text'', Some ''text'')]" by code_simp

lemma mail_needs_owners_word_witness:
  "\<exists>k \<in> set (w_calls (run_events draft_ops sample_events (new_world sample_draft))).
     (\<exists>a q. k_read k = Some (a, q) \<and> draft_content q [] = k_payload k) \<and> di_body (k_payload k) = ''text''"
proof -
  have calm: "w_stale (run_events draft_ops sample_events (new_world sample_draft)) = 0" by code_simp
  obtain k where k: "w_calls (run_events draft_ops sample_events (new_world sample_draft)) = [k]"
    "di_body (k_payload k) = ''text''"
    using sample_call by (auto simp: calls_seen_def map_eq_Cons_conv)
  then have mem: "k \<in> set (w_calls (run_events draft_ops sample_events (new_world sample_draft)))" by simp
  have "\<exists>a q. k_read k = Some (a, q) \<and> draft_content q [] = k_payload k"
    using mail_needs_owners_word [OF _ _ mem] calm
    by (simp add: sample_events_def sample_draft_def new_draft_def)
  then show ?thesis using k mem by blast
qed

text \<open>
  C3. A mail is sent at most once, unless a stale write reopens it.  In every sequence of the loads, writes,
  claims, calls and answers of any number of requests, the successful calls of the sender and the confirmations
  still past their claim are together at most one more than the edits and read-backs that wrote over a row changed
  since they loaded it.  So without such a write at most one call succeeds, and once one has, no later event of any
  kind makes another.  With one, the mail can go out twice (\<open>stale_read_back_sends_twice\<close>).
\<close>

theorem mail_is_sent_at_most_once:
  "length (filter (\<lambda>q. busy (snd q)) (w_requests (run_events draft_ops es (new_world r)))) +
      w_succeeded (run_events draft_ops es (new_world r)) \<le> 1 + w_stale (run_events draft_ops es (new_world r)) \<and>
    (w_succeeded (run_events draft_ops es (new_world r)) \<noteq> 0 \<longrightarrow>
      w_stale (run_events draft_ops (es @ fs) (new_world r)) = 0 \<longrightarrow>
      w_calls (run_events draft_ops (es @ fs) (new_world r)) = w_calls (run_events draft_ops es (new_world r)))"
  using draft.successes_counted [of es r] draft.no_call_once_done [of es r fs] by blast

lemma mail_is_sent_at_most_once_witness:
  "w_succeeded (run_events draft_ops (sample_events @ [Succeed 0 ''m1'' 5]) (new_world sample_draft)) = 1 \<and>
   w_calls (run_events draft_ops ((sample_events @ [Succeed 0 ''m1'' 5]) @ [Load 1 Discard, Write 1 6]) (new_world sample_draft)) =
     w_calls (run_events draft_ops (sample_events @ [Succeed 0 ''m1'' 5]) (new_world sample_draft))"
proof -
  let ?es = "sample_events @ [Succeed 0 ''m1'' 5]"
  have one: "w_succeeded (run_events draft_ops ?es (new_world sample_draft)) = 1" by code_simp
  have "w_stale (run_events draft_ops (?es @ [Load 1 Discard, Write 1 6]) (new_world sample_draft)) = 0"
    by code_simp
  then show ?thesis using one mail_is_sent_at_most_once [of ?es sample_draft "[Load 1 Discard, Write 1 6]"] by simp
qed

section \<open>Sending is one run of the protocol\<close>

definition sender_answer ::
    "mail_env \<Rightarrow> (draft_input \<Rightarrow> string + string) \<Rightarrow> confirmation \<Rightarrow> instant \<Rightarrow> instant \<Rightarrow> mail_draft \<Rightarrow>
     draft_edit row_event" where
  "sender_answer env sender c now failed_at r =
     (case claim_row c now r of
        None \<Rightarrow> Fail 0 [] failed_at
      | Some claimed \<Rightarrow>
          (case sender (draft_content claimed (reply_references env claimed)) of
             Inl error \<Rightarrow> Fail 0 error failed_at
           | Inr message_id \<Rightarrow> Succeed 0 message_id now))"

definition send_run ::
    "mail_env \<Rightarrow> (draft_input \<Rightarrow> string + string) \<Rightarrow> bool \<Rightarrow> confirmation \<Rightarrow> instant \<Rightarrow> instant \<Rightarrow> mail_draft \<Rightarrow>
     (mail_draft, draft_edit, draft_input) row_world" where
  "send_run env sender host c now failed_at r =
     run_events draft_ops
       [Begin 0 c host (account_ready env), Claim 0 now, Call_provider 0,
        sender_answer env sender c now failed_at r] (new_world r)"

lemma send_run_cases:
  assumes "draft_gate r (Some c) host (account_ready env) = Inr u"
  obtains claimed where "claim_row c now r = Some claimed" "md_id claimed = md_id r"
    "w_calls (send_run env sender host c now failed_at r) =
       [\<lparr>k_payload = draft_content claimed [], k_confirmation = c, k_gate_row = r, k_read = None\<rparr>]"
    "\<And>error. sender (draft_content claimed (reply_references env claimed)) = Inl error \<Longrightarrow>
       w_row (send_run env sender host c now failed_at r) = revert_row error failed_at claimed \<and>
       w_succeeded (send_run env sender host c now failed_at r) = 0"
    "\<And>m. sender (draft_content claimed (reply_references env claimed)) = Inr m \<Longrightarrow>
       w_row (send_run env sender host c now failed_at r) = sent_row m now claimed \<and>
       w_succeeded (send_run env sender host c now failed_at r) = 1"
proof -
  have "md_state r = draft_read_back" using assms by (simp add: draft_gate_Inr)
  then obtain claimed where claimed: "claim_row c now r = Some claimed" "md_id claimed = md_id r"
    by (simp add: claim_row_def)
  show thesis
    by (rule that [OF claimed])
      (use claimed assms in \<open>simp_all add: send_run_def run_events_def new_world_def sender_answer_def
        store_draft_unchanged split: sum.split\<close>)
qed

lemma draft_content_bare [simp]: "(draft_content r refs)\<lparr>di_references := []\<rparr> = draft_content r []"
  by (simp add: draft_content_def)

lemma answered_id [simp]: "md_id (revert_row e t r) = md_id r" "md_id (sent_row m t r) = md_id r"
  by (simp_all add: revert_row_def sent_row_def)

text \<open>
  C4. \<open>MailService.send\<close> implements the protocol: for a draft of the table, its effect on the row, the
  calls it makes and whether it reports the mail as sent are those of one uninterrupted run of the
  confirmed-row events (gate, claim, call, answer), and it writes no other row.  So what is proved of every
  sequence of those events holds for the code's requests.
\<close>

theorem send_implements_protocol:
  assumes found: "target_draft draft_id db = Some r" and row: "r \<in> set (mdb_drafts db)"
    and ids: "distinct (map md_id (mdb_drafts db))" and sender: "me_sender env = Some sender"
    and result: "send env draft_id host (Some c) now failed_at db = (answer, db', calls)"
  shows "mdb_drafts db' = row_put md_id (md_id r) (\<lambda>_. w_row (send_run env sender host c now failed_at r)) (mdb_drafts db) \<and>
    map (\<lambda>i. i\<lparr>di_references := []\<rparr>) calls = map k_payload (w_calls (send_run env sender host c now failed_at r)) \<and>
    (answer = executed ''mail.send'' ''sent'' \<longleftrightarrow> w_succeeded (send_run env sender host c now failed_at r) = 1)"
proof (cases "draft_gate r (Some c) host (account_ready env)")
  case (Inl reason)
  have same: "row_put md_id (md_id r) (\<lambda>_. r) (mdb_drafts db) = mdb_drafts db"
    using ids row by (intro row_put_id) (metis distinct_map inj_onD)
  have "send_run env sender host c now failed_at r = new_world r"
    using Inl by (simp add: send_run_def run_events_def new_world_def sender_answer_def split: option.split sum.split)
  then show ?thesis using result found Inl same
    by (auto simp: send_def new_world_def executed_def refused_def)
next
  case (Inr u)
  show ?thesis
  proof (rule send_run_cases [OF Inr, of now sender failed_at])
    fix claimed
    assume claim: "claim_row c now r = Some claimed" "md_id claimed = md_id r"
      and calls: "w_calls (send_run env sender host c now failed_at r) =
         [\<lparr>k_payload = draft_content claimed [], k_confirmation = c, k_gate_row = r, k_read = None\<rparr>]"
      and no: "\<And>error. sender (draft_content claimed (reply_references env claimed)) = Inl error \<Longrightarrow>
         w_row (send_run env sender host c now failed_at r) = revert_row error failed_at claimed \<and>
         w_succeeded (send_run env sender host c now failed_at r) = 0"
      and yes: "\<And>m. sender (draft_content claimed (reply_references env claimed)) = Inr m \<Longrightarrow>
         w_row (send_run env sender host c now failed_at r) = sent_row m now claimed \<and>
         w_succeeded (send_run env sender host c now failed_at r) = 1"
    show ?thesis
    proof (cases "sender (draft_content claimed (reply_references env claimed))")
      case (Inl error)
      then have "answer \<noteq> executed ''mail.send'' ''sent''" "db' = put_draft (revert_row error failed_at claimed) db"
        "calls = [draft_content claimed (reply_references env claimed)]"
        using result found sender Inr claim(1) by (auto simp: send_def Let_def failed_def executed_def)
      then show ?thesis using no [OF Inl] calls claim(2) by (simp add: put_draft_def)
    next
      case yes': (Inr m)
      then have "answer = executed ''mail.send'' ''sent''" "db' = put_draft (sent_row m now claimed) db"
        "calls = [draft_content claimed (reply_references env claimed)]"
        using result found sender Inr claim(1) by (auto simp: send_def Let_def)
      then show ?thesis using yes [OF yes'] calls claim(2) by (simp add: put_draft_def)
    qed
  qed
qed

definition sample_env :: mail_env where
  "sample_env = \<lparr>me_secret = (\<lambda>_. False), me_valid_address = (\<lambda>_. True),
     me_provider = Some \<lparr>pv_has_accounts = None, pv_account_names = None, pv_entries = None,
       pv_resolve_key = None, pv_get_message = (\<lambda>_. None)\<rparr>, me_sender = Some (\<lambda>i. Inr ''m1'')\<rparr>"

definition sample_mail_db :: mail_db where
  "sample_mail_db = snd (read_draft (Some ''s'') (Some 3) 1
     (add_draft sample_draft 1 0 \<lparr>mdb_drafts = [], mdb_focus = []\<rparr>))"

lemma sample_mail_db_read:
  "\<exists>r. target_draft (Some ''d1'') sample_mail_db = Some r \<and> mdb_drafts sample_mail_db = [r] \<and> md_state r = draft_read_back"
  by (simp add: sample_mail_db_def read_draft_def current_draft_def add_draft_def focus_draft_def set_focus_def
      focus_kinds_def focus_current_def focus_stack_def focus_stack_rows_def distinct_rows_def scan_rows_def
      focus_stack_limit_def sample_draft_def new_draft_def row_get_def draft_open_def put_draft_def
      row_put_def target_draft_def)

lemma send_implements_protocol_witness:
  "\<exists>sender r answer db' calls. me_sender sample_env = Some sender \<and>
     send sample_env (Some ''d1'') True (Some (rest_confirmation ''o'')) 5 6 sample_mail_db = (answer, db', calls) \<and>
     mdb_drafts db' = row_put md_id (md_id r) (\<lambda>_. w_row (send_run sample_env sender True (rest_confirmation ''o'') 5 6 r))
       (mdb_drafts sample_mail_db)"
proof -
  obtain r where r: "target_draft (Some ''d1'') sample_mail_db = Some r" "mdb_drafts sample_mail_db = [r]"
    using sample_mail_db_read by blast
  obtain answer db' calls where
    res: "send sample_env (Some ''d1'') True (Some (rest_confirmation ''o'')) 5 6 sample_mail_db = (answer, db', calls)"
    using prod_cases3 by blast
  have "me_sender sample_env = Some (\<lambda>i. Inr ''m1'')" by (simp add: sample_env_def)
  then show ?thesis using send_implements_protocol [OF r(1) _ _ _ res] r(2) res by fastforce
qed

section \<open>The requests of the mail surfaces\<close>

text \<open>The requests a mail database sees, in the order of their transactions; \<open>mail_step\<close> gives the database
  after one and what the sender was called with.\<close>

datatype mail_request =
    Draft_reply string "mail_message option" string int instant
  | Draft_new string string string "string option" string int instant
  | Edit_draft draft_edit int instant
  | Read_draft "string option" "int option" instant
  | List_pending string instant
  | Send "string option" bool "confirmation option" instant instant
  | Discard_draft "string option" instant

fun mail_step :: "mail_env \<Rightarrow> mail_request \<Rightarrow> mail_db \<Rightarrow> mail_db \<times> draft_input list" where
  "mail_step env (Draft_reply body target i fid now) db = (snd (draft_reply env body target i fid now db), [])"
| "mail_step env (Draft_new to subject body account i fid now) db =
     (snd (draft_new env to subject body account i fid now db), [])"
| "mail_step env (Edit_draft e fid now) db = (snd (edit_draft env e fid now db), [])"
| "mail_step env (Read_draft session turn now) db = (snd (read_draft session turn now db), [])"
| "mail_step env (List_pending owner now) db = (list_pending_drafts owner now db, [])"
| "mail_step env (Send draft_id host c now failed_at) db = snd (send env draft_id host c now failed_at db)"
| "mail_step env (Discard_draft draft_id now) db = (snd (discard draft_id now db), [])"

fun mail_run :: "mail_env \<Rightarrow> mail_request list \<Rightarrow> mail_db \<Rightarrow> mail_db \<times> draft_input list" where
  "mail_run env [] db = (db, [])"
| "mail_run env (q # qs) db =
     (let (db1, calls) = mail_step env q db; (db2, more) = mail_run env qs db1 in (db2, calls @ more))"

definition clean_draft :: "mail_env \<Rightarrow> mail_draft \<Rightarrow> bool" where
  "clean_draft env r = (\<not> me_secret env (md_body r) \<and> (md_kind r \<noteq> kind_reply \<longrightarrow> \<not> me_secret env (md_subject r)) \<and>
     (\<forall>a \<in> set (md_to r). me_valid_address env a) \<and> md_cc r = [])"

definition clean_db :: "mail_env \<Rightarrow> mail_db \<Rightarrow> bool" where
  "clean_db env db = (\<forall>r \<in> set (mdb_drafts db). clean_draft env r)"

definition clean_input :: "mail_env \<Rightarrow> draft_input \<Rightarrow> bool" where
  "clean_input env i =
     (\<not> me_secret env (di_body i) \<and> (di_kind i \<noteq> kind_reply \<longrightarrow> \<not> me_secret env (di_subject i)) \<and> (\<forall>a \<in> set (di_to i). me_valid_address env a) \<and> di_cc i = [] \<and>
      length (di_references i) \<le> max_references)"

lemma clean_put: "clean_db env db \<Longrightarrow> clean_draft env r \<Longrightarrow> clean_db env (put_draft r db)"
  by (auto simp: clean_db_def put_draft_def set_row_put)

lemma clean_add: "clean_db env db \<Longrightarrow> clean_draft env r \<Longrightarrow> clean_db env (add_draft r fid now db)"
  by (auto simp: clean_db_def add_draft_def focus_draft_def)

lemma clean_focus: "clean_db env db \<Longrightarrow> clean_db env (focus_draft r fid now db)"
  by (simp add: clean_db_def focus_draft_def)

lemma clean_target: "clean_db env db \<Longrightarrow> target_draft draft_id db = Some r \<Longrightarrow> clean_draft env r"
  by (auto simp: clean_db_def target_draft_def current_draft_def split: option.splits if_splits dest!: row_get_SomeD)

lemma clean_current: "clean_db env db \<Longrightarrow> current_draft db = Some r \<Longrightarrow> clean_draft env r"
  using clean_target [of env db None r] by (simp add: target_draft_def)

lemma clean_read: "clean_draft env r \<Longrightarrow> read_row a now r = Some r' \<Longrightarrow> clean_draft env r'"
  by (cases a) (auto simp: clean_draft_def split: if_splits)

lemma clean_edit:
  assumes "clean_draft env r" "edit_row e now r = Some r'"
    "\<not> me_secret env (case de_body e of None \<Rightarrow> [] | Some b \<Rightarrow> b)"
    "\<not> me_secret env (case de_subject e of None \<Rightarrow> [] | Some s \<Rightarrow> s)"
    "\<forall>t \<in> set_option (de_to e). me_valid_address env t"
  shows "clean_draft env r'"
  using assms by (auto simp: clean_draft_def edit_row_def split: if_splits option.splits)

lemma clean_send:
  assumes "clean_db env db"
  shows "clean_db env (fst (snd (send env draft_id host c now failed_at db))) \<and>
    (\<forall>i \<in> set (snd (snd (send env draft_id host c now failed_at db))). clean_input env i)"
proof (cases "target_draft draft_id db")
  case None
  then show ?thesis using assms by (simp add: send_def)
next
  case (Some r)
  have r: "clean_draft env r" by (rule clean_target [OF assms Some])
  have rows: "clean_draft env (revert_row e t k)" "clean_draft env (sent_row e t k)" "clean_input env (draft_content k (reply_references env k))"
    if "c' = c" "claim_row conf now r = Some k" for e t k conf c'
    using that r reply_references_bounded [of env k]
    by (auto simp: clean_draft_def clean_input_def claim_row_def revert_row_def sent_row_def draft_content_def split: if_splits)
  show ?thesis using assms Some rows [OF refl]
    by (auto simp: send_def Let_def intro!: clean_put split: option.split sum.split)
qed

lemma clean_step:
  assumes "clean_db env db"
  shows "clean_db env (fst (mail_step env q db)) \<and> (\<forall>i \<in> set (snd (mail_step env q db)). clean_input env i)"
proof (cases q)
  case (Draft_reply body target i fid now)
  then show ?thesis using assms
    by (auto simp: draft_reply_def new_draft_def clean_draft_def intro!: clean_add split: option.split)
next
  case (Draft_new to subject body account i fid now)
  then show ?thesis using assms
    by (auto simp: draft_new_def new_draft_def clean_draft_def intro!: clean_add split: sum.split)
next
  case (Edit_draft e fid now)
  have "clean_draft env r'"
    if "current_draft db = Some r" "edit_row e now r = Some r'"
      "\<not> me_secret env (case de_body e of None \<Rightarrow> [] | Some b \<Rightarrow> b)"
      "\<not> me_secret env (case de_subject e of None \<Rightarrow> [] | Some s \<Rightarrow> s)"
      "\<forall>t \<in> set_option (de_to e). me_valid_address env t"
    for r r'
    by (rule clean_edit [OF clean_current [OF assms that(1)] that(2-5)])
  then show ?thesis using assms Edit_draft
    by (simp add: edit_draft_def clean_focus clean_put split: option.split_asm option.split)
next
  case (Read_draft session turn now)
  then show ?thesis using assms clean_current [OF assms] clean_read
    by (auto simp: read_draft_def intro!: clean_put simp del: read_row.simps split: option.split)
next
  case (List_pending owner now)
  then show ?thesis using assms clean_read
    by (auto simp: list_pending_drafts_def clean_db_def simp del: read_row.simps split: option.split)
next
  case (Send draft_id host c now failed_at)
  then show ?thesis using clean_send [OF assms] by simp
next
  case (Discard_draft draft_id now)
  have "clean_draft env (discard_row now r)" if "target_draft draft_id db = Some r" for r
    using clean_target [OF assms that] by (simp add: clean_draft_def discard_row_def)
  then show ?thesis using assms Discard_draft
    by (auto simp: discard_def intro!: clean_put split: option.split)
qed

text \<open>
  C31. No password in what the owner dictates.  Whatever requests are made, one after another and in whatever
  order, starting from an empty table: no draft's body names a secret, nor does the subject of a draft that is not
  a reply, and every recipient of every draft passed the address test; and so it is for every message the sender
  is ever called with, which copies nobody in and carries a chain of at most fifty references.  The subject of a
  reply is built from the answered message and is not tested (\<open>reply_subject_is_not_tested\<close>).
\<close>

theorem no_secret_is_mailed:
  "clean_db env (fst (mail_run env qs \<lparr>mdb_drafts = [], mdb_focus = []\<rparr>)) \<and>
   (\<forall>i \<in> set (snd (mail_run env qs \<lparr>mdb_drafts = [], mdb_focus = []\<rparr>)). clean_input env i)"
proof -
  have "clean_db env db \<Longrightarrow> clean_db env (fst (mail_run env qs db)) \<and>
      (\<forall>i \<in> set (snd (mail_run env qs db)). clean_input env i)" for db
  proof (induction qs arbitrary: db)
    case Nil
    then show ?case by simp
  next
    case (Cons q qs)
    then show ?case using clean_step [OF Cons.prems, of q] Cons.IH [of "fst (mail_step env q db)"]
      by (auto simp: split_beta Let_def)
  qed
  from this [of "\<lparr>mdb_drafts = [], mdb_focus = []\<rparr>"] show ?thesis by (simp add: clean_db_def)
qed

lemma no_secret_is_mailed_witness:
  "\<exists>i. snd (mail_run sample_env
       [Draft_new ''a@b.c'' ''hi'' ''text'' None ''d1'' 1 0, Read_draft (Some ''s'') (Some 3) 1,
        Send (Some ''d1'') True (Some (rest_confirmation ''o'')) 2 3] \<lparr>mdb_drafts = [], mdb_focus = []\<rparr>) = [i] \<and>
     clean_input sample_env i"
proof -
  let ?qs = "[Draft_new ''a@b.c'' ''hi'' ''text'' None ''d1'' 1 0, Read_draft (Some ''s'') (Some 3) 1,
     Send (Some ''d1'') True (Some (rest_confirmation ''o'')) 2 3]"
  have "length (snd (mail_run sample_env ?qs \<lparr>mdb_drafts = [], mdb_focus = []\<rparr>)) = 1" by code_simp
  then obtain i where "snd (mail_run sample_env ?qs \<lparr>mdb_drafts = [], mdb_focus = []\<rparr>) = [i]"
    by (auto simp: length_Suc_conv)
  then show ?thesis using no_secret_is_mailed [of sample_env ?qs] by auto
qed

section \<open>What the code allows\<close>

text \<open>A discard has no guard: a mail that was sent is recorded as discarded.\<close>

lemma sent_mail_can_be_discarded: "md_state (discard_row now (sent_row m t r)) = draft_discarded"
  by (simp add: discard_row_def)

text \<open>A draft discarded while its provider call is under way comes back when the call fails.\<close>

lemma discarded_draft_comes_back:
  "md_state (w_row (run_events draft_ops (sample_events @ [Load 1 Discard, Write 1 5, Fail 0 ''TimeoutError'' 6])
     (new_world sample_draft))) = draft_read_back"
  by code_simp

text \<open>
  The gate and the claim are two transactions, and the claim compares only the state: a draft edited and
  read back again in between is sent with the new text on the confirmation of the old one.
\<close>

definition other_text :: draft_edit where
  "other_text = \<lparr>de_subject = None, de_body = Some ''other'', de_to = None\<rparr>"

lemma confirmation_of_an_older_text:
  "calls_seen
      [Load 0 (Read_back (Spoken (Some ''s'') (Some 3))), Write 0 1,
       Begin 0 (voice_confirmation ''s'' (Some 4) ''mail_send'' ''mail_send'') True True,
       Load 1 (Edit other_text), Write 1 2,
       Load 2 (Read_back (Listed ''o'')), Write 2 3, Claim 0 4, Call_provider 0] =
     [(''other'', ''text'', Some ''other'')]"
  by code_simp

text \<open>
  An edit that loaded the draft before it was read back writes only its text: the state it would set is the one it
  loaded, so the row stays read back, and the text nobody heard is sent.
\<close>

lemma stale_edit_sends_unread_text:
  "calls_seen
      ([Load 1 (Edit other_text), Load 0 (Read_back (Spoken (Some ''s'') (Some 3))), Write 0 1, Write 1 2] @
       [Begin 0 (voice_confirmation ''s'' (Some 4) ''mail_send'' ''mail_send'') True True, Claim 0 3, Call_provider 0]) =
     [(''other'', ''other'', Some ''text'')]"
  by code_simp

text \<open>
  A read-back that loaded the draft while it was prepared puts a draft that is being sent back to read back: it
  is claimed again and sent twice.
\<close>

lemma stale_read_back_sends_twice:
  "w_succeeded (run_events draft_ops
      ([Load 1 (Read_back (Listed ''o''))] @ sample_events @
       [Write 1 3, Begin 1 (rest_confirmation ''o'') True True, Claim 1 4, Call_provider 1,
        Succeed 0 ''m1'' 5, Succeed 1 ''m2'' 6]) (new_world sample_draft)) = 2"
  by code_simp

text \<open>A reply takes the subject of the message it answers, which may name a secret.\<close>

lemma reply_subject_is_not_tested:
  "md_subject (last (mdb_drafts (snd (draft_reply (sample_env\<lparr>me_secret := (\<lambda>s. s = ''Re: password'')\<rparr>) ''ok''
     (Some \<lparr>mm_message_id = ''m'', mm_from_email = ''a@b.c'', mm_subject = ''password'', mm_references = [],
        mm_account_key = []\<rparr>) ''d1'' 1 0 \<lparr>mdb_drafts = [], mdb_focus = []\<rparr>)))) = ''Re: password''"
  by code_simp

text \<open>A commit under the owner's standing policy is stamped as a voice confirmation.\<close>

lemma owner_policy_is_stamped_voice:
  "cf_source c = source_owner_policy \<Longrightarrow> is_prefix source_voice (confirmed_by_label c)"
  by (simp add: confirmed_by_label_def is_prefix_iff source_rest_def source_owner_policy_def)

text \<open>A read-back spoken on no known turn is confirmed by any turn of its session, the same one included.\<close>

lemma unknown_turn_is_not_compared:
  "owners_word (Some s) None (voice_confirmation s n intent intent)"
  by (simp add: owners_word_def voice_confirmation_def)

end
