(* ===== verification/Calendar_Slots.thy ===== *)
theory Calendar_Slots imports Prelude begin

text \<open>
  Occurrences of calendar events and the two computations over them every provider shares:
  \<open>calendar/ics.py\<close> (\<open>Occurrence\<close>) and \<open>calendar/providers.py\<close> (\<open>compute_free_slots\<close>,
  \<open>find_conflicts\<close>).  Instants are integers; \<open>isoformat\<close> of an instant, used as part of a key, is the instant.
\<close>

record occurrence =
  oc_uid :: string
  oc_summary :: string
  oc_start :: instant
  oc_end :: instant
  oc_all_day :: bool
  oc_reminders :: "int list"
  oc_recurring :: bool

section \<open>Free slots\<close>

definition timed_busy :: "instant \<Rightarrow> instant \<Rightarrow> occurrence list \<Rightarrow> occurrence list" where
  "timed_busy start until busy =
     sort_key oc_start (filter (\<lambda>x. \<not> oc_all_day x \<and> oc_end x > start \<and> oc_start x < until) busy)"

text \<open>The loop over the busy occurrences: \<open>cursor\<close> and the slots found.\<close>

fun slot_loop :: "instant \<Rightarrow> instant \<Rightarrow> instant \<Rightarrow> occurrence list \<Rightarrow> instant \<Rightarrow> (instant \<times> instant) list" where
  "slot_loop start until gap [] cursor = (if until - cursor \<ge> gap then [(cursor, until)] else [])"
| "slot_loop start until gap (o1 # os) cursor =
     (let occ_start = max (oc_start o1) start;
          rest = slot_loop start until gap os (max cursor (min (oc_end o1) until))
      in if occ_start - cursor \<ge> gap then (cursor, occ_start) # rest else rest)"

definition compute_free_slots ::
    "occurrence list \<Rightarrow> instant \<Rightarrow> instant \<Rightarrow> int \<Rightarrow> (instant \<times> instant) list" where
  "compute_free_slots busy start until duration_minutes =
     slot_loop start until (seconds (60 * duration_minutes)) (timed_busy start until busy) start"

section \<open>Conflicts\<close>

fun conflict_loop ::
    "instant \<Rightarrow> instant \<Rightarrow> string option \<Rightarrow> (string \<times> instant) list \<Rightarrow> occurrence list \<Rightarrow> (string \<times> string) list" where
  "conflict_loop start until exclude_uid seen [] = []"
| "conflict_loop start until exclude_uid seen (o1 # os) =
     (if oc_all_day o1 then conflict_loop start until exclude_uid seen os
      else if exclude_uid = Some (oc_uid o1) then conflict_loop start until exclude_uid seen os
      else if oc_start o1 < until \<and> oc_end o1 > start
      then (let key = (oc_uid o1, oc_start o1)
            in if key \<in> set seen then conflict_loop start until exclude_uid seen os
               else (oc_uid o1, oc_summary o1) # conflict_loop start until exclude_uid (key # seen) os)
      else conflict_loop start until exclude_uid seen os)"

definition find_conflicts ::
    "occurrence list \<Rightarrow> instant \<Rightarrow> instant \<Rightarrow> string option \<Rightarrow> (string \<times> string) list" where
  "find_conflicts busy start until exclude_uid = conflict_loop start until exclude_uid [] busy"

section \<open>Slots are free and nothing free is missed\<close>

text \<open>An instant is busy when a timed occurrence covers it.\<close>

definition busy_at :: "occurrence list \<Rightarrow> instant \<Rightarrow> bool" where
  "busy_at busy t = (\<exists>o1 \<in> set busy. \<not> oc_all_day o1 \<and> oc_start o1 \<le> t \<and> t < oc_end o1)"

text \<open>\<open>free_interval\<close>: the whole of \<open>[a, b)\<close> is free, lies in the window and is long enough.\<close>

definition free_interval :: "occurrence list \<Rightarrow> instant \<Rightarrow> instant \<Rightarrow> int \<Rightarrow> instant \<Rightarrow> instant \<Rightarrow> bool" where
  "free_interval busy start until gap a b =
     (start \<le> a \<and> b \<le> until \<and> gap \<le> b - a \<and> (\<forall>t. a \<le> t \<and> t < b \<longrightarrow> \<not> busy_at busy t))"

definition covers :: "occurrence \<Rightarrow> instant \<Rightarrow> bool" where
  "covers o1 t = (oc_start o1 \<le> t \<and> t < oc_end o1)"

lemma slot_loop_sound:
  assumes "sorted (map oc_start os)" "start \<le> cursor" "start < until" "0 < gap" "cursor \<le> until"
    and "\<forall>o1 \<in> set os. oc_start o1 < until \<and> start < oc_end o1"
    and "(a, b) \<in> set (slot_loop start until gap os cursor)"
  shows "cursor \<le> a \<and> b \<le> until \<and> gap \<le> b - a \<and> (\<forall>o1 \<in> set os. \<forall>t. a \<le> t \<and> t < b \<longrightarrow> \<not> covers o1 t)"
  using assms
proof (induction os arbitrary: cursor)
  case Nil
  then show ?case by (auto split: if_splits)
next
  case (Cons o1 os)
  let ?cursor = "max cursor (min (oc_end o1) until)" and ?occ = "max (oc_start o1) start"
  have later: "\<forall>o2 \<in> set os. oc_start o1 \<le> oc_start o2" using Cons.prems(1) by auto
  consider "gap \<le> ?occ - cursor" "a = cursor" "b = ?occ" | "(a, b) \<in> set (slot_loop start until gap os ?cursor)"
    using Cons.prems(7) by (auto simp: Let_def split: if_splits)
  then show ?case
  proof cases
    case 1
    then have "b = oc_start o1" using Cons.prems(2,4) by (auto simp: max_def split: if_splits)
    then show ?thesis using 1 later Cons.prems(6) by (fastforce simp: covers_def)
  next
    case 2
    have "?cursor \<le> a \<and> b \<le> until \<and> gap \<le> b - a \<and> (\<forall>o2 \<in> set os. \<forall>t. a \<le> t \<and> t < b \<longrightarrow> \<not> covers o2 t)"
      using Cons.prems 2 by (intro Cons.IH) auto
    then show ?thesis by (auto simp: covers_def)
  qed
qed

lemma slot_loop_complete:
  assumes "start \<le> cursor" "cursor \<le> a" "b \<le> until" "0 < gap" "gap \<le> b - a"
    and "\<forall>o1 \<in> set os. oc_start o1 < oc_end o1"
    and "\<forall>o1 \<in> set os. \<forall>t. a \<le> t \<and> t < b \<longrightarrow> \<not> covers o1 t"
  shows "\<exists>(c, d) \<in> set (slot_loop start until gap os cursor). c \<le> a \<and> b \<le> d"
  using assms
proof (induction os arbitrary: cursor)
  case Nil
  then show ?case by auto
next
  case (Cons o1 os)
  have "oc_end o1 \<le> a \<or> b \<le> oc_start o1"
  proof (rule ccontr)
    assume "\<not> ?thesis"
    then have "a < oc_end o1" "oc_start o1 < b" by auto
    then have "covers o1 (max a (oc_start o1))" using Cons.prems(6) by (auto simp: covers_def max_def)
    moreover have "a \<le> max a (oc_start o1)" "max a (oc_start o1) < b"
      using \<open>oc_start o1 < b\<close> Cons.prems(4,5) by (auto simp: max_def)
    ultimately show False using Cons.prems(7) by auto
  qed
  then show ?case
  proof
    assume "oc_end o1 \<le> a"
    then have "\<exists>(c, d) \<in> set (slot_loop start until gap os (max cursor (min (oc_end o1) until))). c \<le> a \<and> b \<le> d"
      using Cons.prems by (intro Cons.IH) auto
    then show ?thesis by (auto simp: Let_def)
  next
    assume "b \<le> oc_start o1"
    then show ?thesis using Cons.prems by (auto simp: Let_def max_def)
  qed
qed

lemma timed_busy_set:
  "set (timed_busy start until busy) = {x \<in> set busy. \<not> oc_all_day x \<and> oc_end x > start \<and> oc_start x < until}"
  by (simp add: timed_busy_def)

text \<open>
  C36. The free slots of a calendar are right and complete.  Every slot \<open>compute_free_slots\<close> offers lies in
  the asked window, is at least as long as asked and overlaps no timed event; and every free interval of that
  length in the window lies within one of the offered slots.
\<close>

theorem free_slots_exact:
  assumes window: "start < until" and duration: "0 < minutes"
    and events: "\<forall>x \<in> set busy. oc_start x < oc_end x"
  shows "(\<forall>(a, b) \<in> set (compute_free_slots busy start until minutes).
       free_interval busy start until (seconds (60 * minutes)) a b) \<and>
    (\<forall>a b. free_interval busy start until (seconds (60 * minutes)) a b \<longrightarrow>
       (\<exists>(c, d) \<in> set (compute_free_slots busy start until minutes). c \<le> a \<and> b \<le> d))"
proof (intro conjI allI impI)
  show "\<forall>(a, b) \<in> set (compute_free_slots busy start until minutes).
      free_interval busy start until (seconds (60 * minutes)) a b"
  proof clarify
    fix a b
    assume "(a, b) \<in> set (compute_free_slots busy start until minutes)"
    then have slot: "start \<le> a \<and> b \<le> until \<and> seconds (60 * minutes) \<le> b - a \<and>
        (\<forall>x \<in> set (timed_busy start until busy). \<forall>t. a \<le> t \<and> t < b \<longrightarrow> \<not> covers x t)"
      unfolding compute_free_slots_def
      using window duration
      by (intro slot_loop_sound [where start = start]) (auto simp: timed_busy_set, simp add: timed_busy_def)
    then show "free_interval busy start until (seconds (60 * minutes)) a b"
      by (fastforce simp: free_interval_def busy_at_def timed_busy_set covers_def)
  qed
next
  fix a b
  assume free: "free_interval busy start until (seconds (60 * minutes)) a b"
  show "\<exists>(c, d) \<in> set (compute_free_slots busy start until minutes). c \<le> a \<and> b \<le> d"
    unfolding compute_free_slots_def
    using free duration events
    by (intro slot_loop_complete) (auto simp: free_interval_def busy_at_def timed_busy_set covers_def)
qed

lemma free_slots_exact_witness:
  "(\<exists>(c, d) \<in> set (compute_free_slots [\<lparr>oc_uid = ''e'', oc_summary = [], oc_start = seconds 600, oc_end = seconds 1200,
       oc_all_day = False, oc_reminders = [], oc_recurring = False\<rparr>] 0 (seconds 3600) 20).
      c \<le> seconds 1300 \<and> seconds 2500 \<le> d)"
  using free_slots_exact [of 0 "seconds 3600" 20 "[\<lparr>oc_uid = ''e'', oc_summary = [], oc_start = seconds 600,
      oc_end = seconds 1200, oc_all_day = False, oc_reminders = [], oc_recurring = False\<rparr>]"]
  by (force simp: free_interval_def busy_at_def)

section \<open>Conflicts named exactly\<close>

definition conflicting :: "instant \<Rightarrow> instant \<Rightarrow> string option \<Rightarrow> occurrence \<Rightarrow> bool" where
  "conflicting start until exclude_uid x =
     (\<not> oc_all_day x \<and> exclude_uid \<noteq> Some (oc_uid x) \<and> oc_start x < until \<and> start < oc_end x)"

text \<open>The first occurrences of their key, in order.\<close>

fun first_by_key :: "(string \<times> instant) list \<Rightarrow> occurrence list \<Rightarrow> occurrence list" where
  "first_by_key seen [] = []"
| "first_by_key seen (x # xs) =
     (if (oc_uid x, oc_start x) \<in> set seen then first_by_key seen xs
      else x # first_by_key ((oc_uid x, oc_start x) # seen) xs)"

lemma conflict_loop_eq:
  "conflict_loop start until exclude_uid seen busy =
     map (\<lambda>x. (oc_uid x, oc_summary x)) (first_by_key seen (filter (conflicting start until exclude_uid) busy))"
  by (induction start until exclude_uid seen busy rule: conflict_loop.induct)
    (auto simp: conflicting_def Let_def)

lemma first_by_key_set:
  "{(oc_uid x, oc_start x) | x. x \<in> set (first_by_key seen xs)} =
     {(oc_uid x, oc_start x) | x. x \<in> set xs} - set seen"
  by (induction seen xs rule: first_by_key.induct) auto

text \<open>Every event the proposal overlaps is named, and nothing else.\<close>

lemma conflicts_named:
  "fst ` set (find_conflicts busy start until exclude_uid) =
     oc_uid ` {x \<in> set busy. conflicting start until exclude_uid x}"
proof -
  have "fst ` {(oc_uid x, oc_start x) | x. x \<in> set (first_by_key [] xs)} = oc_uid ` set xs" for xs
    unfolding first_by_key_set by force
  moreover have "fst ` {(oc_uid x, oc_start x) | x. x \<in> set ys} = oc_uid ` set ys" for ys
    by force
  ultimately have "oc_uid ` set (first_by_key [] xs) = oc_uid ` set xs" for xs by metis
  then show ?thesis
    by (simp add: find_conflicts_def conflict_loop_eq image_image)
qed

end
