(* ===== verification/Calendar_Ics.thy ===== *)
theory Calendar_Ics imports Py_Strings Calendar_Slots "HOL-Library.Multiset" begin

text \<open>
  The iCalendar reader and writer of \<open>calendar/ics.py\<close>: the rules the writer is willing to send
  (\<open>validate_rrule\<close>), reminders, unfolding and escaping, the parser, the document a new event is
  written as, and the bounded expansion of events into occurrences.  \<open>dateutil\<close>, which the repository does not
  contain, is an argument: the test whether it accepts a rule, and the occurrences it gives for one.
  Text is ASCII.
\<close>

section \<open>Recurrence rules\<close>

datatype rrule_error =
    Rule_size | Rule_malformed | Rule_part | Rule_freq | Rule_interval | Rule_count | Rule_count_and_until |
    Rule_until | Rule_byday | Rule_unreadable | Reminder_range

definition rrule_freqs :: "string list" where
  "rrule_freqs = [''DAILY'', ''WEEKLY'', ''MONTHLY'', ''YEARLY'']"

definition rrule_days :: "string list" where
  "rrule_days = [''MO'', ''TU'', ''WE'', ''TH'', ''FR'', ''SA'', ''SU'']"

definition rrule_order :: "string list" where
  "rrule_order = [''FREQ'', ''INTERVAL'', ''COUNT'', ''UNTIL'', ''BYDAY'']"

definition max_rrule_interval :: nat where "max_rrule_interval = 99"
definition max_rrule_count :: nat where "max_rrule_count = 730"
definition max_rule_length :: nat where "max_rule_length = 200"

definition until_ok :: "string \<Rightarrow> bool" where
  "until_ok v =
     (list_all is_digit (take 8 v) \<and>
      (length v = 8 \<or>
       length v = 16 \<and> v ! 8 = CHR ''T'' \<and> list_all is_digit (take 6 (drop 9 v)) \<and> v ! 15 = CHR ''Z''))"

fun rrule_parts :: "string list \<Rightarrow> (string \<times> string) list \<Rightarrow> rrule_error + (string \<times> string) list" where
  "rrule_parts [] parts = Inr parts"
| "rrule_parts (piece # pieces) parts =
     (case split_once (CHR ''='') piece of
        None \<Rightarrow> Inl Rule_malformed
      | Some (k, v) \<Rightarrow>
          (let key = map upper (strip k); val = map upper (strip v)
           in if key \<notin> set rrule_order \<or> key \<in> fst ` set parts then Inl Rule_part
              else rrule_parts pieces (parts @ [(key, val)])))"

definition in_range :: "nat \<Rightarrow> string \<Rightarrow> bool" where
  "in_range n v = (is_digits v \<and> 1 \<le> int_of_digits v \<and> int_of_digits v \<le> n)"

definition day_index :: "string \<Rightarrow> nat" where
  "day_index d = length (takeWhile (\<lambda>x. x \<noteq> d) rrule_days)"

definition byday_ok :: "string \<Rightarrow> bool" where
  "byday_ok v = (let days = split_on (CHR '','') v in (\<forall>d \<in> set days. d \<in> set rrule_days) \<and> distinct days)"

definition sorted_byday :: "string \<Rightarrow> string" where
  "sorted_byday v = join_with '','' (sort_key day_index (split_on (CHR '','') v))"

definition opt_all :: "('a \<Rightarrow> bool) \<Rightarrow> 'a option \<Rightarrow> bool" where
  "opt_all P x = (case x of None \<Rightarrow> True | Some v \<Rightarrow> P v)"

text \<open>The checks, in the order of the code.\<close>

definition rrule_fault :: "(string \<times> string) list \<Rightarrow> rrule_error option" where
  "rrule_fault parts =
     (let part = map_of parts
      in if \<not> (\<exists>v \<in> set_option (part ''FREQ''). v \<in> set rrule_freqs) then Some Rule_freq
         else if \<not> opt_all (in_range max_rrule_interval) (part ''INTERVAL'') then Some Rule_interval
         else if \<not> opt_all (in_range max_rrule_count) (part ''COUNT'') then Some Rule_count
         else if part ''COUNT'' \<noteq> None \<and> part ''UNTIL'' \<noteq> None then Some Rule_count_and_until
         else if \<not> opt_all until_ok (part ''UNTIL'') then Some Rule_until
         else if part ''BYDAY'' \<noteq> None \<and> part ''FREQ'' \<noteq> Some ''WEEKLY'' then Some Rule_byday
         else if \<not> opt_all byday_ok (part ''BYDAY'') then Some Rule_byday
         else None)"

definition normal_parts :: "(string \<times> string) list \<Rightarrow> (string \<times> string) list" where
  "normal_parts parts =
     filter (\<lambda>p. p \<noteq> (''INTERVAL'', ''1''))
       (map (\<lambda>(k, v). (k, if k = ''BYDAY'' then sorted_byday v else v)) parts)"

definition ordered_parts :: "(string \<times> string) list \<Rightarrow> (string \<times> string) list" where
  "ordered_parts parts = List.map_filter (\<lambda>k. map_option (Pair k) (map_of parts k)) rrule_order"

definition part_text :: "string \<times> string \<Rightarrow> string" where
  "part_text p = fst p @ ''='' @ snd p"

definition rrule_text :: "string \<Rightarrow> string" where
  "rrule_text rule =
     (let text = strip rule in if is_prefix ''RRULE:'' (map upper text) then drop 6 text else text)"

definition validate_rrule :: "(string \<Rightarrow> bool) \<Rightarrow> string \<Rightarrow> rrule_error + string" where
  "validate_rrule dateutil_reads rule =
     (let text = rrule_text rule
      in if text = [] \<or> length text > max_rule_length then Inl Rule_size
         else bind_sum (rrule_parts (split_on (CHR '';'') text) [])
           (\<lambda>parts. case rrule_fault parts of
              Some e \<Rightarrow> Inl e
            | None \<Rightarrow>
                (let canonical = join_with '';'' (map part_text (ordered_parts (normal_parts parts)))
                 in if dateutil_reads canonical then Inr canonical else Inl Rule_unreadable)))"

section \<open>A canonical rule is its own canonical form\<close>

definition part_ok :: "string \<times> string \<Rightarrow> bool" where
  "part_ok p = (fst p \<in> set rrule_order \<and> CHR '';'' \<notin> set (snd p) \<and> strip (snd p) = snd p \<and>
     map upper (snd p) = snd p)"

lemma order_key:
  assumes "k \<in> set rrule_order"
  shows "CHR ''='' \<notin> set k" "CHR '';'' \<notin> set k" "strip k = k" "map upper k = k"
  using assms by (auto simp: rrule_order_def strip_def is_space_def upper_def)

lemma upper_semicolon: "upper c = CHR '';'' \<longleftrightarrow> c = CHR '';''"
proof
  assume "upper c = CHR '';''"
  then have "(of_char (upper c) :: nat) = 59" by simp
  then have "(of_char c :: nat) = of_char (CHR '';'')" by (auto simp: upper_code split: if_splits)
  then show "c = CHR '';''" by (simp only: of_char_eq_iff)
qed (simp add: upper_def)

lemma rrule_parts_ok:
  assumes "rrule_parts pieces acc = Inr parts" "\<forall>p \<in> set pieces. CHR '';'' \<notin> set p"
    and "\<forall>p \<in> set acc. part_ok p" "distinct (map fst acc)"
  shows "(\<forall>p \<in> set parts. part_ok p) \<and> distinct (map fst parts) \<and>
    sum_list (map (length \<circ> part_text) parts) + length parts \<le>
      sum_list (map (length \<circ> part_text) acc) + length acc + sum_list (map length pieces) + length pieces"
  using assms
proof (induction pieces acc rule: rrule_parts.induct)
  case (1 acc)
  then show ?case by simp
next
  case (2 piece pieces acc)
  obtain k v where kv: "split_once (CHR ''='') piece = Some (k, v)"
    using "2.prems"(1) by (auto split: option.splits)
  let ?p = "(map upper (strip k), map upper (strip v))"
  have piece: "piece = k @ CHR ''='' # v" by (rule split_once_Some(1) [OF kv])
  have fresh: "fst ?p \<in> set rrule_order" "fst ?p \<notin> fst ` set acc"
    and rest: "rrule_parts pieces (acc @ [?p]) = Inr parts"
    using "2.prems"(1) kv by (auto simp: Let_def split: if_splits)
  have "CHR '';'' \<notin> set (strip v)" using "2.prems"(2) piece strip_set [of v] by auto
  then have "CHR '';'' \<notin> set (map upper (strip v))"
    by (auto dest: upper_semicolon [THEN iffD1, OF sym])
  then have "part_ok ?p" using fresh by (simp add: part_ok_def strip_upper o_def)
  moreover have "length (part_text ?p) \<le> length piece"
    using strip_length [of k] strip_length [of v] by (simp add: part_text_def piece)
  moreover have "(\<forall>p \<in> set parts. part_ok p) \<and> distinct (map fst parts) \<and>
      sum_list (map (length \<circ> part_text) parts) + length parts \<le>
        sum_list (map (length \<circ> part_text) (acc @ [?p])) + length (acc @ [?p]) +
        sum_list (map length pieces) + length pieces"
    by (rule "2.IH" [OF kv refl refl refl]) (use fresh rest "2.prems"(2-4) \<open>part_ok ?p\<close> in auto)
  ultimately show ?case by (simp add: o_def)
qed

lemma rrule_parts_canonical:
  assumes "\<forall>p \<in> set parts. part_ok p" "distinct (map fst (acc @ parts))"
  shows "rrule_parts (map part_text parts) acc = Inr (acc @ parts)"
  using assms
proof (induction parts arbitrary: acc)
  case Nil
  then show ?case by simp
next
  case (Cons p parts)
  obtain k v where p: "p = (k, v)" by (cases p)
  have ok: "k \<in> set rrule_order" "strip v = v" "map upper v = v" using Cons.prems(1) p by (auto simp: part_ok_def)
  note key = order_key [OF ok(1)]
  have "split_once (CHR ''='') (part_text p) = Some (k, v)"
    using split_once_app [OF key(1), of v] by (simp add: part_text_def p)
  moreover have "rrule_parts (map part_text parts) (acc @ [p]) = Inr ((acc @ [p]) @ parts)"
    using Cons.prems by (intro Cons.IH) auto
  ultimately show ?case using ok key Cons.prems(2) by (simp add: p)
qed

lemma sorted_byday_split:
  assumes "byday_ok v"
  shows "split_on (CHR '','') (sorted_byday v) = sort_key day_index (split_on (CHR '','') v)"
  unfolding sorted_byday_def
proof (rule split_on_join)
  show "sort_key day_index (split_on (CHR '','') v) \<noteq> []"
    by (metis length_0_conv length_sort split_on_not_Nil)
  show "\<forall>p \<in> set (sort_key day_index (split_on (CHR '','') v)). CHR '','' \<notin> set p"
    using split_on_no_sep by fastforce
qed

definition plain_char :: "char \<Rightarrow> bool" where
  "plain_char c = (upper c = c \<and> c \<noteq> CHR '';'' \<and> \<not> is_space c)"

lemma day_chars: "d \<in> set rrule_days \<Longrightarrow> \<forall>c \<in> set d. plain_char c"
  by (auto simp: rrule_days_def plain_char_def upper_def is_space_def)

lemma join_plain:
  "\<forall>d \<in> set ds. d \<in> set rrule_days \<Longrightarrow> \<forall>c \<in> set (join_with '','' ds). plain_char c"
proof (induction "'',''" ds rule: join_with.induct)
  case (3 p q ps)
  have "plain_char (CHR '','')" by (simp add: plain_char_def upper_def is_space_def)
  then show ?case using 3 day_chars [of p] by auto
qed (simp_all add: day_chars)

lemma sorted_byday_sorted:
  assumes "byday_ok v"
  shows "byday_ok (sorted_byday v)" "sorted_byday (sorted_byday v) = sorted_byday v"
    "length (sorted_byday v) = length v" "part_ok (''BYDAY'', sorted_byday v)"
proof -
  let ?ds = "split_on (CHR '','') v" and ?s = "sort_key day_index (split_on (CHR '','') v)"
  note split = sorted_byday_split [OF assms]
  show "byday_ok (sorted_byday v)" using assms by (simp add: byday_ok_def split Let_def)
  show "sorted_byday (sorted_byday v) = sorted_byday v"
    unfolding sorted_byday_def [of "sorted_byday v"] split
    by (simp add: sorted_byday_def sort_key_id_if_sorted)
  have ne: "?s \<noteq> []" by (metis length_0_conv length_sort split_on_not_Nil)
  have "sum_list (map length ?s) = sum_list (map length ?ds)"
    by (metis mset_map mset_sort sum_mset_sum_list)
  then show "length (sorted_byday v) = length v"
    using join_length [OF ne, of "CHR '',''"] split_on_length [of "CHR '',''" v]
    by (simp add: sorted_byday_def)
  have days: "\<forall>d \<in> set ?s. d \<in> set rrule_days" using assms by (simp add: byday_ok_def Let_def)
  have all: "\<forall>c \<in> set (sorted_byday v). plain_char c"
    using days join_plain [of ?s] by (auto simp: sorted_byday_def)
  then have facts: "CHR '';'' \<notin> set (sorted_byday v)" "map upper (sorted_byday v) = sorted_byday v"
    by (auto simp: plain_char_def intro: map_idI)
  have "strip (sorted_byday v) = sorted_byday v"
  proof (cases "sorted_byday v = []")
    case True
    then show ?thesis by (simp only: strip_Nil)
  next
    case False
    show ?thesis
      by (rule strip_id [OF False]) (use all hd_in_set [OF False] last_in_set [OF False] in \<open>simp_all add: plain_char_def\<close>)
  qed
  then show "part_ok (''BYDAY'', sorted_byday v)"
    using facts by (simp add: part_ok_def rrule_order_def)
qed

lemma map_of_mem: "distinct (map fst xs) \<Longrightarrow> map_of xs k = Some v \<longleftrightarrow> (k, v) \<in> set xs"
  by (simp add: map_of_eq_Some_iff)

lemma map_of_ext:
  assumes "distinct (map fst xs)" "distinct (map fst ys)" "set xs = set ys"
  shows "map_of xs = map_of ys"
proof
  fix k
  show "map_of xs k = map_of ys k"
    using assms map_of_mem [OF assms(1), of k] map_of_mem [OF assms(2), of k]
    by (cases "map_of xs k"; cases "map_of ys k") auto
qed

lemma ordered_parts_facts:
  assumes "distinct (map fst parts)" "fst ` set parts \<subseteq> set rrule_order"
  shows "set (ordered_parts parts) = set parts" "distinct (map fst (ordered_parts parts))"
    "map_of (ordered_parts parts) = map_of parts"
proof -
  have filt: "map fst (List.map_filter (\<lambda>k. map_option (Pair k) (m k)) ks) = filter (\<lambda>k. m k \<noteq> None) ks"
    for m :: "string \<Rightarrow> string option" and ks
    by (induction ks) (auto simp: List.map_filter_simps split: option.split)
  show set: "set (ordered_parts parts) = set parts"
    using assms map_of_mem [OF assms(1)]
    by (force simp: ordered_parts_def List.map_filter_def)
  show dist: "distinct (map fst (ordered_parts parts))"
    unfolding ordered_parts_def filt by (rule distinct_filter) (simp add: rrule_order_def)
  show "map_of (ordered_parts parts) = map_of parts" by (rule map_of_ext [OF dist assms(1) set])
qed

lemma ordered_parts_cong: "map_of xs = map_of ys \<Longrightarrow> ordered_parts xs = ordered_parts ys"
  by (simp add: ordered_parts_def)

lemma fault_chain: "(if b then Some e else x) = None \<longleftrightarrow> \<not> b \<and> x = None"
  by simp

lemma rrule_fault_None:
  "rrule_fault parts = None \<longleftrightarrow>
     (\<exists>v \<in> set_option (map_of parts ''FREQ''). v \<in> set rrule_freqs) \<and>
     opt_all (in_range max_rrule_interval) (map_of parts ''INTERVAL'') \<and>
     opt_all (in_range max_rrule_count) (map_of parts ''COUNT'') \<and>
     \<not> (map_of parts ''COUNT'' \<noteq> None \<and> map_of parts ''UNTIL'' \<noteq> None) \<and>
     opt_all until_ok (map_of parts ''UNTIL'') \<and>
     \<not> (map_of parts ''BYDAY'' \<noteq> None \<and> map_of parts ''FREQ'' \<noteq> Some ''WEEKLY'') \<and>
     opt_all byday_ok (map_of parts ''BYDAY'')"
  unfolding rrule_fault_def Let_def by (simp only: fault_chain not_not simp_thms)

lemma sum_parts:
  assumes "distinct xs" "distinct ys" "set xs = set ys"
  shows "sum_list (map (f :: 'a \<Rightarrow> nat) xs) + length xs = sum_list (map f ys) + length ys"
  using assms by (metis distinct_card sum_list_distinct_conv_sum_set)

lemma normal_parts_facts:
  assumes "\<forall>p \<in> set parts. part_ok p" "distinct (map fst parts)"
    and "opt_all byday_ok (map_of parts ''BYDAY'')"
  shows "\<forall>p \<in> set (normal_parts parts). part_ok p" "distinct (map fst (normal_parts parts))"
    "\<forall>p \<in> set (normal_parts parts). p \<noteq> (''INTERVAL'', ''1'') \<and> (fst p = ''BYDAY'' \<longrightarrow> sorted_byday (snd p) = snd p)"
    "sum_list (map (length \<circ> part_text) (normal_parts parts)) + length (normal_parts parts) \<le>
       sum_list (map (length \<circ> part_text) parts) + length parts"
proof -
  let ?f = "\<lambda>(k, v). (k, if k = ''BYDAY'' then sorted_byday v else v)"
  have byday: "byday_ok v" if "(''BYDAY'', v) \<in> set parts" for v
  proof -
    have "map_of parts ''BYDAY'' = Some v" using map_of_mem [OF assms(2)] that by blast
    then show ?thesis using assms(3) by (simp add: opt_all_def)
  qed
  have f_ok: "part_ok (?f p)" if "p \<in> set parts" for p
  proof (cases "fst p = ''BYDAY''")
    case True
    then have "byday_ok (snd p)" using byday that by (cases p) simp
    then show ?thesis using True sorted_byday_sorted(4) by (simp add: split_beta)
  next
    case False
    then show ?thesis using assms(1) that by (simp add: split_beta)
  qed
  then show "\<forall>p \<in> set (normal_parts parts). part_ok p" unfolding normal_parts_def by fastforce
  have keys: "map fst (map ?f parts) = map fst parts" by (induction parts) auto
  show "distinct (map fst (normal_parts parts))"
    unfolding normal_parts_def by (rule distinct_map_filter) (simp only: keys assms(2))
  show "\<forall>p \<in> set (normal_parts parts). p \<noteq> (''INTERVAL'', ''1'') \<and> (fst p = ''BYDAY'' \<longrightarrow> sorted_byday (snd p) = snd p)"
  proof
    fix p
    assume "p \<in> set (normal_parts parts)"
    then obtain k v where "(k, v) \<in> set parts" "p = ?f (k, v)" "p \<noteq> (''INTERVAL'', ''1'')"
      unfolding normal_parts_def by force
    then show "p \<noteq> (''INTERVAL'', ''1'') \<and> (fst p = ''BYDAY'' \<longrightarrow> sorted_byday (snd p) = snd p)"
      using byday [of v] sorted_byday_sorted(2) [of v] by (cases "k = ''BYDAY''") simp_all
  qed
  have same: "length (part_text (?f p)) = length (part_text p)" if "p \<in> set parts" for p
  proof (cases "fst p = ''BYDAY''")
    case True
    then have "byday_ok (snd p)" using byday that by (cases p) simp
    then show ?thesis using True sorted_byday_sorted(3) by (simp add: split_beta part_text_def)
  next
    case False
    then show ?thesis by (simp add: split_beta)
  qed
  have less: "sum_list (map (length \<circ> part_text) (filter P xs)) + length (filter P xs) \<le>
      sum_list (map (length \<circ> part_text) xs) + length xs" for P xs
    by (induction xs) auto
  have "sum_list (map (length \<circ> part_text) (map ?f parts)) = sum_list (map (length \<circ> part_text) parts)"
    unfolding map_map by (intro arg_cong [where f = sum_list] map_cong refl) (simp only: o_def same)
  then show "sum_list (map (length \<circ> part_text) (normal_parts parts)) + length (normal_parts parts) \<le>
      sum_list (map (length \<circ> part_text) parts) + length parts"
    unfolding normal_parts_def using less [of "\<lambda>p. p \<noteq> (''INTERVAL'', ''1'')" "map ?f parts"]
    by (simp only: length_map)
qed

lemma normal_parts_id:
  assumes "\<forall>p \<in> set ps. p \<noteq> (''INTERVAL'', ''1'') \<and> (fst p = ''BYDAY'' \<longrightarrow> sorted_byday (snd p) = snd p)"
  shows "normal_parts ps = ps"
proof -
  have "map (\<lambda>(k, v). (k, if k = ''BYDAY'' then sorted_byday v else v)) ps = ps"
    using assms by (intro map_idI) (auto simp: split_beta prod_eq_iff)
  then show ?thesis using assms by (simp add: normal_parts_def)
qed

lemma map_of_filter_ne:
  "distinct (map fst xs) \<Longrightarrow>
   map_of (filter (\<lambda>p. p \<noteq> (a, b)) xs) k = (if k = a \<and> map_of xs k = Some b then None else map_of xs k)"
proof (induction xs)
  case (Cons x xs)
  obtain c d where x: "x = (c, d)" by (cases x)
  have "c \<notin> fst ` set xs" using Cons.prems x by simp
  then have "map_of xs c = None" by (simp add: map_of_eq_None_iff)
  then show ?case using Cons x by (cases "x = (a, b)"; cases "k = c"; cases "k = a") simp_all
qed simp

lemma map_of_map_keyed: "map_of (map (\<lambda>(k, v). (k, f k v)) xs) k = map_option (f k) (map_of xs k)"
  by (induction xs) auto

lemma rrule_fault_normal:
  assumes "distinct (map fst parts)" "rrule_fault parts = None"
  shows "rrule_fault (normal_parts parts) = None"
proof -
  let ?n = "map_of (normal_parts parts)"
  have byday: "opt_all byday_ok (map_of parts ''BYDAY'')"
    using assms(2) by (simp add: rrule_fault_def Let_def split: if_splits)
  let ?f = "\<lambda>(k, v). (k, if k = ''BYDAY'' then sorted_byday v else v)"
  have "map fst (map ?f parts) = map fst parts" by (induction parts) auto
  then have "distinct (map fst (map ?f parts))" by (simp only: assms(1))
  then have "?n k = (if k = ''INTERVAL'' \<and> map_of (map ?f parts) k = Some ''1'' then None
      else map_option (\<lambda>v. if k = ''BYDAY'' then sorted_byday v else v) (map_of parts k))" for k
    unfolding normal_parts_def by (simp only: map_of_filter_ne map_of_map_keyed)
  then have "?n ''FREQ'' = map_of parts ''FREQ''" "?n ''COUNT'' = map_of parts ''COUNT''"
    "?n ''UNTIL'' = map_of parts ''UNTIL''"
    "?n ''BYDAY'' = map_option sorted_byday (map_of parts ''BYDAY'')"
    "?n ''INTERVAL'' = map_of parts ''INTERVAL'' \<or> ?n ''INTERVAL'' = None"
    by (simp_all add: option.map_ident)
  moreover have "opt_all byday_ok (map_option sorted_byday (map_of parts ''BYDAY''))"
    using byday sorted_byday_sorted(1) by (simp add: opt_all_def split: option.split_asm option.split)
  moreover have "opt_all P None" for P by (simp add: opt_all_def)
  ultimately show ?thesis using assms(2) unfolding rrule_fault_None by auto
qed

lemma join_parts_last:
  assumes "ps \<noteq> []" "\<forall>p \<in> set ps. part_ok p"
  shows "join_with '';'' (map part_text ps) \<noteq> [] \<and> \<not> is_space (last (join_with '';'' (map part_text ps)))"
  using assms
proof (induction ps)
  case Nil
  then show ?case by simp
next
  case (Cons p ps)
  have ends: "part_text p \<noteq> [] \<and> \<not> is_space (last (part_text p))"
  proof (cases "snd p = []")
    case True
    then show ?thesis by (simp add: part_text_def is_space_def)
  next
    case False
    then show ?thesis using Cons.prems(2) strip_ends [of "snd p"] by (simp add: part_text_def part_ok_def)
  qed
  then show ?case using Cons by (cases ps) auto
qed

text \<open>The parts of a canonical form: every check passes, and normalising them changes nothing.\<close>

definition canonical_parts :: "(string \<times> string) list \<Rightarrow> bool" where
  "canonical_parts ps =
     (ps \<noteq> [] \<and> (\<forall>p \<in> set ps. part_ok p) \<and> distinct (map fst ps) \<and> rrule_fault ps = None \<and>
      normal_parts ps = ps \<and> ordered_parts ps = ps)"

lemma canonical_starts:
  assumes "canonical_parts ps"
  shows "\<exists>more. join_with '';'' (map part_text ps) = ''FREQ='' @ more"
proof -
  obtain freq where freq: "map_of ps ''FREQ'' = Some freq"
    using assms by (auto simp: canonical_parts_def rrule_fault_None)
  have "ps = ordered_parts ps" using assms by (simp add: canonical_parts_def)
  moreover have "\<exists>tail. ordered_parts ps = (''FREQ'', freq) # tail"
    using freq by (simp add: ordered_parts_def rrule_order_def List.map_filter_simps)
  ultimately obtain tail where "ps = (''FREQ'', freq) # tail" by metis
  then show ?thesis by (cases tail) (auto simp: part_text_def)
qed

lemma canonical_stripped:
  assumes "canonical_parts ps"
  shows "strip (join_with '';'' (map part_text ps)) = join_with '';'' (map part_text ps)"
  by (rule strip_id)
    (use join_parts_last [of ps] canonical_starts [OF assms] assms in \<open>auto simp: is_space_def canonical_parts_def\<close>)

lemma validate_canonical:
  assumes "validate_rrule dateutil_reads rule = Inr canonical"
  obtains ps where "canonical = join_with '';'' (map part_text ps)" "canonical_parts ps"
    "length canonical \<le> max_rule_length" "dateutil_reads canonical"
proof -
  let ?text = "rrule_text rule"
  obtain parts where size: "?text \<noteq> []" "length ?text \<le> max_rule_length"
    and parts: "rrule_parts (split_on (CHR '';'') ?text) [] = Inr parts"
    and fault: "rrule_fault parts = None"
    and canonical: "canonical = join_with '';'' (map part_text (ordered_parts (normal_parts parts)))"
    and reads: "dateutil_reads canonical"
    using assms by (auto simp: validate_rrule_def Let_def sum_simps split: if_splits option.splits)
  let ?np = "normal_parts parts" and ?op = "ordered_parts (normal_parts parts)"
  have P: "\<forall>p \<in> set parts. part_ok p" "distinct (map fst parts)"
      "sum_list (map (length \<circ> part_text) parts) + length parts \<le> Suc (length ?text)"
  proof -
    have "\<forall>p \<in> set (split_on (CHR '';'') ?text). CHR '';'' \<notin> set p" by (intro ballI split_on_no_sep)
    note rrule_parts_ok [OF parts this]
    then show "\<forall>p \<in> set parts. part_ok p" "distinct (map fst parts)"
      "sum_list (map (length \<circ> part_text) parts) + length parts \<le> Suc (length ?text)"
      using split_on_length [of "CHR '';''" ?text] by simp_all
  qed
  have byday: "opt_all byday_ok (map_of parts ''BYDAY'')" using fault by (simp add: rrule_fault_None)
  note N = normal_parts_facts [OF P(1,2) byday]
  have "fst ` set ?np \<subseteq> set rrule_order" using N(1) by (auto simp: part_ok_def)
  note OP = ordered_parts_facts [OF N(2) this]
  have fault': "rrule_fault ?op = None"
    using rrule_fault_normal [OF P(2) fault] unfolding rrule_fault_def OP(3) .
  have "\<forall>p \<in> set ?op. part_ok p" using N(1) OP(1) by blast
  moreover have "map_of ?op ''FREQ'' \<noteq> None" using fault' by (auto simp: rrule_fault_None)
  then have ne: "?op \<noteq> []" by auto
  moreover have "normal_parts ?op = ?op" by (rule normal_parts_id) (use N(3) OP(1) in blast)
  moreover have "ordered_parts ?op = ?op" by (rule ordered_parts_cong [OF OP(3)])
  ultimately have good: "canonical_parts ?op" using OP(2) fault' by (simp add: canonical_parts_def)
  have "length canonical + 1 = sum_list (map (length \<circ> part_text) ?op) + length ?op"
    using join_length [of "map part_text ?op" "CHR '';''"] ne by (simp add: canonical)
  also have "\<dots> = sum_list (map (length \<circ> part_text) ?np) + length ?np"
    using N(2) OP(1,2) by (intro sum_parts) (auto simp: distinct_map)
  also have "\<dots> \<le> Suc (length ?text)" using N(4) P(3) by simp
  finally have "length canonical \<le> max_rule_length" using size(2) by simp
  then show thesis using that [OF canonical good _ reads] by blast
qed

lemma accepted_rule_again:
  assumes "validate_rrule dateutil_reads rule = Inr canonical"
  shows "validate_rrule dateutil_reads canonical = Inr canonical"
proof -
  obtain ps where canonical: "canonical = join_with '';'' (map part_text ps)" and ps: "canonical_parts ps"
    and len: "length canonical \<le> max_rule_length" and reads: "dateutil_reads canonical"
    by (rule validate_canonical [OF assms])
  obtain more where start: "canonical = ''FREQ='' @ more" using canonical_starts [OF ps] canonical by blast
  have same: "rrule_text canonical = canonical"
    using canonical_stripped [OF ps] by (simp add: rrule_text_def start [symmetric] canonical [symmetric])
      (simp add: start upper_def)
  have "split_on (CHR '';'') canonical = map part_text ps"
    unfolding canonical
    by (rule split_on_join)
      (use ps order_key(2) in \<open>fastforce simp: part_ok_def part_text_def canonical_parts_def\<close>)+
  moreover have "rrule_parts (map part_text ps) [] = Inr ps"
    using rrule_parts_canonical [of ps "[]"] ps by (simp add: canonical_parts_def)
  ultimately show ?thesis
    using same len reads start ps
    by (simp add: validate_rrule_def Let_def canonical_parts_def canonical [symmetric])
qed

text \<open>
  C40. A rule once accepted stays accepted.  Whatever recurrence rule \<open>validate_rrule\<close>
  accepts when an event is proposed, its canonical form (what the proposal stores) is accepted
  again, and unchanged, when the event is written: the writer never meets a rule it would refuse, and
  never sends another one.
\<close>

theorem accepted_rule_stays_accepted:
  assumes "validate_rrule dateutil_reads rule = Inr canonical"
  shows "validate_rrule dateutil_reads canonical = Inr canonical"
  by (rule accepted_rule_again [OF assms])

lemma accepted_rule_stays_accepted_witness:
  "validate_rrule (\<lambda>_. True) ''FREQ=DAILY;COUNT=3'' = Inr ''FREQ=DAILY;COUNT=3''"
proof -
  have "validate_rrule (\<lambda>_. True) ''RRULE:count=3;interval=1; freq=daily'' = Inr ''FREQ=DAILY;COUNT=3''"
    by code_simp
  then show ?thesis by (rule accepted_rule_stays_accepted)
qed

end
