(* ===== verification/Calendar_Proposal.thy ===== *)
theory Calendar_Proposal imports Confirmation_Gate Object_Focus Calendar_Ics begin

text \<open>
  Calendar proposals: \<open>calendar/models.py\<close> (\<open>CalendarProposalRow\<close>), the proposing, reading, committing and
  discarding half of \<open>calendar/service.py\<close>, the pending listing of \<open>calendar/routes.py\<close>.  \<open>cal_env\<close> holds what lies
  outside: the provider's two questions, the writer and the cancel policy.  \<open>proposal_ops\<close> is the
  proposal's instance of the confirmed rows.
\<close>

section \<open>The row\<close>

record proposal =
  pr_id :: string
  pr_kind :: string
  pr_event_uid :: "string option"
  pr_summary :: string
  pr_start :: instant
  pr_end :: instant
  pr_location :: "string option"
  pr_rrule :: "string option"
  pr_reminder :: "int option"
  pr_conflicts :: "(string \<times> string) list"
  pr_state :: string
  pr_read_back_at :: "instant option"
  pr_read_back_session_id :: "string option"
  pr_read_back_turn :: "int option"
  pr_confirmed_at :: "instant option"
  pr_confirmed_by :: "string option"
  pr_last_error :: "string option"
  pr_committed_event_uid :: "string option"
  pr_created_at :: instant
  pr_updated_at :: instant

definition proposal_prepared :: string where "proposal_prepared = ''prepared''"
definition proposal_read_back :: string where "proposal_read_back = ''read_back''"
definition proposal_committing :: string where "proposal_committing = ''committing''"
definition proposal_committed :: string where "proposal_committed = ''committed''"
definition proposal_discarded :: string where "proposal_discarded = ''discarded''"

lemmas proposal_states = proposal_prepared_def proposal_read_back_def proposal_committing_def
  proposal_committed_def proposal_discarded_def

definition kind_create :: string where "kind_create = ''create''"
definition kind_reschedule :: string where "kind_reschedule = ''reschedule''"
definition kind_cancel :: string where "kind_cancel = ''cancel''"

definition new_proposal ::
    "string \<Rightarrow> string \<Rightarrow> string option \<Rightarrow> string \<Rightarrow> instant \<Rightarrow> instant \<Rightarrow> string option \<Rightarrow> string option \<Rightarrow> int option \<Rightarrow>
     (string \<times> string) list \<Rightarrow> instant \<Rightarrow> proposal" where
  "new_proposal new_id kind uid summary start until location rrule reminder conflicts now =
     \<lparr>pr_id = new_id, pr_kind = kind, pr_event_uid = uid, pr_summary = summary, pr_start = start,
      pr_end = until, pr_location = location, pr_rrule = rrule, pr_reminder = reminder, pr_conflicts = conflicts,
      pr_state = proposal_prepared, pr_read_back_at = None, pr_read_back_session_id = None,
      pr_read_back_turn = None, pr_confirmed_at = None, pr_confirmed_by = None, pr_last_error = None,
      pr_committed_event_uid = None, pr_created_at = now, pr_updated_at = now\<rparr>"

section \<open>What lies outside\<close>

record proposal_input =
  pi_kind :: string
  pi_event_uid :: "string option"
  pi_summary :: string
  pi_start :: instant
  pi_end :: instant
  pi_location :: "string option"
  pi_rrule :: "string option"
  pi_reminder :: "int option"

datatype writer_call = Create proposal_input | Update string proposal_input | Delete string

record cal_provider =
  cp_events :: "instant \<Rightarrow> instant \<Rightarrow> occurrence list"
  cp_get_event :: "string \<Rightarrow> occurrence option"

record cal_env =
  ce_provider :: "cal_provider option"
  ce_writer :: "(writer_call \<Rightarrow> string + string) option"
  ce_dateutil :: "string \<Rightarrow> bool"
  ce_cancel_policy :: string

definition policy_confirm :: string where "policy_confirm = ''confirm''"

section \<open>Writing one row\<close>

definition proposal_open :: "proposal \<Rightarrow> bool" where
  "proposal_open r = (pr_state r = proposal_prepared \<or> pr_state r = proposal_read_back)"

record proposal_edit =
  pe_start :: "instant option"
  pe_end :: "instant option"
  pe_new_summary :: "string option"

definition six_hours :: instant where "six_hours = seconds 21600"

text \<open>The conflicts of an interval, asked of the provider six hours around it.\<close>

definition conflicts_of :: "(instant \<Rightarrow> instant \<Rightarrow> occurrence list) \<Rightarrow> instant \<Rightarrow> instant \<Rightarrow> string option \<Rightarrow> (string \<times> string) list" where
  "conflicts_of events start until uid =
     find_conflicts (events (start - six_hours) (until + six_hours)) start until uid"

definition edit_proposal_row ::
    "(instant \<Rightarrow> instant \<Rightarrow> occurrence list) option \<Rightarrow> proposal_edit \<Rightarrow> instant \<Rightarrow> proposal \<Rightarrow> proposal option" where
  "edit_proposal_row events e now r =
     (if \<not> proposal_open r then None
      else (let start = (case pe_start e of None \<Rightarrow> pr_start r | Some t \<Rightarrow> t);
                until = (case pe_end e of None \<Rightarrow> pr_end r | Some t \<Rightarrow> t)
            in Some (r\<lparr>pr_start := start, pr_end := until,
                 pr_summary := (case pe_new_summary e of None \<Rightarrow> pr_summary r | Some s \<Rightarrow> s),
                 pr_conflicts := (case events of None \<Rightarrow> [] | Some f \<Rightarrow> conflicts_of f start until (pr_event_uid r)),
                 pr_state := proposal_prepared, pr_read_back_at := None, pr_read_back_session_id := None,
                 pr_read_back_turn := None, pr_updated_at := now\<rparr>)))"

fun read_proposal_row :: "reading \<Rightarrow> instant \<Rightarrow> proposal \<Rightarrow> proposal option" where
  "read_proposal_row (Spoken session turn) now r =
     (if \<not> proposal_open r then None
      else Some (r\<lparr>pr_state := proposal_read_back, pr_read_back_at := Some now,
                   pr_read_back_session_id := session, pr_read_back_turn := turn\<rparr>))"
| "read_proposal_row (Listed owner) now r =
     (if pr_state r \<noteq> proposal_prepared then None
      else Some (r\<lparr>pr_state := proposal_read_back, pr_read_back_at := Some now,
                   pr_read_back_session_id := Some (source_rest @ '':'' @ owner),
                   pr_read_back_turn := None, pr_updated_at := now\<rparr>))"

definition discard_proposal_row :: "instant \<Rightarrow> proposal \<Rightarrow> proposal" where
  "discard_proposal_row now r = r\<lparr>pr_state := proposal_discarded, pr_updated_at := now\<rparr>"

definition proposal_gate :: "proposal \<Rightarrow> confirmation option \<Rightarrow> bool \<Rightarrow> bool \<Rightarrow> gate_reason + unit" where
  "proposal_gate r conf host provider =
     check_gate (pr_state r) proposal_prepared proposal_read_back (pr_read_back_at r)
       (pr_read_back_session_id r) (pr_read_back_turn r) conf host provider"

definition claim_proposal_row :: "confirmation \<Rightarrow> instant \<Rightarrow> proposal \<Rightarrow> proposal option" where
  "claim_proposal_row c now r =
     (if pr_state r = proposal_read_back
      then Some (r\<lparr>pr_state := proposal_committing, pr_confirmed_at := Some now,
                   pr_confirmed_by := Some (confirmed_by_label c), pr_updated_at := now\<rparr>)
      else None)"

definition revert_proposal_row :: "string \<Rightarrow> instant \<Rightarrow> proposal \<Rightarrow> proposal" where
  "revert_proposal_row error now r =
     r\<lparr>pr_state := proposal_read_back, pr_last_error := Some error, pr_updated_at := now\<rparr>"

definition committed_row :: "string \<Rightarrow> instant \<Rightarrow> proposal \<Rightarrow> proposal" where
  "committed_row uid now r =
     r\<lparr>pr_state := proposal_committed, pr_committed_event_uid := Some uid, pr_updated_at := now\<rparr>"

definition proposal_content :: "proposal \<Rightarrow> proposal_input" where
  "proposal_content r = \<lparr>pi_kind = pr_kind r, pi_event_uid = pr_event_uid r, pi_summary = pr_summary r,
     pi_start = pr_start r, pi_end = pr_end r, pi_location = pr_location r, pi_rrule = pr_rrule r,
     pi_reminder = pr_reminder r\<rparr>"

text \<open>Which method of the writer a proposal calls; an empty uid is falsy.\<close>

definition writer_call_of :: "proposal_input \<Rightarrow> writer_call" where
  "writer_call_of i =
     (case pi_event_uid i of
        None \<Rightarrow> Create i
      | Some uid \<Rightarrow>
          if pi_kind i = kind_cancel \<and> uid \<noteq> [] then Delete uid
          else if pi_kind i = kind_reschedule \<and> uid \<noteq> [] then Update uid i
          else Create i)"

text \<open>The flush of a proposal object: the columns that differ from the loaded row are written.\<close>

definition store_proposal :: "proposal \<Rightarrow> proposal \<Rightarrow> proposal \<Rightarrow> proposal" where
  "store_proposal old new row =
     \<lparr>pr_id = flushed (pr_id old) (pr_id new) (pr_id row),
      pr_kind = flushed (pr_kind old) (pr_kind new) (pr_kind row),
      pr_event_uid = flushed (pr_event_uid old) (pr_event_uid new) (pr_event_uid row),
      pr_summary = flushed (pr_summary old) (pr_summary new) (pr_summary row),
      pr_start = flushed (pr_start old) (pr_start new) (pr_start row),
      pr_end = flushed (pr_end old) (pr_end new) (pr_end row),
      pr_location = flushed (pr_location old) (pr_location new) (pr_location row),
      pr_rrule = flushed (pr_rrule old) (pr_rrule new) (pr_rrule row),
      pr_reminder = flushed (pr_reminder old) (pr_reminder new) (pr_reminder row),
      pr_conflicts = flushed (pr_conflicts old) (pr_conflicts new) (pr_conflicts row),
      pr_state = flushed (pr_state old) (pr_state new) (pr_state row),
      pr_read_back_at = flushed (pr_read_back_at old) (pr_read_back_at new) (pr_read_back_at row),
      pr_read_back_session_id =
        flushed (pr_read_back_session_id old) (pr_read_back_session_id new) (pr_read_back_session_id row),
      pr_read_back_turn = flushed (pr_read_back_turn old) (pr_read_back_turn new) (pr_read_back_turn row),
      pr_confirmed_at = flushed (pr_confirmed_at old) (pr_confirmed_at new) (pr_confirmed_at row),
      pr_confirmed_by = flushed (pr_confirmed_by old) (pr_confirmed_by new) (pr_confirmed_by row),
      pr_last_error = flushed (pr_last_error old) (pr_last_error new) (pr_last_error row),
      pr_committed_event_uid =
        flushed (pr_committed_event_uid old) (pr_committed_event_uid new) (pr_committed_event_uid row),
      pr_created_at = flushed (pr_created_at old) (pr_created_at new) (pr_created_at row),
      pr_updated_at = flushed (pr_updated_at old) (pr_updated_at new) (pr_updated_at row)\<rparr>"

definition proposal_ops ::
    "(proposal, (instant \<Rightarrow> instant \<Rightarrow> occurrence list) option \<times> proposal_edit, proposal_input) row_ops" where
  "proposal_ops = \<lparr>ro_state = pr_state, ro_session = pr_read_back_session_id, ro_turn = pr_read_back_turn,
     ro_gate = proposal_gate, ro_edit = (\<lambda>e. edit_proposal_row (fst e) (snd e)), ro_read_back = read_proposal_row,
     ro_discard = discard_proposal_row, ro_claim = claim_proposal_row,
     ro_payload = proposal_content, ro_revert = revert_proposal_row, ro_finish = committed_row,
     ro_store = store_proposal\<rparr>"

lemma store_proposal_unchanged: "store_proposal r r' r = r'"
  by (rule proposal.equality) (simp_all add: store_proposal_def flushed_def)

lemma store_proposal_state [simp]:
  "pr_state (store_proposal old new row) = flushed (pr_state old) (pr_state new) (pr_state row)"
  by (simp add: store_proposal_def)

lemma store_proposal_content:
  "proposal_content new = proposal_content old \<Longrightarrow> proposal_content (store_proposal old new row) = proposal_content row"
  by (simp add: proposal_content_def store_proposal_def flushed_def)

lemma proposal_gate_Inr:
  "proposal_gate r (Some c) host provider = Inr u \<longleftrightarrow>
     provider \<and> host \<and> pr_state r = proposal_read_back \<and> pr_read_back_at r \<noteq> None \<and>
     owners_word (pr_read_back_session_id r) (pr_read_back_turn r) c"
  by (auto simp: proposal_gate_def check_gate_Inr proposal_states)

interpretation plan: confirmed_rows proposal_ops proposal_prepared proposal_read_back proposal_committing
  proposal_committed proposal_discarded
proof unfold_locales
  show "distinct [proposal_prepared, proposal_read_back, proposal_committing, proposal_committed, proposal_discarded]"
    by (simp add: proposal_states)
  show "ro_read_back proposal_ops a t r = Some r' \<Longrightarrow>
      ro_state proposal_ops r \<in> {proposal_prepared, proposal_read_back} \<and> ro_state proposal_ops r' = proposal_read_back"
    for a t r r' by (cases a) (auto simp: proposal_ops_def proposal_open_def split: if_splits)
  show "ro_payload proposal_ops r' = ro_payload proposal_ops r \<Longrightarrow>
      ro_payload proposal_ops (ro_store proposal_ops r r' q) = ro_payload proposal_ops q" for r r' q
    by (simp add: proposal_ops_def store_proposal_content)
qed (auto simp: proposal_ops_def proposal_gate_Inr edit_proposal_row_def proposal_open_def discard_proposal_row_def
  claim_proposal_row_def revert_proposal_row_def committed_row_def proposal_content_def Let_def
  store_proposal_unchanged split: if_splits)

section \<open>The database\<close>

text \<open>\<open>cdb_index\<close>: the UIDs of the rows of the event index.\<close>

record cal_db =
  cdb_proposals :: "proposal list"
  cdb_focus :: "focus_row list"
  cdb_index :: "string list"

definition focus_proposal :: "proposal \<Rightarrow> int \<Rightarrow> instant \<Rightarrow> cal_db \<Rightarrow> cal_db" where
  "focus_proposal r fid now db =
     db\<lparr>cdb_focus := (case set_focus ''proposal'' (pr_id r) (pr_summary r) ''calendar_propose'' fid now (cdb_focus db) of
                        None \<Rightarrow> cdb_focus db | Some rows \<Rightarrow> rows)\<rparr>"

definition current_proposal :: "cal_db \<Rightarrow> proposal option" where
  "current_proposal db =
     (case focus_current ''proposal'' (cdb_focus db) of
        None \<Rightarrow> None
      | Some e \<Rightarrow> row_get pr_id (fr_object e) (cdb_proposals db))"

definition current_event :: "cal_db \<Rightarrow> string option" where
  "current_event db = map_option fr_object (focus_current ''event'' (cdb_focus db))"

definition put_proposal :: "proposal \<Rightarrow> cal_db \<Rightarrow> cal_db" where
  "put_proposal r db = db\<lparr>cdb_proposals := row_put pr_id (pr_id r) (\<lambda>_. r) (cdb_proposals db)\<rparr>"

definition add_proposal :: "proposal \<Rightarrow> int \<Rightarrow> instant \<Rightarrow> cal_db \<Rightarrow> cal_db" where
  "add_proposal r fid now db = focus_proposal r fid now (db\<lparr>cdb_proposals := cdb_proposals db @ [r]\<rparr>)"

section \<open>Proposing\<close>

definition reminder_ok :: "int option \<Rightarrow> bool" where
  "reminder_ok reminder = (case reminder of None \<Rightarrow> True | Some m \<Rightarrow> 0 \<le> m \<and> m \<le> 7 * 24 * 60)"

definition checked_rule :: "cal_env \<Rightarrow> string option \<Rightarrow> rrule_error + string option" where
  "checked_rule env rrule =
     (case rrule of
        None \<Rightarrow> Inr None
      | Some r \<Rightarrow> if r = [] then Inr None else bind_sum (validate_rrule (ce_dateutil env) r) (\<lambda>c. Inr (Some c)))"

record event_request =
  er_summary :: string
  er_start :: instant
  er_end :: instant
  er_location :: "string option"
  er_rrule :: "string option"
  er_reminder :: "int option"

definition propose :: "cal_env \<Rightarrow> event_request \<Rightarrow> string \<Rightarrow> int \<Rightarrow> instant \<Rightarrow> cal_db \<Rightarrow> answer \<times> cal_db" where
  "propose env q new_id fid now db =
     (case ce_provider env of
        None \<Rightarrow> (refused ''calendar.propose'' ''read'' ''account_missing'', db)
      | Some p \<Rightarrow>
          (case checked_rule env (er_rrule q) of
             Inl _ \<Rightarrow> (refused ''calendar.propose'' ''prepared'' ''invalid_recurrence'', db)
           | Inr rule \<Rightarrow>
               if \<not> reminder_ok (er_reminder q)
               then (refused ''calendar.propose'' ''prepared'' ''invalid_recurrence'', db)
               else (executed ''calendar.propose'' ''prepared'',
                     add_proposal (new_proposal new_id kind_create None (er_summary q) (er_start q) (er_end q)
                         (er_location q) rule (er_reminder q)
                         (conflicts_of (cp_events p) (er_start q) (er_end q) None) now) fid now db)))"

definition propose_reschedule ::
    "cal_env \<Rightarrow> int \<Rightarrow> string option \<Rightarrow> string \<Rightarrow> int \<Rightarrow> instant \<Rightarrow> cal_db \<Rightarrow> answer \<times> cal_db" where
  "propose_reschedule env minutes_delta event_uid new_id fid now db =
     (case ce_provider env of
        None \<Rightarrow> (refused ''calendar.propose'' ''read'' ''account_missing'', db)
      | Some p \<Rightarrow>
          (case (if event_uid = None \<or> event_uid = Some [] then current_event db else event_uid) of
             None \<Rightarrow> (Needs_clarification, db)
           | Some uid \<Rightarrow>
               (case cp_get_event p uid of
                  None \<Rightarrow> (Needs_clarification, db)
                | Some x \<Rightarrow>
                    if oc_recurring x then (refused ''calendar.propose'' ''prepared'' ''recurring_series'', db)
                    else (let start = oc_start x + seconds (60 * minutes_delta);
                              until = oc_end x + seconds (60 * minutes_delta)
                          in (executed ''calendar.propose'' ''prepared'',
                              add_proposal (new_proposal new_id kind_reschedule (Some uid) (oc_summary x) start until
                                  None None (case oc_reminders x of [] \<Rightarrow> None | m # _ \<Rightarrow> Some m)
                                  (conflicts_of (cp_events p) start until (Some uid)) now) fid now db)))))"

definition propose_cancel :: "occurrence \<Rightarrow> string \<Rightarrow> int \<Rightarrow> instant \<Rightarrow> cal_db \<Rightarrow> answer \<times> cal_db" where
  "propose_cancel x new_id fid now db =
     (if oc_recurring x then (refused ''calendar.cancel'' ''prepared'' ''recurring_series'', db)
      else (executed ''calendar.cancel'' ''prepared'',
            add_proposal (new_proposal new_id kind_cancel (Some (oc_uid x)) (oc_summary x) (oc_start x) (oc_end x)
                None None None [] now) fid now db))"

definition cancel_event :: "cal_env \<Rightarrow> string option \<Rightarrow> string \<Rightarrow> int \<Rightarrow> instant \<Rightarrow> cal_db \<Rightarrow> answer \<times> cal_db" where
  "cancel_event env event_uid new_id fid now db =
     (case ce_provider env of
        None \<Rightarrow> (refused ''calendar.cancel'' ''read'' ''account_missing'', db)
      | Some p \<Rightarrow>
          (case (if event_uid = None \<or> event_uid = Some [] then current_event db else event_uid) of
             None \<Rightarrow> (Needs_clarification, db)
           | Some uid \<Rightarrow>
               (case cp_get_event p uid of
                  Some x \<Rightarrow>
                    if ce_cancel_policy env = policy_confirm then propose_cancel x new_id fid now db
                    else (refused ''calendar.cancel'' ''cancelled'' ''deletion_not_permitted'', db)
                | None \<Rightarrow> (refused ''calendar.cancel'' ''cancelled'' ''deletion_not_permitted'', db))))"

section \<open>Editing, reading, committing, discarding\<close>

definition edit_proposal :: "cal_env \<Rightarrow> proposal_edit \<Rightarrow> int \<Rightarrow> instant \<Rightarrow> cal_db \<Rightarrow> answer \<times> cal_db" where
  "edit_proposal env e fid now db =
     (case current_proposal db of
        None \<Rightarrow> (Needs_clarification, db)
      | Some r \<Rightarrow>
          (case edit_proposal_row (map_option cp_events (ce_provider env)) e now r of
             None \<Rightarrow> (Needs_clarification, db)
           | Some r' \<Rightarrow> (executed ''calendar.edit_proposal'' ''prepared'', focus_proposal r' fid now (put_proposal r' db))))"

definition read_proposal :: "string option \<Rightarrow> int option \<Rightarrow> instant \<Rightarrow> cal_db \<Rightarrow> answer \<times> cal_db" where
  "read_proposal session turn now db =
     (case current_proposal db of
        None \<Rightarrow> (Needs_clarification, db)
      | Some r \<Rightarrow>
          (case read_proposal_row (Spoken session turn) now r of
             None \<Rightarrow> (Needs_clarification, db)
           | Some r' \<Rightarrow> (executed ''calendar.read_proposal'' ''read'', put_proposal r' db)))"

definition list_pending_proposals :: "string \<Rightarrow> instant \<Rightarrow> cal_db \<Rightarrow> cal_db" where
  "list_pending_proposals owner now db =
     db\<lparr>cdb_proposals := map (\<lambda>r. case read_proposal_row (Listed owner) now r of None \<Rightarrow> r | Some r' \<Rightarrow> r')
        (cdb_proposals db)\<rparr>"

definition target_proposal :: "string option \<Rightarrow> cal_db \<Rightarrow> proposal option" where
  "target_proposal proposal_id db =
     (case proposal_id of
        None \<Rightarrow> current_proposal db
      | Some i \<Rightarrow> if i = [] then current_proposal db else row_get pr_id i (cdb_proposals db))"

text \<open>The uid a committed proposal records: the writer's answer, or the event's own uid after a delete.\<close>

definition committed_uid :: "writer_call \<Rightarrow> string \<Rightarrow> string" where
  "committed_uid call answer = (case call of Delete uid \<Rightarrow> uid | _ \<Rightarrow> answer)"

definition forget_event :: "proposal \<Rightarrow> cal_db \<Rightarrow> cal_db" where
  "forget_event r db =
     (case pr_event_uid r of
        None \<Rightarrow> db
      | Some uid \<Rightarrow>
          if pr_kind r = kind_cancel \<and> uid \<noteq> []
          then db\<lparr>cdb_index := filter (\<lambda>u. u \<noteq> uid) (cdb_index db)\<rparr> else db)"

definition commit ::
    "cal_env \<Rightarrow> string option \<Rightarrow> bool \<Rightarrow> confirmation option \<Rightarrow> instant \<Rightarrow> instant \<Rightarrow> cal_db \<Rightarrow>
     answer \<times> cal_db \<times> writer_call list" where
  "commit env proposal_id host confirmation now failed_at db =
     (case target_proposal proposal_id db of
        None \<Rightarrow> (Needs_clarification, db, [])
      | Some r \<Rightarrow>
          (case proposal_gate r confirmation host (ce_provider env \<noteq> None) of
             Inl reason \<Rightarrow> (refused ''calendar.commit'' ''committed'' (gate_code reason), db, [])
           | Inr _ \<Rightarrow>
               (case (ce_writer env, confirmation) of
                  (Some writer, Some c) \<Rightarrow>
                    (case claim_proposal_row c now r of
                       None \<Rightarrow> (refused ''calendar.commit'' ''committed'' (gate_code Already_sent), db, [])
                     | Some claimed \<Rightarrow>
                         (let call = writer_call_of (proposal_content claimed)
                          in case writer call of
                               Inl error \<Rightarrow>
                                 (failed ''calendar.commit'' ''committed'' ''commit_failed'',
                                  put_proposal (revert_proposal_row error failed_at claimed) db, [call])
                             | Inr answer \<Rightarrow>
                                 (executed ''calendar.commit'' ''committed'',
                                  forget_event claimed
                                    (put_proposal (committed_row (committed_uid call answer) now claimed) db), [call])))
                | _ \<Rightarrow> (refused ''calendar.commit'' ''committed'' (gate_code Send_disabled), db, []))))"

definition discard_proposal :: "string option \<Rightarrow> instant \<Rightarrow> cal_db \<Rightarrow> answer \<times> cal_db" where
  "discard_proposal proposal_id now db =
     (case target_proposal proposal_id db of
        None \<Rightarrow> (Needs_clarification, db)
      | Some r \<Rightarrow> (executed ''calendar.discard'' ''discarded'', put_proposal (discard_proposal_row now r) db))"

text \<open>
  The owner's standing decision: the voice tool that proposed reads the proposal back and commits it in the
  same turn, when the turn was the owner's own request to propose.
\<close>

definition owner_policy_confirmation :: "string \<Rightarrow> int option \<Rightarrow> string \<Rightarrow> confirmation" where
  "owner_policy_confirmation session turn intent =
     \<lparr>cf_source = source_owner_policy, cf_session = session, cf_turn = turn,
      cf_owner_intent_ok = (intent = ''calendar_propose'')\<rparr>"

section \<open>The requests of the calendar surfaces\<close>

definition commit_on_first_word ::
    "cal_env \<Rightarrow> bool \<Rightarrow> string \<Rightarrow> int option \<Rightarrow> string \<Rightarrow> instant \<Rightarrow> instant \<Rightarrow> answer \<times> cal_db \<Rightarrow>
     answer \<times> cal_db \<times> writer_call list" where
  "commit_on_first_word env host session turn intent now failed_at proposed =
     (let (answer, db) = proposed
      in if answer \<noteq> executed ''calendar.propose'' ''prepared'' \<and> answer \<noteq> executed ''calendar.cancel'' ''prepared''
         then (answer, db, [])
         else (let (read, db1) = read_proposal (Some session) turn now db
               in if read = Needs_clarification then (answer, db1, [])
                  else (let (committed, db2, calls) =
                          commit env None host (Some (owner_policy_confirmation session turn intent)) now failed_at db1
                        in case committed of
                             Receipt rc \<Rightarrow>
                               if rc_execution rc = ''executed'' then (committed, db2, calls)
                               else if rc_error rc = Some (gate_code Account_missing) \<or>
                                       rc_error rc = Some (gate_code Send_disabled)
                               then (answer, db2, calls) else (committed, db2, calls)
                           | Needs_clarification \<Rightarrow> (committed, db2, calls))))"

datatype cal_request =
    Propose event_request string int instant
  | Propose_at_once event_request string int bool string "int option" string instant instant
  | Reschedule int "string option" string int instant
  | Cancel "string option" string int instant
  | Edit_proposal proposal_edit int instant
  | Read_proposal "string option" "int option" instant
  | List_proposals string instant
  | Commit "string option" bool "confirmation option" instant instant
  | Discard_proposal "string option" instant

fun cal_step :: "cal_env \<Rightarrow> cal_request \<Rightarrow> cal_db \<Rightarrow> cal_db \<times> writer_call list" where
  "cal_step env (Propose q i fid now) db = (snd (propose env q i fid now db), [])"
| "cal_step env (Propose_at_once q i fid host session turn intent now failed_at) db =
     snd (commit_on_first_word env host session turn intent now failed_at (propose env q i fid now db))"
| "cal_step env (Reschedule delta uid i fid now) db = (snd (propose_reschedule env delta uid i fid now db), [])"
| "cal_step env (Cancel uid i fid now) db = (snd (cancel_event env uid i fid now db), [])"
| "cal_step env (Edit_proposal e fid now) db = (snd (edit_proposal env e fid now db), [])"
| "cal_step env (Read_proposal session turn now) db = (snd (read_proposal session turn now db), [])"
| "cal_step env (List_proposals owner now) db = (list_pending_proposals owner now db, [])"
| "cal_step env (Commit pid host c now failed_at) db = snd (commit env pid host c now failed_at db)"
| "cal_step env (Discard_proposal pid now) db = (snd (discard_proposal pid now db), [])"

fun cal_run :: "cal_env \<Rightarrow> cal_request list \<Rightarrow> cal_db \<Rightarrow> cal_db \<times> writer_call list" where
  "cal_run env [] db = (db, [])"
| "cal_run env (q # qs) db =
     (let (db1, calls) = cal_step env q db; (db2, more) = cal_run env qs db1 in (db2, calls @ more))"

section \<open>What may reach the calendar\<close>

definition rule_writable :: "cal_env \<Rightarrow> string option \<Rightarrow> bool" where
  "rule_writable env rule = (case rule of None \<Rightarrow> True | Some r \<Rightarrow> validate_rrule (ce_dateutil env) r = Inr r)"

definition permitted_row :: "cal_env \<Rightarrow> proposal \<Rightarrow> bool" where
  "permitted_row env r =
     (rule_writable env (pr_rrule r) \<and> (pr_kind r = kind_cancel \<longrightarrow> ce_cancel_policy env = policy_confirm))"

fun permitted_call :: "cal_env \<Rightarrow> writer_call \<Rightarrow> bool" where
  "permitted_call env (Create i) = rule_writable env (pi_rrule i)"
| "permitted_call env (Update uid i) = rule_writable env (pi_rrule i)"
| "permitted_call env (Delete uid) = (ce_cancel_policy env = policy_confirm)"

definition permitted_db :: "cal_env \<Rightarrow> cal_db \<Rightarrow> bool" where
  "permitted_db env db = (\<forall>r \<in> set (cdb_proposals db). permitted_row env r)"

lemma permitted_put: "permitted_db env db \<Longrightarrow> permitted_row env r \<Longrightarrow> permitted_db env (put_proposal r db)"
  by (auto simp: permitted_db_def put_proposal_def set_row_put)

lemma permitted_add: "permitted_db env db \<Longrightarrow> permitted_row env r \<Longrightarrow> permitted_db env (add_proposal r fid now db)"
  by (auto simp: permitted_db_def add_proposal_def focus_proposal_def)

lemma permitted_focus: "permitted_db env db \<Longrightarrow> permitted_db env (focus_proposal r fid now db)"
  by (simp add: permitted_db_def focus_proposal_def)

lemma permitted_forget: "permitted_db env db \<Longrightarrow> permitted_db env (forget_event r db)"
  by (simp add: permitted_db_def forget_event_def split: option.split)

lemma permitted_current: "permitted_db env db \<Longrightarrow> current_proposal db = Some r \<Longrightarrow> permitted_row env r"
  by (auto simp: permitted_db_def current_proposal_def split: option.splits dest!: row_get_SomeD)

lemma permitted_target: "permitted_db env db \<Longrightarrow> target_proposal pid db = Some r \<Longrightarrow> permitted_row env r"
  using permitted_current [of env db r]
  by (auto simp: permitted_db_def target_proposal_def split: option.splits if_splits dest!: row_get_SomeD)

lemma permitted_read: "permitted_row env r \<Longrightarrow> read_proposal_row a now r = Some r' \<Longrightarrow> permitted_row env r'"
  by (cases a) (auto simp: permitted_row_def split: if_splits)

lemma permitted_edit: "permitted_row env r \<Longrightarrow> edit_proposal_row f e now r = Some r' \<Longrightarrow> permitted_row env r'"
  by (auto simp: permitted_row_def edit_proposal_row_def Let_def split: if_splits)

lemma permitted_new:
  "rule_writable env rule \<Longrightarrow> (kind = kind_cancel \<Longrightarrow> ce_cancel_policy env = policy_confirm) \<Longrightarrow>
   permitted_row env (new_proposal i kind uid s a b l rule m cs now)"
  by (simp add: permitted_row_def new_proposal_def)

lemma checked_rule_writable: "checked_rule env rrule = Inr rule \<Longrightarrow> rule_writable env rule"
  by (auto simp: checked_rule_def rule_writable_def sum_simps split: option.splits if_splits
      dest: accepted_rule_again)

lemma kinds_differ: "kind_create \<noteq> kind_cancel" "kind_reschedule \<noteq> kind_cancel"
  by (simp_all add: kind_create_def kind_reschedule_def kind_cancel_def)

lemma permitted_propose: "permitted_db env db \<Longrightarrow> permitted_db env (snd (propose env q i fid now db))"
  using checked_rule_writable kinds_differ
  by (auto simp: propose_def intro!: permitted_add permitted_new split: option.split sum.split)

lemma permitted_read_proposal:
  assumes "permitted_db env db"
  shows "permitted_db env (snd (read_proposal s n now db))"
proof -
  have "permitted_row env r'" if "current_proposal db = Some r" "read_proposal_row (Spoken s n) now r = Some r'" for r r'
    by (rule permitted_read [OF permitted_current [OF assms that(1)] that(2)])
  then show ?thesis using assms
    by (simp add: read_proposal_def permitted_put del: read_proposal_row.simps split: option.split)
qed

lemma permitted_content: "permitted_row env r \<Longrightarrow> permitted_call env (writer_call_of (proposal_content r))"
  by (auto simp: permitted_row_def writer_call_of_def proposal_content_def split: option.split)

lemma permitted_written:
  assumes "permitted_row env r"
  shows "permitted_row env (discard_proposal_row now r)" "permitted_row env (revert_proposal_row e now r)"
    "permitted_row env (committed_row u now r)" "claim_proposal_row c now r = Some r' \<Longrightarrow> permitted_row env r'"
  using assms by (auto simp: permitted_row_def discard_proposal_row_def revert_proposal_row_def committed_row_def
      claim_proposal_row_def split: if_splits)

lemma permitted_commit:
  assumes "permitted_db env db"
  shows "permitted_db env (fst (snd (commit env pid host c now failed_at db))) \<and>
    (\<forall>call \<in> set (snd (snd (commit env pid host c now failed_at db))). permitted_call env call)"
proof (cases "target_proposal pid db")
  case None
  then show ?thesis using assms by (simp add: commit_def)
next
  case (Some r)
  note ok = permitted_written(4) [OF permitted_target [OF assms Some]]
  show ?thesis
    using assms Some permitted_content [OF ok] permitted_written(2,3) [OF ok]
    by (auto simp: commit_def Let_def intro!: permitted_put permitted_forget split: option.split sum.split)
qed

lemma permitted_step:
  assumes "permitted_db env db"
  shows "permitted_db env (fst (cal_step env q db)) \<and> (\<forall>call \<in> set (snd (cal_step env q db)). permitted_call env call)"
proof (cases q)
  case (Propose e i fid now)
  then show ?thesis using permitted_propose [OF assms] by simp
next
  case (Propose_at_once e i fid host session turn intent now failed_at)
  obtain a db1 where p: "propose env e i fid now db = (a, db1)" by (cases "propose env e i fid now db") auto
  then have db1: "permitted_db env db1" using permitted_propose [OF assms, of e i fid now] by simp
  obtain r db2 where r: "read_proposal (Some session) turn now db1 = (r, db2)"
    by (cases "read_proposal (Some session) turn now db1") auto
  then have db2: "permitted_db env db2" using permitted_read_proposal [OF db1, of "Some session" turn now] by simp
  obtain c db3 calls where c: "commit env None host (Some (owner_policy_confirmation session turn intent)) now failed_at db2 =
      (c, db3, calls)" by (rule prod_cases3)
  then have "permitted_db env db3 \<and> (\<forall>call \<in> set calls. permitted_call env call)"
    using permitted_commit [OF db2, of None host "Some (owner_policy_confirmation session turn intent)" now failed_at] by simp
  then show ?thesis using Propose_at_once p r c db1 db2
    by (simp add: commit_on_first_word_def split: answer.split)
next
  case (Reschedule delta uid i fid now)
  then show ?thesis using assms kinds_differ
    by (auto simp: propose_reschedule_def Let_def rule_writable_def intro!: permitted_add permitted_new split: option.split)
next
  case (Cancel uid i fid now)
  then show ?thesis using assms
    by (auto simp: cancel_event_def propose_cancel_def rule_writable_def intro!: permitted_add permitted_new
        split: option.split)
next
  case (Edit_proposal e fid now)
  then show ?thesis using assms permitted_current [OF assms] permitted_edit
    by (auto simp: edit_proposal_def intro!: permitted_focus permitted_put split: option.split)
next
  case (Read_proposal session turn now)
  then show ?thesis using permitted_read_proposal [OF assms] by simp
next
  case (List_proposals owner now)
  then show ?thesis using assms permitted_read
    by (auto simp: list_pending_proposals_def permitted_db_def simp del: read_proposal_row.simps split: option.split)
next
  case (Commit pid host c now failed_at)
  then show ?thesis using permitted_commit [OF assms] by simp
next
  case (Discard_proposal pid now)
  have "permitted_row env (discard_proposal_row now r)" if "target_proposal pid db = Some r" for r
    using permitted_written(1) [OF permitted_target [OF assms that]] .
  then show ?thesis using assms Discard_proposal
    by (auto simp: discard_proposal_def intro!: permitted_put split: option.split)
qed

text \<open>
  C33. What the calendar is asked to do is what policy permits.  Whatever requests are made, in any order, from an
  empty table: an event is only ever deleted while the cancel policy is "confirm", and every rule sent to the
  writer is one that \<open>validate_rrule\<close> accepts as it stands, so a commit is never lost to a rule the writer refuses.
\<close>

theorem calendar_calls_permitted:
  "\<forall>call \<in> set (snd (cal_run env qs \<lparr>cdb_proposals = [], cdb_focus = fs, cdb_index = is\<rparr>)). permitted_call env call"
proof -
  have "permitted_db env db \<Longrightarrow> \<forall>call \<in> set (snd (cal_run env qs db)). permitted_call env call" for db
  proof (induction qs arbitrary: db)
    case Nil
    then show ?case by simp
  next
    case (Cons q qs)
    then show ?case using permitted_step [OF Cons.prems, of q] Cons.IH [of "fst (cal_step env q db)"]
      by (auto simp: split_beta Let_def)
  qed
  from this [of "\<lparr>cdb_proposals = [], cdb_focus = fs, cdb_index = is\<rparr>"] show ?thesis by (simp add: permitted_db_def)
qed

definition sample_cal_env :: cal_env where
  "sample_cal_env = \<lparr>ce_provider = Some \<lparr>cp_events = (\<lambda>_ _. []), cp_get_event = (\<lambda>_. None)\<rparr>,
     ce_writer = Some (\<lambda>_. Inr ''e1''), ce_dateutil = (\<lambda>_. True), ce_cancel_policy = policy_confirm\<rparr>"

lemma calendar_calls_permitted_witness:
  "\<exists>i. snd (cal_run sample_cal_env
       [Propose \<lparr>er_summary = ''tea'', er_start = 0, er_end = 3600, er_location = None,
          er_rrule = Some ''FREQ=DAILY;COUNT=3'', er_reminder = None\<rparr> ''p1'' 1 0,
        Read_proposal (Some ''s'') (Some 3) 1, Commit (Some ''p1'') True (Some (rest_confirmation ''o'')) 2 3]
       \<lparr>cdb_proposals = [], cdb_focus = [], cdb_index = []\<rparr>) = [i] \<and> permitted_call sample_cal_env i"
proof -
  let ?qs = "[Propose \<lparr>er_summary = ''tea'', er_start = 0, er_end = 3600, er_location = None,
          er_rrule = Some ''FREQ=DAILY;COUNT=3'', er_reminder = None\<rparr> ''p1'' 1 0,
        Read_proposal (Some ''s'') (Some 3) 1, Commit (Some ''p1'') True (Some (rest_confirmation ''o'')) 2 3]"
  let ?db = "\<lparr>cdb_proposals = [], cdb_focus = [], cdb_index = []\<rparr>"
  have "length (snd (cal_run sample_cal_env ?qs ?db)) = 1" by code_simp
  then obtain i where "snd (cal_run sample_cal_env ?qs ?db) = [i]" by (auto simp: length_Suc_conv)
  then show ?thesis using calendar_calls_permitted [of sample_cal_env ?qs "[]" "[]"] by auto
qed

section \<open>What a read-back presents\<close>

text \<open>
  The phrases of the spoken read-back, without the Turkish words: which phrase, and the numbers and names in it.
  The rule of a row is one \<open>validate_rrule\<close> made, so an interval is a number.
\<close>

datatype said_freq =
    Every_weekday
  | Every_day nat
  | Every_week nat "string list"
  | Every_month nat
  | Every_year
  | Repeating

definition phrase_parts :: "string \<Rightarrow> string \<Rightarrow> string option" where
  "phrase_parts rrule = map_of (rev (List.map_filter (split_once (CHR ''='')) (split_on (CHR '';'') rrule)))"

definition phrase_part :: "string \<Rightarrow> string \<Rightarrow> string" where
  "phrase_part rrule key = (case phrase_parts rrule key of None \<Rightarrow> [] | Some v \<Rightarrow> v)"

definition recurrence_phrase :: "string option \<Rightarrow> (said_freq \<times> string option) option" where
  "recurrence_phrase rrule =
     (case rrule of
        None \<Rightarrow> None
      | Some rule \<Rightarrow>
          if rule = [] then None
          else (let part = phrase_part rule; freq = part ''FREQ'';
                    interval = (if part ''INTERVAL'' = [] then 1 else int_of_digits (part ''INTERVAL''));
                    days = filter (\<lambda>d. d \<noteq> []) (split_on (CHR '','') (part ''BYDAY''))
                in Some
                     (if freq = ''WEEKLY'' \<and> days = [''MO'', ''TU'', ''WE'', ''TH'', ''FR''] then Every_weekday
                      else if freq = ''DAILY'' then Every_day interval
                      else if freq = ''WEEKLY'' then Every_week interval days
                      else if freq = ''MONTHLY'' then Every_month interval
                      else if freq = ''YEARLY'' then Every_year
                      else Repeating,
                      if part ''COUNT'' = [] then None else Some (part ''COUNT''))))"

datatype said_reminder = At_the_start | Days_before int | Hours_before int | Minutes_before int

definition reminder_phrase :: "int option \<Rightarrow> said_reminder option" where
  "reminder_phrase minutes =
     map_option (\<lambda>m. if m = 0 then At_the_start
       else if m mod 1440 = 0 then Days_before (m div 1440)
       else if m mod 60 = 0 then Hours_before (m div 60) else Minutes_before m) minutes"

text \<open>The question put to the owner; of the times it says the minutes, and of the end not the day.\<close>

datatype speech =
    Ask_to_delete string instant
  | Ask_to_write bool string instant instant "(said_freq \<times> string option) option" "said_reminder option" "string list"

definition proposal_speech :: "proposal \<Rightarrow> speech" where
  "proposal_speech r =
     (if pr_kind r = kind_cancel then Ask_to_delete (pr_summary r) (pr_start r)
      else Ask_to_write (pr_kind r = kind_reschedule) (pr_summary r) (pr_start r) (pr_end r)
             (recurrence_phrase (pr_rrule r)) (reminder_phrase (pr_reminder r)) (map snd (pr_conflicts r)))"

text \<open>The Cockpit's listing.\<close>

definition listed_view ::
    "proposal \<Rightarrow> string \<times> string option \<times> string \<times> instant \<times> instant \<times> string option \<times> (string \<times> string) list" where
  "listed_view r =
     (pr_kind r, pr_event_uid r, pr_summary r, pr_start r, pr_end r, pr_location r, pr_conflicts r)"

section \<open>Committing under the owner's word\<close>

lemma proposal_ops_simps [simp]:
  "ro_state proposal_ops = pr_state" "ro_session proposal_ops = pr_read_back_session_id"
  "ro_turn proposal_ops = pr_read_back_turn" "ro_gate proposal_ops = proposal_gate"
  "ro_edit proposal_ops = (\<lambda>e. edit_proposal_row (fst e) (snd e))" "ro_read_back proposal_ops = read_proposal_row"
  "ro_discard proposal_ops = discard_proposal_row" "ro_claim proposal_ops = claim_proposal_row"
  "ro_payload proposal_ops = proposal_content" "ro_revert proposal_ops = revert_proposal_row"
  "ro_finish proposal_ops = committed_row" "ro_store proposal_ops = store_proposal"
  by (simp_all add: proposal_ops_def)

text \<open>
  C32. A calendar is changed once, on the owner's word.  However a proposal is edited, read back, listed,
  discarded and confirmed, with every load and every write a step of its own, each call of the writer is made
  under a confirmation that is the Cockpit's, the owner's standing policy in the very session of the read-back, or a
  voice turn of that session strictly later than it; and the calls that succeed, with the confirmations still past
  their claim, are at most one more than the edits and read-backs that wrote over a row changed since they loaded
  it.  Without such a write, what the writer is given is the content of the proposal as it stood when it was last
  read back, and after a success no other call is made.  What is presented of that content is \<open>proposal_speech\<close> or
  \<open>listed_view\<close>, and neither is all of it (\<open>read_backs_leave_out\<close>).
\<close>

theorem calendar_changes_once_on_owners_word:
  assumes "pr_state r = proposal_prepared"
  shows "(\<forall>k \<in> set (w_calls (run_events proposal_ops es (new_world r))).
      pr_state (k_gate_row k) = proposal_read_back \<and>
      owners_word (pr_read_back_session_id (k_gate_row k)) (pr_read_back_turn (k_gate_row k)) (k_confirmation k)) \<and>
    length (filter (\<lambda>q. busy (snd q)) (w_requests (run_events proposal_ops es (new_world r)))) +
      w_succeeded (run_events proposal_ops es (new_world r)) \<le> 1 + w_stale (run_events proposal_ops es (new_world r)) \<and>
    (w_stale (run_events proposal_ops es (new_world r)) = 0 \<longrightarrow>
      (\<forall>k \<in> set (w_calls (run_events proposal_ops es (new_world r))).
         \<exists>a q. k_read k = Some (a, q) \<and> proposal_content q = k_payload k)) \<and>
    (w_succeeded (run_events proposal_ops es (new_world r)) \<noteq> 0 \<longrightarrow>
      w_stale (run_events proposal_ops (es @ fs) (new_world r)) = 0 \<longrightarrow>
      w_calls (run_events proposal_ops (es @ fs) (new_world r)) = w_calls (run_events proposal_ops es (new_world r)))"
proof (intro conjI ballI impI)
  fix k
  assume call: "k \<in> set (w_calls (run_events proposal_ops es (new_world r)))"
  show "pr_state (k_gate_row k) = proposal_read_back"
    "owners_word (pr_read_back_session_id (k_gate_row k)) (pr_read_back_turn (k_gate_row k)) (k_confirmation k)"
    using plan.calls_worded [OF call] by (simp_all add: plan.word_ok_def)
  show "\<exists>a q. k_read k = Some (a, q) \<and> proposal_content q = k_payload k"
    if "w_stale (run_events proposal_ops es (new_world r)) = 0"
    using plan.calls_read [OF _ that call] assms by (simp add: plan.was_read_def)
next
  show "length (filter (\<lambda>q. busy (snd q)) (w_requests (run_events proposal_ops es (new_world r)))) +
      w_succeeded (run_events proposal_ops es (new_world r)) \<le> 1 + w_stale (run_events proposal_ops es (new_world r))"
    by (rule plan.successes_counted)
next
  assume "w_succeeded (run_events proposal_ops es (new_world r)) \<noteq> 0"
    "w_stale (run_events proposal_ops (es @ fs) (new_world r)) = 0"
  then show "w_calls (run_events proposal_ops (es @ fs) (new_world r)) = w_calls (run_events proposal_ops es (new_world r))"
    by (rule plan.no_call_once_done)
qed

definition sample_proposal :: proposal where
  "sample_proposal = new_proposal ''p1'' kind_create None ''tea'' 0 (seconds 3600) (Some ''home'') None None [] 0"

definition sample_word :: "('e) row_event list" where
  "sample_word = [Load 0 (Read_back (Spoken (Some ''s'') (Some 3))), Write 0 1,
     Begin 0 (owner_policy_confirmation ''s'' (Some 3) ''calendar_propose'') True True, Claim 0 2, Call_provider 0,
     Succeed 0 ''e1'' 4]"

definition sample_plan_run ::
    "((instant \<Rightarrow> instant \<Rightarrow> occurrence list) option \<times> proposal_edit) row_event list \<Rightarrow>
     (proposal, (instant \<Rightarrow> instant \<Rightarrow> occurrence list) option \<times> proposal_edit, proposal_input) row_world" where
  "sample_plan_run es = run_events proposal_ops es (new_world sample_proposal)"

lemma sample_plan_succeeds: "w_succeeded (sample_plan_run sample_word) = 1"
  by code_simp

lemma sample_plan_calm:
  "w_stale (sample_plan_run (sample_word @ [Load 1 (Read_back (Listed ''o'')), Write 1 9])) = 0"
  by code_simp

lemma calendar_changes_once_on_owners_word_witness:
  "w_succeeded (run_events proposal_ops sample_word (new_world sample_proposal)) = 1 \<and>
   w_calls (run_events proposal_ops (sample_word @ [Load 1 (Read_back (Listed ''o'')), Write 1 9]) (new_world sample_proposal)) =
     w_calls (run_events proposal_ops sample_word (new_world sample_proposal))"
proof -
  have one: "w_succeeded (run_events proposal_ops sample_word (new_world sample_proposal)) = 1"
    using sample_plan_succeeds by (simp add: sample_plan_run_def)
  moreover have "w_stale (run_events proposal_ops (sample_word @ [Load 1 (Read_back (Listed ''o'')), Write 1 9])
      (new_world sample_proposal)) = 0"
    using sample_plan_calm by (simp add: sample_plan_run_def)
  ultimately show ?thesis
    using calendar_changes_once_on_owners_word
      [of sample_proposal sample_word "[Load 1 (Read_back (Listed ''o'')), Write 1 9]"]
    by (simp add: sample_proposal_def new_proposal_def)
qed

section \<open>What the code allows\<close>

text \<open>A reschedule writes the whole event, without the place it had.\<close>

lemma reschedule_drops_location:
  assumes "propose_reschedule env delta uid i fid now db = (a, db')" "r \<in> set (cdb_proposals db')"
    "r \<notin> set (cdb_proposals db)"
  shows "pi_location (proposal_content r) = None"
  using assms
  by (auto simp: propose_reschedule_def Let_def add_proposal_def focus_proposal_def new_proposal_def proposal_content_def
      refused_def executed_def split: option.splits if_splits)

text \<open>
  What the read-backs leave out: the spoken one the place, the end of a series, the interval of a yearly rule and
  of one on all weekdays; the Cockpit's the rule and the reminder.  Each of these reaches the writer.
\<close>

lemma read_backs_leave_out:
  "proposal_speech (sample_proposal\<lparr>pr_location := Some ''elsewhere''\<rparr>) = proposal_speech sample_proposal"
  "recurrence_phrase (Some ''FREQ=DAILY;UNTIL=20300101'') = recurrence_phrase (Some ''FREQ=DAILY'')"
  "recurrence_phrase (Some ''FREQ=YEARLY;INTERVAL=4'') = recurrence_phrase (Some ''FREQ=YEARLY'')"
  "recurrence_phrase (Some ''FREQ=WEEKLY;INTERVAL=2;BYDAY=MO,TU,WE,TH,FR'') = recurrence_phrase (Some ''FREQ=WEEKLY;BYDAY=MO,TU,WE,TH,FR'')"
  "listed_view (sample_proposal\<lparr>pr_rrule := Some ''FREQ=DAILY''\<rparr>) = listed_view sample_proposal"
  "listed_view (sample_proposal\<lparr>pr_reminder := Some 5\<rparr>) = listed_view sample_proposal"
  by (simp add: proposal_speech_def) (code_simp, code_simp, code_simp, simp_all add: listed_view_def)

lemma content_left_out:
  "proposal_content (sample_proposal\<lparr>pr_location := Some ''elsewhere''\<rparr>) \<noteq> proposal_content sample_proposal"
  "proposal_content (sample_proposal\<lparr>pr_rrule := Some ''FREQ=DAILY''\<rparr>) \<noteq> proposal_content sample_proposal"
  "proposal_content (sample_proposal\<lparr>pr_reminder := Some 5\<rparr>) \<noteq> proposal_content sample_proposal"
  by (simp_all add: proposal_content_def sample_proposal_def new_proposal_def)

text \<open>
  The provider is asked for conflicts between the load and the write of an edit.  A proposal that is read back
  meanwhile keeps the read-back (an edit writes what it changed, and the state it loaded was prepared): the
  calendar is given a title nobody heard.  And a listing that loaded the proposal before it was committed puts it
  back, and it is committed twice.
\<close>

definition other_title :: proposal_edit where
  "other_title = \<lparr>pe_start = None, pe_end = None, pe_new_summary = Some ''other''\<rparr>"

lemma stale_edit_commits_unread_content:
  "map (\<lambda>k. (pi_summary (k_payload k), map_option (\<lambda>p. pr_summary (snd p)) (k_read k)))
     (w_calls (sample_plan_run
       [Load 1 (Edit (None, other_title)), Load 0 (Read_back (Spoken (Some ''s'') (Some 3))), Write 0 1, Write 1 2,
        Begin 0 (rest_confirmation ''o'') True True, Claim 0 3, Call_provider 0])) = [(''other'', Some ''tea'')]"
  by code_simp

lemma stale_listing_commits_twice:
  "w_succeeded (sample_plan_run ([Load 1 (Read_back (Listed ''o''))] @ sample_word @
     [Write 1 5, Begin 1 (rest_confirmation ''o'') True True, Claim 1 6, Call_provider 1, Succeed 1 ''e2'' 7])) = 2"
  by code_simp

text \<open>A committed proposal can still be discarded: the row says discarded, the event stands.\<close>

lemma committed_proposal_can_be_discarded:
  "pr_state (discard_proposal_row now (committed_row uid t r)) = proposal_discarded"
  by (simp add: discard_proposal_row_def)

end
