(* ===== verification/Calendar_Text.thy ===== *)
theory Calendar_Text imports Calendar_Ics begin

text \<open>
  Reading and writing iCalendar text, the other half of \<open>calendar/ics.py\<close>: unfolding, escaping, dates,
  reminders, \<open>parse_calendar\<close> as a machine over the lines, and \<open>build_vevent\<close>.  A raised exception is
  \<open>None\<close>.  \<open>datetime\<close> is a civil date and time with its zone; \<open>strptime\<close> is modelled after the
  regular expressions of the standard library, alternatives in their order.  Whether the system knows a zone is an
  argument.
\<close>

section \<open>Lines\<close>

definition cr :: char where "cr = CHR 0x0D"
definition lf :: char where "lf = CHR 0x0A"
definition backslash :: char where "backslash = CHR 0x5C"

fun replace_crlf :: "string \<Rightarrow> string" where
  "replace_crlf (a # b # s) = (if a = cr \<and> b = lf then lf # replace_crlf s else a # replace_crlf (b # s))"
| "replace_crlf s = s"

fun unfold_loop :: "string list \<Rightarrow> string list \<Rightarrow> string list" where
  "unfold_loop lines [] = rev lines"
| "unfold_loop lines (line # raw) =
     (case (line, lines) of
        (c # rest, l # ls) \<Rightarrow>
          if c = CHR '' '' \<or> c = CHR 0x09 then unfold_loop ((l @ rest) # ls) raw
          else if strip line = [] then unfold_loop lines raw
          else unfold_loop (line # lines) raw
      | _ \<Rightarrow> if strip line = [] then unfold_loop lines raw else unfold_loop (line # lines) raw)"

definition unfold :: "string \<Rightarrow> string list" where
  "unfold text = unfold_loop [] (split_on lf (map (\<lambda>c. if c = cr then lf else c) (replace_crlf text)))"

fun unescape :: "string \<Rightarrow> string" where
  "unescape (c # n # s) =
     (if c = backslash then (if n = CHR ''n'' \<or> n = CHR ''N'' then lf else n) # unescape s
      else c # unescape (n # s))"
| "unescape s = s"

definition replace_char :: "char \<Rightarrow> string \<Rightarrow> string \<Rightarrow> string" where
  "replace_char c w s = concat (map (\<lambda>x. if x = c then w else [x]) s)"

definition escape :: "string \<Rightarrow> string" where
  "escape s =
     replace_char lf [backslash, CHR ''n'']
       (replace_char (CHR '','') [backslash, CHR '','']
         (replace_char (CHR '';'') [backslash, CHR '';'']
           (replace_char backslash [backslash, backslash] s)))"

text \<open>Name, parameters (a later one first) and value of a line.\<close>

definition split_prop :: "string \<Rightarrow> string \<times> (string \<times> string) list \<times> string" where
  "split_prop line =
     (case split_once (CHR '':'') line of
        None \<Rightarrow> (map upper (strip line), [], [])
      | Some (head, val) \<Rightarrow>
          (let parts = split_on (CHR '';'') head
           in (map upper (strip (hd parts)),
               rev (List.map_filter (\<lambda>p. map_option (\<lambda>(k, v). (map upper (strip k), strip v))
                       (split_once (CHR ''='') p)) (tl parts)),
               strip val)))"

section \<open>Dates\<close>

record civil =
  cv_year :: nat
  cv_month :: nat
  cv_day :: nat
  cv_hour :: nat
  cv_minute :: nat
  cv_second :: nat

datatype zone = Utc | Zone string

type_synonym datetime = "civil \<times> zone"

datatype zone_lookup = Zone_known | Zone_missing | Zone_malformed

definition default_timezone :: string where "default_timezone = ''Europe/Istanbul''"

definition leap_year :: "nat \<Rightarrow> bool" where
  "leap_year y = (y mod 4 = 0 \<and> (y mod 100 \<noteq> 0 \<or> y mod 400 = 0))"

definition days_in_month :: "nat \<Rightarrow> nat \<Rightarrow> nat" where
  "days_in_month y m =
     (if m = 2 then (if leap_year y then 29 else 28) else if m \<in> {4, 6, 9, 11} then 30 else 31)"

definition civil_ok :: "civil \<Rightarrow> bool" where
  "civil_ok c = (1 \<le> cv_year c \<and> cv_year c \<le> 9999 \<and> 1 \<le> cv_month c \<and> cv_month c \<le> 12 \<and>
     1 \<le> cv_day c \<and> cv_day c \<le> days_in_month (cv_year c) (cv_month c) \<and>
     cv_hour c \<le> 23 \<and> cv_minute c \<le> 59 \<and> cv_second c \<le> 59)"

text \<open>A regular expression for one field: alternatives, each one class of characters per position.\<close>

datatype directive = Field "(char \<Rightarrow> bool) list list" | Literal char

definition between :: "char \<Rightarrow> char \<Rightarrow> char \<Rightarrow> bool" where
  "between a b c = ((of_char a :: nat) \<le> of_char c \<and> (of_char c :: nat) \<le> of_char b)"

definition exactly :: "char \<Rightarrow> char \<Rightarrow> bool" where "exactly a c = (c = a)"

definition year_field :: directive where
  "year_field = Field [[is_digit, is_digit, is_digit, is_digit]]"
definition month_field :: directive where
  "month_field = Field [[exactly (CHR ''1''), between (CHR ''0'') (CHR ''2'')],
     [exactly (CHR ''0''), between (CHR ''1'') (CHR ''9'')], [between (CHR ''1'') (CHR ''9'')]]"
definition day_field :: directive where
  "day_field = Field [[exactly (CHR ''3''), between (CHR ''0'') (CHR ''1'')],
     [between (CHR ''1'') (CHR ''2''), is_digit], [exactly (CHR ''0''), between (CHR ''1'') (CHR ''9'')],
     [between (CHR ''1'') (CHR ''9'')], [exactly (CHR '' ''), between (CHR ''1'') (CHR ''9'')]]"
definition hour_field :: directive where
  "hour_field = Field [[exactly (CHR ''2''), between (CHR ''0'') (CHR ''3'')],
     [between (CHR ''0'') (CHR ''1''), is_digit], [is_digit]]"
definition minute_field :: directive where
  "minute_field = Field [[between (CHR ''0'') (CHR ''5''), is_digit], [is_digit]]"
definition second_field :: directive where
  "second_field = Field [[exactly (CHR ''6''), between (CHR ''0'') (CHR ''1'')],
     [between (CHR ''0'') (CHR ''5''), is_digit], [is_digit]]"

fun match_classes :: "(char \<Rightarrow> bool) list \<Rightarrow> string \<Rightarrow> (string \<times> string) option" where
  "match_classes [] s = Some ([], s)"
| "match_classes (p # ps) [] = None"
| "match_classes (p # ps) (c # s) =
     (if p c then map_option (\<lambda>(m, rest). (c # m, rest)) (match_classes ps s) else None)"

text \<open>All ways to match a format against a prefix, in the order a backtracking matcher tries them.\<close>

fun match_format :: "directive list \<Rightarrow> string \<Rightarrow> (nat list \<times> string) list" where
  "match_format [] s = [([], s)]"
| "match_format (Literal c # ds) s =
     (case s of [] \<Rightarrow> [] | x # rest \<Rightarrow> if upper x = upper c then match_format ds rest else [])"
| "match_format (Field alts # ds) s =
     concat (map (\<lambda>classes. case match_classes classes s of
         None \<Rightarrow> []
       | Some (m, rest) \<Rightarrow>
           map (\<lambda>(vs, r). (int_of_digits (filter is_digit m) # vs, r)) (match_format ds rest)) alts)"

definition strptime :: "directive list \<Rightarrow> string \<Rightarrow> civil option" where
  "strptime fmt s =
     (case match_format fmt s of
        (vs, []) # _ \<Rightarrow>
          (let f = (\<lambda>i. if i < length vs then vs ! i else 0);
               c = \<lparr>cv_year = f 0, cv_month = f 1, cv_day = f 2, cv_hour = f 3, cv_minute = f 4, cv_second = f 5\<rparr>
           in if civil_ok c then Some c else None)
      | _ \<Rightarrow> None)"

definition date_format :: "directive list" where
  "date_format = [year_field, month_field, day_field]"

definition datetime_format :: "directive list" where
  "datetime_format = date_format @ [Literal (CHR ''T''), hour_field, minute_field, second_field]"

definition zone_named :: "(string \<Rightarrow> zone_lookup) \<Rightarrow> string \<Rightarrow> zone option" where
  "zone_named zones tzid =
     (case zones tzid of
        Zone_known \<Rightarrow> Some (Zone tzid)
      | Zone_missing \<Rightarrow> Some (Zone default_timezone)
      | Zone_malformed \<Rightarrow> None)"

definition parse_datetime ::
    "(string \<Rightarrow> zone_lookup) \<Rightarrow> string \<Rightarrow> (string \<times> string) list \<Rightarrow> (datetime \<times> bool) option" where
  "parse_datetime zones val params =
     (if map_of params ''VALUE'' = Some ''DATE'' \<or> length val = 8 \<and> CHR ''T'' \<notin> set val
      then Option.bind (strptime date_format val) (\<lambda>c.
             map_option (\<lambda>z. ((c, z), True)) (zone_named zones default_timezone))
      else if val \<noteq> [] \<and> last val = CHR ''Z''
      then map_option (\<lambda>c. ((c, Utc), False)) (strptime datetime_format (butlast val))
      else Option.bind (strptime datetime_format val) (\<lambda>c.
             map_option (\<lambda>z. ((c, z), False))
               (zone_named zones (case map_of params ''TZID'' of None \<Rightarrow> default_timezone | Some t \<Rightarrow> t))))"

text \<open>\<open>dtstart + timedelta(days=1)\<close> and \<open>(hours=1)\<close>: wall-clock arithmetic in the event's own zone;
  \<open>None\<close> is \<open>OverflowError\<close> past the year 9999.\<close>

definition next_day :: "civil \<Rightarrow> civil option" where
  "next_day c =
     (if cv_day c < days_in_month (cv_year c) (cv_month c) then Some (c\<lparr>cv_day := cv_day c + 1\<rparr>)
      else if cv_month c < 12 then Some (c\<lparr>cv_day := 1, cv_month := cv_month c + 1\<rparr>)
      else if cv_year c < 9999 then Some (c\<lparr>cv_day := 1, cv_month := 1, cv_year := cv_year c + 1\<rparr>)
      else None)"

definition next_hour :: "civil \<Rightarrow> civil option" where
  "next_hour c =
     (if cv_hour c < 23 then Some (c\<lparr>cv_hour := cv_hour c + 1\<rparr>)
      else map_option (\<lambda>d. d\<lparr>cv_hour := 0\<rparr>) (next_day c))"

section \<open>Reminders\<close>

definition max_reminder_minutes :: nat where "max_reminder_minutes = 7 * 24 * 60"
definition max_alarms_per_event :: nat where "max_alarms_per_event = 5"

definition opt_unit :: "char \<Rightarrow> string \<Rightarrow> nat \<times> string" where
  "opt_unit u s =
     (let ds = takeWhile is_digit s; rest = dropWhile is_digit s
      in if ds \<noteq> [] \<and> rest \<noteq> [] \<and> hd rest = u then (int_of_digits ds, tl rest) else (0, s))"

text \<open>The sign and the five numbers of a trigger, when the whole text matches.\<close>

definition match_trigger :: "string \<Rightarrow> (char option \<times> nat \<times> nat \<times> nat \<times> nat \<times> nat) option" where
  "match_trigger s =
     (let (sign, s1) = (case s of c # r \<Rightarrow> if c = CHR ''+'' \<or> c = CHR ''-'' then (Some c, r) else (None, s) | [] \<Rightarrow> (None, s))
      in case s1 of
           [] \<Rightarrow> None
         | p # s2 \<Rightarrow>
             if p \<noteq> CHR ''P'' then None
             else (let (w, s3) = opt_unit (CHR ''W'') s2; (d, s4) = opt_unit (CHR ''D'') s3
                   in case s4 of
                        [] \<Rightarrow> Some (sign, w, d, 0, 0, 0)
                      | t # s5 \<Rightarrow>
                          if t \<noteq> CHR ''T'' then None
                          else (let (h, s6) = opt_unit (CHR ''H'') s5; (m, s7) = opt_unit (CHR ''M'') s6;
                                    (sec, s8) = opt_unit (CHR ''S'') s7
                                in if s8 = [] then Some (sign, w, d, h, m, sec) else None)))"

definition parse_trigger_minutes :: "string \<Rightarrow> (string \<times> string) list \<Rightarrow> nat option" where
  "parse_trigger_minutes val params =
     (if map upper (case map_of params ''VALUE'' of None \<Rightarrow> [] | Some v \<Rightarrow> v) = ''DATE-TIME'' then None
      else if map upper (case map_of params ''RELATED'' of None \<Rightarrow> ''START'' | Some v \<Rightarrow> v) \<noteq> ''START'' then None
      else (case match_trigger (map upper (strip val)) of
              None \<Rightarrow> None
            | Some (sign, w, d, h, m, sec) \<Rightarrow>
                (let total = w * 7 * 1440 + d * 1440 + h * 60 + m + sec div 60
                 in if sign \<noteq> Some (CHR ''-'') \<and> 0 < total then None
                    else if total \<le> max_reminder_minutes then Some total else None)))"

section \<open>The parser\<close>

record 'd vevent =
  ve_uid :: string
  ve_summary :: string
  ve_dtstart :: 'd
  ve_dtend :: 'd
  ve_all_day :: bool
  ve_rrule :: "string option"
  ve_exdates :: "'d list"
  ve_location :: "string option"
  ve_alarms :: "nat list"

text \<open>\<open>cur\<close>: what the lines of one VEVENT have given so far.\<close>

record partial_event =
  pe_uid :: "string option"
  pe_summary :: "string option"
  pe_location :: "string option"
  pe_dtstart :: "(datetime \<times> bool) option"
  pe_dtend :: "(datetime \<times> bool) option"
  pe_rrule :: "string option"

definition no_fields :: partial_event where
  "no_fields = \<lparr>pe_uid = None, pe_summary = None, pe_location = None, pe_dtstart = None, pe_dtend = None,
     pe_rrule = None\<rparr>"

record parse_state =
  ps_events :: "datetime vevent list"
  ps_cur :: "partial_event option"
  ps_exdates :: "datetime list"
  ps_alarms :: "nat list"
  ps_in_vevent :: bool
  ps_in_vtimezone :: bool
  ps_in_valarm :: bool

definition parse_start :: parse_state where
  "parse_start = \<lparr>ps_events = [], ps_cur = None, ps_exdates = [], ps_alarms = [], ps_in_vevent = False,
     ps_in_vtimezone = False, ps_in_valarm = False\<rparr>"

text \<open>The event at \<open>END:VEVENT\<close>; \<open>Some None\<close> when a UID or a start is missing.\<close>

definition finish_event :: "parse_state \<Rightarrow> datetime vevent option option" where
  "finish_event st =
     (case ps_cur st of
        None \<Rightarrow> Some None
      | Some cur \<Rightarrow>
          (case (pe_uid cur, pe_dtstart cur) of
             (Some uid, Some (dtstart, all_day)) \<Rightarrow>
               (let dtend = (case pe_dtend cur of
                      Some (d, _) \<Rightarrow> Some d
                    | None \<Rightarrow> map_option (\<lambda>c. (c, snd dtstart))
                        (if all_day then next_day (fst dtstart) else next_hour (fst dtstart)))
                in map_option (\<lambda>d. Some
                     \<lparr>ve_uid = uid, ve_summary = (case pe_summary cur of None \<Rightarrow> [] | Some s \<Rightarrow> s),
                      ve_dtstart = dtstart, ve_dtend = d, ve_all_day = all_day, ve_rrule = pe_rrule cur,
                      ve_exdates = ps_exdates st, ve_location = pe_location cur,
                      ve_alarms = sort (ps_alarms st)\<rparr>) dtend)
           | _ \<Rightarrow> Some None))"

fun parse_exdates ::
    "(string \<Rightarrow> zone_lookup) \<Rightarrow> (string \<times> string) list \<Rightarrow> string list \<Rightarrow> datetime list option" where
  "parse_exdates zones params [] = Some []"
| "parse_exdates zones params (piece # pieces) =
     (if piece = [] then parse_exdates zones params pieces
      else Option.bind (parse_datetime zones piece params) (\<lambda>(d, _).
             map_option (\<lambda>ds. d # ds) (parse_exdates zones params pieces)))"

definition set_field ::
    "(string \<Rightarrow> zone_lookup) \<Rightarrow> string \<Rightarrow> (string \<times> string) list \<Rightarrow> string \<Rightarrow> partial_event \<Rightarrow> parse_state \<Rightarrow>
     parse_state option" where
  "set_field zones name params val cur st =
     (if name = ''UID'' then Some (st\<lparr>ps_cur := Some (cur\<lparr>pe_uid := Some val\<rparr>)\<rparr>)
      else if name = ''SUMMARY'' then Some (st\<lparr>ps_cur := Some (cur\<lparr>pe_summary := Some (unescape val)\<rparr>)\<rparr>)
      else if name = ''LOCATION'' then Some (st\<lparr>ps_cur := Some (cur\<lparr>pe_location := Some (unescape val)\<rparr>)\<rparr>)
      else if name = ''DTSTART''
      then map_option (\<lambda>d. st\<lparr>ps_cur := Some (cur\<lparr>pe_dtstart := Some d\<rparr>)\<rparr>) (parse_datetime zones val params)
      else if name = ''DTEND''
      then map_option (\<lambda>d. st\<lparr>ps_cur := Some (cur\<lparr>pe_dtend := Some d\<rparr>)\<rparr>) (parse_datetime zones val params)
      else if name = ''RRULE'' then Some (st\<lparr>ps_cur := Some (cur\<lparr>pe_rrule := Some val\<rparr>)\<rparr>)
      else if name = ''EXDATE''
      then map_option (\<lambda>ds. st\<lparr>ps_exdates := ps_exdates st @ ds\<rparr>)
             (parse_exdates zones params (split_on (CHR '','') val))
      else Some st)"

definition note_alarm :: "string \<Rightarrow> (string \<times> string) list \<Rightarrow> parse_state \<Rightarrow> parse_state" where
  "note_alarm val params st =
     (case parse_trigger_minutes val params of
        None \<Rightarrow> st
      | Some m \<Rightarrow>
          if m \<notin> set (ps_alarms st) \<and> length (ps_alarms st) < max_alarms_per_event
          then st\<lparr>ps_alarms := ps_alarms st @ [m]\<rparr> else st)"

text \<open>One turn of the loop over the lines.\<close>

definition parse_line :: "(string \<Rightarrow> zone_lookup) \<Rightarrow> string \<Rightarrow> parse_state \<Rightarrow> parse_state option" where
  "parse_line zones line st =
     (let (name, params, val) = split_prop line
      in if name = ''BEGIN'' \<and> val = ''VEVENT''
         then Some (st\<lparr>ps_in_vevent := True, ps_cur := Some no_fields, ps_exdates := [], ps_alarms := [],
                      ps_in_valarm := False\<rparr>)
         else if ps_in_vevent st \<and> name = ''BEGIN'' \<and> val = ''VALARM'' then Some (st\<lparr>ps_in_valarm := True\<rparr>)
         else if ps_in_valarm st
         then (if name = ''END'' \<and> val = ''VALARM'' then Some (st\<lparr>ps_in_valarm := False\<rparr>)
               else if name = ''TRIGGER'' then Some (note_alarm val params st) else Some st)
         else if name = ''BEGIN'' \<and> val = ''VTIMEZONE'' then Some (st\<lparr>ps_in_vtimezone := True\<rparr>)
         else if name = ''END'' \<and> val = ''VTIMEZONE'' then Some (st\<lparr>ps_in_vtimezone := False\<rparr>)
         else if ps_in_vtimezone st then Some st
         else if name = ''END'' \<and> val = ''VEVENT''
         then map_option (\<lambda>ev. (st\<lparr>ps_in_vevent := False, ps_cur := None,
                ps_events := ps_events st @ (case ev of None \<Rightarrow> [] | Some v \<Rightarrow> [v])\<rparr>)) (finish_event st)
         else (case ps_cur st of
                 None \<Rightarrow> Some st
               | Some cur \<Rightarrow> if \<not> ps_in_vevent st then Some st else set_field zones name params val cur st))"

fun parse_lines :: "(string \<Rightarrow> zone_lookup) \<Rightarrow> string list \<Rightarrow> parse_state \<Rightarrow> parse_state option" where
  "parse_lines zones [] st = Some st"
| "parse_lines zones (line # lines) st = Option.bind (parse_line zones line st) (parse_lines zones lines)"

definition parse_calendar :: "(string \<Rightarrow> zone_lookup) \<Rightarrow> string \<Rightarrow> datetime vevent list option" where
  "parse_calendar zones text = map_option ps_events (parse_lines zones (unfold text) parse_start)"

section \<open>The document of a new event\<close>

definition pad2 :: "nat \<Rightarrow> string" where
  "pad2 n = [char_of (48 + n div 10), char_of (48 + n mod 10)]"

text \<open>\<open>strftime\<close> of a UTC instant; the year unpadded.\<close>

definition format_utc :: "civil \<Rightarrow> string" where
  "format_utc c = show_nat (cv_year c) @ pad2 (cv_month c) @ pad2 (cv_day c) @ ''T'' @ pad2 (cv_hour c) @
     pad2 (cv_minute c) @ pad2 (cv_second c) @ ''Z''"

definition rrule_lines :: "(string \<Rightarrow> bool) \<Rightarrow> string option \<Rightarrow> rrule_error + string list" where
  "rrule_lines dateutil_reads rrule =
     (case rrule of
        None \<Rightarrow> Inr []
      | Some r \<Rightarrow> if r = [] then Inr [] else bind_sum (validate_rrule dateutil_reads r) (\<lambda>c. Inr [''RRULE:'' @ c]))"

definition alarm_lines :: "string \<Rightarrow> int option \<Rightarrow> rrule_error + string list" where
  "alarm_lines summary reminder =
     (case reminder of
        None \<Rightarrow> Inr []
      | Some m \<Rightarrow>
          if m < 0 \<or> m > int max_reminder_minutes then Inl Reminder_range
          else Inr [''BEGIN:VALARM'', ''ACTION:DISPLAY'', ''DESCRIPTION:'' @ escape summary,
                    ''TRIGGER:-PT'' @ show_int m @ ''M'', ''END:VALARM''])"

definition location_lines :: "string option \<Rightarrow> string list" where
  "location_lines location =
     (case location of None \<Rightarrow> [] | Some l \<Rightarrow> if l = [] then [] else [''LOCATION:'' @ escape l])"

definition build_vevent ::
    "(string \<Rightarrow> bool) \<Rightarrow> civil \<Rightarrow> string \<Rightarrow> string \<Rightarrow> civil \<Rightarrow> civil \<Rightarrow> string option \<Rightarrow> string option \<Rightarrow> int option \<Rightarrow>
     rrule_error + string" where
  "build_vevent dateutil_reads now uid summary start until location rrule reminder =
     bind_sum (rrule_lines dateutil_reads rrule) (\<lambda>rule.
     bind_sum (alarm_lines summary reminder) (\<lambda>alarm.
       Inr (join_with [cr, lf]
         ([''BEGIN:VCALENDAR'', ''VERSION:2.0'', ''PRODID:-//PagentOS//M21//TR'', ''BEGIN:VEVENT'',
           ''UID:'' @ escape uid, ''DTSTAMP:'' @ format_utc now, ''DTSTART:'' @ format_utc start,
           ''DTEND:'' @ format_utc until, ''SUMMARY:'' @ escape summary] @
          location_lines location @ rule @ alarm @ [''END:VEVENT'', ''END:VCALENDAR'', []]))))"

section \<open>Escaping\<close>

fun escape_char :: "char \<Rightarrow> string" where
  "escape_char c =
     (if c = backslash \<or> c = CHR '';'' \<or> c = CHR '','' then [backslash, c]
      else if c = lf then [backslash, CHR ''n''] else [c])"

lemma escape_chars: "escape s = concat (map escape_char s)"
  by (induction s) (auto simp: escape_def replace_char_def backslash_def lf_def)

lemma unescape_char: "unescape (escape_char c @ s) = c # unescape s"
proof (cases "c = backslash \<or> c = CHR '';'' \<or> c = CHR '','' \<or> c = lf")
  case True
  then show ?thesis by (auto simp: backslash_def lf_def)
next
  case False
  then show ?thesis by (cases s) auto
qed

lemma unescape_escape [simp]: "unescape (escape s) = s"
  unfolding escape_chars by (induction s) (simp_all del: escape_char.simps add: unescape_char)

lemma escape_no_newline: "lf \<notin> set (escape s)" "cr \<notin> set s \<Longrightarrow> cr \<notin> set (escape s)"
  unfolding escape_chars by (auto simp: backslash_def lf_def cr_def)

section \<open>Digits\<close>

lemma pad2_digits: "pad2 n = [digit (n div 10), digit (n mod 10)]"
  by (simp add: pad2_def digit_def)

lemma show_year:
  assumes "1000 \<le> y" "y \<le> 9999"
  shows "show_nat y = [digit (y div 1000), digit (y div 100 mod 10), digit (y div 10 mod 10), digit (y mod 10)]"
proof -
  have "y div 1000 < 10" using assms by (simp add: less_mult_imp_div_less)
  then have "show_nat (y div 1000) = [digit (y div 1000)]" by (subst show_nat_step) simp
  then have "show_nat (y div 100) = [digit (y div 1000), digit (y div 100 mod 10)]"
    using assms by (subst show_nat_step) (simp add: div_mult2_eq [symmetric])
  then have "show_nat (y div 10) = [digit (y div 1000), digit (y div 100 mod 10), digit (y div 10 mod 10)]"
    using assms by (subst show_nat_step) (simp add: div_mult2_eq [symmetric])
  then show ?thesis using assms by (subst show_nat_step) simp
qed

section \<open>A date written is read back\<close>

lemma between_digit: "d < 10 \<Longrightarrow> between a b (digit d) \<longleftrightarrow> (of_char a :: nat) \<le> 48 + d \<and> 48 + d \<le> (of_char b :: nat)"
  by (simp add: between_def)

lemma exactly_digit: "d < 10 \<Longrightarrow> exactly a (digit d) \<longleftrightarrow> (of_char a :: nat) = 48 + d"
  by (metis digit_code exactly_def of_char_eq_iff)

lemma two_digits: "v < 100 \<Longrightarrow> int_of_digits (filter is_digit (pad2 v)) = v"
  by (simp add: pad2_digits int_of_digits_def)

lemma filter_pad2: "v < 100 \<Longrightarrow> filter is_digit (pad2 v) = pad2 v"
  by (simp add: pad2_digits)

definition first_match :: "nat \<Rightarrow> directive \<Rightarrow> bool" where
  "first_match v f = (\<forall>ds s. \<exists>others. match_format (f # ds) (pad2 v @ s) =
     map (\<lambda>(vs, r). (v # vs, r)) (match_format ds s) @ others)"

lemma pad2_split: "v < 100 \<Longrightarrow> \<exists>a b. v = 10 * a + b \<and> a < 10 \<and> b < 10 \<and> pad2 v = [digit a, digit b]"
  by (intro exI [of _ "v div 10"] exI [of _ "v mod 10"]) (simp add: pad2_digits)

lemma field_matches:
  "1 \<le> v \<Longrightarrow> v \<le> 12 \<Longrightarrow> first_match v month_field"
  "1 \<le> v \<Longrightarrow> v \<le> 31 \<Longrightarrow> first_match v day_field"
  "v \<le> 23 \<Longrightarrow> first_match v hour_field"
  "v \<le> 59 \<Longrightarrow> first_match v minute_field"
  "v \<le> 59 \<Longrightarrow> first_match v second_field"
proof -
  have val: "int_of_digits [digit a, digit b] = 10 * a + b" if "a < 10" "b < 10" for a b
    using that by (simp add: int_of_digits_def)
  note facts = first_match_def month_field_def day_field_def hour_field_def minute_field_def
    second_field_def between_digit exactly_digit val
  show "first_match v month_field" if v: "1 \<le> v" "v \<le> 12"
  proof -
    obtain a b where ab: "v = 10 * a + b" "a < 10" "b < 10" "pad2 v = [digit a, digit b]"
      using pad2_split [of v] v by auto
    then have "a = 0 \<and> 1 \<le> b \<or> a = 1 \<and> b \<le> 2" using v by auto
    then show ?thesis using ab by (elim disjE) (auto simp: facts)
  qed
  show "first_match v day_field" if v: "1 \<le> v" "v \<le> 31"
  proof -
    obtain a b where ab: "v = 10 * a + b" "a < 10" "b < 10" "pad2 v = [digit a, digit b]"
      using pad2_split [of v] v by auto
    then have "a = 0 \<and> 1 \<le> b \<or> a = 1 \<or> a = 2 \<or> a = 3 \<and> b \<le> 1" using v by auto
    then show ?thesis using ab by (elim disjE) (auto simp: facts)
  qed
  show "first_match v hour_field" if v: "v \<le> 23"
  proof -
    obtain a b where ab: "v = 10 * a + b" "a < 10" "b < 10" "pad2 v = [digit a, digit b]"
      using pad2_split [of v] v by auto
    then have "a = 0 \<or> a = 1 \<or> a = 2 \<and> b \<le> 3" using v by auto
    then show ?thesis using ab by (elim disjE) (auto simp: facts)
  qed
  show "first_match v minute_field" if v: "v \<le> 59"
  proof -
    obtain a b where ab: "v = 10 * a + b" "a < 10" "b < 10" "pad2 v = [digit a, digit b]"
      using pad2_split [of v] v by auto
    then have "a \<le> 5" using v by auto
    then show ?thesis using ab by (auto simp: facts)
  qed
  show "first_match v second_field" if v: "v \<le> 59"
  proof -
    obtain a b where ab: "v = 10 * a + b" "a < 10" "b < 10" "pad2 v = [digit a, digit b]"
      using pad2_split [of v] v by auto
    then have "a \<le> 5" using v by auto
    then show ?thesis using ab by (auto simp: facts)
  qed
qed

lemma year_matches:
  assumes "1000 \<le> y" "y \<le> 9999"
  shows "match_format (year_field # ds) (show_nat y @ s) = map (\<lambda>(vs, r). (y # vs, r)) (match_format ds s)"
proof -
  have d: "y div 1000 < 10" using assms by (simp add: less_mult_imp_div_less)
  have "filter is_digit (show_nat y) = show_nat y"
    using show_nat_digits [of y] by (simp add: list_all_iff)
  then have "int_of_digits (filter is_digit (show_nat y)) = y" by simp
  then show ?thesis using d by (simp add: show_year [OF assms] year_field_def)
qed

lemma first_match_head:
  assumes "first_match v f" "match_format ds s = (vs, []) # rest"
  shows "\<exists>rest'. match_format (f # ds) (pad2 v @ s) = (v # vs, []) # rest'"
proof -
  obtain others where "match_format (f # ds) (pad2 v @ s) =
      map (\<lambda>(vs, r). (v # vs, r)) (match_format ds s) @ others"
    using assms(1) unfolding first_match_def by blast
  then show ?thesis using assms(2) by simp
qed

text \<open>A valid UTC instant written by \<open>format_utc\<close> is read back by \<open>parse_datetime\<close>.\<close>

lemma datetime_roundtrip:
  assumes ok: "civil_ok c" and year: "1000 \<le> cv_year c"
  shows "parse_datetime zones (format_utc c) [] = Some ((c, Utc), False)"
proof -
  have small: "cv_day c \<le> 31" using ok by (auto simp: civil_ok_def days_in_month_def split: if_splits)
  have y: "cv_year c \<le> 9999" using ok by (simp add: civil_ok_def)
  note bounds = ok [unfolded civil_ok_def]
  have "\<exists>r. match_format [second_field] (pad2 (cv_second c) @ []) = ([cv_second c], []) # r"
    by (rule first_match_head) (use bounds field_matches(5) in simp_all)
  then obtain r1 where r1: "match_format [second_field] (pad2 (cv_second c)) = ([cv_second c], []) # r1" by auto
  have "\<exists>r. match_format [minute_field, second_field] (pad2 (cv_minute c) @ pad2 (cv_second c)) =
      ([cv_minute c, cv_second c], []) # r"
    by (rule first_match_head [OF _ r1]) (use bounds field_matches(4) in simp)
  then obtain r2 where r2: "match_format [minute_field, second_field] (pad2 (cv_minute c) @ pad2 (cv_second c)) =
      ([cv_minute c, cv_second c], []) # r2" by auto
  have "\<exists>r. match_format [hour_field, minute_field, second_field]
      (pad2 (cv_hour c) @ pad2 (cv_minute c) @ pad2 (cv_second c)) =
      ([cv_hour c, cv_minute c, cv_second c], []) # r"
    by (rule first_match_head [OF _ r2]) (use bounds field_matches(3) in simp)
  then obtain r3 where "match_format [hour_field, minute_field, second_field]
      (pad2 (cv_hour c) @ pad2 (cv_minute c) @ pad2 (cv_second c)) =
      ([cv_hour c, cv_minute c, cv_second c], []) # r3" by auto
  then have r4: "match_format [Literal (CHR ''T''), hour_field, minute_field, second_field]
      (''T'' @ pad2 (cv_hour c) @ pad2 (cv_minute c) @ pad2 (cv_second c)) =
      ([cv_hour c, cv_minute c, cv_second c], []) # r3" by simp
  have "\<exists>r. match_format [day_field, Literal (CHR ''T''), hour_field, minute_field, second_field]
      (pad2 (cv_day c) @ ''T'' @ pad2 (cv_hour c) @ pad2 (cv_minute c) @ pad2 (cv_second c)) =
      ([cv_day c, cv_hour c, cv_minute c, cv_second c], []) # r"
    by (rule first_match_head [OF _ r4]) (use bounds small field_matches(2) in simp)
  then obtain r5 where r5: "match_format [day_field, Literal (CHR ''T''), hour_field, minute_field, second_field]
      (pad2 (cv_day c) @ ''T'' @ pad2 (cv_hour c) @ pad2 (cv_minute c) @ pad2 (cv_second c)) =
      ([cv_day c, cv_hour c, cv_minute c, cv_second c], []) # r5" by auto
  have "\<exists>r. match_format [month_field, day_field, Literal (CHR ''T''), hour_field, minute_field, second_field]
      (pad2 (cv_month c) @ pad2 (cv_day c) @ ''T'' @ pad2 (cv_hour c) @ pad2 (cv_minute c) @ pad2 (cv_second c)) =
      ([cv_month c, cv_day c, cv_hour c, cv_minute c, cv_second c], []) # r"
    by (rule first_match_head [OF _ r5]) (use bounds field_matches(1) in simp)
  then obtain r6 where r6: "match_format
      [month_field, day_field, Literal (CHR ''T''), hour_field, minute_field, second_field]
      (pad2 (cv_month c) @ pad2 (cv_day c) @ ''T'' @ pad2 (cv_hour c) @ pad2 (cv_minute c) @ pad2 (cv_second c)) =
      ([cv_month c, cv_day c, cv_hour c, cv_minute c, cv_second c], []) # r6" by auto
  have matched: "match_format datetime_format (butlast (format_utc c)) =
      map (\<lambda>(vs, r). (cv_year c # vs, r)) (([cv_month c, cv_day c, cv_hour c, cv_minute c, cv_second c], []) # r6)"
    unfolding r6 [symmetric] year_matches [OF year y, symmetric]
    by (simp add: datetime_format_def date_format_def format_utc_def butlast_append)
  have "\<lparr>cv_year = cv_year c, cv_month = cv_month c, cv_day = cv_day c, cv_hour = cv_hour c,
      cv_minute = cv_minute c, cv_second = cv_second c\<rparr> = c" by simp
  note same = this
  have "strptime datetime_format (butlast (format_utc c)) = Some c"
    using ok by (simp add: strptime_def Let_def matched same)
  moreover have "length (format_utc c) = 16" "last (format_utc c) = CHR ''Z''" "format_utc c \<noteq> []"
    by (simp_all add: format_utc_def pad2_def show_year [OF year y])
  ultimately show ?thesis by (simp add: parse_datetime_def)
qed

section \<open>Lines written are lines read\<close>

definition plain_line :: "string \<Rightarrow> bool" where
  "plain_line l = (l \<noteq> [] \<and> \<not> is_space (hd l) \<and> cr \<notin> set l \<and> lf \<notin> set l)"

lemma replace_crlf_plain: "cr \<notin> set s \<Longrightarrow> replace_crlf (s @ t) = s @ replace_crlf t"
proof (induction s)
  case (Cons a s)
  then have "replace_crlf (a # s @ t) = a # replace_crlf (s @ t)" by (cases "s @ t") auto
  then show ?case using Cons by simp
qed simp

lemma replace_crlf_join:
  "\<forall>l \<in> set ls. cr \<notin> set l \<Longrightarrow> replace_crlf (join_with [cr, lf] ls) = join_with [lf] ls"
proof (induction "[cr, lf]" ls rule: join_with.induct)
  case (2 p)
  then show ?case using replace_crlf_plain [of p "[]"] by simp
next
  case (3 p q ps)
  then show ?case by (simp add: replace_crlf_plain)
qed simp

lemma join_no_cr:
  "\<forall>l \<in> set ls. cr \<notin> set l \<Longrightarrow> cr \<notin> set (join_with [lf] ls)"
  by (induction "[lf]" ls rule: join_with.induct) (auto simp: cr_def lf_def)

lemma unfold_loop_plain:
  "\<forall>l \<in> set ls. plain_line l \<Longrightarrow> unfold_loop acc (ls @ [[]]) = rev acc @ ls"
proof (induction ls arbitrary: acc)
  case Nil
  then show ?case by (simp add: strip_Nil split: list.split)
next
  case (Cons l ls)
  obtain c r where l: "l = c # r" "\<not> is_space c" using Cons.prems by (cases l) (auto simp: plain_line_def)
  have "dropWhile is_space (rev r @ [c]) \<noteq> []" using l(2) by (auto simp: dropWhile_eq_Nil_conv)
  then have "strip l \<noteq> []" using l by (simp add: strip_def)
  moreover have "c \<noteq> CHR '' '' \<and> c \<noteq> CHR 0x09" using l(2) by (auto simp: is_space_def)
  ultimately have "unfold_loop acc (l # ls @ [[]]) = unfold_loop (l # acc) (ls @ [[]])"
    using l(1) by (simp split: list.split)
  then show ?case using Cons by simp
qed

lemma unfold_document:
  assumes "\<forall>l \<in> set ls. plain_line l"
  shows "unfold (join_with [cr, lf] (ls @ [[]])) = ls"
proof -
  have cr: "\<forall>l \<in> set (ls @ [[]]). cr \<notin> set l" and lf: "\<forall>l \<in> set (ls @ [[]]). lf \<notin> set l"
    using assms by (auto simp: plain_line_def)
  have "map (\<lambda>c. if c = cr then lf else c) (join_with [lf] (ls @ [[]])) = join_with [lf] (ls @ [[]])"
    using join_no_cr [OF cr] by (intro map_idI) auto
  moreover have "split_on lf (join_with [lf] (ls @ [[]])) = ls @ [[]]"
    by (rule split_on_join) (use lf in simp_all)
  ultimately show ?thesis
    using unfold_loop_plain [OF assms, of "[]"] by (simp add: unfold_def replace_crlf_join [OF cr])
qed

lemma split_prop_line:
  assumes "CHR '':'' \<notin> set n" "CHR '';'' \<notin> set n" "strip n = n" "map upper n = n"
  shows "split_prop (n @ CHR '':'' # v) = (n, [], strip v)"
  using assms by (simp add: split_prop_def split_once_app split_on_single Let_def List.map_filter_simps)

lemma plain_prop:
  assumes "n \<noteq> []" "\<not> is_space (hd n)" "cr \<notin> set n" "lf \<notin> set n" "cr \<notin> set v" "lf \<notin> set v"
  shows "plain_line (n @ CHR '':'' # v)"
  using assms by (auto simp: plain_line_def cr_def lf_def)

lemma trigger_roundtrip:
  assumes "n \<le> max_reminder_minutes"
  shows "parse_trigger_minutes (''-PT'' @ show_nat n @ ''M'') [] = Some n"
proof -
  have digits: "list_all is_digit (show_nat n)" "show_nat n \<noteq> []" using show_nat_digits by simp_all
  have code: "48 \<le> (of_char c :: nat) \<and> (of_char c :: nat) \<le> 57" if "c \<in> set (show_nat n)" for c
    using digits(1) that by (simp add: list_all_iff is_digit_code)
  have "upper c = c" if "c \<in> set (show_nat n)" for c using code [OF that] by (simp add: upper_def Let_def)
  then have up: "map upper (show_nat n) = show_nat n" by (intro map_idI) simp
  have "strip (''-PT'' @ show_nat n @ ''M'') = ''-PT'' @ show_nat n @ ''M''"
    by (rule strip_id) (simp_all add: is_space_def)
  moreover have "map upper (''-PT'' @ show_nat n @ ''M'') = ''-PT'' @ show_nat n @ ''M''"
    by (simp add: up upper_def)
  moreover have "\<not> is_digit (CHR ''M'')" by (simp add: is_digit_def)
  then have span: "takeWhile is_digit (show_nat n @ ''M'') = show_nat n" "dropWhile is_digit (show_nat n @ ''M'') = ''M''"
    using digits(1) by (simp_all add: list_all_iff takeWhile_append dropWhile_append)
  have "match_trigger (''-PT'' @ show_nat n @ ''M'') = Some (Some (CHR ''-''), 0, 0, 0, n, 0)"
    using digits(2) by (simp add: match_trigger_def opt_unit_def Let_def span is_digit_def)
  ultimately show ?thesis using assms
    by (simp only: parse_trigger_minutes_def) (simp add: upper_def)
qed

lemma strip_escape:
  assumes "strip s = s"
  shows "strip (escape s) = escape s"
proof (cases "s = []")
  case True
  then show ?thesis by (simp add: escape_chars strip_Nil)
next
  case False
  have ends: "\<not> is_space (hd s)" "\<not> is_space (last s)" using strip_ends [of s] False assms by simp_all
  obtain a t where s: "s = a # t" using False by (cases s) auto
  obtain u b where s': "s = u @ [b]" using False by (cases s rule: rev_cases) auto
  have first: "escape s \<noteq> [] \<and> \<not> is_space (hd (escape s))"
    using ends(1) unfolding escape_chars s by (simp add: backslash_def is_space_def)
  have final: "\<not> is_space (last (escape s))"
    using ends(2) unfolding escape_chars s' by (simp add: backslash_def is_space_def)
  show ?thesis by (rule strip_id) (use first final in simp_all)
qed

definition inline :: "char \<Rightarrow> bool" where
  "inline c = (c \<noteq> cr \<and> c \<noteq> lf)"

lemma inline_chars: "is_digit c \<Longrightarrow> inline c" "plain_char c \<Longrightarrow> inline c" "c \<in> set ''TZ=;'' \<Longrightarrow> inline c"
  by (auto simp: inline_def is_digit_def cr_def lf_def plain_char_def is_space_def)

lemma until_inline:
  assumes "until_ok v" "c \<in> set v"
  shows "inline c"
proof -
  have d8: "list_all is_digit (take 8 v)" using assms(1) by (simp add: until_ok_def)
  consider "length v = 8"
    | "length v = 16" "v ! 8 = CHR ''T''" "list_all is_digit (take 6 (drop 9 v))" "v ! 15 = CHR ''Z''"
    using assms(1) by (auto simp: until_ok_def)
  then show ?thesis
  proof cases
    case 1
    then show ?thesis using d8 assms(2) inline_chars(1) by (simp add: list_all_iff)
  next
    case 2
    obtain i where i: "i < 16" "c = v ! i" using assms(2) 2(1) by (auto simp: in_set_conv_nth)
    have "is_digit (v ! i)" if "i < 8"
      using d8 that 2(1) by (simp add: list_all_length)
    moreover have "is_digit (v ! i)" if "9 \<le> i" "i < 15"
    proof -
      have "i - 9 < length (take 6 (drop 9 v))" using that 2(1) by simp
      then have "is_digit (take 6 (drop 9 v) ! (i - 9))" using 2(3) by (simp add: list_all_length)
      then show ?thesis using that 2(1) by simp
    qed
    moreover have "i < 8 \<or> i = 8 \<or> 9 \<le> i \<and> i < 15 \<or> i = 15" using i(1) by auto
    ultimately show ?thesis using i(2) 2(2,4) inline_chars by auto
  qed
qed

lemma canonical_inline:
  assumes "canonical_parts ps" "c \<in> set (join_with '';'' (map part_text ps))"
  shows "inline c"
proof -
  have val: "inline x" if "(k, v) \<in> set ps" "x \<in> set v" for k v x
  proof -
    have m: "map_of ps k = Some v" using that(1) assms(1) by (simp add: canonical_parts_def)
    note fault = assms(1) [unfolded canonical_parts_def rrule_fault_None]
    have "k \<in> set rrule_order" using that(1) assms(1) by (auto simp: canonical_parts_def part_ok_def)
    then consider "k = ''FREQ''" | "k = ''INTERVAL'' \<or> k = ''COUNT''" | "k = ''UNTIL''" | "k = ''BYDAY''"
      by (auto simp: rrule_order_def)
    then show ?thesis
    proof cases
      case 1
      have "\<exists>v \<in> set_option (map_of ps ''FREQ''). v \<in> set rrule_freqs" using fault by blast
      then have "v \<in> set rrule_freqs" unfolding m [unfolded 1] by simp
      then show ?thesis using that(2) by (auto simp: rrule_freqs_def inline_def cr_def lf_def)
    next
      case 2
      moreover have "opt_all (in_range max_rrule_interval) (map_of ps ''INTERVAL'')"
        "opt_all (in_range max_rrule_count) (map_of ps ''COUNT'')" using fault by blast+
      ultimately have "\<exists>n. opt_all (in_range n) (map_of ps k)" by blast
      then have "is_digits v" unfolding m by (auto simp: opt_all_def in_range_def)
      then show ?thesis using that(2) inline_chars(1) by (auto simp: is_digits_def list_all_iff)
    next
      case 3
      have "opt_all until_ok (map_of ps ''UNTIL'')" using fault by blast
      then have "until_ok v" unfolding m [unfolded 3] by (simp add: opt_all_def)
      then show ?thesis using that(2) by (rule until_inline)
    next
      case 4
      have "opt_all byday_ok (map_of ps ''BYDAY'')" using fault by blast
      then have "\<forall>d \<in> set (split_on (CHR '','') v). d \<in> set rrule_days"
        unfolding m [unfolded 4] by (simp add: opt_all_def byday_ok_def Let_def)
      from join_plain [OF this] show ?thesis using that(2) inline_chars(2) by (simp add: join_split)
    qed
  qed
  have key: "inline x" if "(k, v) \<in> set ps" "x \<in> set k" for k v x
  proof -
    have "k \<in> set rrule_order" using that(1) assms(1) by (auto simp: canonical_parts_def part_ok_def)
    then show ?thesis using that(2) by (auto simp: rrule_order_def inline_def cr_def lf_def)
  qed
  have "\<exists>l \<in> set ls. c \<in> set l \<or> c = CHR '';''" if "c \<in> set (join_with '';'' ls)" for ls
    using that by (induction "'';''" ls rule: join_with.induct) auto
  from this [OF assms(2)] show ?thesis
    using val key inline_chars(3) [of c] by (fastforce simp: part_text_def)
qed

section \<open>A written event is read back\<close>

lemma format_utc_facts:
  assumes "civil_ok c"
  shows "strip (format_utc c) = format_utc c" "\<forall>x \<in> set (format_utc c). inline x"
proof -
  have year: "list_all is_digit (show_nat (cv_year c))" "show_nat (cv_year c) \<noteq> []"
    using show_nat_digits by simp_all
  have "is_digit (hd (show_nat (cv_year c)))" using year by (simp add: list_all_iff)
  then have "\<not> is_space (hd (format_utc c))"
    using year(2) by (auto simp: format_utc_def is_digit_def is_space_def)
  moreover have "last (format_utc c) = CHR ''Z''" "format_utc c \<noteq> []" by (simp_all add: format_utc_def)
  ultimately show "strip (format_utc c) = format_utc c" by (intro strip_id) (simp_all add: is_space_def)
  have pad: "\<forall>x \<in> set (pad2 n). inline x" if "n < 100" for n
  proof -
    have "n div 10 < 10" "n mod 10 < 10" using that by (simp_all add: less_mult_imp_div_less)
    then show ?thesis using inline_chars(1) digit_digit by (simp add: pad2_digits)
  qed
  have "cv_day c \<le> 31" using assms by (auto simp: civil_ok_def days_in_month_def split: if_splits)
  then have "\<forall>n \<in> {cv_month c, cv_day c, cv_hour c, cv_minute c, cv_second c}. n < 100"
    using assms by (simp add: civil_ok_def)
  moreover have "\<forall>x \<in> set (show_nat (cv_year c)). inline x"
    using year(1) inline_chars(1) by (simp add: list_all_iff)
  moreover have "inline (CHR ''T'')" "inline (CHR ''Z'')" using inline_chars(3) by simp_all
  ultimately show "\<forall>x \<in> set (format_utc c). inline x" using pad by (auto simp: format_utc_def)
qed

lemma prop_lines:
  "split_prop (''UID:'' @ v) = (''UID'', [], strip v)"
  "split_prop (''DTSTAMP:'' @ v) = (''DTSTAMP'', [], strip v)"
  "split_prop (''DTSTART:'' @ v) = (''DTSTART'', [], strip v)"
  "split_prop (''DTEND:'' @ v) = (''DTEND'', [], strip v)"
  "split_prop (''SUMMARY:'' @ v) = (''SUMMARY'', [], strip v)"
  "split_prop (''LOCATION:'' @ v) = (''LOCATION'', [], strip v)"
  "split_prop (''RRULE:'' @ v) = (''RRULE'', [], strip v)"
  "split_prop (''DESCRIPTION:'' @ v) = (''DESCRIPTION'', [], strip v)"
  "split_prop (''TRIGGER:'' @ v) = (''TRIGGER'', [], strip v)"
  using split_prop_line [of "''UID''" v] split_prop_line [of "''DTSTAMP''" v] split_prop_line [of "''DTSTART''" v]
    split_prop_line [of "''DTEND''" v] split_prop_line [of "''SUMMARY''" v] split_prop_line [of "''LOCATION''" v]
    split_prop_line [of "''RRULE''" v] split_prop_line [of "''DESCRIPTION''" v] split_prop_line [of "''TRIGGER''" v]
  by (simp_all add: strip_def is_space_def upper_def)

lemma fixed_lines:
  "split_prop ''BEGIN:VCALENDAR'' = (''BEGIN'', [], ''VCALENDAR'')"
  "split_prop ''VERSION:2.0'' = (''VERSION'', [], ''2.0'')"
  "split_prop ''PRODID:-//PagentOS//M21//TR'' = (''PRODID'', [], ''-//PagentOS//M21//TR'')"
  "split_prop ''BEGIN:VEVENT'' = (''BEGIN'', [], ''VEVENT'')"
  "split_prop ''END:VEVENT'' = (''END'', [], ''VEVENT'')"
  "split_prop ''END:VCALENDAR'' = (''END'', [], ''VCALENDAR'')"
  "split_prop ''BEGIN:VALARM'' = (''BEGIN'', [], ''VALARM'')"
  "split_prop ''ACTION:DISPLAY'' = (''ACTION'', [], ''DISPLAY'')"
  "split_prop ''END:VALARM'' = (''END'', [], ''VALARM'')"
  by code_simp+

lemma parse_lines_append:
  "parse_lines zones (as @ bs) st = Option.bind (parse_lines zones as st) (parse_lines zones bs)"
  by (induction as arbitrary: st) (auto simp: bind_assoc split: option.split Option.bind_splits)

text \<open>Inside an event, outside an alarm.\<close>

definition in_event :: "partial_event \<Rightarrow> nat list \<Rightarrow> parse_state" where
  "in_event cur alarms = \<lparr>ps_events = [], ps_cur = Some cur, ps_exdates = [], ps_alarms = alarms,
     ps_in_vevent = True, ps_in_vtimezone = False, ps_in_valarm = False\<rparr>"

lemma parse_preamble:
  "parse_lines zones [''BEGIN:VCALENDAR'', ''VERSION:2.0'', ''PRODID:-//PagentOS//M21//TR'', ''BEGIN:VEVENT'']
     parse_start = Some (in_event no_fields [])"
  by (simp add: parse_line_def fixed_lines parse_start_def in_event_def)

lemma parse_event_line:
  assumes "split_prop line = (name, params, val)" "name \<noteq> ''BEGIN''" "name \<noteq> ''END''"
  shows "parse_line zones line (in_event cur alarms) = set_field zones name params val cur (in_event cur alarms)"
  using assms by (simp add: parse_line_def in_event_def)

lemma parse_location:
  assumes "\<forall>l. location = Some l \<longrightarrow> strip l = l" "pe_location cur = None"
  shows "parse_lines zones (location_lines location) (in_event cur alarms) =
    Some (in_event (cur\<lparr>pe_location := (if location = Some [] then None else location)\<rparr>) alarms)"
proof (cases "location = None \<or> location = Some []")
  case True
  have "cur\<lparr>pe_location := None\<rparr> = cur" using assms(2) by (cases cur) simp
  then show ?thesis using True by (auto simp: location_lines_def)
next
  case False
  then obtain l where l: "location = Some l" "l \<noteq> []" by auto
  have "split_prop (''LOCATION:'' @ escape l) = (''LOCATION'', [], escape l)"
    using prop_lines(6) [of "escape l"] strip_escape [of l] assms(1) l(1) by simp
  from parse_event_line [OF this, of zones cur alarms] show ?thesis
    using l by (simp add: location_lines_def set_field_def in_event_def)
qed

lemma parse_rule:
  assumes "rrule_lines dateutil_reads rrule = Inr ls" "pe_rrule cur = None"
  shows "parse_lines zones ls (in_event cur alarms) =
    Some (in_event (cur\<lparr>pe_rrule := (case rrule of None \<Rightarrow> None | Some r \<Rightarrow> if r = [] then None
        else Some (projr (validate_rrule dateutil_reads r)))\<rparr>) alarms)"
proof (cases "rrule = None \<or> rrule = Some []")
  case True
  have "cur\<lparr>pe_rrule := None\<rparr> = cur" using assms(2) by (cases cur) simp
  then show ?thesis using True assms(1) by (auto simp: rrule_lines_def)
next
  case False
  then obtain q where q: "rrule = Some q" "q \<noteq> []" by auto
  then have "\<exists>c. validate_rrule dateutil_reads q = Inr c \<and> ls = [''RRULE:'' @ c]"
    using assms(1) by (simp add: rrule_lines_def sum_simps) metis
  then obtain r c where r: "rrule = Some r" "r \<noteq> []" "validate_rrule dateutil_reads r = Inr c" "ls = [''RRULE:'' @ c]"
    using q by blast
  obtain ps where "c = join_with '';'' (map part_text ps)" "canonical_parts ps"
    by (rule validate_canonical [OF r(3)])
  then have "strip c = c" using canonical_stripped by blast
  then have "split_prop (''RRULE:'' @ c) = (''RRULE'', [], c)" using prop_lines(7) [of c] by simp
  from parse_event_line [OF this, of zones cur alarms] show ?thesis
    using r by (simp add: set_field_def in_event_def)
qed

lemma parse_alarm:
  assumes "alarm_lines summary reminder = Inr ls"
  shows "parse_lines zones ls (in_event cur []) =
    Some (in_event cur (case reminder of None \<Rightarrow> [] | Some m \<Rightarrow> [nat m]))"
proof (cases reminder)
  case None
  then show ?thesis using assms by (simp add: alarm_lines_def)
next
  case (Some m)
  then have m: "0 \<le> m" "nat m \<le> max_reminder_minutes"
    and ls: "ls = [''BEGIN:VALARM'', ''ACTION:DISPLAY'', ''DESCRIPTION:'' @ escape summary,
       ''TRIGGER:-PT'' @ show_int m @ ''M'', ''END:VALARM'']"
    using assms by (auto simp: alarm_lines_def max_reminder_minutes_def split: if_splits)
  let ?alarm = "\<lambda>alarms. \<lparr>ps_events = [], ps_cur = Some cur, ps_exdates = [], ps_alarms = alarms,
     ps_in_vevent = True, ps_in_vtimezone = False, ps_in_valarm = True\<rparr>"
  have trigger: "parse_trigger_minutes (''-PT'' @ show_nat (nat m) @ ''M'') [] = Some (nat m)"
    by (rule trigger_roundtrip [OF m(2)])
  have "split_prop (''TRIGGER:'' @ (''-PT'' @ show_nat (nat m) @ ''M'')) = (''TRIGGER'', [], ''-PT'' @ show_nat (nat m) @ ''M'')"
    unfolding prop_lines(9) by (subst strip_id) (simp_all add: is_space_def)
  then have "parse_line zones (''TRIGGER:-PT'' @ show_nat (nat m) @ ''M'') (?alarm []) = Some (?alarm [nat m])"
    using trigger by (simp add: parse_line_def note_alarm_def max_alarms_per_event_def)
  moreover have "parse_line zones ''BEGIN:VALARM'' (in_event cur []) = Some (?alarm [])"
    by (simp add: parse_line_def fixed_lines in_event_def)
  moreover have "parse_line zones ''ACTION:DISPLAY'' (?alarm []) = Some (?alarm [])"
    by (simp add: parse_line_def fixed_lines)
  moreover have "parse_line zones (''DESCRIPTION:'' @ escape summary) (?alarm []) = Some (?alarm [])"
    unfolding parse_line_def prop_lines(8) by simp
  moreover have "parse_line zones ''END:VALARM'' (?alarm [nat m]) = Some (in_event cur [nat m])"
    by (simp add: parse_line_def fixed_lines in_event_def)
  ultimately show ?thesis using m(1) unfolding ls by (simp add: show_int_def Some)
qed

definition written_event ::
    "(string \<Rightarrow> bool) \<Rightarrow> string \<Rightarrow> string \<Rightarrow> civil \<Rightarrow> civil \<Rightarrow> string option \<Rightarrow> string option \<Rightarrow> int option \<Rightarrow>
     datetime vevent" where
  "written_event dateutil_reads uid summary start until location rrule reminder =
     \<lparr>ve_uid = uid, ve_summary = summary, ve_dtstart = (start, Utc), ve_dtend = (until, Utc), ve_all_day = False,
      ve_rrule = (case rrule of None \<Rightarrow> None | Some r \<Rightarrow> if r = [] then None
        else Some (projr (validate_rrule dateutil_reads r))),
      ve_exdates = [], ve_location = (if location = Some [] then None else location),
      ve_alarms = (case reminder of None \<Rightarrow> [] | Some m \<Rightarrow> [nat m])\<rparr>"

definition writable :: "civil \<Rightarrow> bool" where
  "writable c = (civil_ok c \<and> 1000 \<le> cv_year c)"

definition one_line :: "string \<Rightarrow> bool" where
  "one_line s = (strip s = s \<and> cr \<notin> set s)"

definition plain_uid :: "string \<Rightarrow> bool" where
  "plain_uid s = (strip s = s \<and> escape s = s \<and> cr \<notin> set s \<and> lf \<notin> set s)"

lemma parse_core:
  assumes "plain_uid uid" "one_line summary" "writable now" "writable start" "writable until"
  shows "parse_lines zones [''UID:'' @ escape uid, ''DTSTAMP:'' @ format_utc now, ''DTSTART:'' @ format_utc start,
      ''DTEND:'' @ format_utc until, ''SUMMARY:'' @ escape summary] (in_event no_fields []) =
    Some (in_event \<lparr>pe_uid = Some uid, pe_summary = Some summary, pe_location = None,
      pe_dtstart = Some ((start, Utc), False), pe_dtend = Some ((until, Utc), False), pe_rrule = None\<rparr> [])"
proof -
  have uid: "split_prop (''UID:'' @ escape uid) = (''UID'', [], uid)"
    using prop_lines(1) [of uid] assms(1) by (simp add: plain_uid_def)
  have stamp: "split_prop (''DTSTAMP:'' @ format_utc now) = (''DTSTAMP'', [], format_utc now)"
    "split_prop (''DTSTART:'' @ format_utc start) = (''DTSTART'', [], format_utc start)"
    "split_prop (''DTEND:'' @ format_utc until) = (''DTEND'', [], format_utc until)"
    using prop_lines(2) [of "format_utc now"] prop_lines(3) [of "format_utc start"]
      prop_lines(4) [of "format_utc until"] assms(3-5) format_utc_facts(1) by (simp_all add: writable_def)
  have summary: "split_prop (''SUMMARY:'' @ escape summary) = (''SUMMARY'', [], escape summary)"
    using prop_lines(5) [of "escape summary"] strip_escape [of summary] assms(2) by (simp add: one_line_def)
  have dates: "parse_datetime zones (format_utc start) [] = Some ((start, Utc), False)"
    "parse_datetime zones (format_utc until) [] = Some ((until, Utc), False)"
    using datetime_roundtrip assms(4,5) by (simp_all add: writable_def)
  note steps = parse_event_line [OF uid] parse_event_line [OF stamp(1)] parse_event_line [OF stamp(2)]
    parse_event_line [OF stamp(3)] parse_event_line [OF summary]
  have inside: "in_event cur alarms\<lparr>ps_cur := Some c\<rparr> = in_event c alarms" for cur c alarms
    by (simp add: in_event_def)
  show ?thesis
    by (simp only: parse_lines.simps steps [simplified] steps dates set_field_def inside unescape_escape
        bind.bind_lunit if_True if_False simp_thms list.inject char.inject option.map list.distinct)
      (simp add: no_fields_def steps [simplified] set_field_def inside dates)
qed

lemma parse_end:
  "parse_lines zones [''END:VEVENT'', ''END:VCALENDAR'']
     (in_event \<lparr>pe_uid = Some uid, pe_summary = Some s, pe_location = l, pe_dtstart = Some (a, False),
        pe_dtend = Some (b, False), pe_rrule = r\<rparr> alarms) =
   Some \<lparr>ps_events = [\<lparr>ve_uid = uid, ve_summary = s, ve_dtstart = a, ve_dtend = b, ve_all_day = False,
        ve_rrule = r, ve_exdates = [], ve_location = l, ve_alarms = sort alarms\<rparr>], ps_cur = None, ps_exdates = [],
     ps_alarms = alarms, ps_in_vevent = False, ps_in_vtimezone = False, ps_in_valarm = False\<rparr>"
  by (cases a) (simp add: parse_line_def fixed_lines in_event_def finish_event_def)

lemma plain_lines:
  "plain_line ''BEGIN:VCALENDAR''" "plain_line ''VERSION:2.0''" "plain_line ''PRODID:-//PagentOS//M21//TR''"
  "plain_line ''BEGIN:VEVENT''" "plain_line ''END:VEVENT''" "plain_line ''END:VCALENDAR''"
  "plain_line ''BEGIN:VALARM''" "plain_line ''ACTION:DISPLAY''" "plain_line ''END:VALARM''"
  by (simp_all add: plain_line_def is_space_def cr_def lf_def)

lemma plain_values:
  assumes "\<forall>c \<in> set v. inline c"
  shows "plain_line (''UID:'' @ v)" "plain_line (''DTSTAMP:'' @ v)" "plain_line (''DTSTART:'' @ v)"
    "plain_line (''DTEND:'' @ v)" "plain_line (''SUMMARY:'' @ v)" "plain_line (''LOCATION:'' @ v)"
    "plain_line (''RRULE:'' @ v)" "plain_line (''DESCRIPTION:'' @ v)" "plain_line (''TRIGGER:-PT'' @ v)"
  using assms by (auto simp: plain_line_def is_space_def inline_def cr_def lf_def)

lemma escape_inline: "cr \<notin> set s \<Longrightarrow> \<forall>c \<in> set (escape s). inline c"
  using escape_no_newline by (auto simp: inline_def)

lemma optional_lines_plain:
  assumes "rrule_lines dateutil_reads rrule = Inr rule" "alarm_lines summary reminder = Inr alarm"
    and "cr \<notin> set summary" "\<forall>l. location = Some l \<longrightarrow> cr \<notin> set l"
  shows "\<forall>l \<in> set (location_lines location @ rule @ alarm). plain_line l"
proof -
  have "\<forall>l \<in> set (location_lines location). plain_line l"
    using assms(4) plain_values(6) [OF escape_inline] by (cases location) (simp_all add: location_lines_def)
  moreover have "\<forall>l \<in> set rule. plain_line l"
  proof (cases "rule = []")
    case False
    then obtain r c where "validate_rrule dateutil_reads r = Inr c" and rule: "rule = [''RRULE:'' @ c]"
      using assms(1) by (auto simp: rrule_lines_def sum_simps split: option.splits if_splits)
    then obtain ps where "c = join_with '';'' (map part_text ps)" "canonical_parts ps"
      using validate_canonical by blast
    then have "\<forall>x \<in> set c. inline x" using canonical_inline by blast
    from plain_values(7) [OF this] show ?thesis by (simp only: rule list.set ball_simps simp_thms)
  qed simp
  moreover have "\<forall>l \<in> set alarm. plain_line l"
  proof (cases "alarm = []")
    case False
    then obtain m where m: "0 \<le> m" and alarm: "alarm = [''BEGIN:VALARM'', ''ACTION:DISPLAY'', ''DESCRIPTION:'' @ escape summary,
       ''TRIGGER:-PT'' @ show_int m @ ''M'', ''END:VALARM'']"
    proof -
      obtain m where m: "reminder = Some m" using assms(2) False by (cases reminder) (simp_all add: alarm_lines_def)
      then have "\<not> m < 0" using assms(2) by (simp add: alarm_lines_def split: if_splits)
      then show thesis using assms(2) m that [of m] by (simp add: alarm_lines_def split: if_splits)
    qed
    have "\<forall>c \<in> set (show_int m @ ''M''). inline c"
      using show_nat_digits [of "nat m"] m inline_chars(1)
      by (auto simp: show_int_def list_all_iff inline_def cr_def lf_def)
    from plain_values(9) [OF this] plain_values(8) [OF escape_inline [OF assms(3)]] plain_lines show ?thesis
      unfolding alarm by (simp only: list.set ball_simps simp_thms append_assoc)
  qed simp
  ultimately show ?thesis by auto
qed

text \<open>
  C5. What the calendar is given is what it gives back.  A document that \<open>build_vevent\<close> writes, read by
  \<open>parse_calendar\<close>, is exactly one event: the same UID, start and end, the summary and place to the letter
  (commas, semicolons, backslashes and line breaks included), the canonical recurrence rule and the one reminder.
  The texts must not carry blanks at their ends or a carriage return, the UID none of the escaped characters, and
  the year four digits; each of these limits is real (see the lemmas below).
\<close>

theorem calendar_roundtrip:
  assumes uid: "plain_uid uid" and summary: "one_line summary"
    and location: "\<forall>l. location = Some l \<longrightarrow> one_line l"
    and dates: "writable now" "writable start" "writable until"
    and built: "build_vevent dateutil_reads now uid summary start until location rrule reminder = Inr text"
  shows "parse_calendar zones text =
    Some [written_event dateutil_reads uid summary start until location rrule reminder]"
proof -
  obtain rule alarm where rule: "rrule_lines dateutil_reads rrule = Inr rule"
    and alarm: "alarm_lines summary reminder = Inr alarm"
    using built by (auto simp: build_vevent_def sum_simps)
  let ?pre = "[''BEGIN:VCALENDAR'', ''VERSION:2.0'', ''PRODID:-//PagentOS//M21//TR'', ''BEGIN:VEVENT'']"
  let ?core = "[''UID:'' @ escape uid, ''DTSTAMP:'' @ format_utc now, ''DTSTART:'' @ format_utc start,
      ''DTEND:'' @ format_utc until, ''SUMMARY:'' @ escape summary]"
  let ?more = "location_lines location @ rule @ alarm" and ?post = "[''END:VEVENT'', ''END:VCALENDAR'']"
  have doc: "text = join_with [cr, lf] ((?pre @ ?core @ ?more @ ?post) @ [[]])"
    using built by (simp add: build_vevent_def rule alarm)
  have crs: "cr \<notin> set uid" "cr \<notin> set summary" "\<forall>l. location = Some l \<longrightarrow> cr \<notin> set l"
    using uid summary location by (simp_all add: plain_uid_def one_line_def)
  have "\<forall>l \<in> set ?core. plain_line l"
    using plain_values [OF escape_inline [OF crs(1)]] plain_values [OF escape_inline [OF crs(2)]]
      plain_values [OF format_utc_facts(2)] dates
    by (simp only: list.set ball_simps simp_thms writable_def)
  then have "\<forall>l \<in> set (?pre @ ?core @ ?more @ ?post). plain_line l"
    using optional_lines_plain [OF rule alarm crs(2,3)] plain_lines by auto
  then have lines: "unfold text = ?pre @ ?core @ ?more @ ?post" unfolding doc by (rule unfold_document)
  have "\<forall>l. location = Some l \<longrightarrow> strip l = l" using location by (simp add: one_line_def)
  note place = parse_location [OF this]
  let ?cur = "\<lparr>pe_uid = Some uid, pe_summary = Some summary, pe_location = None,
      pe_dtstart = Some ((start, Utc), False), pe_dtend = Some ((until, Utc), False), pe_rrule = None\<rparr>"
  let ?loc = "if location = Some [] then None else location"
  let ?rule = "case rrule of None \<Rightarrow> None | Some r \<Rightarrow> if r = [] then None else Some (projr (validate_rrule dateutil_reads r))"
  let ?alarms = "case reminder of None \<Rightarrow> [] | Some m \<Rightarrow> [nat m]"
  have "parse_lines zones ?more (in_event ?cur []) =
      Some (in_event (?cur\<lparr>pe_location := ?loc, pe_rrule := ?rule\<rparr>) ?alarms)"
    unfolding parse_lines_append using place [of ?cur zones "[]"] parse_rule [OF rule, of "?cur\<lparr>pe_location := ?loc\<rparr>" zones "[]"]
      parse_alarm [OF alarm, of zones "?cur\<lparr>pe_location := ?loc, pe_rrule := ?rule\<rparr>"]
    by (simp only: bind.bind_lunit partial_event.simps partial_event.update_convs)
  then have "parse_lines zones (?pre @ ?core @ ?more @ ?post) parse_start =
      parse_lines zones ?post (in_event (?cur\<lparr>pe_location := ?loc, pe_rrule := ?rule\<rparr>) ?alarms)"
    unfolding parse_lines_append [of zones ?pre] parse_lines_append [of zones ?core] parse_lines_append [of zones ?more]
      parse_preamble bind.bind_lunit parse_core [OF uid summary dates]
    by (simp only: bind.bind_lunit)
  then show ?thesis
    unfolding parse_calendar_def lines partial_event.update_convs parse_end
    by (simp add: written_event_def split: option.split)
qed

definition sample_start :: civil where
  "sample_start = \<lparr>cv_year = 2026, cv_month = 9, cv_day = 10, cv_hour = 12, cv_minute = 30, cv_second = 0\<rparr>"

definition sample_end :: civil where
  "sample_end = \<lparr>cv_year = 2026, cv_month = 9, cv_day = 10, cv_hour = 13, cv_minute = 0, cv_second = 0\<rparr>"

lemma calendar_roundtrip_witness:
  "\<exists>text. build_vevent (\<lambda>_. True) sample_start ''e1'' ''tea, cake; more'' sample_start sample_end (Some ''A; B'')
       (Some ''FREQ=DAILY'') (Some 15) = Inr text \<and>
     parse_calendar (\<lambda>_. Zone_known) text = Some [written_event (\<lambda>_. True) ''e1'' ''tea, cake; more''
       sample_start sample_end (Some ''A; B'') (Some ''FREQ=DAILY'') (Some 15)]"
proof -
  have "isOk (build_vevent (\<lambda>_. True) sample_start ''e1'' ''tea, cake; more'' sample_start sample_end (Some ''A; B'')
       (Some ''FREQ=DAILY'') (Some 15))" by code_simp
  then obtain doc where built: "build_vevent (\<lambda>_. True) sample_start ''e1'' ''tea, cake; more'' sample_start
      sample_end (Some ''A; B'') (Some ''FREQ=DAILY'') (Some 15) = Inr doc"
    by (auto simp: isOk_def split: sum.splits)
  have "plain_uid ''e1''" "one_line ''tea, cake; more''" "one_line ''A; B''" "writable sample_start"
    "writable sample_end" by code_simp+
  then show ?thesis
    using calendar_roundtrip [OF _ _ _ _ _ _ built, of "\<lambda>_. Zone_known"] built by blast
qed

text \<open>The limits are real.  A UID is escaped when it is written and not unescaped when it is read.\<close>

lemma uid_is_not_unescaped:
  "map_option (map ve_uid) (parse_calendar (\<lambda>_. Zone_known)
     (projr (build_vevent (\<lambda>_. True) sample_start ''a,b'' ''x'' sample_start sample_end None None None))) =
   Some [[CHR ''a'', backslash, CHR '','', CHR ''b'']]"
  by code_simp

text \<open>A carriage return in a summary is not escaped, and a reader takes what follows it as a property of its own.\<close>

lemma carriage_return_adds_a_rule:
  "map_option (map (\<lambda>e. (ve_summary e, ve_rrule e))) (parse_calendar (\<lambda>_. Zone_known)
     (projr (build_vevent (\<lambda>_. True) sample_start ''e'' (''tea'' @ [cr] @ ''RRULE:FREQ=DAILY'')
       sample_start sample_end None None None))) =
   Some [(''tea'', Some ''FREQ=DAILY'')]"
  by code_simp

end
