(* ===== verification/Calendar_Expand.thy ===== *)
theory Calendar_Expand imports Calendar_Text begin

text \<open>
  Bounded expansion of events into occurrences: \<open>clamp_window\<close>, \<open>_expand_with_caps\<close> and
  \<open>expand_events_report\<close> of \<open>calendar/ics.py\<close>.  Dates are instants here.  The occurrences \<open>dateutil\<close>
  gives for an event's rule are an argument, \<open>occ ev i\<close> for the \<open>i\<close>-th one and \<open>None\<close> after the last; a rule
  without end never gives \<open>None\<close>.
\<close>

definition max_window_days :: int where "max_window_days = 62"
definition max_occurrences_per_event :: nat where "max_occurrences_per_event = 1000"
definition max_occurrences_per_window :: nat where "max_occurrences_per_window = 10000"
definition max_rrule_raw_scan :: nat where "max_rrule_raw_scan = 200000"

definition clamp_window :: "instant \<Rightarrow> instant \<Rightarrow> instant \<times> instant \<times> bool" where
  "clamp_window start until =
     (if until \<le> start then (start, until, False)
      else (let limit = start + seconds (max_window_days * 86400)
            in if until > limit then (start, limit, True) else (start, until, False)))"

type_synonym event = "instant vevent"

definition occurrence_of :: "event \<Rightarrow> instant \<Rightarrow> bool \<Rightarrow> occurrence" where
  "occurrence_of ev at recurring =
     \<lparr>oc_uid = ve_uid ev, oc_summary = ve_summary ev, oc_start = at,
      oc_end = at + (ve_dtend ev - ve_dtstart ev), oc_all_day = ve_all_day ev,
      oc_reminders = map int (ve_alarms ev), oc_recurring = recurring\<rparr>"

text \<open>\<open>_occ_key\<close>: the instant to the second.\<close>

definition occ_key :: "instant \<Rightarrow> int" where "occ_key at = at div 1000000"

definition excluded :: "event \<Rightarrow> instant \<Rightarrow> bool" where
  "excluded ev at = (occ_key at \<in> set (map occ_key (ve_exdates ev)))"

text \<open>The walk over one rule: \<open>i\<close> occurrences were scanned, \<open>kept\<close> of them kept.\<close>

function rule_walk ::
    "event \<Rightarrow> (nat \<Rightarrow> instant option) \<Rightarrow> instant \<Rightarrow> instant \<Rightarrow> nat \<Rightarrow> nat \<Rightarrow> occurrence list \<Rightarrow> occurrence list \<times> bool" where
  "rule_walk ev occ start until i kept out =
     (case occ i of
        None \<Rightarrow> (out, False)
      | Some at \<Rightarrow>
          if Suc i > max_rrule_raw_scan then (out, True)
          else if at \<ge> until then (out, False)
          else if at + (ve_dtend ev - ve_dtstart ev) \<le> start then rule_walk ev occ start until (Suc i) kept out
          else if excluded ev at then rule_walk ev occ start until (Suc i) kept out
          else (let out = out @ [occurrence_of ev at True]; kept = Suc kept
                in if kept \<ge> max_occurrences_per_event then (out, True)
                   else if length out \<ge> max_occurrences_per_window then (out, True)
                   else rule_walk ev occ start until (Suc i) kept out))"
  by auto
termination by (relation "measure (\<lambda>(ev, occ, start, until, i, kept, out). Suc max_rrule_raw_scan - i)") auto

declare rule_walk.simps [simp del]

definition expand_one ::
    "(event \<Rightarrow> nat \<Rightarrow> instant option) \<Rightarrow> instant \<Rightarrow> instant \<Rightarrow> event \<Rightarrow> occurrence list \<Rightarrow> occurrence list \<times> bool" where
  "expand_one occ start until ev out =
     (case ve_rrule ev of
        Some r \<Rightarrow> if r \<noteq> [] then rule_walk ev (occ ev) start until 0 0 out
                  else if ve_dtend ev \<le> start \<or> ve_dtstart ev \<ge> until then (out, False)
                  else (out @ [occurrence_of ev (ve_dtstart ev) False], False)
      | None \<Rightarrow> if ve_dtend ev \<le> start \<or> ve_dtstart ev \<ge> until then (out, False)
                else (out @ [occurrence_of ev (ve_dtstart ev) False], False))"

text \<open>
  The loop over the events.  After an event outside the window the code goes on without looking at the cap,
  which no such event can have reached.
\<close>

fun expand_loop ::
    "(event \<Rightarrow> nat \<Rightarrow> instant option) \<Rightarrow> instant \<Rightarrow> instant \<Rightarrow> event list \<Rightarrow> occurrence list \<Rightarrow> bool \<Rightarrow>
     occurrence list \<times> bool" where
  "expand_loop occ start until [] out truncated = (out, truncated)"
| "expand_loop occ start until (ev # evs) out truncated =
     (let (out1, t) = expand_one occ start until ev out
      in if length out1 \<ge> max_occurrences_per_window then (out1, True)
         else expand_loop occ start until evs out1 (truncated \<or> t))"

definition expand_events_report ::
    "(event \<Rightarrow> nat \<Rightarrow> instant option) \<Rightarrow> event list \<Rightarrow> instant \<Rightarrow> instant \<Rightarrow> occurrence list \<times> bool" where
  "expand_events_report occ evs start until =
     (let (out, truncated) = expand_loop occ start until evs [] False in (sort_key oc_start out, truncated))"

section \<open>What is kept overlaps the window and is an occurrence of its event\<close>

definition is_recurring :: "event \<Rightarrow> bool" where
  "is_recurring ev = (\<exists>r. ve_rrule ev = Some r \<and> r \<noteq> [])"

definition happens :: "(event \<Rightarrow> nat \<Rightarrow> instant option) \<Rightarrow> event \<Rightarrow> instant \<Rightarrow> bool" where
  "happens occ ev at =
     (if is_recurring ev then (\<exists>i. occ ev i = Some at) \<and> \<not> excluded ev at else at = ve_dtstart ev)"

definition in_window :: "instant \<Rightarrow> instant \<Rightarrow> event \<Rightarrow> instant \<Rightarrow> bool" where
  "in_window start until ev at = (at < until \<and> start < at + (ve_dtend ev - ve_dtstart ev))"

definition rightful :: "(event \<Rightarrow> nat \<Rightarrow> instant option) \<Rightarrow> instant \<Rightarrow> instant \<Rightarrow> event \<Rightarrow> occurrence \<Rightarrow> bool" where
  "rightful occ start until ev x =
     (\<exists>at. happens occ ev at \<and> in_window start until ev at \<and> x = occurrence_of ev at (is_recurring ev))"

lemma rule_walk_spec:
  assumes "kept < max_occurrences_per_event" "length out < max_occurrences_per_window"
    and "rule_walk ev occ start until i kept out = (out', t)"
  shows "\<exists>new. out' = out @ new \<and> length new + kept \<le> max_occurrences_per_event \<and>
    length out' \<le> max_occurrences_per_window \<and>
    (\<forall>x \<in> set new. \<exists>j at. occ j = Some at \<and> \<not> excluded ev at \<and> in_window start until ev at \<and>
       x = occurrence_of ev at True)"
  using assms
proof (induction ev occ start until i kept out arbitrary: out' t rule: rule_walk.induct)
  case (1 ev occ start until i kept out)
  show ?case
  proof (cases "occ i")
    case None
    then show ?thesis using "1.prems" by (simp add: rule_walk.simps [of ev occ])
  next
    case (Some at)
    let ?new = "occurrence_of ev at True"
    consider "Suc i > max_rrule_raw_scan \<or> at \<ge> until"
      | "\<not> Suc i > max_rrule_raw_scan" "\<not> at \<ge> until"
        "at + (ve_dtend ev - ve_dtstart ev) \<le> start \<or> excluded ev at"
      | "\<not> Suc i > max_rrule_raw_scan" "\<not> at \<ge> until" "\<not> at + (ve_dtend ev - ve_dtstart ev) \<le> start"
        "\<not> excluded ev at" by blast
    then show ?thesis
    proof cases
      case 1
      then have "out' = out"
        using "1.prems"(3) Some by (auto simp: rule_walk.simps [of ev occ start until i] split: if_splits)
      then show ?thesis using "1.prems"(1,2) by simp
    next
      case 2
      then have "rule_walk ev occ start until (Suc i) kept out = (out', t)"
        using "1.prems"(3) Some by (auto simp: rule_walk.simps [of ev occ start until i] split: if_splits)
      then show ?thesis
        using 2 "1.IH"(1,2) [OF Some] "1.prems"(1,2) by blast
    next
      case 3
      then have win: "in_window start until ev at" by (simp add: in_window_def)
      show ?thesis
      proof (cases "Suc kept \<ge> max_occurrences_per_event \<or> Suc (length out) \<ge> max_occurrences_per_window")
        case True
        then have "out' = out @ [?new]"
          using "1.prems"(3) Some 3 by (auto simp: rule_walk.simps [of ev occ] Let_def split: if_splits)
        then show ?thesis using "1.prems"(1,2) win 3(4) Some by auto
      next
        case False
        then have next_walk: "rule_walk ev occ start until (Suc i) (Suc kept) (out @ [?new]) = (out', t)"
          using "1.prems"(3) Some 3 by (simp add: rule_walk.simps [of ev occ start until i] Let_def)
        have "\<exists>new. out' = (out @ [?new]) @ new \<and> length new + Suc kept \<le> max_occurrences_per_event \<and>
            length out' \<le> max_occurrences_per_window \<and>
            (\<forall>x \<in> set new. \<exists>j at. occ j = Some at \<and> \<not> excluded ev at \<and> in_window start until ev at \<and>
               x = occurrence_of ev at True)"
          by (rule "1.IH"(3) [OF Some 3(1-4) refl refl _ _ _ _ next_walk]) (use False in auto)
        then obtain new where new: "out' = (out @ [?new]) @ new" "length new + Suc kept \<le> max_occurrences_per_event"
            "length out' \<le> max_occurrences_per_window"
            "\<forall>x \<in> set new. \<exists>j at. occ j = Some at \<and> \<not> excluded ev at \<and> in_window start until ev at \<and>
               x = occurrence_of ev at True" by blast
        show ?thesis
          by (rule exI [of _ "?new # new"]) (use new win 3(4) Some in auto)
      qed
    qed
  qed
qed

lemma expand_one_spec:
  assumes "length out < max_occurrences_per_window" and "expand_one occ start until ev out = (out', t)"
  shows "\<exists>new. out' = out @ new \<and> length new \<le> max_occurrences_per_event \<and>
    length out' \<le> max_occurrences_per_window \<and> (\<forall>x \<in> set new. rightful occ start until ev x)"
proof (cases "is_recurring ev")
  case True
  then have walk: "rule_walk ev (occ ev) start until 0 0 out = (out', t)"
    using assms(2) by (auto simp: expand_one_def is_recurring_def split: if_splits)
  obtain new where "out' = out @ new" "length new + 0 \<le> max_occurrences_per_event"
      "length out' \<le> max_occurrences_per_window"
      "\<forall>x \<in> set new. \<exists>j at. occ ev j = Some at \<and> \<not> excluded ev at \<and> in_window start until ev at \<and>
         x = occurrence_of ev at True"
    using rule_walk_spec [OF _ assms(1) walk] by (auto simp: max_occurrences_per_event_def)
  then show ?thesis using True unfolding rightful_def happens_def
    by (intro exI [of _ new] conjI ballI) (simp_all, blast)
next
  case False
  then have "(if ve_dtend ev \<le> start \<or> ve_dtstart ev \<ge> until then (out, False)
      else (out @ [occurrence_of ev (ve_dtstart ev) False], False)) = (out', t)"
    using assms(2) by (auto simp: expand_one_def is_recurring_def split: option.splits if_splits)
  then show ?thesis using False assms(1)
    by (auto simp: rightful_def happens_def in_window_def max_occurrences_per_event_def split: if_splits)
qed

lemma expand_loop_spec:
  assumes "length out < max_occurrences_per_window" and "expand_loop occ start until evs out t0 = (out', t)"
  shows "\<exists>new. out' = out @ new \<and> length out' \<le> max_occurrences_per_window \<and>
    (\<forall>x \<in> set new. \<exists>ev \<in> set evs. rightful occ start until ev x)"
  using assms
proof (induction evs arbitrary: out t0)
  case Nil
  then show ?case by simp
next
  case (Cons ev evs)
  obtain out1 t1 where one: "expand_one occ start until ev out = (out1, t1)"
    by (cases "expand_one occ start until ev out") auto
  obtain new1 where new1: "out1 = out @ new1" "length out1 \<le> max_occurrences_per_window"
      "\<forall>x \<in> set new1. rightful occ start until ev x"
    using expand_one_spec [OF Cons.prems(1) one] by blast
  show ?case
  proof (cases "length out1 \<ge> max_occurrences_per_window")
    case True
    then show ?thesis using Cons.prems(2) one new1 by auto
  next
    case False
    then have "expand_loop occ start until evs out1 (t0 \<or> t1) = (out', t)"
      using Cons.prems(2) one by simp
    then obtain new where "out' = out1 @ new" "length out' \<le> max_occurrences_per_window"
        "\<forall>x \<in> set new. \<exists>ev \<in> set evs. rightful occ start until ev x"
      using Cons.IH [of out1 "t0 \<or> t1"] False by (metis not_le)
    then show ?thesis using new1 by (intro exI [of _ "new1 @ new"]) auto
  qed
qed

section \<open>What is not cut is complete\<close>

lemma rule_walk_complete:
  assumes "rule_walk ev occ start until i kept out = (out', False)"
    and "\<And>j k a b. j \<le> k \<Longrightarrow> occ j = Some a \<Longrightarrow> occ k = Some b \<Longrightarrow> a \<le> b"
    and "\<And>j k. j \<le> k \<Longrightarrow> occ j = None \<Longrightarrow> occ k = None"
    and "i \<le> n" "occ n = Some at" "\<not> excluded ev at" "in_window start until ev at"
  shows "occurrence_of ev at True \<in> set out' \<and> set out \<subseteq> set out'"
  using assms
proof (induction ev occ start until i kept out arbitrary: out' rule: rule_walk.induct)
  case (1 ev occ start until i kept out)
  have walk: "rule_walk ev occ start until i kept out = (out', False)" by (rule "1.prems"(1))
  obtain b where b: "occ i = Some b" using "1.prems"(3) [OF "1.prems"(4)] "1.prems"(5) by (cases "occ i") auto
  have le: "b \<le> at" by (rule "1.prems"(2) [OF "1.prems"(4) b "1.prems"(5)])
  have at: "at < until" "start < at + (ve_dtend ev - ve_dtstart ev)" using "1.prems"(7) by (auto simp: in_window_def)
  have scan: "\<not> Suc i > max_rrule_raw_scan" "\<not> b \<ge> until"
    using walk b le at by (auto simp: rule_walk.simps [of ev occ start until i] split: if_splits)
  have later: "i < n" if "b \<noteq> at" using "1.prems"(4,5) b that by (cases "i = n") auto
  show ?case
  proof (cases "b + (ve_dtend ev - ve_dtstart ev) \<le> start \<or> excluded ev b")
    case True
    then have "b \<noteq> at" using at "1.prems"(6) by auto
    then have "Suc i \<le> n" using later by simp
    moreover have "rule_walk ev occ start until (Suc i) kept out = (out', False)"
      using walk b True scan by (auto simp: rule_walk.simps [of ev occ start until i] split: if_splits)
    ultimately show ?thesis
      using "1.IH"(1) [OF b scan] "1.IH"(2) [OF b scan] True "1.prems"(2,3,5-7) by blast
  next
    case False
    let ?out = "out @ [occurrence_of ev b True]"
    have caps: "\<not> Suc kept \<ge> max_occurrences_per_event" "\<not> length ?out \<ge> max_occurrences_per_window"
      and next_walk: "rule_walk ev occ start until (Suc i) (Suc kept) ?out = (out', False)"
      using walk b False scan by (auto simp: rule_walk.simps [of ev occ start until i] Let_def split: if_splits)
    have sub: "set out \<subseteq> set out'" "occurrence_of ev b True \<in> set out'"
    proof -
      have "\<exists>new. out' = ?out @ new"
        using rule_walk_spec [OF _ _ next_walk] caps by auto
      then show "set out \<subseteq> set out'" "occurrence_of ev b True \<in> set out'" by auto
    qed
    show ?thesis
    proof (cases "b = at")
      case True
      then show ?thesis using sub by simp
    next
      case ne: False
      have "occurrence_of ev at True \<in> set out' \<and> set ?out \<subseteq> set out'"
        by (rule "1.IH"(3) [OF b scan _ _ refl refl caps next_walk "1.prems"(2,3) _ "1.prems"(5-7)])
          (use False later [OF ne] in auto)
      then show ?thesis by simp
    qed
  qed
qed

lemma expand_one_complete:
  assumes "expand_one occ start until ev out = (out', False)" "length out < max_occurrences_per_window"
    and "\<And>j k a b. j \<le> k \<Longrightarrow> occ ev j = Some a \<Longrightarrow> occ ev k = Some b \<Longrightarrow> a \<le> b"
    and "\<And>j k. j \<le> k \<Longrightarrow> occ ev j = None \<Longrightarrow> occ ev k = None"
    and "rightful occ start until ev x"
  shows "x \<in> set out'"
proof (cases "is_recurring ev")
  case True
  obtain i at where at: "occ ev i = Some at" "\<not> excluded ev at" "in_window start until ev at"
      "x = occurrence_of ev at True"
    using assms(5) True by (auto simp: rightful_def happens_def)
  have walk: "rule_walk ev (occ ev) start until 0 0 out = (out', False)"
    using assms(1) True by (auto simp: expand_one_def is_recurring_def split: if_splits)
  show ?thesis using rule_walk_complete [OF walk assms(3,4) _ at(1-3)] at(4) by simp
next
  case False
  then have "x = occurrence_of ev (ve_dtstart ev) False" "in_window start until ev (ve_dtstart ev)"
    using assms(5) by (auto simp: rightful_def happens_def)
  moreover have "(if ve_dtend ev \<le> start \<or> ve_dtstart ev \<ge> until then (out, False)
      else (out @ [occurrence_of ev (ve_dtstart ev) False], False)) = (out', False)"
    using assms(1) False by (auto simp: expand_one_def is_recurring_def split: option.splits if_splits)
  ultimately show ?thesis by (auto simp: in_window_def split: if_splits)
qed

lemma expand_loop_complete:
  assumes "expand_loop occ start until evs out t0 = (out', False)" "length out < max_occurrences_per_window"
    and "\<And>ev j k a b. j \<le> k \<Longrightarrow> occ ev j = Some a \<Longrightarrow> occ ev k = Some b \<Longrightarrow> a \<le> b"
    and "\<And>ev j k. j \<le> k \<Longrightarrow> occ ev j = None \<Longrightarrow> occ ev k = None"
    and "ev \<in> set evs" "rightful occ start until ev x"
  shows "x \<in> set out'"
  using assms(1,2,5)
proof (induction evs arbitrary: out t0)
  case Nil
  then show ?case by simp
next
  case (Cons e evs)
  obtain out1 t1 where one: "expand_one occ start until e out = (out1, t1)"
    by (cases "expand_one occ start until e out") auto
  have more: "length out1 < max_occurrences_per_window" and rest: "expand_loop occ start until evs out1 (t0 \<or> t1) = (out', False)"
    using Cons.prems(1) one by (auto split: if_splits)
  have flag: "expand_loop occ start until es os True = (os', t) \<Longrightarrow> t" for es os os' t
    by (induction es arbitrary: os) (auto split: prod.splits if_splits)
  then have "\<not> t1" using rest by auto
  show ?case
  proof (cases "ev = e")
    case True
    then have "x \<in> set out1"
      using expand_one_complete [OF _ Cons.prems(2) assms(3,4) assms(6)] one \<open>\<not> t1\<close> by auto
    then show ?thesis using expand_loop_spec [OF more rest] by auto
  next
    case False
    then show ?thesis using Cons.IH [OF rest more] Cons.prems(3) by simp
  qed
qed

text \<open>
  C35. The agenda is bounded, right, and says when it is not the whole.  Whatever events a calendar holds and
  whatever rules they carry, an expansion gives at most ten thousand occurrences, in order of their start,
  each of them an occurrence of one of the events that is not excluded and overlaps the window; and unless it
  reports that it was truncated, no such occurrence is missing.  Used of \<open>dateutil\<close>: it gives the
  occurrences of a rule in order of time.
\<close>

theorem expansion_bounded_and_complete:
  assumes ordered: "\<forall>ev j k a b. j \<le> k \<longrightarrow> occ ev j = Some a \<longrightarrow> occ ev k = Some b \<longrightarrow> a \<le> b"
    and ended: "\<forall>ev j k. j \<le> k \<longrightarrow> occ ev j = None \<longrightarrow> occ ev k = None"
    and result: "expand_events_report occ evs start until = (out, truncated)"
  shows "length out \<le> max_occurrences_per_window \<and> sorted (map oc_start out) \<and>
    (\<forall>x \<in> set out. \<exists>ev \<in> set evs. rightful occ start until ev x) \<and>
    (\<not> truncated \<longrightarrow> (\<forall>ev \<in> set evs. \<forall>x. rightful occ start until ev x \<longrightarrow> x \<in> set out))"
proof -
  obtain kept where loop: "expand_loop occ start until evs [] False = (kept, truncated)" and out: "out = sort_key oc_start kept"
    using result by (auto simp: expand_events_report_def split: prod.splits)
  have "length kept \<le> max_occurrences_per_window \<and> (\<forall>x \<in> set kept. \<exists>ev \<in> set evs. rightful occ start until ev x)"
    using expand_loop_spec [OF _ loop] by (auto simp: max_occurrences_per_window_def)
  moreover have "x \<in> set kept" if "\<not> truncated" "ev \<in> set evs" "rightful occ start until ev x" for ev x
    by (rule expand_loop_complete [of occ start until evs "[]" False])
      (use loop that ordered ended in \<open>auto simp: max_occurrences_per_window_def\<close>)
  ultimately show ?thesis by (simp add: out)
qed

definition sample_event :: event where
  "sample_event = \<lparr>ve_uid = ''e'', ve_summary = [], ve_dtstart = 0, ve_dtend = 10, ve_all_day = False,
     ve_rrule = Some ''FREQ=DAILY'', ve_exdates = [], ve_location = None, ve_alarms = []\<rparr>"

definition sample_occ :: "event \<Rightarrow> nat \<Rightarrow> instant option" where
  "sample_occ ev i = Some (int i * 100)"

lemma expansion_bounded_and_complete_witness:
  "occurrence_of sample_event 100 True \<in> set (fst (expand_events_report sample_occ [sample_event] 50 150))"
proof -
  let ?x = "occurrence_of sample_event 100 True"
  note defs = sample_event_def sample_occ_def max_rrule_raw_scan_def excluded_def max_occurrences_per_event_def
    max_occurrences_per_window_def
  have w2: "rule_walk sample_event (sample_occ sample_event) 50 150 2 1 [?x] = ([?x], False)"
    by (subst rule_walk.simps) (simp add: defs)
  have w1: "rule_walk sample_event (sample_occ sample_event) 50 150 1 0 [] = ([?x], False)"
    by (subst rule_walk.simps) (use w2 in \<open>simp add: defs numeral_2_eq_2\<close>)
  have w0: "rule_walk sample_event (sample_occ sample_event) 50 150 0 0 [] = ([?x], False)"
    by (subst rule_walk.simps) (use w1 in \<open>simp add: defs\<close>)
  have run: "expand_events_report sample_occ [sample_event] 50 150 = ([?x], False)"
    using w0 by (simp add: expand_events_report_def expand_one_def max_occurrences_per_window_def)
      (simp add: sample_event_def)
  have right: "rightful sample_occ 50 150 sample_event ?x"
    unfolding rightful_def happens_def
    by (intro exI [of _ 100]) (auto simp: is_recurring_def sample_event_def excluded_def in_window_def sample_occ_def
        intro: exI [of _ "1 :: nat"])
  have mono: "\<forall>ev j k a b. j \<le> k \<longrightarrow> sample_occ ev j = Some a \<longrightarrow> sample_occ ev k = Some b \<longrightarrow> a \<le> b"
    and ends: "\<forall>ev j k. j \<le> k \<longrightarrow> sample_occ ev j = None \<longrightarrow> sample_occ ev k = None"
    by (auto simp: sample_occ_def)
  have "\<forall>ev \<in> set [sample_event]. \<forall>x. rightful sample_occ 50 150 ev x \<longrightarrow> x \<in> set [?x]"
    by (rule expansion_bounded_and_complete [OF mono ends run, THEN conjunct2, THEN conjunct2, THEN conjunct2,
          THEN mp]) (rule not_False_eq_True [THEN iffD2, OF TrueI])
  from this [THEN bspec, THEN HOL.spec, THEN mp, OF _ right] have "?x \<in> set [?x]"
    by (simp only: list.set insert_iff simp_thms)
  then show ?thesis by (simp only: run fst_conv)
qed

end
