(* ===== verification/Redaction.thy ===== *)
theory Redaction imports Json_Value "HOL-Library.AList" begin

text \<open>
  The security agent's redactor (\<open>app/security/redaction.py\<close>): what it does to texts and to nested values,
  and the last check before a value is stored.  The compiled regular expressions of \<open>SECRET_PATTERNS\<close> are
  the argument \<open>pats\<close>: a name with the pattern's \<open>search\<close> and \<open>sub\<close>.  The lemmas say that nothing a pattern
  finds gets past \<open>assert_redacted\<close>.
\<close>

record secret_pattern =
  sp_name :: string
  sp_search :: "string \<Rightarrow> bool"
  sp_sub :: "string \<Rightarrow> string \<Rightarrow> string"

definition max_redact_chars :: nat where "max_redact_chars = 20000"

definition max_redact_depth :: nat where "max_redact_depth = 8"

definition redaction_of :: "string \<Rightarrow> string" where
  "redaction_of name = ''[REDACTED:'' @ name @ '']''"

definition find_secret :: "secret_pattern list \<Rightarrow> string \<Rightarrow> string option" where
  "find_secret pats s = map_option sp_name (List.find (\<lambda>p. sp_search p s) pats)"

text \<open>The ellipsis of a cut text is written as three dots.\<close>

definition redact_text :: "secret_pattern list \<Rightarrow> string \<Rightarrow> string" where
  "redact_text pats s =
     (if s = [] then s
      else foldl (\<lambda>t p. if sp_search p t then sp_sub p (redaction_of (sp_name p)) t else t)
             (if length s > max_redact_chars then take max_redact_chars s @ ''...'' else s) pats)"

text \<open>A dict comprehension: a key met again overwrites in place.\<close>

definition dict_of :: "(string \<times> json) list \<Rightarrow> (string \<times> json) list" where
  "dict_of kvs = foldl (\<lambda>d (k, v). AList.update k v d) [] kvs"

fun redact_value :: "secret_pattern list \<Rightarrow> nat \<Rightarrow> json \<Rightarrow> json" where
  "redact_value pats depth (JStr s) =
     (if depth > max_redact_depth then JStr ''[REDACTED:depth_limit]'' else JStr (redact_text pats s))"
| "redact_value pats depth (JObj kvs) =
     (if depth > max_redact_depth then JStr ''[REDACTED:depth_limit]''
      else JObj (dict_of (map (\<lambda>(k, v). (redact_text pats k, redact_value pats (Suc depth) v)) kvs)))"
| "redact_value pats depth (JList vs) =
     (if depth > max_redact_depth then JStr ''[REDACTED:depth_limit]''
      else JList (map (redact_value pats (Suc depth)) vs))"
| "redact_value pats depth j =
     (if depth > max_redact_depth then JStr ''[REDACTED:depth_limit]'' else j)"

fun first_some :: "'a option list \<Rightarrow> 'a option" where
  "first_some [] = None"
| "first_some (x # xs) = (case x of None \<Rightarrow> first_some xs | Some y \<Rightarrow> Some y)"

text \<open>\<open>if hit\<close>: the empty name does not count.\<close>

fun hit :: "string option \<Rightarrow> string option" where
  "hit (Some []) = None"
| "hit r = r"

fun contains_secret :: "secret_pattern list \<Rightarrow> json \<Rightarrow> string option" where
  "contains_secret pats (JStr s) = find_secret pats s"
| "contains_secret pats (JObj kvs) =
     first_some (map (\<lambda>(k, v). first_some [hit (find_secret pats k), hit (contains_secret pats v)]) kvs)"
| "contains_secret pats (JList vs) = first_some (map (\<lambda>v. hit (contains_secret pats v)) vs)"
| "contains_secret pats j = None"

definition redaction_failure :: "string \<Rightarrow> string \<Rightarrow> json" where
  "redaction_failure name place =
     JObj [(''redaction_failure'', JBool True), (''pattern'', JStr name), (''where'', JStr place)]"

definition assert_redacted :: "secret_pattern list \<Rightarrow> string \<Rightarrow> json \<Rightarrow> json" where
  "assert_redacted pats place v =
     (case contains_secret pats v of None \<Rightarrow> v | Some name \<Rightarrow> redaction_failure name place)"

text \<open>What may be stored: a value in which no pattern finds anything, or the mark of a failed redaction.\<close>

definition storable :: "secret_pattern list \<Rightarrow> json \<Rightarrow> bool" where
  "storable pats v = (contains_secret pats v = None \<or> (\<exists>p \<in> set pats. \<exists>place. v = redaction_failure (sp_name p) place))"

lemma first_some_None: "first_some xs = None \<longleftrightarrow> set xs \<subseteq> {None}"
  by (induction xs) (auto split: option.splits)

lemma first_some_Some: "first_some xs = Some y \<Longrightarrow> Some y \<in> set xs"
  by (induction xs) (auto split: option.splits)

lemma find_secret_name: "find_secret pats s = Some n \<Longrightarrow> \<exists>p \<in> set pats. n = sp_name p"
  by (auto simp: find_secret_def find_Some_iff)

lemma hit_Some: "hit r = Some n \<Longrightarrow> r = Some n"
  by (cases r rule: hit.cases) simp_all

lemma contains_secret_name: "contains_secret pats v = Some n \<Longrightarrow> \<exists>p \<in> set pats. n = sp_name p"
proof (induction pats v rule: contains_secret.induct)
  case (2 pats kvs)
  obtain k v where kv: "(k, v) \<in> set kvs" "first_some [hit (find_secret pats k), hit (contains_secret pats v)] = Some n"
    using first_some_Some [of _ n] 2(2) by fastforce
  from first_some_Some [OF kv(2)] have "find_secret pats k = Some n \<or> contains_secret pats v = Some n"
    by (auto dest: hit_Some [OF sym])
  then show ?case using 2(1) [OF kv(1) refl] by (auto dest: find_secret_name)
next
  case (3 pats vs)
  obtain v where "v \<in> set vs" "hit (contains_secret pats v) = Some n"
    using first_some_Some [of _ n] 3(2) by fastforce
  then show ?case using 3(1) by (auto dest: hit_Some)
qed (simp_all add: find_secret_name)

lemma assert_redacted_storable [simp]: "storable pats (assert_redacted pats place v)"
  by (auto simp: storable_def assert_redacted_def split: option.split dest: contains_secret_name)

end
