(* ===== verification/Net_Address.thy ===== *)
theory Net_Address imports Py_Strings "HOL-Library.Word" begin

unbundle bit_operations_syntax

text \<open>
  Python's \<open>ipaddress\<close> as far as the security registry uses it: \<open>ip_address\<close>, \<open>ip_network(strict=False)\<close>,
  \<open>str\<close> of both, equality, membership, \<open>subnet_of\<close> and the special blocks.  An IPv4 address is a
  32-bit word, an IPv6 address a 128-bit word with its scope id; a network keeps its first address and
  its prefix length.  The lemmas say which addresses a network holds.
\<close>

section \<open>Prefixes\<close>

definition netmask :: "nat \<Rightarrow> 'a::len word" where "netmask p = (- 1) XOR drop_bit p (- 1)"

definition hostmask :: "nat \<Rightarrow> 'a::len word" where "hostmask p = drop_bit p (- 1)"

definition within :: "'a::len word \<Rightarrow> 'a word \<Rightarrow> nat \<Rightarrow> bool" where
  "within a net p = (a AND netmask p = net)"

definition broadcast :: "'a::len word \<Rightarrow> nat \<Rightarrow> 'a word" where "broadcast net p = net OR hostmask p"

text \<open>\<open>_prefix_from_ip_int\<close>: the only mask of its pattern, or no prefix.\<close>

definition prefix_of_mask :: "'a::len word \<Rightarrow> nat option" where
  "prefix_of_mask w = List.find (\<lambda>p. netmask p = w) [0..<Suc LENGTH('a)]"

section \<open>IPv4 texts\<close>

definition v4_octet :: "string \<Rightarrow> nat option" where
  "v4_octet s =
     (if \<not> is_digits s \<or> length s > 3 \<or> (s \<noteq> ''0'' \<and> hd s = CHR ''0'') \<or> int_of_digits s > 255 then None
      else Some (int_of_digits s))"

definition v4_of_string :: "string \<Rightarrow> 32 word option" where
  "v4_of_string s =
     (case map v4_octet (split_on (CHR ''.'') s) of
        [Some a, Some b, Some c, Some d] \<Rightarrow> Some (of_int (((int a * 256 + int b) * 256 + int c) * 256 + int d))
      | _ \<Rightarrow> None)"

definition v4_octets :: "32 word \<Rightarrow> nat list" where
  "v4_octets w = map (\<lambda>k. nat (uint w div 256 ^ k mod 256)) [3, 2, 1, 0]"

definition v4_text :: "32 word \<Rightarrow> string" where
  "v4_text w = join_with ''.'' (map show_nat (v4_octets w))"

section \<open>IPv6 texts\<close>

definition hex_digits :: string where "hex_digits = ''0123456789ABCDEFabcdef''"

definition hex_value :: "char \<Rightarrow> nat" where
  "hex_value c =
     (let n = of_char c :: nat in if n \<ge> 97 then n - 87 else if n \<ge> 65 then n - 55 else n - 48)"

definition int_of_hex :: "string \<Rightarrow> nat" where "int_of_hex s = foldl (\<lambda>n c. 16 * n + hex_value c) 0 s"

definition hex_char :: "nat \<Rightarrow> char" where
  "hex_char d = (if d < 10 then char_of (48 + d) else char_of (87 + d))"

fun show_hex :: "nat \<Rightarrow> string" where
  "show_hex n = (if n < 16 then [hex_char n] else show_hex (n div 16) @ [hex_char (n mod 16)])"

declare show_hex.simps [simp del]

definition hextet :: "string \<Rightarrow> nat option" where
  "hextet s =
     (if \<not> list_all (\<lambda>c. c \<in> set hex_digits) s \<or> length s > 4 \<or> s = [] then None else Some (int_of_hex s))"

text \<open>The parts between colons, a dotted suffix rewritten as two hextets.\<close>

definition v6_parts :: "string \<Rightarrow> string list option" where
  "v6_parts s =
     (let parts = split_on (CHR '':'') s in
      if length parts < 3 then None
      else if CHR ''.'' \<in> set (last parts)
      then (case v4_of_string (last parts) of
              None \<Rightarrow> None
            | Some w \<Rightarrow> Some (butlast parts @ [show_hex (nat (uint w div 65536)), show_hex (nat (uint w mod 65536))]))
      else Some parts)"

text \<open>Where \<open>::\<close> stands: \<open>Inl ()\<close> when it stands twice.\<close>

definition skip_index :: "string list \<Rightarrow> unit + nat option" where
  "skip_index parts =
     (case filter (\<lambda>i. parts ! i = []) [1..<length parts - 1] of
        [] \<Rightarrow> Inr None | [i] \<Rightarrow> Inr (Some i) | _ \<Rightarrow> Inl ())"

text \<open>How many parts stand before and after the \<open>::\<close>, and how many hextets it stands for.\<close>

definition v6_layout :: "string list \<Rightarrow> (nat \<times> nat \<times> nat) option" where
  "v6_layout parts =
     (case skip_index parts of
        Inl _ \<Rightarrow> None
      | Inr (Some i) \<Rightarrow>
          (let hi = (if hd parts = [] then i - 1 else i);
               lo = (if last parts = [] then length parts - i - 2 else length parts - i - 1)
           in if hd parts = [] \<and> hi \<noteq> 0 \<or> last parts = [] \<and> lo \<noteq> 0 \<or> hi + lo > 7 then None
              else Some (hi, lo, 8 - (hi + lo)))
      | Inr None \<Rightarrow>
          (if length parts \<noteq> 8 \<or> hd parts = [] \<or> last parts = [] then None else Some (8, 0, 0)))"

definition v6_of_string :: "string \<Rightarrow> 128 word option" where
  "v6_of_string s =
     (case v6_parts s of
        None \<Rightarrow> None
      | Some parts \<Rightarrow>
          if length parts > 9 then None
          else (case v6_layout parts of
                  None \<Rightarrow> None
                | Some (hi, lo, skipped) \<Rightarrow>
                    (let upper = map hextet (take hi parts);
                         lower = map hextet (drop (length parts - lo) parts)
                     in if None \<in> set (upper @ lower) then None
                        else Some (of_int (foldl (\<lambda>n h. n * 65536 + int (the h))
                               (foldl (\<lambda>n h. n * 65536 + int (the h)) 0 upper * 65536 ^ skipped) lower)))))"

text \<open>The longest run of zero hextets, the first of several, as its start and its length.\<close>

fun zero_run :: "nat \<Rightarrow> nat \<times> nat \<Rightarrow> nat \<times> nat \<Rightarrow> string list \<Rightarrow> nat \<times> nat" where
  "zero_run i best run [] = best"
| "zero_run i best run (h # hs) =
     (if h = ''0''
      then (let run = (if snd run = 0 then (i, 1) else (fst run, snd run + 1))
            in zero_run (Suc i) (if snd run > snd best then run else best) run hs)
      else zero_run (Suc i) best (0, 0) hs)"

definition compress_hextets :: "string list \<Rightarrow> string list" where
  "compress_hextets hs =
     (let (start, len) = zero_run 0 (0, 0) (0, 0) hs in
      if len > 1
      then (if start = 0 then [[]] else []) @ take start hs @ [[]] @ drop (start + len) hs @
             (if start + len = length hs then [[]] else [])
      else hs)"

definition v6_text :: "128 word \<Rightarrow> string" where
  "v6_text w =
     join_with '':'' (compress_hextets (map (\<lambda>k. show_hex (nat (uint w div 65536 ^ k mod 65536))) [7, 6, 5, 4, 3, 2, 1, 0]))"

section \<open>Addresses and networks\<close>

datatype ip = V4 "32 word" | V6 "128 word" "string option"

datatype ip_net = Net4 "32 word" nat | Net6 "128 word" "string option" nat

definition v6_address :: "string \<Rightarrow> (128 word \<times> string option) option" where
  "v6_address s =
     (if CHR ''/'' \<in> set s then None
      else (case split_once (CHR ''%'') s of
              None \<Rightarrow> map_option (\<lambda>w. (w, None)) (v6_of_string s)
            | Some (a, scope) \<Rightarrow>
                if scope = [] \<or> CHR ''%'' \<in> set scope then None
                else map_option (\<lambda>w. (w, Some scope)) (v6_of_string a)))"

definition ip_address :: "string \<Rightarrow> ip option" where
  "ip_address s =
     (case (if CHR ''/'' \<in> set s then None else v4_of_string s) of
        Some w \<Rightarrow> Some (V4 w)
      | None \<Rightarrow> map_option (\<lambda>(w, scope). V6 w scope) (v6_address s))"

text \<open>The prefix length a text gives: digits, or for IPv4 a netmask or a hostmask in dotted form.\<close>

definition prefix_digits :: "nat \<Rightarrow> string \<Rightarrow> nat option" where
  "prefix_digits longest s = (if is_digits s \<and> int_of_digits s \<le> longest then Some (int_of_digits s) else None)"

definition v4_prefix :: "string \<Rightarrow> nat option" where
  "v4_prefix s =
     (case prefix_digits 32 s of
        Some p \<Rightarrow> Some p
      | None \<Rightarrow>
          (case v4_of_string s of
             None \<Rightarrow> None
           | Some w \<Rightarrow> (case prefix_of_mask w of Some p \<Rightarrow> Some p | None \<Rightarrow> prefix_of_mask (NOT w))))"

definition v4_network :: "string \<Rightarrow> string option \<Rightarrow> ip_net option" where
  "v4_network a m =
     (case (v4_of_string a, (case m of None \<Rightarrow> Some 32 | Some m \<Rightarrow> v4_prefix m)) of
        (Some w, Some p) \<Rightarrow> Some (Net4 (w AND netmask p) p)
      | _ \<Rightarrow> None)"

definition v6_network :: "string \<Rightarrow> string option \<Rightarrow> ip_net option" where
  "v6_network a m =
     (case (v6_address a, (case m of None \<Rightarrow> Some 128 | Some m \<Rightarrow> prefix_digits 128 m)) of
        (Some (w, scope), Some p) \<Rightarrow>
          Some (if w AND netmask p = w then Net6 w scope p else Net6 (w AND netmask p) None p)
      | _ \<Rightarrow> None)"

definition ip_network :: "string \<Rightarrow> ip_net option" where
  "ip_network s =
     (case split_on (CHR ''/'') s of
        [a] \<Rightarrow> (case v4_network a None of Some n \<Rightarrow> Some n | None \<Rightarrow> v6_network a None)
      | [a, m] \<Rightarrow> (case v4_network a (Some m) of Some n \<Rightarrow> Some n | None \<Rightarrow> v6_network a (Some m))
      | _ \<Rightarrow> None)"

fun ip_text :: "ip \<Rightarrow> string" where
  "ip_text (V4 w) = v4_text w"
| "ip_text (V6 w scope) = v6_text w @ (case scope of None \<Rightarrow> [] | Some s \<Rightarrow> ''%'' @ s)"

fun net_text :: "ip_net \<Rightarrow> string" where
  "net_text (Net4 w p) = v4_text w @ ''/'' @ show_nat p"
| "net_text (Net6 w scope p) = ip_text (V6 w scope) @ ''/'' @ show_nat p"

fun net_version :: "ip_net \<Rightarrow> nat" where
  "net_version (Net4 _ _) = 4"
| "net_version (Net6 _ _ _) = 6"

fun prefix_length :: "ip_net \<Rightarrow> nat" where
  "prefix_length (Net4 _ p) = p"
| "prefix_length (Net6 _ _ p) = p"

fun in_network :: "ip \<Rightarrow> ip_net \<Rightarrow> bool" where
  "in_network (V4 a) (Net4 n p) = within a n p"
| "in_network (V6 a _) (Net6 n _ p) = within a n p"
| "in_network _ _ = False"

fun subnet_of :: "ip_net \<Rightarrow> ip_net \<Rightarrow> bool" where
  "subnet_of (Net4 n p) (Net4 m q) = (m \<le> n \<and> broadcast m q \<ge> broadcast n p)"
| "subnet_of (Net6 n _ p) (Net6 m _ q) = (m \<le> n \<and> broadcast m q \<ge> broadcast n p)"
| "subnet_of _ _ = False"

text \<open>The special blocks, each tested at both ends of a network.\<close>

definition reserved_v6 :: "(128 word \<times> nat) list" where
  "reserved_v6 = map (\<lambda>(h, p). (push_bit 112 h, p))
     [(0, 8), (0x100, 8), (0x200, 7), (0x400, 6), (0x800, 5), (0x1000, 4), (0x4000, 3), (0x6000, 3), (0x8000, 3),
      (0xA000, 3), (0xC000, 3), (0xE000, 4), (0xF000, 5), (0xF800, 6), (0xFE00, 9)]"

definition at_both_ends :: "('a::len word \<Rightarrow> bool) \<Rightarrow> 'a word \<Rightarrow> nat \<Rightarrow> bool" where
  "at_both_ends P n p = (P n \<and> P (broadcast n p))"

fun is_multicast :: "ip_net \<Rightarrow> bool" where
  "is_multicast (Net4 n p) = at_both_ends (\<lambda>a. within a 0xE0000000 4) n p"
| "is_multicast (Net6 n _ p) = at_both_ends (\<lambda>a. within a (push_bit 112 0xFF00) 8) n p"

fun is_reserved :: "ip_net \<Rightarrow> bool" where
  "is_reserved (Net4 n p) = at_both_ends (\<lambda>a. within a 0xF0000000 4) n p"
| "is_reserved (Net6 n _ p) = at_both_ends (\<lambda>a. list_ex (\<lambda>(m, q). within a m q) reserved_v6) n p"

fun is_unspecified :: "ip_net \<Rightarrow> bool" where
  "is_unspecified (Net4 n p) = at_both_ends (\<lambda>a. a = 0) n p"
| "is_unspecified (Net6 n _ p) = at_both_ends (\<lambda>a. a = 0) n p"

section \<open>What a network holds\<close>

lemma hostmask_eq: "(hostmask p :: 'a::len word) = mask (LENGTH('a) - p)"
  by (rule bit_word_eqI) (auto simp: hostmask_def bit_drop_bit_eq bit_mask_iff)

lemma netmask_eq: "(netmask p :: 'a::len word) = NOT (mask (LENGTH('a) - p))"
  using hostmask_eq [where 'a='a, of p] by (simp add: netmask_def hostmask_def)

lemma unat_and_not_mask: "unat (a AND NOT (mask k) :: 'a::len word) = unat a div 2 ^ k * 2 ^ k"
proof -
  have "unat (a AND NOT (mask k)) = push_bit k (drop_bit k (unat a))"
    by (rule bit_eqI) (auto simp: bit_simps dest: bit_imp_le_length)
  then show ?thesis by (simp add: push_bit_eq_mult drop_bit_eq_div)
qed

lemma unat_or_mask:
  assumes "unat n mod 2 ^ k = 0" "k \<le> LENGTH('a)"
  shows "unat (n OR mask k :: 'a::len word) = unat n + (2 ^ k - 1)"
proof -
  have "take_bit k (unat n) = 0" using assms(1) by (simp add: take_bit_eq_mod)
  then have "unat n AND mask k = 0" by (simp add: take_bit_eq_mask)
  then have "unat n + mask k = unat n OR mask k" by (rule disjunctive_add_eq_or)
  moreover have "unat (n OR mask k) = unat n OR mask k"
    using assms(2) by (auto intro!: bit_eqI simp: bit_simps)
  ultimately show ?thesis by (simp add: mask_eq_exp_minus_1)
qed

definition is_net :: "'a::len word \<Rightarrow> nat \<Rightarrow> bool" where
  "is_net n p = (n AND netmask p = n \<and> p \<le> LENGTH('a))"

lemma is_net_mod: "is_net (n::'a::len word) p \<Longrightarrow> unat n mod 2 ^ (LENGTH('a) - p) = 0"
  using unat_and_not_mask [of n "LENGTH('a) - p"] unfolding is_net_def netmask_eq by (metis mod_mult_self2_is_0)

lemma within_iff:
  assumes "is_net n p"
  shows "within a n p \<longleftrightarrow> n \<le> a \<and> a \<le> broadcast n p"
proof -
  let ?k = "LENGTH('a) - p"
  have m: "unat n mod 2 ^ ?k = 0" using is_net_mod [OF assms] .
  have "within a n p \<longleftrightarrow> unat a div 2 ^ ?k * 2 ^ ?k = unat n"
    using unat_and_not_mask [of a ?k] by (auto simp: within_def netmask_eq word_unat_eq_iff)
  moreover have "broadcast n p = n OR mask ?k" by (simp add: broadcast_def hostmask_eq)
  moreover have "unat (n OR mask ?k) = unat n + (2 ^ ?k - 1)" using unat_or_mask [OF m] by simp
  moreover have "x div d * d = y \<longleftrightarrow> y \<le> x \<and> x \<le> y + (d - 1)" if "y mod d = 0" "0 < d" for x y d :: nat
  proof -
    obtain q where y: "y = q * d" using \<open>y mod d = 0\<close> by (metis div_mult_mod_eq add.right_neutral)
    have "x div d = q \<longleftrightarrow> q * d \<le> x \<and> x < (q + 1) * d"
      using \<open>0 < d\<close> div_less_iff_less_mult [of d x "Suc q"] less_eq_div_iff_mult_less_eq [of d q x] by auto
    then show ?thesis using \<open>0 < d\<close> by (auto simp: y algebra_simps)
  qed
  ultimately show ?thesis using m by (simp add: word_le_nat_alt)
qed

lemma subnet_iff:
  assumes "is_net n p" "is_net m q"
  shows "m \<le> n \<and> broadcast m q \<ge> broadcast n p \<longleftrightarrow> (\<forall>a. within a n p \<longrightarrow> within a m q)"
proof -
  have "n \<le> broadcast n p" using within_iff [OF assms(1), of n] assms(1) by (simp add: within_def is_net_def)
  then show ?thesis unfolding within_iff [OF assms(1)] within_iff [OF assms(2)]
    by (meson order.refl order.trans)
qed

lemma card_within:
  assumes "is_net (n :: 'a::len word) p"
  shows "card {a. within a n p} = 2 ^ (LENGTH('a) - p)"
proof -
  define b where "b = (2 ^ (LENGTH('a) - p) :: nat)"
  have pos: "0 < b" by (simp add: b_def)
  have b: "unat (broadcast n p) = unat n + (b - 1)"
    using unat_or_mask [OF is_net_mod [OF assms]] by (simp add: broadcast_def hostmask_eq b_def)
  have "unat ` {a. within a n p} = {unat n..<unat n + b}"
  proof (intro set_eqI iffI)
    fix x assume "x \<in> unat ` {a. within a n p}"
    then show "x \<in> {unat n..<unat n + b}" using b pos by (auto simp: within_iff [OF assms] word_le_nat_alt)
  next
    fix x assume x: "x \<in> {unat n..<unat n + b}"
    then have "x \<le> unat (broadcast n p)" using b by auto
    then have "x < 2 ^ LENGTH('a)" using unsigned_less [of "broadcast n p"] by (meson le_less_trans)
    then have "unat (of_nat x :: 'a word) = x" by (simp add: unat_of_nat take_bit_nat_eq_self)
    then show "x \<in> unat ` {a. within a n p}" using x b \<open>x \<le> unat (broadcast n p)\<close>
      by (intro image_eqI [of _ _ "of_nat x"]) (simp_all add: within_iff [OF assms] word_le_nat_alt)
  qed
  moreover have "inj_on unat {a. within a n p}" by (auto simp: inj_on_def word_unat_eq_iff)
  ultimately show ?thesis using card_image [of unat "{a. within a n p}"] by (simp add: b_def)
qed

section \<open>An IPv4 text is read back\<close>

lemma octet_text: "n < 256 \<Longrightarrow> v4_octet (show_nat n) = Some n"
proof (cases "n = 0")
  case True
  have "v4_octet (show_nat 0) = Some 0" by code_simp
  then show ?thesis using True by simp
next
  case False
  then show "n < 256 \<Longrightarrow> v4_octet (show_nat n) = Some n"
    using show_nat_digits [of n] show_nat_small_head [of n] show_nat_length [of n]
    by (auto simp: v4_octet_def is_digits_def)
qed

lemma v4_text_chars: "\<not> is_digit c \<Longrightarrow> c \<noteq> CHR ''.'' \<Longrightarrow> c \<notin> set (v4_text w)"
  unfolding v4_text_def v4_octets_def by (auto dest: show_nat_chars)

lemma v4_roundtrip: "v4_of_string (v4_text w) = Some w"
proof -
  have "\<not> is_digit (CHR ''.'')" by code_simp
  then have sep: "\<forall>s \<in> set (map show_nat (v4_octets w)). CHR ''.'' \<notin> set s"
    unfolding set_map by (blast dest: show_nat_chars)
  have bytes: "map v4_octet (map show_nat (v4_octets w)) = map Some (v4_octets w)"
  proof -
    have "n < 256" if n: "n \<in> set (v4_octets w)" for n
    proof -
      obtain k where "n = nat (uint w div 256 ^ k mod 256)"
        using n unfolding v4_octets_def set_map by (elim imageE)
      moreover have "uint w div 256 ^ k mod 256 < 256" by (rule pos_mod_bound) simp
      ultimately show ?thesis by (simp only: nat_less_iff)
    qed
    then show ?thesis by (simp add: octet_text)
  qed
  define x where "x = uint w"
  have x: "0 \<le> x" "x < 2 ^ 32" using uint_lt2p [of w] by (simp_all add: x_def)
  define a b c d where "a = x div 16777216 mod 256" "b = x div 65536 mod 256" "c = x div 256 mod 256" "d = x mod 256"
  have nonneg: "0 \<le> a" "0 \<le> b" "0 \<le> c" "0 \<le> d" by (simp_all add: a_b_c_d_def)
  have "x div 16777216 mod 256 = x div 16777216"
    using x by (intro mod_pos_pos_trivial) (simp_all add: pos_imp_zdiv_nonneg_iff div_less_iff_less_mult)
  moreover have "x div 16777216 = x div 65536 div 256" "x div 65536 = x div 256 div 256"
    using div_mult2_eq' [of x 65536 256] div_mult2_eq' [of x 256 256] by simp_all
  ultimately have total: "((a * 256 + b) * 256 + c) * 256 + d = x"
    unfolding a_b_c_d_def by (metis div_mult_mod_eq)
  have octets: "v4_octets w = [nat a, nat b, nat c, nat d]"
    by (simp add: v4_octets_def x_def a_b_c_d_def)
  have "map v4_octet (split_on (CHR ''.'') (v4_text w)) = map Some (v4_octets w)"
    using bytes split_on_join [OF _ sep] by (simp add: v4_text_def v4_octets_def)
  moreover have "word_of_int (((a * 256 + b) * 256 + c) * 256 + d) = w" unfolding total by (simp add: x_def)
  ultimately show ?thesis using nonneg by (simp add: v4_of_string_def octets del: of_int_add of_int_mult)
qed

lemma net4_roundtrip:
  assumes "is_net w p"
  shows "ip_network (net_text (Net4 w p)) = Some (Net4 w p)"
proof -
  have "CHR ''/'' \<notin> set (v4_text w)" "CHR ''/'' \<notin> set (show_nat p)"
    using v4_text_chars [of "CHR ''/''" w] show_nat_chars [of "CHR ''/''" p] by (simp_all add: is_digit_def)
  then have "split_on (CHR ''/'') (net_text (Net4 w p)) = [v4_text w, show_nat p]"
    by (simp add: split_on_append split_on_single)
  moreover have "prefix_digits 32 (show_nat p) = Some p"
    using assms show_nat_digits [of p] by (simp add: prefix_digits_def is_digits_def is_net_def)
  ultimately show ?thesis
    using assms by (simp add: ip_network_def v4_network_def v4_roundtrip v4_prefix_def is_net_def)
qed

end
