(* ===== verification/Asset_Registry.thy ===== *)
theory Asset_Registry imports Redaction Net_Address "HOL-Library.List_Lexorder" "HOL-Library.Char_ord" begin

text \<open>
  The authorized asset registry (\<open>app/security/registry.py\<close>): the owner's enrolled assets, the checks of an
  enrollment and of a scope change, the life of an asset (active, suspended, expired, revoked) and the
  append-only audit.  A call that raises leaves the tables as they were (the session is not committed).
  The redaction patterns and the reading of a UUID text are arguments; ids of new rows and the clock are
  given by the caller.  Not in the rows: names of traces, the detail payload of an event, creation times.
\<close>

datatype security_error =
    Validation_error | Not_found | Already_enrolled | Out_of_scope | Constraint_violation
  | Remediation_not_automatable | Collector_root_violation | Target_unavailable | Internal_bug

datatype asset_status = Asset_active | Asset_suspended | Asset_revoked | Asset_expired

datatype event_action =
    Enrolled | Scope_changed | Suspended | Revoked | Expired
  | Assessment_authorized | Assessment_refused | Remediation_authorized | Remediation_refused

record asset =
  as_id :: nat
  as_ref :: string
  as_name :: string
  as_kind :: string
  as_locator :: string
  as_environment :: string
  as_status :: asset_status
  as_testing :: json
  as_permissions :: json
  as_constraints :: json
  as_evidence :: json
  as_from :: instant
  as_until :: "instant option"
  as_updated_at :: instant
  as_revoked_at :: "instant option"

record auth_event =
  ae_action :: event_action
  ae_ref :: "string option"
  ae_asset :: "nat option"
  ae_target :: "string option"
  ae_class :: "string option"
  ae_allowed :: bool
  ae_reason :: string

record registry =
  assets :: "asset list"
  events :: "auth_event list"

definition asset_kinds :: "string list" where
  "asset_kinds = [''host'', ''network'', ''device'', ''service'', ''domain'', ''repository'']"

definition environments :: "string list" where "environments = [''lab'', ''dev'', ''staging'', ''prod'']"

definition testing_classes :: "string list" where
  "testing_classes = [''configuration_audit'', ''vulnerability_scan'', ''controlled_validation'', ''remediation'']"

definition implemented_testing_classes :: "string list" where
  "implemented_testing_classes = [''configuration_audit'', ''remediation'']"

definition disruption_levels :: "string list" where "disruption_levels = [''none'', ''low'', ''medium'', ''high'']"

definition permission_classes :: "string list" where
  "permission_classes = [''network_permissions'', ''filesystem_permissions'', ''device_permissions'', ''secret_requirements'']"

definition max_reason :: nat where "max_reason = 512"

section \<open>Locators\<close>

definition rstrip_char :: "char \<Rightarrow> string \<Rightarrow> string" where
  "rstrip_char c s = rev (dropWhile (\<lambda>x. x = c) (rev s))"

definition lower_alnum :: "char \<Rightarrow> bool" where
  "lower_alnum c = (is_digit c \<or> (let n = of_char c :: nat in 97 \<le> n \<and> n \<le> 122))"

definition dns_label :: "string \<Rightarrow> bool" where
  "dns_label s = (s \<noteq> [] \<and> length s \<le> 63 \<and> lower_alnum (hd s) \<and> lower_alnum (last s) \<and>
     list_all (\<lambda>c. lower_alnum c \<or> c = CHR ''-'') s)"

text \<open>The dollar of a Python pattern also matches before a final newline.\<close>

definition hostname_re :: "string \<Rightarrow> bool" where
  "hostname_re s =
     (let t = (if s \<noteq> [] \<and> last s = CHR 0x0A then butlast s else s)
      in t \<noteq> [] \<and> length t \<le> 253 \<and> list_all dns_label (split_on (CHR ''.'') t))"

definition opaque_char :: "char \<Rightarrow> bool" where "opaque_char c = (lower_alnum (lower c) \<or> c \<in> set ''._:/+-'')"

definition opaque_re :: "string \<Rightarrow> bool" where
  "opaque_re s = (s \<noteq> [] \<and> length s \<le> 256 \<and> lower_alnum (lower (hd s)) \<and> list_all opaque_char s)"

definition asset_ref_re :: "string \<Rightarrow> bool" where
  "asset_ref_re s = (2 \<le> length s \<and> length s \<le> 64 \<and> lower_alnum (hd s) \<and>
     list_all (\<lambda>c. lower_alnum c \<or> c \<in> set ''._-'') s)"

definition min_ipv4_prefix :: nat where "min_ipv4_prefix = 16"
definition min_ipv6_prefix :: nat where "min_ipv6_prefix = 48"

definition absurd_network :: "ip_net \<Rightarrow> bool" where
  "absurd_network n = (is_multicast n \<or> is_reserved n \<or> is_unspecified n \<or>
     prefix_length n < (if net_version n = 4 then min_ipv4_prefix else min_ipv6_prefix))"

definition normalize_locator :: "string \<Rightarrow> string \<Rightarrow> security_error + string" where
  "normalize_locator kind locator =
     (let raw = strip locator; lowered = rstrip_char (CHR ''.'') (map lower raw) in
      if raw = [] \<or> length raw > 512 then Inl Validation_error
      else if kind = ''network''
      then (if CHR ''/'' \<notin> set raw then Inl Validation_error
            else (case ip_network raw of
                    None \<Rightarrow> Inl Validation_error
                  | Some n \<Rightarrow> if absurd_network n then Inl Validation_error else Inr (net_text n)))
      else if kind = ''host''
      then (case ip_address raw of
              Some a \<Rightarrow> Inr (ip_text a)
            | None \<Rightarrow> if hostname_re lowered then Inr lowered else Inl Validation_error)
      else if kind = ''domain''
      then (if \<not> hostname_re lowered then Inl Validation_error
            else (case ip_address lowered of None \<Rightarrow> Inr lowered | Some _ \<Rightarrow> Inl Validation_error))
      else if \<not> opaque_re raw \<or> contains_sub ''..'' raw then Inl Validation_error
      else Inr (rstrip_char (CHR ''/'') lowered))"

section \<open>The checks of what the owner records\<close>

fun check_each :: "('a \<Rightarrow> 'e + 'b) \<Rightarrow> 'a list \<Rightarrow> 'e + 'b list" where
  "check_each f [] = Inr []"
| "check_each f (x # xs) = bind_sum (f x) (\<lambda>y. bind_sum (check_each f xs) (\<lambda>ys. Inr (y # ys)))"

definition validate_allowed_testing :: "json \<Rightarrow> security_error + json" where
  "validate_allowed_testing v =
     (case v of
        JNull \<Rightarrow> Inr (JObj [])
      | JObj kvs \<Rightarrow>
          bind_sum (check_each (\<lambda>(k, b). if k \<notin> set testing_classes then Inl Validation_error
              else (case b of JBool _ \<Rightarrow> Inr (k, b) | _ \<Rightarrow> Inl Validation_error)) kvs) (\<lambda>out. Inr (JObj out))
      | _ \<Rightarrow> Inl Validation_error)"

definition permission_item :: "json \<Rightarrow> security_error + string" where
  "permission_item v =
     (case v of
        JStr s \<Rightarrow> if strip s = [] \<or> length s > 128 then Inl Validation_error else Inr (strip s)
      | _ \<Rightarrow> Inl Validation_error)"

definition validate_allowed_permissions :: "json \<Rightarrow> security_error + json" where
  "validate_allowed_permissions v =
     (case v of
        JNull \<Rightarrow> Inr (JObj [])
      | JObj kvs \<Rightarrow>
          bind_sum (check_each (\<lambda>(k, vs). if k \<notin> set permission_classes then Inl Validation_error
              else (case vs of
                      JList items \<Rightarrow>
                        if length items > 32 then Inl Validation_error
                        else bind_sum (check_each permission_item items)
                               (\<lambda>cleaned. Inr (k, JList (map JStr (sort (remdups cleaned)))))
                    | _ \<Rightarrow> Inl Validation_error)) kvs) (\<lambda>out. Inr (JObj out))
      | _ \<Rightarrow> Inl Validation_error)"

definition get_or :: "string \<Rightarrow> json \<Rightarrow> (string \<times> json) list \<Rightarrow> json" where
  "get_or k d kvs = (case map_of kvs k of None \<Rightarrow> d | Some v \<Rightarrow> v)"

definition known_disruption :: "json \<Rightarrow> bool" where
  "known_disruption v = (case v of JStr s \<Rightarrow> s \<in> set disruption_levels | _ \<Rightarrow> False)"

definition config_root_item :: "json \<Rightarrow> security_error + json" where
  "config_root_item v =
     (case v of
        JStr s \<Rightarrow> if strip s = [] \<or> length s > 512 then Inl Validation_error else Inr (JStr (strip s))
      | _ \<Rightarrow> Inl Validation_error)"

definition validate_constraints :: "json \<Rightarrow> security_error + json" where
  "validate_constraints v =
     (case v of
        JNull \<Rightarrow> Inr (JObj [])
      | JObj kvs \<Rightarrow>
          (let level = get_or ''max_disruption'' (JStr ''none'') kvs;
               out = AList.update ''max_disruption'' level kvs;
               roots = get_or ''config_roots'' (JList []) kvs
           in if \<not> known_disruption level then Inl Validation_error
              else (case (if roots = JNull \<or> roots = JStr [] then JList [] else roots) of
                      JList items \<Rightarrow>
                        if length items > 8 then Inl Validation_error
                        else bind_sum (check_each config_root_item items) (\<lambda>cleaned.
                          (case map_of kvs ''maintenance_window'' of
                             None \<Rightarrow> Inr (JObj (AList.update ''config_roots'' (JList cleaned) out))
                           | Some JNull \<Rightarrow> Inr (JObj (AList.update ''config_roots'' (JList cleaned) out))
                           | Some (JStr _) \<Rightarrow> Inr (JObj (AList.update ''config_roots'' (JList cleaned) out))
                           | Some _ \<Rightarrow> Inl Validation_error))
                    | _ \<Rightarrow> Inl Validation_error))
      | _ \<Rightarrow> Inl Validation_error)"

definition required_evidence_keys :: "string list" where
  "required_evidence_keys = [''authorization'', ''recorded_by'']"

definition validate_evidence :: "json \<Rightarrow> security_error + json" where
  "validate_evidence v =
     (case v of
        JObj kvs \<Rightarrow>
          if kvs = [] \<or> list_ex (\<lambda>k. strip (str_of (get_or k (JStr []) kvs)) = []) required_evidence_keys \<or>
             length kvs > 16 \<or> list_ex (\<lambda>(k, x). length k > 64 \<or> (\<exists>s \<in> set (case x of JStr s \<Rightarrow> [s] | _ \<Rightarrow> []). length s > 2000)) kvs
          then Inl Validation_error else Inr v
      | _ \<Rightarrow> Inl Validation_error)"

section \<open>The audit and the operations\<close>

record registry_env =
  re_patterns :: "secret_pattern list"
  re_uuid :: "string \<Rightarrow> nat option"

definition record_event ::
    "event_action \<Rightarrow> bool \<Rightarrow> string \<Rightarrow> asset option \<Rightarrow> string option \<Rightarrow> string option \<Rightarrow> string option \<Rightarrow>
     registry \<Rightarrow> registry" where
  "record_event action allowed reason asset ref target class db =
     db\<lparr>events := events db @
       [\<lparr>ae_action = action,
         ae_ref = (case asset of Some a \<Rightarrow> Some (as_ref a) | None \<Rightarrow> ref),
         ae_asset = map_option as_id asset,
         ae_target = (if target = Some [] then None else target),
         ae_class = (if class = Some [] then None else class),
         ae_allowed = allowed, ae_reason = take max_reason reason\<rparr>]\<rparr>"

definition put_asset :: "asset \<Rightarrow> registry \<Rightarrow> registry" where
  "put_asset a db = db\<lparr>assets := row_put as_id (as_id a) (\<lambda>_. a) (assets db)\<rparr>"

record enrollment =
  en_ref :: string
  en_name :: string
  en_kind :: string
  en_locator :: string
  en_environment :: string
  en_testing :: json
  en_permissions :: json
  en_constraints :: json
  en_evidence :: json
  en_from :: "instant option"
  en_until :: "instant option"

definition check_name :: "string \<Rightarrow> security_error + string" where
  "check_name name = (if strip name = [] \<or> length (strip name) > 256 then Inl Validation_error else Inr (strip name))"

text \<open>The row an enrollment writes, from the checks in their order.\<close>

definition enrolled_asset :: "secret_pattern list \<Rightarrow> nat \<Rightarrow> enrollment \<Rightarrow> instant \<Rightarrow> security_error + asset" where
  "enrolled_asset pats new_id q now =
     (let ref = map lower (strip (en_ref q)) in
      if \<not> asset_ref_re ref then Inl Validation_error
      else bind_sum (check_name (en_name q)) (\<lambda>name.
        if en_kind q \<notin> set asset_kinds then Inl Validation_error
        else if en_environment q \<notin> set environments then Inl Validation_error
        else bind_sum (normalize_locator (en_kind q) (en_locator q)) (\<lambda>locator.
          bind_sum (validate_allowed_testing (en_testing q)) (\<lambda>testing.
          bind_sum (validate_allowed_permissions (en_permissions q)) (\<lambda>permissions.
          bind_sum (validate_constraints (en_constraints q)) (\<lambda>limits.
          bind_sum (validate_evidence (en_evidence q)) (\<lambda>proven.
            let starts = (case en_from q of None \<Rightarrow> now | Some t \<Rightarrow> t) in
            if \<exists>e \<in> set_option (en_until q). e \<le> starts then Inl Validation_error
            else Inr \<lparr>as_id = new_id, as_ref = ref, as_name = name, as_kind = en_kind q, as_locator = locator,
               as_environment = en_environment q, as_status = Asset_active, as_testing = testing,
               as_permissions = permissions,
               as_constraints = assert_redacted pats ''asset.constraints'' (redact_value pats 0 limits),
               as_evidence = assert_redacted pats ''asset.evidence'' (redact_value pats 0 proven),
               as_from = starts, as_until = en_until q, as_updated_at = now, as_revoked_at = None\<rparr>)))))))"

definition find_ref :: "string \<Rightarrow> registry \<Rightarrow> asset option" where
  "find_ref ref db = List.find (\<lambda>a. as_ref a = ref) (assets db)"

definition enroll :: "registry_env \<Rightarrow> nat \<Rightarrow> enrollment \<Rightarrow> instant \<Rightarrow> registry \<Rightarrow> security_error + asset \<times> registry" where
  "enroll env new_id q now db =
     bind_sum (enrolled_asset (re_patterns env) new_id q now) (\<lambda>a.
       if find_ref (as_ref a) db \<noteq> None then Inl Already_enrolled
       else Inr (a, record_event Enrolled True ''owner enrolled an authorized asset'' (Some a) None None None
                      (db\<lparr>assets := assets db @ [a]\<rparr>)))"

text \<open>\<open>_load\<close>: by reference, then by id.\<close>

definition load_asset :: "registry_env \<Rightarrow> string \<Rightarrow> registry \<Rightarrow> security_error + asset" where
  "load_asset env ref db =
     (let needle = strip ref in
      case (if needle = [] then None
            else (case find_ref (map lower needle) db of
                    Some a \<Rightarrow> Some a
                  | None \<Rightarrow> (case re_uuid env needle of None \<Rightarrow> None | Some i \<Rightarrow> row_get as_id i (assets db)))) of
        None \<Rightarrow> Inl Not_found | Some a \<Rightarrow> Inr a)"

fun status_text :: "asset_status \<Rightarrow> string" where
  "status_text Asset_active = ''active''"
| "status_text Asset_suspended = ''suspended''"
| "status_text Asset_revoked = ''revoked''"
| "status_text Asset_expired = ''expired''"

definition asset_statuses :: "string list" where
  "asset_statuses = map status_text [Asset_active, Asset_suspended, Asset_revoked, Asset_expired]"

definition list_assets :: "string \<Rightarrow> string \<Rightarrow> nat \<Rightarrow> registry \<Rightarrow> security_error + asset list" where
  "list_assets status kind limit db =
     (if status \<noteq> [] \<and> status \<notin> set asset_statuses then Inl Validation_error
      else if kind \<noteq> [] \<and> kind \<notin> set asset_kinds then Inl Validation_error
      else Inr (take limit (sort_key as_ref (filter (\<lambda>a. (status = [] \<or> status_text (as_status a) = status) \<and>
             (kind = [] \<or> as_kind a = kind)) (assets db)))))"

definition all_assets :: "registry \<Rightarrow> asset list" where "all_assets db = sort_key as_ref (assets db)"

text \<open>\<open>JNull\<close> and \<open>None\<close> stand for an argument left out.\<close>

record scope_change =
  sc_name :: "string option"
  sc_environment :: "string option"
  sc_testing :: json
  sc_permissions :: json
  sc_constraints :: json
  sc_until :: "instant option"
  sc_clear_until :: bool
  sc_reason :: string

definition changed_asset :: "secret_pattern list \<Rightarrow> scope_change \<Rightarrow> instant \<Rightarrow> asset \<Rightarrow> security_error + asset" where
  "changed_asset pats q now a =
     (if as_status a = Asset_revoked then Inl Validation_error
      else bind_sum (case sc_name q of None \<Rightarrow> Inr a | Some n \<Rightarrow> bind_sum (check_name n) (\<lambda>n. Inr (a\<lparr>as_name := n\<rparr>))) (\<lambda>a.
      bind_sum (case sc_environment q of None \<Rightarrow> Inr a
                | Some e \<Rightarrow> if e \<in> set environments then Inr (a\<lparr>as_environment := e\<rparr>) else Inl Validation_error) (\<lambda>a.
      bind_sum (if sc_testing q = JNull then Inr a
                else bind_sum (validate_allowed_testing (sc_testing q)) (\<lambda>t. Inr (a\<lparr>as_testing := t\<rparr>))) (\<lambda>a.
      bind_sum (if sc_permissions q = JNull then Inr a
                else bind_sum (validate_allowed_permissions (sc_permissions q)) (\<lambda>p. Inr (a\<lparr>as_permissions := p\<rparr>))) (\<lambda>a.
      bind_sum (if sc_constraints q = JNull then Inr a
                else bind_sum (validate_constraints (sc_constraints q)) (\<lambda>c.
                  Inr (a\<lparr>as_constraints := assert_redacted pats ''asset.constraints'' (redact_value pats 0 c)\<rparr>))) (\<lambda>a.
      bind_sum (if sc_clear_until q then Inr (a\<lparr>as_until := None\<rparr>)
                else (case sc_until q of
                        None \<Rightarrow> Inr a
                      | Some e \<Rightarrow>
                          if e \<le> as_from a then Inl Validation_error
                          else Inr (a\<lparr>as_until := Some e,
                                 as_status := (if as_status a = Asset_expired \<and> e > now then Asset_active
                                               else as_status a)\<rparr>))) (\<lambda>a.
      Inr (a\<lparr>as_updated_at := now\<rparr>))))))))"

definition change_scope :: "registry_env \<Rightarrow> string \<Rightarrow> scope_change \<Rightarrow> instant \<Rightarrow> registry \<Rightarrow> security_error + asset \<times> registry" where
  "change_scope env ref q now db =
     bind_sum (load_asset env ref db) (\<lambda>a.
     bind_sum (changed_asset (re_patterns env) q now a) (\<lambda>a'.
       Inr (a', record_event Scope_changed True (sc_reason q) (Some a') None None None (put_asset a' db))))"

text \<open>\<open>suspend\<close> and \<open>revoke\<close>.\<close>

definition set_asset_status ::
    "registry_env \<Rightarrow> asset_status \<Rightarrow> event_action \<Rightarrow> string \<Rightarrow> string \<Rightarrow> instant \<Rightarrow> registry \<Rightarrow> security_error + asset \<times> registry" where
  "set_asset_status env status action ref reason now db =
     bind_sum (load_asset env ref db) (\<lambda>a.
       if as_status a = Asset_revoked then Inl Validation_error
       else let a' = a\<lparr>as_status := status, as_updated_at := now,
                       as_revoked_at := (if status = Asset_revoked then Some now else as_revoked_at a)\<rparr>
            in Inr (a', record_event action False reason (Some a') None None None (put_asset a' db)))"

definition suspend :: "registry_env \<Rightarrow> string \<Rightarrow> string \<Rightarrow> instant \<Rightarrow> registry \<Rightarrow> security_error + asset \<times> registry" where
  "suspend env = set_asset_status env Asset_suspended Suspended"

definition revoke :: "registry_env \<Rightarrow> string \<Rightarrow> string \<Rightarrow> instant \<Rightarrow> registry \<Rightarrow> security_error + asset \<times> registry" where
  "revoke env = set_asset_status env Asset_revoked Revoked"

definition reinstate :: "registry_env \<Rightarrow> string \<Rightarrow> string \<Rightarrow> instant \<Rightarrow> registry \<Rightarrow> security_error + asset \<times> registry" where
  "reinstate env ref reason now db =
     bind_sum (load_asset env ref db) (\<lambda>a.
       if as_status a \<notin> {Asset_suspended, Asset_expired} then Inl Validation_error
       else if \<exists>e \<in> set_option (as_until a). e \<le> now then Inl Validation_error
       else let a' = a\<lparr>as_status := Asset_active, as_updated_at := now\<rparr>
            in Inr (a', record_event Scope_changed True reason (Some a') None None None (put_asset a' db)))"

definition mark_expired :: "asset \<Rightarrow> instant \<Rightarrow> registry \<Rightarrow> registry" where
  "mark_expired a now db =
     (if as_status a \<noteq> Asset_active then db
      else let a' = a\<lparr>as_status := Asset_expired, as_updated_at := now\<rparr>
           in record_event Expired False ''authorization window elapsed'' (Some a') None None None (put_asset a' db))"

definition window_over :: "instant \<Rightarrow> asset \<Rightarrow> bool" where
  "window_over now a = (\<exists>e \<in> set_option (as_until a). e \<le> now)"

definition sweep_expired :: "instant \<Rightarrow> registry \<Rightarrow> string list \<times> registry" where
  "sweep_expired now db =
     (let due = filter (window_over now) (filter (\<lambda>a. as_status a = Asset_active) (assets db))
      in (map as_ref due, foldl (\<lambda>d a. mark_expired a now d) db due))"

end
