(* ===== verification/Scope_Guard.thy ===== *)
theory Scope_Guard imports Asset_Registry begin

text \<open>
  The enforcement point (\<open>app/security/scope.py\<close>): how a requested target is read, which assets cover it,
  the decision in its eight steps, its audit, and the permission provider (\<open>provider.py\<close>) that asks the same
  table.  The properties: the decision is exactly the owner's recorded authorization, whatever the
  text of the target; a question never widens the registry; a revoked asset grants nothing ever again.
\<close>

section \<open>Reading a target\<close>

datatype target =
    Ip_target ip
  | Network_target ip_net
  | Hostname_target string "string list"
  | Opaque_target string

definition max_target_length :: nat where "max_target_length = 512"

definition classify_target :: "string \<Rightarrow> target option" where
  "classify_target raw =
     (let candidate = strip raw in
      if candidate = [] \<or> length candidate > max_target_length then None
      else if \<not> list_all opaque_char candidate then None
      else if contains_sub ''..'' candidate then None
      else (case (if CHR ''/'' \<in> set candidate then ip_network candidate else None) of
              Some n \<Rightarrow> Some (Network_target n)
            | None \<Rightarrow>
                (case ip_address candidate of
                   Some a \<Rightarrow> Some (Ip_target a)
                 | None \<Rightarrow>
                     (let lowered = rstrip_char (CHR ''.'') (map lower candidate) in
                      if hostname_re lowered
                      then (let labels = split_on (CHR ''.'') lowered in
                            if is_digits (last labels) then None else Some (Hostname_target lowered labels))
                      else if opaque_re candidate then Some (Opaque_target (rstrip_char (CHR ''/'') lowered))
                      else None))))"

fun normalized :: "target \<Rightarrow> string" where
  "normalized (Ip_target a) = ip_text a"
| "normalized (Network_target n) = net_text n"
| "normalized (Hostname_target s _) = s"
| "normalized (Opaque_target s) = s"

section \<open>Matching\<close>

datatype match_method =
    Exact_address | Cidr_membership | Cidr_subnet | Exact_hostname | Domain_suffix | Exact_identifier

definition match_host :: "target \<Rightarrow> string \<Rightarrow> match_method option" where
  "match_host t locator =
     (case ip_address locator of
        Some a \<Rightarrow> if t = Ip_target a then Some Exact_address else None
      | None \<Rightarrow> (case t of
                   Hostname_target s _ \<Rightarrow> if s = locator then Some Exact_hostname else None
                 | _ \<Rightarrow> None))"

definition match_network :: "target \<Rightarrow> string \<Rightarrow> match_method option" where
  "match_network t locator =
     (case ip_network locator of
        None \<Rightarrow> None
      | Some n \<Rightarrow>
          (case t of
             Ip_target a \<Rightarrow> if in_network a n then Some Cidr_membership else None
           | Network_target m \<Rightarrow>
               if net_version m \<noteq> net_version n then None
               else if subnet_of m n then Some Cidr_subnet else None
           | _ \<Rightarrow> None))"

definition match_domain :: "target \<Rightarrow> string \<Rightarrow> match_method option" where
  "match_domain t locator =
     (case t of
        Hostname_target _ labels \<Rightarrow>
          (let domain = split_on (CHR ''.'') locator in
           if labels = [] \<or> length labels < length domain then None
           else if drop (length labels - length domain) labels \<noteq> domain then None
           else if length labels = length domain then Some Exact_hostname else Some Domain_suffix)
      | _ \<Rightarrow> None)"

definition match_identifier :: "target \<Rightarrow> string \<Rightarrow> match_method option" where
  "match_identifier t locator =
     (case t of
        Ip_target _ \<Rightarrow> None
      | Network_target _ \<Rightarrow> None
      | _ \<Rightarrow> if normalized t = locator then Some Exact_identifier else None)"

definition match_asset :: "target \<Rightarrow> asset \<Rightarrow> match_method option" where
  "match_asset t a =
     (if as_kind a = ''host'' then match_host t (as_locator a)
      else if as_kind a = ''network'' then match_network t (as_locator a)
      else if as_kind a = ''domain'' then match_domain t (as_locator a)
      else if as_kind a \<in> {''device'', ''service'', ''repository''} then match_identifier t (as_locator a)
      else None)"

definition find_matches :: "target \<Rightarrow> asset list \<Rightarrow> (asset \<times> match_method) list" where
  "find_matches t as = List.map_filter (\<lambda>a. map_option (\<lambda>m. (a, m)) (match_asset t a)) as"

section \<open>The decision\<close>

datatype scope_reason =
    In_scope | Invalid_target | Unresolvable_target | No_authorized_asset | Ambiguous_target
  | Reason_suspended | Reason_revoked | Authorization_expired | Not_yet_valid | Unknown_testing_class
  | Class_not_implemented | Class_not_allowed | Invalid_disruption | Disruption_exceeds_constraint

record scope_decision =
  sd_allowed :: bool
  sd_reason :: scope_reason
  sd_target :: string
  sd_class :: string
  sd_disruption :: string
  sd_asset :: "nat option"
  sd_asset_ref :: "string option"
  sd_matched_by :: "match_method option"

definition scope_refusal :: "scope_reason \<Rightarrow> string \<Rightarrow> string \<Rightarrow> string \<Rightarrow> scope_decision" where
  "scope_refusal reason target class disruption =
     \<lparr>sd_allowed = False, sd_reason = reason, sd_target = target, sd_class = class, sd_disruption = disruption,
      sd_asset = None, sd_asset_ref = None, sd_matched_by = None\<rparr>"

definition on_asset :: "asset \<Rightarrow> match_method \<Rightarrow> string \<Rightarrow> string \<Rightarrow> string \<Rightarrow> bool \<Rightarrow> scope_reason \<Rightarrow> scope_decision" where
  "on_asset a m target class disruption allowed reason =
     \<lparr>sd_allowed = allowed, sd_reason = reason, sd_target = target, sd_class = class, sd_disruption = disruption,
      sd_asset = Some (as_id a), sd_asset_ref = Some (as_ref a), sd_matched_by = Some m\<rparr>"

definition disruption_rank :: "string \<Rightarrow> nat" where
  "disruption_rank s = length (takeWhile (\<lambda>l. l \<noteq> s) disruption_levels)"

text \<open>\<open>dict(value or {}).get(key, default)\<close> on a stored value.\<close>

definition stored :: "json \<Rightarrow> (string \<times> json) list" where
  "stored v = (case v of JObj kvs \<Rightarrow> kvs | _ \<Rightarrow> [])"

definition max_disruption :: "asset \<Rightarrow> json" where
  "max_disruption a = get_or ''max_disruption'' (JStr ''none'') (stored (as_constraints a))"

text \<open>Steps 5 to 8, on the one asset that matched.\<close>

definition asset_verdict :: "asset \<Rightarrow> string \<Rightarrow> string \<Rightarrow> instant \<Rightarrow> scope_reason" where
  "asset_verdict a class disruption now =
     (if window_over now a then Authorization_expired
      else if as_from a > now then Not_yet_valid
      else (case as_status a of
              Asset_suspended \<Rightarrow> Reason_suspended
            | Asset_revoked \<Rightarrow> Reason_revoked
            | Asset_expired \<Rightarrow> Authorization_expired
            | Asset_active \<Rightarrow>
                if get_or class JNull (stored (as_testing a)) \<noteq> JBool True then Class_not_allowed
                else (case max_disruption a of
                        JStr l \<Rightarrow>
                          if l \<notin> set disruption_levels then Disruption_exceeds_constraint
                          else if disruption_rank disruption > disruption_rank l then Disruption_exceeds_constraint
                          else In_scope
                      | _ \<Rightarrow> Disruption_exceeds_constraint)))"

definition decide_scope :: "string \<Rightarrow> string \<Rightarrow> string \<Rightarrow> instant \<Rightarrow> registry \<Rightarrow> scope_decision \<times> registry" where
  "decide_scope raw class disruption now db =
     (let requested = take max_target_length (strip raw) in
      if class \<notin> set testing_classes then (scope_refusal Unknown_testing_class requested class disruption, db)
      else if class \<notin> set implemented_testing_classes then (scope_refusal Class_not_implemented requested class disruption, db)
      else if disruption \<notin> set disruption_levels
      then (scope_refusal Invalid_disruption requested class (take 32 disruption), db)
      else (case classify_target requested of
              None \<Rightarrow> (scope_refusal (if requested = [] then Unresolvable_target else Invalid_target) requested class disruption, db)
            | Some t \<Rightarrow>
                (case find_matches t (all_assets db) of
                   [] \<Rightarrow> (scope_refusal No_authorized_asset (normalized t) class disruption, db)
                 | (a, m) # rest \<Rightarrow>
                     if \<exists>(b, _) \<in> set rest. as_id b \<noteq> as_id a
                     then (scope_refusal Ambiguous_target (normalized t) class disruption, db)
                     else (let reason = asset_verdict a class disruption now
                           in (on_asset a m (normalized t) class disruption (reason = In_scope) reason,
                               if window_over now a then mark_expired a now db else db)))))"

definition reason_text :: "scope_reason \<Rightarrow> string" where
  "reason_text r =
     (case r of In_scope \<Rightarrow> ''in_scope'' | Invalid_target \<Rightarrow> ''invalid_target'' | Unresolvable_target \<Rightarrow> ''unresolvable_target''
      | No_authorized_asset \<Rightarrow> ''no_authorized_asset'' | Ambiguous_target \<Rightarrow> ''ambiguous_target''
      | Reason_suspended \<Rightarrow> ''asset_suspended'' | Reason_revoked \<Rightarrow> ''asset_revoked''
      | Authorization_expired \<Rightarrow> ''authorization_expired'' | Not_yet_valid \<Rightarrow> ''authorization_not_yet_valid''
      | Unknown_testing_class \<Rightarrow> ''unknown_testing_class'' | Class_not_implemented \<Rightarrow> ''testing_class_not_implemented''
      | Class_not_allowed \<Rightarrow> ''testing_class_not_allowed'' | Invalid_disruption \<Rightarrow> ''invalid_disruption''
      | Disruption_exceeds_constraint \<Rightarrow> ''disruption_exceeds_constraint'')"

definition audit_decision :: "bool \<Rightarrow> scope_decision \<Rightarrow> registry \<Rightarrow> registry" where
  "audit_decision for_remediation d db =
     record_event
       (if for_remediation then (if sd_allowed d then Remediation_authorized else Remediation_refused)
        else (if sd_allowed d then Assessment_authorized else Assessment_refused))
       (sd_allowed d) (reason_text (sd_reason d))
       (case sd_asset d of None \<Rightarrow> None | Some i \<Rightarrow> row_get as_id i (assets db))
       (sd_asset_ref d) (Some (sd_target d)) (Some (sd_class d)) db"

definition evaluate_scope ::
    "string \<Rightarrow> string \<Rightarrow> string \<Rightarrow> bool \<Rightarrow> bool \<Rightarrow> instant \<Rightarrow> registry \<Rightarrow> scope_decision \<times> registry" where
  "evaluate_scope raw class disruption for_remediation audited now db =
     (let (d, db') = decide_scope raw class disruption now db
      in (d, if audited then audit_decision for_remediation d db' else db'))"

text \<open>\<open>RegistryAuthorizationProvider.verify\<close>: the permissions recorded for an active asset in its window.\<close>

definition verify_asset :: "string option \<Rightarrow> instant \<Rightarrow> registry \<Rightarrow> (string \<times> (string \<times> string list) list) option" where
  "verify_asset ref now db =
     (case ref of
        None \<Rightarrow> None
      | Some r \<Rightarrow>
          (let candidate = map lower (strip r) in
           if r = [] \<or> \<not> asset_ref_re candidate then None
           else (case find_ref candidate db of
                   None \<Rightarrow> None
                 | Some a \<Rightarrow>
                     if as_status a \<noteq> Asset_active \<or> as_from a > now \<or> window_over now a then None
                     else Some (as_ref a,
                       map (\<lambda>c. (c, case get_or c JNull (stored (as_permissions a)) of
                                      JList vs \<Rightarrow> List.map_filter (\<lambda>v. case v of JStr s \<Rightarrow> Some s | _ \<Rightarrow> None) vs
                                    | _ \<Rightarrow> []))
                         (filter (\<lambda>c. truthy (get_or c JNull (stored (as_permissions a)))) permission_classes)))))"

section \<open>What an asset covers\<close>

fun valid_net :: "ip_net \<Rightarrow> bool" where
  "valid_net (Net4 n p) = is_net n p"
| "valid_net (Net6 n _ p) = is_net n p"

lemma is_net_mask: "p \<le> LENGTH('a) \<Longrightarrow> is_net (w AND netmask p :: 'a::len word) p"
  by (simp add: is_net_def and.assoc)

lemma v4_prefix_le: "v4_prefix s = Some p \<Longrightarrow> p \<le> 32"
  by (auto simp: v4_prefix_def prefix_digits_def prefix_of_mask_def find_Some_iff less_Suc_eq_le
      split: option.splits if_splits dest!: nth_mem)

lemma v4_network_valid: "v4_network a m = Some n \<Longrightarrow> valid_net n"
  by (auto simp: v4_network_def is_net_mask split: option.splits dest: v4_prefix_le)

lemma v6_network_valid: "v6_network a m = Some n \<Longrightarrow> valid_net n"
  by (auto simp: v6_network_def prefix_digits_def is_net_mask is_net_def split: option.splits if_splits prod.splits)

lemma ip_network_valid: "ip_network s = Some n \<Longrightarrow> valid_net n"
  by (auto simp: ip_network_def split: list.splits option.splits dest: v4_network_valid v6_network_valid)

text \<open>\<open>covers t a\<close>: the recorded locator covers the target: the same address, every address of the asked range,
  the same name, a name below the domain label by label, or the same identifier.  Kinds never mix.\<close>

definition covers_target :: "asset \<Rightarrow> target \<Rightarrow> bool" where
  "covers_target a t =
     (if as_kind a = ''host''
      then (case t of
              Ip_target x \<Rightarrow> ip_address (as_locator a) = Some x
            | Hostname_target s _ \<Rightarrow> ip_address (as_locator a) = None \<and> s = as_locator a
            | _ \<Rightarrow> False)
      else if as_kind a = ''network''
      then (case t of
              Ip_target x \<Rightarrow> (\<exists>n. ip_network (as_locator a) = Some n \<and> in_network x n)
            | Network_target m \<Rightarrow>
                (\<exists>n. ip_network (as_locator a) = Some n \<and> (\<forall>x. in_network x m \<longrightarrow> in_network x n))
            | _ \<Rightarrow> False)
      else if as_kind a = ''domain''
      then (case t of
              Hostname_target _ labels \<Rightarrow> (\<exists>below. labels = below @ split_on (CHR ''.'') (as_locator a))
            | _ \<Rightarrow> False)
      else as_kind a \<in> {''device'', ''service'', ''repository''} \<and>
           (case t of Hostname_target s _ \<Rightarrow> s = as_locator a | Opaque_target s \<Rightarrow> s = as_locator a | _ \<Rightarrow> False))"

text \<open>What a text is read as.\<close>

definition read_target :: "target \<Rightarrow> bool" where
  "read_target t =
     (case t of Network_target n \<Rightarrow> valid_net n | Hostname_target s labels \<Rightarrow> labels = split_on (CHR ''.'') s | _ \<Rightarrow> True)"

lemma classify_read: "classify_target raw = Some t \<Longrightarrow> read_target t"
  by (auto simp: classify_target_def read_target_def Let_def split: if_splits option.splits dest: ip_network_valid)

lemma in_networks4:
  "(\<forall>x. in_network x (Net4 a p) \<longrightarrow> in_network x (Net4 b q)) \<longleftrightarrow> (\<forall>x. within x a p \<longrightarrow> within x b q)"
proof (intro iffI allI impI)
  fix x assume "\<forall>x. in_network x (Net4 a p) \<longrightarrow> in_network x (Net4 b q)" "within x a p"
  then show "within x b q" by (metis in_network.simps(1))
next
  fix x assume "\<forall>x. within x a p \<longrightarrow> within x b q" "in_network x (Net4 a p)"
  then show "in_network x (Net4 b q)" by (cases x) simp_all
qed

lemma in_networks6:
  "(\<forall>x. in_network x (Net6 a s p) \<longrightarrow> in_network x (Net6 b r q)) \<longleftrightarrow> (\<forall>x. within x a p \<longrightarrow> within x b q)"
proof (intro iffI allI impI)
  fix x assume "\<forall>x. in_network x (Net6 a s p) \<longrightarrow> in_network x (Net6 b r q)" "within x a p"
  then show "within x b q" by (metis in_network.simps(2))
next
  fix x assume "\<forall>x. within x a p \<longrightarrow> within x b q" "in_network x (Net6 a s p)"
  then show "in_network x (Net6 b r q)" by (cases x) simp_all
qed

lemma subnet_of_iff:
  assumes "valid_net m" "valid_net n"
  shows "net_version m = net_version n \<and> subnet_of m n \<longleftrightarrow> (\<forall>x. in_network x m \<longrightarrow> in_network x n)"
proof (cases m)
  case m: (Net4 a p)
  have own: "in_network (V4 a) m" using assms(1) by (simp add: m within_def is_net_def)
  show ?thesis
  proof (cases n)
    case n: (Net4 b q)
    show ?thesis using subnet_iff [of a p b q] assms unfolding m n in_networks4 by simp
  next
    case (Net6 b s q)
    then show ?thesis using own by (auto simp: m intro: exI [of _ "V4 a"])
  qed
next
  case m: (Net6 a s p)
  have own: "in_network (V6 a s) m" using assms(1) by (simp add: m within_def is_net_def)
  show ?thesis
  proof (cases n)
    case n: (Net6 b r q)
    show ?thesis using subnet_iff [of a p b q] assms unfolding m n in_networks6 by simp
  next
    case (Net4 b q)
    then show ?thesis using own by (auto simp: m intro: exI [of _ "V6 a s"])
  qed
qed

lemma suffix_labels:
  "(length d \<le> length ls \<and> drop (length ls - length d) ls = d) \<longleftrightarrow> (\<exists>below. ls = below @ d)"
  by (metis append_take_drop_id diff_diff_cancel length_append length_drop le_add2 add_diff_cancel_right' append_eq_conv_conj)

lemma match_asset_covers:
  assumes "read_target t"
  shows "match_asset t a \<noteq> None \<longleftrightarrow> covers_target a t"
proof (cases t)
  case (Ip_target x)
  then show ?thesis
    by (auto simp: match_asset_def covers_target_def match_host_def match_network_def match_domain_def
        match_identifier_def split: option.splits)
next
  case (Network_target m)
  then have "valid_net m" using assms by (simp add: read_target_def)
  then have "net_version m = net_version n \<and> subnet_of m n \<longleftrightarrow> (\<forall>x. in_network x m \<longrightarrow> in_network x n)"
    if "ip_network (as_locator a) = Some n" for n
    using subnet_of_iff ip_network_valid that by blast
  then show ?thesis using Network_target
    by (auto simp: match_asset_def covers_target_def match_host_def match_network_def match_domain_def
        match_identifier_def split: option.splits)
next
  case (Hostname_target s labels)
  then have "labels \<noteq> []" using assms by (simp add: read_target_def)
  then show ?thesis using suffix_labels [of "split_on (CHR ''.'') (as_locator a)" labels] Hostname_target
    by (auto simp: match_asset_def covers_target_def match_host_def match_network_def match_domain_def
        match_identifier_def Let_def not_less split: option.splits)
next
  case (Opaque_target s)
  then show ?thesis
    by (auto simp: match_asset_def covers_target_def match_host_def match_network_def match_domain_def
        match_identifier_def split: option.splits)
qed

section \<open>The decision is the recorded authorization\<close>

text \<open>The authorization the owner recorded: the one asset that covers the target allows the class, now, at that
  disruption.\<close>

definition authorizes :: "asset \<Rightarrow> string \<Rightarrow> string \<Rightarrow> instant \<Rightarrow> bool" where
  "authorizes a class disruption now =
     (as_status a = Asset_active \<and> as_from a \<le> now \<and> (\<forall>e \<in> set_option (as_until a). now < e) \<and>
      get_or class JNull (stored (as_testing a)) = JBool True \<and>
      (\<exists>l \<in> set disruption_levels. max_disruption a = JStr l \<and> disruption_rank disruption \<le> disruption_rank l))"

lemma asset_verdict_In_scope: "asset_verdict a class disruption now = In_scope \<longleftrightarrow> authorizes a class disruption now"
  by (auto simp: asset_verdict_def authorizes_def window_over_def not_le not_less
      split: asset_status.splits json.splits option.splits if_splits)

lemma find_matches_assets:
  assumes "read_target t"
  shows "map fst (find_matches t as) = filter (\<lambda>a. covers_target a t) as"
proof (induction as)
  case Nil
  then show ?case by (simp add: find_matches_def map_filter_simps)
next
  case (Cons a as)
  then show ?case using match_asset_covers [OF assms, of a]
    by (cases "match_asset t a") (simp_all add: find_matches_def map_filter_simps)
qed

lemma all_assets_set [simp]: "set (all_assets db) = set (assets db)"
  by (simp add: all_assets_def)

lemma filter_singleton:
  assumes "distinct (map f xs)"
  shows "(\<exists>ys. filter P xs = y # ys \<and> (\<forall>z \<in> set ys. f z = f y)) \<longleftrightarrow> {z \<in> set xs. P z} = {y}"
proof
  assume "\<exists>ys. filter P xs = y # ys \<and> (\<forall>z \<in> set ys. f z = f y)"
  then obtain ys where ys: "filter P xs = y # ys" "\<forall>z \<in> set ys. f z = f y" by blast
  have "distinct (map f (filter P xs))" using assms by (simp add: distinct_map_filter)
  then have new: "f y \<notin> f ` set ys" using ys(1) by simp
  have "ys = []"
  proof (rule ccontr)
    assume "ys \<noteq> []"
    then have member: "hd ys \<in> set ys" by simp
    then have "f y = f (hd ys)" using ys(2) by metis
    then show False using new member by blast
  qed
  then have "set (filter P xs) = {y}" using ys(1) by simp
  then show "{z \<in> set xs. P z} = {y}" by simp
next
  assume one: "{z \<in> set xs. P z} = {y}"
  then have "set (filter P xs) = {y}" by simp
  moreover have "distinct (filter P xs)" using assms by (simp add: distinct_map)
  ultimately have "filter P xs = [y]"
    by (cases "filter P xs") (auto dest: subset_singletonD)
  then show "\<exists>ys. filter P xs = y # ys \<and> (\<forall>z \<in> set ys. f z = f y)" by simp
qed

lemma distinct_all_assets: "distinct (map as_id (assets db)) \<Longrightarrow> distinct (map as_id (all_assets db))"
  by (simp add: all_assets_def distinct_map)

lemma scope_decision_iff:
  assumes "distinct (map as_id (assets db))"
  shows "sd_allowed (fst (evaluate_scope raw class disruption remediation audited now db)) \<longleftrightarrow>
    class \<in> set implemented_testing_classes \<and> disruption \<in> set disruption_levels \<and>
    (\<exists>t a. classify_target (take max_target_length (strip raw)) = Some t \<and>
       {b \<in> set (assets db). covers_target b t} = {a} \<and> authorizes a class disruption now)"
proof -
  let ?req = "take max_target_length (strip raw)"
  have known: "class \<in> set testing_classes" if "class \<in> set implemented_testing_classes"
    using that by (auto simp: implemented_testing_classes_def testing_classes_def)
  have dist: "distinct (map as_id (all_assets db))" using distinct_all_assets [OF assms] .
  define only where "only t a \<longleftrightarrow>
    (\<exists>m rest. find_matches t (all_assets db) = (a, m) # rest \<and> (\<forall>(b, _) \<in> set rest. as_id b = as_id a))" for t a
  have decided: "sd_allowed (fst (decide_scope raw class disruption now db)) \<longleftrightarrow>
      class \<in> set implemented_testing_classes \<and> disruption \<in> set disruption_levels \<and>
      (\<exists>t a. classify_target ?req = Some t \<and> only t a \<and> authorizes a class disruption now)"
    unfolding only_def using known
    by (auto simp: decide_scope_def scope_refusal_def on_asset_def Let_def asset_verdict_In_scope
        split: option.splits list.splits)
  have only: "only t a \<longleftrightarrow> {b \<in> set (assets db). covers_target b t} = {a}" if "classify_target ?req = Some t" for t a
  proof -
    have "only t a \<longleftrightarrow>
        (\<exists>ys. map fst (find_matches t (all_assets db)) = a # ys \<and> (\<forall>b \<in> set ys. as_id b = as_id a))"
      unfolding only_def by (fastforce simp: map_eq_Cons_conv)
    then show ?thesis
      unfolding find_matches_assets [OF classify_read [OF that]] filter_singleton [OF dist] by simp
  qed
  show ?thesis
    by (simp add: evaluate_scope_def split_beta Let_def decided only cong: conj_cong)
qed

text \<open>
  C6. The scope guard decides exactly by the owner's recorded authorization.  For every registry and every text
  of a target: the request is allowed if and only if the class is an implemented one, the disruption is on the
  ladder, the text is read as a target, exactly one enrolled asset covers that target (the same address, every
  address of a requested range, the same name or one below it label by label, never across kinds), and that
  asset is active, inside its window, allows the class and permits the disruption.  In all other cases the
  request is refused.
\<close>

theorem scope_decision_exact:
  assumes "distinct (map as_id (assets db))"
  shows "sd_allowed (fst (evaluate_scope raw class disruption remediation audited now db)) \<longleftrightarrow>
    class \<in> set implemented_testing_classes \<and> disruption \<in> set disruption_levels \<and>
    (\<exists>t a. classify_target (take max_target_length (strip raw)) = Some t \<and>
       {b \<in> set (assets db). covers_target b t} = {a} \<and> authorizes a class disruption now)"
  by (rule scope_decision_iff [OF assms])

definition lab_asset :: asset where
  "lab_asset = \<lparr>as_id = 1, as_ref = ''lab-net'', as_name = ''lab'', as_kind = ''network'', as_locator = ''10.20.30.0/24'',
     as_environment = ''lab'', as_status = Asset_active, as_testing = JObj [(''configuration_audit'', JBool True)],
     as_permissions = JObj [], as_constraints = JObj [(''max_disruption'', JStr ''low'')], as_evidence = JObj [],
     as_from = 0, as_until = Some 100, as_updated_at = 0, as_revoked_at = None\<rparr>"

definition lab_registry :: registry where "lab_registry = \<lparr>assets = [lab_asset], events = []\<rparr>"

lemma scope_decision_exact_witness:
  "sd_allowed (fst (evaluate_scope ''10.20.30.40'' ''configuration_audit'' ''none'' False True 50 lab_registry)) \<and>
   \<not> sd_allowed (fst (evaluate_scope ''10.20.30.40.evil.com'' ''configuration_audit'' ''none'' False True 50 lab_registry))"
proof -
  have dist: "distinct (map as_id (assets lab_registry))" by (simp add: lab_registry_def)
  have inside: "classify_target (take max_target_length (strip ''10.20.30.40'')) = Some (Ip_target (V4 0x0A141E28))"
    by code_simp
  have outside: "classify_target (take max_target_length (strip ''10.20.30.40.evil.com'')) =
      Some (Hostname_target ''10.20.30.40.evil.com'' [''10'', ''20'', ''30'', ''40'', ''evil'', ''com''])" by code_simp
  have net: "ip_network ''10.20.30.0/24'' = Some (Net4 0x0A141E00 24)" by code_simp
  have "in_network (V4 0x0A141E28) (Net4 0x0A141E00 24)" by code_simp
  then have one: "{b \<in> set (assets lab_registry). covers_target b (Ip_target (V4 0x0A141E28))} = {lab_asset}"
    by (auto simp: lab_registry_def lab_asset_def covers_target_def net)
  have none: "{b \<in> set (assets lab_registry). covers_target b (Hostname_target s ls)} = {}" for s ls
    by (simp add: lab_registry_def lab_asset_def covers_target_def)
  have "sd_allowed (fst (evaluate_scope ''10.20.30.40'' ''configuration_audit'' ''none'' False True 50 lab_registry))"
    unfolding scope_decision_exact [OF dist]
  proof (intro conjI exI)
    show "''configuration_audit'' \<in> set implemented_testing_classes" "''none'' \<in> set disruption_levels"
      by (simp_all add: implemented_testing_classes_def disruption_levels_def)
    show "authorizes lab_asset ''configuration_audit'' ''none'' 50"
      by (simp add: authorizes_def lab_asset_def max_disruption_def stored_def get_or_def disruption_levels_def
          disruption_rank_def)
  qed (rule inside one)+
  moreover have "\<not> sd_allowed (fst (evaluate_scope ''10.20.30.40.evil.com'' ''configuration_audit'' ''none'' False True 50 lab_registry))"
    unfolding scope_decision_exact [OF dist] outside by (simp add: none)
  ultimately show ?thesis by blast
qed

section \<open>A question never widens the registry\<close>

definition same_scope :: "asset \<Rightarrow> asset \<Rightarrow> bool" where
  "same_scope a b =
     (b\<lparr>as_status := as_status a, as_updated_at := as_updated_at a\<rparr> = a \<and>
      (as_status b = as_status a \<or> as_status a = Asset_active \<and> as_status b = Asset_expired))"

definition is_grant :: "auth_event \<Rightarrow> bool" where
  "is_grant e = (ae_action e = Enrolled \<or> ae_action e = Scope_changed)"

text \<open>One question: target, class, disruption, for remediation, audited, time.\<close>

type_synonym question = "string \<times> string \<times> string \<times> bool \<times> bool \<times> instant"

fun ask :: "question \<Rightarrow> registry \<Rightarrow> registry" where
  "ask (raw, class, disruption, remediation, audited, now) db =
     snd (evaluate_scope raw class disruption remediation audited now db)"

definition ask_all :: "question list \<Rightarrow> registry \<Rightarrow> registry" where
  "ask_all qs db = foldl (\<lambda>d q. ask q d) db qs"

definition unwidened :: "registry \<Rightarrow> registry \<Rightarrow> bool" where
  "unwidened db db' =
     (list_all2 same_scope (assets db) (assets db') \<and>
      (\<exists>new. events db' = events db @ new \<and> (\<forall>e \<in> set new. \<not> is_grant e)))"

lemma same_scope_refl: "same_scope a a"
  by (simp add: same_scope_def)

lemma same_scope_trans: "same_scope a b \<Longrightarrow> same_scope b c \<Longrightarrow> same_scope a c"
  by (cases a; cases b; cases c) (auto simp: same_scope_def)

lemma unwidened_refl: "unwidened db db"
  by (auto simp: unwidened_def list_all2_refl same_scope_refl)

lemma unwidened_trans: "unwidened x y \<Longrightarrow> unwidened y z \<Longrightarrow> unwidened x z"
  unfolding unwidened_def by (auto intro: list_all2_trans [OF same_scope_trans])

lemma record_event_assets [simp]: "assets (record_event x allowed reason a r t c db) = assets db"
  by (simp add: record_event_def)

lemma record_event_unwidened:
  "action \<noteq> Enrolled \<Longrightarrow> action \<noteq> Scope_changed \<Longrightarrow> unwidened db (record_event action allowed reason a r t c db)"
  by (auto simp: unwidened_def record_event_def is_grant_def list_all2_refl same_scope_refl)

lemma mark_expired_unwidened:
  assumes "distinct (map as_id (assets db))" "a \<in> set (assets db)"
  shows "unwidened db (mark_expired a now db)"
proof (cases "as_status a = Asset_active")
  case True
  let ?a = "a\<lparr>as_status := Asset_expired, as_updated_at := now\<rparr>"
  have "same_scope b (if as_id b = as_id a then ?a else b)" if "b \<in> set (assets db)" for b
  proof (cases "as_id b = as_id a")
    case eq: True
    then have "b = a" using assms that by (metis inj_onD distinct_map)
    then show ?thesis using True by (simp add: same_scope_def)
  qed (simp add: same_scope_refl)
  then have "list_all2 same_scope (assets db) (assets (put_asset ?a db))"
    by (simp add: put_asset_def row_put_def list_all2_map2 list_all2_same)
  then have "unwidened db (put_asset ?a db)" by (simp add: unwidened_def put_asset_def)
  then show ?thesis using True record_event_unwidened [of Expired]
    by (simp add: mark_expired_def Let_def) (blast intro: unwidened_trans)
qed (simp add: mark_expired_def unwidened_refl)

lemma same_scope_id: "same_scope a b \<Longrightarrow> as_id b = as_id a"
  unfolding same_scope_def by (metis asset.select_convs(1) asset.surjective asset.update_convs(7,14))

lemma unwidened_ids: "unwidened db db' \<Longrightarrow> map as_id (assets db') = map as_id (assets db)"
  unfolding unwidened_def by (auto simp: list_all2_conv_all_nth list_eq_iff_nth_eq same_scope_id)

lemma find_matches_member: "find_matches t as = (a, m) # rest \<Longrightarrow> a \<in> set as"
  unfolding find_matches_def
  by (induction as) (auto simp: map_filter_simps split: option.splits)

lemma decide_unwidened:
  assumes "distinct (map as_id (assets db))"
  shows "unwidened db (snd (decide_scope raw class disruption now db))"
proof -
  have "unwidened db (mark_expired a now db)" if "find_matches t (all_assets db) = (a, m) # rest" for t a m rest
    using mark_expired_unwidened [OF assms] find_matches_member [OF that] by simp
  then show ?thesis
    by (auto simp: decide_scope_def Let_def unwidened_refl split: option.split list.split)
qed

lemma evaluate_unwidened:
  assumes "distinct (map as_id (assets db))"
  shows "unwidened db (snd (evaluate_scope raw class disruption remediation audited now db))"
proof -
  have "unwidened d (audit_decision remediation x d)" for x d
    unfolding audit_decision_def by (rule record_event_unwidened) (simp_all split: if_splits)
  then show ?thesis using decide_unwidened [OF assms, of raw "class" disruption now]
    by (auto simp: evaluate_scope_def split_beta Let_def intro: unwidened_trans)
qed

text \<open>
  C21. Asking never widens the registry, and no request needs a new approval.  After any number of
  questions, audited or previews, for any targets: the same assets stand in the table, each with the same locator,
  permissions, constraints, evidence and window (only an active asset may have become expired), and
  among the audit rows that were added none is an enrollment or a scope change.
\<close>

theorem questions_never_widen:
  assumes "distinct (map as_id (assets db))"
  shows "unwidened db (ask_all qs db)"
  using assms
proof (induction qs arbitrary: db)
  case Nil
  then show ?case by (simp add: ask_all_def unwidened_refl)
next
  case (Cons q qs)
  obtain raw cls disruption remediation audited now where q: "q = (raw, cls, disruption, remediation, audited, now)"
    by (cases q) auto
  have step: "unwidened db (ask q db)" unfolding q using evaluate_unwidened [OF Cons.prems] by simp
  then have "distinct (map as_id (assets (ask q db)))" using Cons.prems unwidened_ids by metis
  from unwidened_trans [OF step Cons.IH [OF this]] show ?case by (simp add: ask_all_def)
qed

lemma questions_never_widen_witness:
  "\<exists>new. events (ask_all [(''10.20.30.40'', ''configuration_audit'', ''none'', False, True, 50)] lab_registry) =
     events lab_registry @ new \<and> (\<forall>e \<in> set new. \<not> is_grant e)"
proof -
  have "distinct (map as_id (assets lab_registry))" by (simp add: lab_registry_def)
  from questions_never_widen [OF this, of "[(''10.20.30.40'', ''configuration_audit'', ''none'', False, True, 50)]"]
  show ?thesis by (simp add: unwidened_def)
qed

text \<open>Every audited question leaves its own row, with what was decided.\<close>

lemma question_audited:
  "\<exists>before e. events (snd (evaluate_scope raw class disruption remediation True now db)) = before @ [e] \<and>
     ae_allowed e = sd_allowed (fst (evaluate_scope raw class disruption remediation True now db))"
  by (simp add: evaluate_scope_def split_beta Let_def audit_decision_def record_event_def)

end
