(* ===== verification/Registry_Life.thy ===== *)
theory Registry_Life imports Scope_Guard begin

text \<open>
  The life of the asset registry: every sequence of enrollments, scope changes, suspensions, revocations,
  reinstatements, expiry sweeps and questions.  What an asset points at never changes, an enrolled range is
  bounded, constraints and evidence are stored redacted, and a revoked asset grants nothing ever again.
\<close>

datatype reg_request =
    Req_enroll nat enrollment instant
  | Req_change string scope_change instant
  | Req_suspend string string instant
  | Req_revoke string string instant
  | Req_reinstate string string instant
  | Req_sweep instant
  | Req_ask question

text \<open>A request that raises leaves the registry as it was.\<close>

definition or_else :: "registry \<Rightarrow> security_error + asset \<times> registry \<Rightarrow> registry" where
  "or_else db r = (case r of Inl _ \<Rightarrow> db | Inr (_, db') \<Rightarrow> db')"

fun reg_step :: "registry_env \<Rightarrow> reg_request \<Rightarrow> registry \<Rightarrow> registry" where
  "reg_step env (Req_enroll i q now) db = or_else db (enroll env i q now db)"
| "reg_step env (Req_change ref q now) db = or_else db (change_scope env ref q now db)"
| "reg_step env (Req_suspend ref reason now) db = or_else db (suspend env ref reason now db)"
| "reg_step env (Req_revoke ref reason now) db = or_else db (revoke env ref reason now db)"
| "reg_step env (Req_reinstate ref reason now) db = or_else db (reinstate env ref reason now db)"
| "reg_step env (Req_sweep now) db = snd (sweep_expired now db)"
| "reg_step env (Req_ask q) db = ask q db"

text \<open>The database gives a new row a new id.\<close>

definition new_id_ok :: "reg_request \<Rightarrow> registry \<Rightarrow> bool" where
  "new_id_ok r db = (case r of Req_enroll i _ _ \<Rightarrow> i \<notin> as_id ` set (assets db) | _ \<Rightarrow> True)"

inductive reg_steps :: "registry_env \<Rightarrow> registry \<Rightarrow> registry \<Rightarrow> bool" for env where
  here: "reg_steps env db db"
| more: "reg_steps env db db' \<Longrightarrow> new_id_ok r db' \<Longrightarrow> reg_steps env db (reg_step env r db')"

definition empty_registry :: registry where "empty_registry = \<lparr>assets = [], events = []\<rparr>"

section \<open>What every registry keeps\<close>

definition asset_ok :: "registry_env \<Rightarrow> asset \<Rightarrow> bool" where
  "asset_ok env a =
     (asset_ref_re (as_ref a) \<and> as_kind a \<in> set asset_kinds \<and> storable (re_patterns env) (as_constraints a) \<and>
      storable (re_patterns env) (as_evidence a) \<and>
      (as_kind a = ''network'' \<longrightarrow> (\<exists>n. valid_net n \<and> \<not> absurd_network n \<and> as_locator a = net_text n)))"

definition registry_ok :: "registry_env \<Rightarrow> registry \<Rightarrow> bool" where
  "registry_ok env db =
     (distinct (map as_id (assets db)) \<and> distinct (map as_ref (assets db)) \<and> (\<forall>a \<in> set (assets db). asset_ok env a))"

text \<open>What may become of a row: it keeps its identity and what it points at, and a revoked one is never written.\<close>

definition becomes :: "asset \<Rightarrow> asset \<Rightarrow> bool" where
  "becomes a b =
     (as_ref b = as_ref a \<and> as_kind b = as_kind a \<and> as_locator b = as_locator a \<and> as_from b = as_from a \<and>
      (as_status a = Asset_revoked \<longrightarrow> b = a))"

interpretation life: row_development as_id becomes
  by unfold_locales (auto simp: becomes_def)

definition advances :: "registry_env \<Rightarrow> registry \<Rightarrow> registry \<Rightarrow> bool" where
  "advances env db db' =
     (registry_ok env db' \<and> developed as_id becomes (assets db) (assets db') \<and>
      (\<exists>new. events db' = events db @ new))"

lemma advances_refl: "registry_ok env db \<Longrightarrow> advances env db db"
  by (simp add: advances_def life.developed_refl)

lemma advances_trans: "advances env x y \<Longrightarrow> advances env y z \<Longrightarrow> advances env x z"
  unfolding advances_def using life.developed_trans by fastforce

lemma advances_event: "advances env db db' \<Longrightarrow> advances env db (record_event x allowed reason a r t c db')"
  by (auto simp: advances_def registry_ok_def record_event_def)

lemma advances_put:
  assumes ok: "registry_ok env db" and a: "a \<in> set (assets db)"
    and to: "becomes a b" "as_id b = as_id a" "asset_ok env b"
  shows "advances env db (put_asset b db)"
proof -
  have dist: "distinct (map as_id (assets db))" using ok by (simp add: registry_ok_def)
  have same: "c = a" if "c \<in> set (assets db)" "as_id c = as_id b" for c
    using that a to(2) dist by (metis distinct_map inj_onD)
  have refs: "map as_ref (assets (put_asset b db)) = map as_ref (assets db)"
  proof -
    have "as_ref (if as_id c = as_id b then b else c) = as_ref c" if "c \<in> set (assets db)" for c
    proof (cases "as_id c = as_id b")
      case True
      then show ?thesis using same [OF that True] to(1) by (simp add: becomes_def)
    qed simp
    then show ?thesis by (simp add: put_asset_def row_put_def)
  qed
  have "map as_id (assets (put_asset b db)) = map as_id (assets db)"
    by (simp add: put_asset_def row_put_def)
  moreover have "\<forall>c \<in> set (assets (put_asset b db)). asset_ok env c"
    using ok to(3) by (auto simp: put_asset_def set_row_put registry_ok_def)
  moreover have "developed as_id becomes (assets db) (assets (put_asset b db))"
  proof -
    have "as_id b = as_id b \<and> becomes c b" if "row_get as_id (as_id b) (assets db) = Some c" for c
      using same row_get_SomeD [OF that] to(1) by metis
    then show ?thesis unfolding put_asset_def
      using life.developed_put [where rows = "assets db" and i = "as_id b" and f = "\<lambda>_. b"] dist by simp
  qed
  ultimately show ?thesis using ok refs dist by (simp add: advances_def registry_ok_def put_asset_def)
qed

lemma load_asset_member: "load_asset env ref db = Inr a \<Longrightarrow> a \<in> set (assets db)"
  by (auto simp: load_asset_def Let_def find_ref_def find_Some_iff split: option.splits if_splits dest!: row_get_SomeD)

lemma normalize_network:
  assumes "normalize_locator ''network'' text = Inr l"
  shows "\<exists>n. valid_net n \<and> \<not> absurd_network n \<and> l = net_text n"
  using assms by (auto simp: normalize_locator_def Let_def split: if_splits option.splits dest: ip_network_valid)

lemma enrolled_asset_ok:
  assumes "enrolled_asset (re_patterns env) i q now = Inr a"
  shows "asset_ok env a \<and> as_id a = i"
  using assms normalize_network
  by (auto simp: enrolled_asset_def Let_def sum_simps asset_ok_def split: if_splits option.splits)
section \<open>Every request keeps it\<close>

lemma advances_append:
  assumes "registry_ok env db" "asset_ok env a" "as_id a \<notin> as_id ` set (assets db)" "find_ref (as_ref a) db = None"
  shows "advances env db (db\<lparr>assets := assets db @ [a]\<rparr>)"
  using assms life.developed_append [OF life.developed_refl [of "assets db"]]
  by (auto simp: advances_def registry_ok_def find_ref_def find_None_iff)

lemma advances_enroll:
  assumes "registry_ok env db" "i \<notin> as_id ` set (assets db)"
  shows "advances env db (or_else db (enroll env i q now db))"
proof (cases "enroll env i q now db")
  case (Inl e)
  then show ?thesis using assms by (simp add: or_else_def advances_refl)
next
  case (Inr r)
  then obtain a where "enrolled_asset (re_patterns env) i q now = Inr a" "find_ref (as_ref a) db = None"
    and r: "snd r = record_event Enrolled True ''owner enrolled an authorized asset'' (Some a) None None None
                      (db\<lparr>assets := assets db @ [a]\<rparr>)"
    by (auto simp: enroll_def sum_simps split: if_splits)
  then show ?thesis using enrolled_asset_ok [of env i q now a] assms advances_append [OF assms(1)]
    by (auto simp: or_else_def Inr r split_beta intro: advances_event)
qed

definition keeps_asset :: "registry_env \<Rightarrow> asset \<Rightarrow> asset \<Rightarrow> bool" where
  "keeps_asset env a b = (becomes a b \<and> as_id b = as_id a \<and> (asset_ok env a \<longrightarrow> asset_ok env b))"

lemma keeps_asset_trans: "keeps_asset env a b \<Longrightarrow> keeps_asset env b c \<Longrightarrow> keeps_asset env a c"
  by (auto simp: keeps_asset_def becomes_def)

text \<open>Writing any attribute a scope change may write.\<close>

lemma keeps_asset_writes:
  assumes "as_status a \<noteq> Asset_revoked"
  shows "keeps_asset env a a" "keeps_asset env a (a\<lparr>as_name := n\<rparr>)" "keeps_asset env a (a\<lparr>as_environment := n\<rparr>)"
    "keeps_asset env a (a\<lparr>as_testing := t\<rparr>)" "keeps_asset env a (a\<lparr>as_permissions := t\<rparr>)"
    "keeps_asset env a (a\<lparr>as_constraints := assert_redacted (re_patterns env) place v\<rparr>)"
    "keeps_asset env a (a\<lparr>as_until := u\<rparr>)" "keeps_asset env a (a\<lparr>as_until := u, as_status := st\<rparr>)"
    "keeps_asset env a (a\<lparr>as_updated_at := w\<rparr>)"
  using assms by (simp_all add: keeps_asset_def becomes_def asset_ok_def)

lemma changed_asset_becomes:
  assumes "changed_asset (re_patterns env) q now a = Inr b"
  shows "keeps_asset env a b"
proof -
  have live: "as_status a \<noteq> Asset_revoked" using assms by (auto simp: changed_asset_def)
  obtain a1 a2 a3 a4 a5 a6 where
    s1: "(case sc_name q of None \<Rightarrow> Inr a | Some n \<Rightarrow> bind_sum (check_name n) (\<lambda>n. Inr (a\<lparr>as_name := n\<rparr>))) = Inr a1"
    and s2: "(case sc_environment q of None \<Rightarrow> Inr a1
        | Some e \<Rightarrow> if e \<in> set environments then Inr (a1\<lparr>as_environment := e\<rparr>) else Inl Validation_error) = Inr a2"
    and s3: "(if sc_testing q = JNull then Inr a2
        else bind_sum (validate_allowed_testing (sc_testing q)) (\<lambda>t. Inr (a2\<lparr>as_testing := t\<rparr>))) = Inr a3"
    and s4: "(if sc_permissions q = JNull then Inr a3
        else bind_sum (validate_allowed_permissions (sc_permissions q)) (\<lambda>p. Inr (a3\<lparr>as_permissions := p\<rparr>))) = Inr a4"
    and s5: "(if sc_constraints q = JNull then Inr a4
        else bind_sum (validate_constraints (sc_constraints q)) (\<lambda>c. Inr (a4\<lparr>as_constraints :=
            assert_redacted (re_patterns env) ''asset.constraints'' (redact_value (re_patterns env) 0 c)\<rparr>))) = Inr a5"
    and s6: "(if sc_clear_until q then Inr (a5\<lparr>as_until := None\<rparr>)
        else (case sc_until q of None \<Rightarrow> Inr a5
              | Some e \<Rightarrow> if e \<le> as_from a5 then Inl Validation_error
                  else Inr (a5\<lparr>as_until := Some e, as_status := (if as_status a5 = Asset_expired \<and> e > now then Asset_active
                                               else as_status a5)\<rparr>))) = Inr a6"
    and b: "b = a6\<lparr>as_updated_at := now\<rparr>"
    using assms live unfolding changed_asset_def by (simp only: if_False bind_sum_Inr_iff sum.inject) blast
  have k1: "keeps_asset env a a1 \<and> as_status a1 = as_status a"
    using s1 live by (auto simp: sum_simps keeps_asset_writes split: option.splits)
  then have k2: "keeps_asset env a1 a2 \<and> as_status a2 = as_status a"
    using s2 live by (auto simp: keeps_asset_writes split: option.splits if_splits)
  then have k3: "keeps_asset env a2 a3 \<and> as_status a3 = as_status a"
    using s3 live by (auto simp: sum_simps keeps_asset_writes split: if_splits)
  then have k4: "keeps_asset env a3 a4 \<and> as_status a4 = as_status a"
    using s4 live by (auto simp: sum_simps keeps_asset_writes split: if_splits)
  then have k5: "keeps_asset env a4 a5 \<and> as_status a5 = as_status a"
    using s5 live by (auto simp: sum_simps keeps_asset_writes split: if_splits)
  have k6: "keeps_asset env a5 a6 \<and> as_status a6 \<noteq> Asset_revoked"
  proof (cases "sc_clear_until q \<or> sc_until q = None")
    case True
    then show ?thesis using s6 k5 live by (auto simp: keeps_asset_writes split: if_splits)
  next
    case False
    then show ?thesis using s6 k5 live by (auto simp: keeps_asset_writes split: if_splits)
  qed
  then have "keeps_asset env a6 b" by (simp add: b keeps_asset_writes)
  with k1 k2 k3 k4 k5 k6 show ?thesis by (blast intro: keeps_asset_trans)
qed

lemma advances_written:
  assumes ok: "registry_ok env db" and load: "load_asset env ref db = Inr a"
    and to: "keeps_asset env a b"
  shows "advances env db (record_event x allowed reason y r t c (put_asset b db))"
proof -
  have "a \<in> set (assets db)" using load_asset_member [OF load] .
  moreover from this have "asset_ok env a" using ok by (simp add: registry_ok_def)
  ultimately show ?thesis using advances_put [OF ok] to unfolding keeps_asset_def by (blast intro: advances_event)
qed

lemma advances_change:
  assumes "registry_ok env db"
  shows "advances env db (or_else db (change_scope env ref q now db))"
proof (cases "change_scope env ref q now db")
  case (Inl e)
  then show ?thesis using assms by (simp add: or_else_def advances_refl)
next
  case (Inr r)
  then obtain a b where "load_asset env ref db = Inr a" "changed_asset (re_patterns env) q now a = Inr b"
    "snd r = record_event Scope_changed True (sc_reason q) (Some b) None None None (put_asset b db)"
    by (auto simp: change_scope_def sum_simps)
  then show ?thesis using advances_written [OF assms] changed_asset_becomes
    by (simp add: or_else_def Inr split_beta)
qed

lemma advances_status:
  assumes "registry_ok env db"
  shows "advances env db (or_else db (set_asset_status env status action ref reason now db))"
proof (cases "set_asset_status env status action ref reason now db")
  case (Inl e)
  then show ?thesis using assms by (simp add: or_else_def advances_refl)
next
  case (Inr r)
  then obtain a where "load_asset env ref db = Inr a" "as_status a \<noteq> Asset_revoked"
    "snd r = record_event action False reason
       (Some (a\<lparr>as_status := status, as_updated_at := now,
                as_revoked_at := (if status = Asset_revoked then Some now else as_revoked_at a)\<rparr>)) None None None
       (put_asset (a\<lparr>as_status := status, as_updated_at := now,
                as_revoked_at := (if status = Asset_revoked then Some now else as_revoked_at a)\<rparr>) db)"
    by (auto simp: set_asset_status_def sum_simps Let_def split: if_splits)
  then show ?thesis using advances_written [OF assms]
    by (simp add: or_else_def Inr split_beta keeps_asset_def becomes_def asset_ok_def)
qed

lemma advances_reinstate:
  assumes "registry_ok env db"
  shows "advances env db (or_else db (reinstate env ref reason now db))"
proof (cases "reinstate env ref reason now db")
  case (Inl e)
  then show ?thesis using assms by (simp add: or_else_def advances_refl)
next
  case (Inr r)
  then obtain a where "load_asset env ref db = Inr a" "as_status a \<in> {Asset_suspended, Asset_expired}"
    "snd r = record_event Scope_changed True reason (Some (a\<lparr>as_status := Asset_active, as_updated_at := now\<rparr>))
       None None None (put_asset (a\<lparr>as_status := Asset_active, as_updated_at := now\<rparr>) db)"
    by (auto simp: reinstate_def sum_simps Let_def split: if_splits)
  then show ?thesis using advances_written [OF assms]
    by (auto simp: or_else_def Inr split_beta keeps_asset_def becomes_def asset_ok_def)
qed

lemma advances_expired:
  assumes "registry_ok env db" "a \<in> set (assets db)"
  shows "advances env db (mark_expired a now db)"
proof (cases "as_status a = Asset_active")
  case True
  then have "becomes a (a\<lparr>as_status := Asset_expired, as_updated_at := now\<rparr>)" by (simp add: becomes_def)
  moreover have "asset_ok env (a\<lparr>as_status := Asset_expired, as_updated_at := now\<rparr>)"
    using assms by (simp add: registry_ok_def asset_ok_def)
  ultimately show ?thesis using True advances_put [OF assms]
    by (simp add: mark_expired_def Let_def advances_event)
qed (simp add: mark_expired_def advances_refl assms)

lemma advances_sweep:
  assumes "registry_ok env db"
  shows "advances env db (snd (sweep_expired now db))"
proof -
  let ?due = "filter (window_over now) (filter (\<lambda>a. as_status a = Asset_active) (assets db))"
  have "advances env d (foldl (\<lambda>d a. mark_expired a now d) d as)"
    if "registry_ok env d" "set as \<subseteq> set (assets d)" "distinct (map as_id as)" for d as
    using that
  proof (induction as arbitrary: d)
    case Nil
    then show ?case by (simp add: advances_refl)
  next
    case (Cons a as)
    have step: "advances env d (mark_expired a now d)" using advances_expired Cons.prems by simp
    moreover have "set as \<subseteq> set (assets (mark_expired a now d))"
    proof
      fix b assume b: "b \<in> set as"
      then have "as_id b \<in> as_id ` set as" by (rule imageI)
      then have "as_id b \<noteq> as_id a" using Cons.prems(3) by (metis distinct.simps(2) list.map(2) set_map)
      moreover have "b \<in> set (assets d)" using b Cons.prems(2) by auto
      ultimately show "b \<in> set (assets (mark_expired a now d))"
        by (auto simp: mark_expired_def Let_def put_asset_def set_row_put)
    qed
    ultimately have "advances env (mark_expired a now d) (foldl (\<lambda>d a. mark_expired a now d) (mark_expired a now d) as)"
      using Cons.IH [of "mark_expired a now d"] Cons.prems(3) by (simp add: advances_def)
    then show ?case using advances_trans [OF step] by simp
  qed
  moreover have "distinct (map as_id ?due)" using assms by (simp add: registry_ok_def distinct_map_filter)
  ultimately show ?thesis using assms by (simp add: sweep_expired_def Let_def)
qed

lemma advances_ask:
  assumes "registry_ok env db"
  shows "advances env db (ask q db)"
proof -
  obtain raw cls disruption remediation audited now where q: "q = (raw, cls, disruption, remediation, audited, now)"
    by (cases q) auto
  have "advances env db (mark_expired a now db)" if "find_matches t (all_assets db) = (a, m) # rest" for t a m rest
    using advances_expired [OF assms] find_matches_member [OF that] by simp
  then have "advances env db (snd (decide_scope raw cls disruption now db))"
    by (auto simp: decide_scope_def Let_def advances_refl assms split: option.split list.split)
  then show ?thesis by (auto simp: q evaluate_scope_def split_beta Let_def audit_decision_def intro: advances_event)
qed

lemma advances_step:
  assumes "registry_ok env db" "new_id_ok r db"
  shows "advances env db (reg_step env r db)"
  using assms
  by (cases r) (simp_all add: advances_enroll advances_change suspend_def revoke_def advances_status
      advances_reinstate advances_sweep advances_ask new_id_ok_def)

lemma advances_steps:
  assumes "reg_steps env db db'" "registry_ok env db"
  shows "advances env db db'"
  using assms
proof (induction rule: reg_steps.induct)
  case (here db)
  then show ?case by (rule advances_refl)
next
  case (more db db' r)
  then have "advances env db db'" by simp
  moreover from this have "registry_ok env db'" by (simp add: advances_def)
  ultimately show ?case using advances_step more.hyps(2) by (blast intro: advances_trans)
qed

lemma reachable_ok: "reg_steps env empty_registry db \<Longrightarrow> registry_ok env db"
  using advances_steps [of env empty_registry db] by (simp add: advances_def registry_ok_def empty_registry_def)

section \<open>The history of the registry\<close>

text \<open>
  C22. The registry is a history that only grows.  In every registry any sequence of requests leads to, ids and
  references are unique, no asset's constraints or evidence hold anything a redaction pattern finds (or they are the
  mark of a failed redaction), which is not said of its name, its permissions or the reasons of events; and whatever requests follow, every asset still stands there with the same reference,
  kind, locator and start of validity, a revoked one unchanged, and the audit rows were only added to.
\<close>

theorem registry_history:
  assumes "reg_steps env empty_registry db" and "reg_steps env db db'"
  shows "registry_ok env db' \<and> (\<forall>a \<in> set (assets db). \<exists>b \<in> set (assets db'). as_id b = as_id a \<and> becomes a b) \<and>
    (\<exists>new. events db' = events db @ new)"
  using advances_steps [OF assms(2) reachable_ok [OF assms(1)]] by (auto simp: advances_def developed_def)

lemma allowed_asset:
  assumes "sd_allowed (fst (evaluate_scope raw cls disruption remediation audited now db))"
    and "sd_asset (fst (evaluate_scope raw cls disruption remediation audited now db)) = Some i"
  shows "\<exists>a \<in> set (assets db). as_id a = i \<and> authorizes a cls disruption now"
  using assms
  by (auto simp: evaluate_scope_def split_beta Let_def decide_scope_def scope_refusal_def on_asset_def asset_verdict_In_scope
      split: option.splits list.splits if_splits dest!: find_matches_member)

lemma ref_char: "lower_alnum c \<or> c \<in> set ''._-'' \<Longrightarrow> lower c = c \<and> \<not> is_space c"
  by (auto simp: lower_alnum_def is_digit_code lower_def is_space_def Let_def)

lemma asset_ref_clean:
  assumes "asset_ref_re s"
  shows "map lower (strip s) = s"
proof -
  have s: "s \<noteq> []" "\<forall>c \<in> set s. lower_alnum c \<or> c \<in> set ''._-''"
    using assms by (auto simp: asset_ref_re_def list_all_iff)
  have chars: "\<forall>c \<in> set s. lower c = c \<and> \<not> is_space c" using s(2) ref_char by blast
  then have "strip s = s" using s(1) by (intro strip_id) auto
  then show ?thesis using chars by (simp add: map_idI)
qed

lemma find_ref_unique:
  "distinct (map as_ref (assets db)) \<Longrightarrow> a \<in> set (assets db) \<Longrightarrow> find_ref (as_ref a) db = Some a"
  using row_get_distinct [of as_ref "assets db" a] by (simp add: find_ref_def row_get_def)

text \<open>
  C10. Revocation is final.  Once an asset is revoked, then after every further sequence of requests (scope
  changes, reinstatements, new enrollments, sweeps, questions) no question about any target is allowed on that asset,
  and the permission provider verifies nothing under its reference.
\<close>

theorem revoked_asset_grants_nothing:
  assumes "reg_steps env empty_registry db" and "a \<in> set (assets db)" and "as_status a = Asset_revoked"
    and "reg_steps env db db'"
  shows "\<not> (sd_allowed (fst (evaluate_scope raw cls disruption remediation audited now db')) \<and>
       sd_asset (fst (evaluate_scope raw cls disruption remediation audited now db')) = Some (as_id a)) \<and>
    verify_asset (Some (as_ref a)) now db' = None"
proof -
  have adv: "advances env db db'" using advances_steps [OF assms(4) reachable_ok [OF assms(1)]] .
  then obtain b where "b \<in> set (assets db')" "as_id b = as_id a" "becomes a b"
    using assms(2) by (auto simp: advances_def developed_def)
  then have a: "a \<in> set (assets db')" using assms(3) by (simp add: becomes_def)
  have ok: "distinct (map as_id (assets db'))" "distinct (map as_ref (assets db'))"
    using adv by (simp_all add: advances_def registry_ok_def)
  have "\<not> authorizes a cls disruption now" using assms(3) by (simp add: authorizes_def)
  then have "\<not> (sd_allowed (fst (evaluate_scope raw cls disruption remediation audited now db')) \<and>
       sd_asset (fst (evaluate_scope raw cls disruption remediation audited now db')) = Some (as_id a))"
    using allowed_asset ok(1) a by (metis distinct_map inj_onD)
  moreover have "asset_ok env a" using adv a by (simp add: advances_def registry_ok_def)
  then have "map lower (strip (as_ref a)) = as_ref a" by (simp add: asset_ok_def asset_ref_clean)
  then have "verify_asset (Some (as_ref a)) now db' = None"
    using find_ref_unique [OF ok(2) a] assms(3) by (simp add: verify_asset_def Let_def)
  ultimately show ?thesis by blast
qed

definition sample_registry_env :: registry_env where
  "sample_registry_env = \<lparr>re_patterns = [\<lparr>sp_name = ''jwt'', sp_search = contains_sub ''eyJ'', sp_sub = (\<lambda>r _. r)\<rparr>],
     re_uuid = (\<lambda>_. None)\<rparr>"

definition sample_enrollment :: enrollment where
  "sample_enrollment = \<lparr>en_ref = ''Lab-Net'', en_name = ''lab'', en_kind = ''network'', en_locator = ''10.20.30.40/24'',
     en_environment = ''lab'', en_testing = JObj [(''configuration_audit'', JBool True)], en_permissions = JNull,
     en_constraints = JNull,
     en_evidence = JObj [(''authorization'', JStr ''eyJ''), (''recorded_by'', JStr ''owner'')],
     en_from = None, en_until = None\<rparr>"

definition enrolled_registry :: registry where
  "enrolled_registry = reg_step sample_registry_env (Req_enroll 1 sample_enrollment 0) empty_registry"

definition revoked_registry :: registry where
  "revoked_registry = reg_step sample_registry_env (Req_revoke ''lab-net'' ''owner revoked'' 5) enrolled_registry"

lemma enrolled_reachable: "reg_steps sample_registry_env empty_registry enrolled_registry"
  unfolding enrolled_registry_def
  by (rule reg_steps.more [OF reg_steps.here]) (simp add: new_id_ok_def empty_registry_def)

lemma revoked_reachable: "reg_steps sample_registry_env empty_registry revoked_registry"
  unfolding revoked_registry_def
  by (rule reg_steps.more [OF enrolled_reachable]) (simp add: new_id_ok_def)

lemma sample_locator: "normalize_locator ''network'' ''10.20.30.40/24'' = Inr ''10.20.30.0/24''"
  by code_simp

lemma sample_ref: "map lower (strip ''Lab-Net'') = ''lab-net''" "asset_ref_re ''lab-net''" "strip ''lab-net'' = ''lab-net''"
  by code_simp+

lemma sample_checks:
  "check_name ''lab'' = Inr ''lab''"
  "validate_allowed_testing (JObj [(''configuration_audit'', JBool True)]) = Inr (JObj [(''configuration_audit'', JBool True)])"
  "validate_evidence (JObj [(''authorization'', JStr ''eyJ''), (''recorded_by'', JStr ''owner'')]) =
     Inr (JObj [(''authorization'', JStr ''eyJ''), (''recorded_by'', JStr ''owner'')])"
  by (code_simp, code_simp, simp add: validate_evidence_def required_evidence_keys_def get_or_def strip_def is_space_def)

lemma enrolled_rows:
  "\<exists>a. assets enrolled_registry = [a] \<and> as_id a = 1 \<and> as_ref a = ''lab-net'' \<and> as_kind a = ''network'' \<and>
     as_locator a = ''10.20.30.0/24'' \<and> as_status a = Asset_active"
  by (simp add: enrolled_registry_def empty_registry_def enroll_def enrolled_asset_def sample_enrollment_def
      sample_registry_env_def sample_locator sample_ref sample_checks asset_kinds_def environments_def
      validate_allowed_permissions_def validate_constraints_def find_ref_def or_else_def Let_def)

lemma revoked_rows:
  "\<exists>a. assets revoked_registry = [a] \<and> as_id a = 1 \<and> as_status a = Asset_revoked"
proof -
  obtain a where a: "assets enrolled_registry = [a]" "as_id a = 1" "as_ref a = ''lab-net''" "as_status a = Asset_active"
    using enrolled_rows by blast
  have "map lower ''lab-net'' = ''lab-net''" by code_simp
  then have "load_asset sample_registry_env ''lab-net'' enrolled_registry = Inr a"
    by (simp add: load_asset_def sample_ref find_ref_def a)
  then show ?thesis
    by (simp add: revoked_registry_def revoke_def set_asset_status_def a or_else_def Let_def put_asset_def row_put_def)
qed

lemma registry_history_witness:
  "\<exists>b \<in> set (assets (reg_step sample_registry_env (Req_sweep 9) enrolled_registry)). as_locator b = ''10.20.30.0/24''"
proof -
  obtain a where a: "a \<in> set (assets enrolled_registry)" "as_locator a = ''10.20.30.0/24''"
    using enrolled_rows by auto
  have "reg_steps sample_registry_env enrolled_registry (reg_step sample_registry_env (Req_sweep 9) enrolled_registry)"
    by (rule reg_steps.more [OF reg_steps.here]) (simp add: new_id_ok_def)
  from registry_history [OF enrolled_reachable this] a show ?thesis unfolding becomes_def by metis
qed

lemma revoked_asset_grants_nothing_witness:
  "\<exists>a \<in> set (assets revoked_registry). as_id a = 1 \<and>
     \<not> (sd_allowed (fst (evaluate_scope ''10.20.30.40'' ''configuration_audit'' ''none'' False True 9 revoked_registry)) \<and>
        sd_asset (fst (evaluate_scope ''10.20.30.40'' ''configuration_audit'' ''none'' False True 9 revoked_registry)) = Some 1)"
proof -
  obtain a where a: "a \<in> set (assets revoked_registry)" "as_id a = 1" "as_status a = Asset_revoked"
    using revoked_rows by auto
  from revoked_asset_grants_nothing [OF revoked_reachable a(1,3) reg_steps.here] a show ?thesis by metis
qed

text \<open>
  C23. A network that could be enrolled is bounded.  In every reachable registry the locator of a network asset is
  the canonical text of a range that holds at most 65536 IPv4 or 2 ^ 80 IPv6 addresses, outside the multicast and
  reserved blocks; and the guard reads the stored IPv4 text back as that very range.
\<close>

theorem enrolled_networks_bounded:
  assumes "reg_steps env empty_registry db" and "a \<in> set (assets db)" and "as_kind a = ''network''"
  shows "\<exists>n. as_locator a = net_text n \<and> \<not> is_multicast n \<and> \<not> is_reserved n \<and>
    card {x. in_network (V4 x) n} \<le> 65536 \<and> card {x. in_network (V6 x scope) n} \<le> 2 ^ 80 \<and>
    (\<forall>w p. n = Net4 w p \<longrightarrow> ip_network (as_locator a) = Some n)"
proof -
  obtain n where n: "valid_net n" "\<not> absurd_network n" "as_locator a = net_text n"
    using reachable_ok [OF assms(1)] assms(2,3) by (auto simp: registry_ok_def asset_ok_def)
  have "card {x. in_network (V4 x) n} \<le> 65536 \<and> card {x. in_network (V6 x scope) n} \<le> 2 ^ 80"
  proof (cases n)
    case (Net4 w p)
    then have "card {x. in_network (V4 x) n} = 2 ^ (32 - p)" "16 \<le> p"
      using n card_within [of w p] by (simp_all add: absurd_network_def min_ipv4_prefix_def not_less)
    moreover have "(2::nat) ^ (32 - p) \<le> 2 ^ 16" if "16 \<le> p" using that by (intro power_increasing) auto
    ultimately show ?thesis using Net4 by simp
  next
    case (Net6 w s p)
    then have "card {x. in_network (V6 x scope) n} = 2 ^ (128 - p)" "48 \<le> p"
      using n card_within [of w p] by (simp_all add: absurd_network_def min_ipv6_prefix_def not_less)
    moreover have "(2::nat) ^ (128 - p) \<le> 2 ^ 80" if "48 \<le> p" using that by (intro power_increasing) auto
    ultimately show ?thesis using Net6 by simp
  qed
  then show ?thesis using n net4_roundtrip by (intro exI [of _ n]) (auto simp: absurd_network_def)
qed

lemma enrolled_networks_bounded_witness:
  "\<exists>a \<in> set (assets enrolled_registry). \<exists>n. as_locator a = net_text n \<and> card {x. in_network (V4 x) n} \<le> 65536"
proof -
  obtain a where a: "a \<in> set (assets enrolled_registry)" "as_kind a = ''network''" using enrolled_rows by auto
  from enrolled_networks_bounded [OF enrolled_reachable a] a(1) show ?thesis by blast
qed

section \<open>What the code allows\<close>

text \<open>Revoke and re-enroll, the way the code prescribes to change what an asset points at: the guard also looks
  at revoked rows, so a second asset under the same locator makes every target of the two ambiguous and refused.\<close>

lemma reenrolled_locator_is_ambiguous:
  assumes "distinct (map as_id (assets db))" and "a \<in> set (assets db)" and "b \<in> set (assets db)" and "a \<noteq> b"
    and "as_kind a = as_kind b" and "as_locator a = as_locator b" and "as_status a = Asset_revoked"
    and t: "classify_target (take max_target_length (strip raw)) = Some t" and "covers_target a t"
  shows "\<not> sd_allowed (fst (evaluate_scope raw cls disruption remediation audited now db))"
proof -
  have "covers_target a t = covers_target b t" by (simp only: covers_target_def assms(5,6))
  then have "covers_target b t" using assms(9) by simp
  then have "a \<in> {c \<in> set (assets db). covers_target c t}" "b \<in> {c \<in> set (assets db). covers_target c t}"
    using assms(2,3,9) by simp_all
  then have "{c \<in> set (assets db). covers_target c t} \<noteq> {x}" for x using assms(4) by (metis singletonD)
  then show ?thesis unfolding scope_decision_iff [OF assms(1)] by (simp add: t)
qed

end
