(* ===== verification/Security_Runs.thy ===== *)
theory Security_Runs imports Registry_Life "HOL-Library.Product_Lexorder" begin

text \<open>
  Assessments and remediations (\<open>app/security/assessments.py\<close>, \<open>checks.py\<close>, \<open>remediation.py\<close>): the directory a run may
  read, the collector, the line checks, the findings table, and the four modes of a remediation over a file system.
  A path is the list of its components; resolving a path text, the directory walk, the checks' regular expressions and the
  digest are arguments.  The properties: a run reads only below a recorded root of an asset that authorizes it, a repeated run
  refreshes its findings instead of doubling them, and a fix that was applied can be taken back to the letter.
\<close>

type_synonym path = "string list"

section \<open>The directory a run may read\<close>

definition recorded_roots :: "(string \<Rightarrow> path) \<Rightarrow> asset \<Rightarrow> path list" where
  "recorded_roots resolve a =
     map (\<lambda>v. resolve (str_of v))
       (filter (\<lambda>v. strip (str_of v) \<noteq> [])
          (case get_or ''config_roots'' JNull (stored (as_constraints a)) of JList vs \<Rightarrow> vs | _ \<Rightarrow> []))"

definition authorized_config_root :: "(string \<Rightarrow> path) \<Rightarrow> asset \<Rightarrow> string option \<Rightarrow> security_error + path" where
  "authorized_config_root resolve a requested =
     (let roots = recorded_roots resolve a in
      if roots = [] then Inl Validation_error
      else (case requested of
              None \<Rightarrow> if length roots \<noteq> 1 then Inl Validation_error else Inr (hd roots)
            | Some r \<Rightarrow>
                if length r > 512 then Inl Validation_error
                else if \<exists>root \<in> set roots. is_prefix root (resolve r) then Inr (resolve r)
                else Inl Collector_root_violation))"

section \<open>Lines of a text\<close>

text \<open>\<open>str.splitlines\<close> with its endings kept, and the reading of a text file, which turns every ending of
  \<open>universal newlines\<close> into a line feed.\<close>

definition line_break :: "char \<Rightarrow> bool" where
  "line_break c = (c \<in> {CHR 0x0A, CHR 0x0B, CHR 0x0C, CHR 0x0D, CHR 0x1C, CHR 0x1D, CHR 0x1E})"

fun split_keep :: "string \<Rightarrow> string \<Rightarrow> string list" where
  "split_keep acc [] = (if acc = [] then [] else [acc])"
| "split_keep acc (c # cs) =
     (if c = CHR 0x0D \<and> cs \<noteq> [] \<and> hd cs = CHR 0x0A then (acc @ [c, CHR 0x0A]) # split_keep [] (tl cs)
      else if line_break c then (acc @ [c]) # split_keep [] cs
      else split_keep (acc @ [c]) cs)"

definition splitlines_keep :: "string \<Rightarrow> string list" where "splitlines_keep s = split_keep [] s"

definition drop_break :: "string \<Rightarrow> string" where
  "drop_break l =
     (if length l \<ge> 2 \<and> drop (length l - 2) l = [CHR 0x0D, CHR 0x0A] then take (length l - 2) l
      else if l \<noteq> [] \<and> line_break (last l) then butlast l else l)"

section \<open>The collector\<close>

text \<open>One entry of the walk: its name below the root, where it really lies (no place when it cannot be resolved), and
  what can be read there.\<close>

record walk_entry =
  we_name :: string
  we_real :: "path option"
  we_is_file :: bool
  we_suffix :: string
  we_size :: nat
  we_bytes :: "string option"

record collected_file =
  cf_name :: string
  cf_from :: path
  cf_lines :: "string list"

definition max_files :: nat where "max_files = 500"
definition max_file_bytes :: nat where "max_file_bytes = 262144"
definition max_lines_per_file :: nat where "max_lines_per_file = 5000"
definition max_line_chars :: nat where "max_line_chars = 4096"
definition max_evidence_chars :: nat where "max_evidence_chars = 400"

definition text_suffixes :: "string list" where
  "text_suffixes = ['''', ''.conf'', ''.config'', ''.cfg'', ''.ini'', ''.env'', ''.properties'', ''.yaml'', ''.yml'', ''.json'',
     ''.toml'', ''.txt'', ''.xml'']"

definition eligible :: "path \<Rightarrow> walk_entry \<Rightarrow> collected_file option" where
  "eligible root e =
     (case we_real e of
        None \<Rightarrow> None
      | Some real \<Rightarrow>
          if \<not> is_prefix root real \<or> \<not> we_is_file e \<or> map lower (we_suffix e) \<notin> set text_suffixes \<or>
             we_size e > max_file_bytes then None
          else (case we_bytes e of
                  None \<Rightarrow> None
                | Some raw \<Rightarrow>
                    if CHR 0x00 \<in> set (take 1024 raw) then None
                    else Some \<lparr>cf_name = we_name e, cf_from = real,
                           cf_lines = map (take max_line_chars) (take max_lines_per_file (map drop_break (splitlines_keep raw)))\<rparr>))"

fun collect_loop :: "path \<Rightarrow> nat \<Rightarrow> walk_entry list \<Rightarrow> collected_file list" where
  "collect_loop root n [] = []"
| "collect_loop root n (e # es) =
     (if n \<ge> max_files then []
      else (case eligible root e of
              None \<Rightarrow> collect_loop root n es
            | Some f \<Rightarrow> f # collect_loop root (Suc n) es))"

definition collect_files :: "path \<Rightarrow> walk_entry list \<Rightarrow> collected_file list" where
  "collect_files root walk = collect_loop root 0 (sort_key we_name walk)"

section \<open>The checks\<close>

text \<open>A check with its regular expressions as functions: whether it looks at a file, what it captures on a line (nothing when
  it does not match or its predicate fails), and its substitutions.\<close>

record check =
  ck_id :: string
  ck_severity :: string
  ck_title :: string
  ck_rationale :: string
  ck_action :: string
  ck_summary :: string
  ck_applies :: "string \<Rightarrow> bool"
  ck_capture :: "string \<Rightarrow> string option"
  ck_fixes :: "(string \<Rightarrow> string) list"
  ck_apply_supported :: bool
  ck_disruption :: string
  ck_manual_steps :: "string list"

record raw_finding =
  rf_check :: string
  rf_file :: string
  rf_line :: nat
  rf_fingerprint :: string
  rf_title :: string
  rf_severity :: string
  rf_evidence :: json
  rf_remediation :: json

definition fixed_line :: "check \<Rightarrow> string \<Rightarrow> string" where "fixed_line c line = foldl (\<lambda>s f. f s) line (ck_fixes c)"

definition evidence_line :: "secret_pattern list \<Rightarrow> string \<Rightarrow> string" where
  "evidence_line pats line = take max_evidence_chars (redact_text pats line)"

definition remediation_of :: "secret_pattern list \<Rightarrow> check \<Rightarrow> string \<Rightarrow> nat \<Rightarrow> string \<Rightarrow> json" where
  "remediation_of pats c file n line =
     (let proposed = (if ck_apply_supported c \<and> ck_fixes c \<noteq> [] \<and> fixed_line c line \<noteq> line
                      then Some (fixed_line c line) else None)
      in JObj [(''check_id'', JStr (ck_id c)), (''action'', JStr (ck_action c)), (''summary_tr'', JStr (ck_summary c)),
           (''disruption'', JStr (ck_disruption c)),
           (''apply_supported'', JBool (ck_apply_supported c \<and> proposed \<noteq> None)), (''reversible'', JBool True),
           (''file'', JStr file), (''line'', JInt (int n)), (''current_line'', JStr (evidence_line pats line)),
           (''proposed_line'', jopt (map_option (evidence_line pats) proposed)),
           (''manual_steps'', JList (map JStr (ck_manual_steps c)))])"

definition directive_key :: "secret_pattern list \<Rightarrow> string \<Rightarrow> string" where
  "directive_key pats captured = take 64 (redact_text pats (map lower (strip captured)))"

definition fingerprint_for :: "(string \<Rightarrow> string) \<Rightarrow> string \<Rightarrow> string \<Rightarrow> string \<Rightarrow> string" where
  "fingerprint_for digest check_id file key = digest (check_id @ ''|'' @ file @ ''|'' @ key)"

definition raw_finding_of ::
    "secret_pattern list \<Rightarrow> (string \<Rightarrow> string) \<Rightarrow> check \<Rightarrow> string \<Rightarrow> nat \<Rightarrow> string \<Rightarrow> string \<Rightarrow> (string \<times> json) list \<Rightarrow> raw_finding" where
  "raw_finding_of pats digest c file n line key extra =
     \<lparr>rf_check = ck_id c, rf_file = file, rf_line = n, rf_fingerprint = fingerprint_for digest (ck_id c) file key,
      rf_title = ck_title c, rf_severity = ck_severity c,
      rf_evidence = JObj ([(''check_id'', JStr (ck_id c)), (''file'', JStr file), (''line'', JInt (int n))] @ extra),
      rf_remediation = remediation_of pats c file n line\<rparr>"

text \<open>The names of the patterns that fired while the line was redacted.\<close>

definition redact_hits :: "secret_pattern list \<Rightarrow> string \<Rightarrow> string list" where
  "redact_hits pats s =
     (if s = [] then []
      else sort (remdups (snd (foldl (\<lambda>(t, hits) p.
             if sp_search p t then (sp_sub p (redaction_of (sp_name p)) t, hits @ [sp_name p]) else (t, hits))
             (if length s > max_redact_chars then take max_redact_chars s @ ''...'' else s, []) pats))))"

fun secret_findings_loop ::
    "secret_pattern list \<Rightarrow> (string \<Rightarrow> string) \<Rightarrow> check \<Rightarrow> string \<Rightarrow> nat \<Rightarrow> string list \<Rightarrow> string list \<Rightarrow> raw_finding list" where
  "secret_findings_loop pats digest c file n seen [] = []"
| "secret_findings_loop pats digest c file n seen (line # lines) =
     (let key = (case ck_capture c line of Some k \<Rightarrow> directive_key pats k | None \<Rightarrow> ''line'' @ show_nat n) in
      if redact_hits pats line = [] \<or> key \<in> set seen then secret_findings_loop pats digest c file (Suc n) seen lines
      else raw_finding_of pats digest c file n line key
             [(''config_key'', JStr key), (''secret_patterns'', JList (map JStr (redact_hits pats line))),
              (''redacted_line'', JStr (evidence_line pats line)), (''rationale_tr'', JStr (ck_rationale c))]
           # secret_findings_loop pats digest c file (Suc n) (key # seen) lines)"

fun check_loop ::
    "secret_pattern list \<Rightarrow> (string \<Rightarrow> string) \<Rightarrow> check \<Rightarrow> string \<Rightarrow> nat \<Rightarrow> string list \<Rightarrow> string list \<Rightarrow> raw_finding list" where
  "check_loop pats digest c file n seen [] = []"
| "check_loop pats digest c file n seen (line # lines) =
     (case ck_capture c line of
        None \<Rightarrow> check_loop pats digest c file (Suc n) seen lines
      | Some k \<Rightarrow>
          (let key = directive_key pats k in
           if key \<in> set seen then check_loop pats digest c file (Suc n) seen lines
           else raw_finding_of pats digest c file n line key
                  [(''directive'', JStr key), (''redacted_line'', JStr (evidence_line pats line)), (''rationale_tr'', JStr (ck_rationale c))]
                # check_loop pats digest c file (Suc n) (key # seen) lines))"

text \<open>\<open>secret\<close> is the check \<open>secret_in_config\<close>, \<open>checks\<close> are the others in their order.\<close>

definition run_checks ::
    "secret_pattern list \<Rightarrow> (string \<Rightarrow> string) \<Rightarrow> check \<Rightarrow> check list \<Rightarrow> collected_file list \<Rightarrow> raw_finding list" where
  "run_checks pats digest secret checks files =
     sort_key (\<lambda>f. (rf_check f, rf_file f, rf_line f))
       (concat (map (\<lambda>f. secret_findings_loop pats digest secret (cf_name f) 1 [] (cf_lines f) @
          concat (map (\<lambda>c. if ck_applies c (cf_name f) then check_loop pats digest c (cf_name f) 1 [] (cf_lines f) else [])
            checks)) files))"

section \<open>Runs and their findings\<close>

datatype assessment_status = Planned_run | Running_run | Completed_run | Failed_run | Refused_run

datatype finding_status = Open_finding | Remediating | Remediated | Accepted | False_positive

record assessment =
  am_id :: nat
  am_asset :: nat
  am_class :: string
  am_status :: assessment_status
  am_target :: string
  am_decision :: scope_decision
  am_result :: json
  am_started_at :: "instant option"
  am_completed_at :: "instant option"

record finding =
  fd_id :: nat
  fd_assessment :: nat
  fd_asset :: nat
  fd_fingerprint :: string
  fd_title :: string
  fd_severity :: string
  fd_status :: finding_status
  fd_evidence :: json
  fd_remediation :: json
  fd_resolved_at :: "instant option"

record security_db =
  sec_registry :: registry
  sec_assessments :: "assessment list"
  sec_findings :: "finding list"

text \<open>What a run finds outside its tables: paths and their texts, the walk of a directory (nothing when there is no
  such directory), the patterns of the redactor, the digest, the checks.\<close>

record security_env =
  se_resolve :: "string \<Rightarrow> path"
  se_path_text :: "path \<Rightarrow> string"
  se_walk :: "path \<Rightarrow> walk_entry list option"
  se_patterns :: "secret_pattern list"
  se_digest :: "string \<Rightarrow> string"
  se_secret :: check
  se_checks :: "check list"

definition severities :: "string list" where
  "severities = [''info'', ''low'', ''medium'', ''high'', ''critical'']"

definition files_read :: "security_env \<Rightarrow> path \<Rightarrow> collected_file list" where
  "files_read env root = (case se_walk env root of None \<Rightarrow> [] | Some es \<Rightarrow> collect_files root es)"

definition collect :: "security_env \<Rightarrow> path \<Rightarrow> security_error + json \<times> raw_finding list" where
  "collect env root =
     (case se_walk env root of
        None \<Rightarrow> Inl Target_unavailable
      | Some _ \<Rightarrow>
          (let files = files_read env root;
               fs = run_checks (se_patterns env) (se_digest env) (se_secret env) (se_checks env) files
           in Inr (JObj [(''collector'', JStr ''configuration_audit/1''), (''config_root'', JStr (se_path_text env root)),
                    (''files_scanned'', JInt (int (length files))),
                    (''files'', JList (map (\<lambda>f. JStr (cf_name f)) files)),
                    (''checks_run'', JInt (int (length (se_checks env)) + 1)),
                    (''findings_total'', JInt (int (length fs))),
                    (''by_severity'', JObj (map (\<lambda>v. (v, JInt (int (length (filter (\<lambda>f. rf_severity f = v) fs))))) severities)),
                    (''check_ids'', JList (map JStr (sort (remdups (map rf_check fs)))))], fs)))"

text \<open>One raw finding written to the table; the owner's verdicts on an old row stay, a remediated one is open again.\<close>

definition refreshed :: "nat \<Rightarrow> raw_finding \<Rightarrow> json \<Rightarrow> json \<Rightarrow> finding \<Rightarrow> finding" where
  "refreshed run raw ev rem f =
     f\<lparr>fd_assessment := run, fd_title := rf_title raw, fd_severity := rf_severity raw, fd_evidence := ev, fd_remediation := rem,
       fd_status := (if fd_status f = Remediated then Open_finding else fd_status f),
       fd_resolved_at := (if fd_status f = Remediated then None else fd_resolved_at f)\<rparr>"

definition persist_finding :: "security_env \<Rightarrow> nat \<Rightarrow> nat \<Rightarrow> nat \<Rightarrow> raw_finding \<Rightarrow> finding list \<Rightarrow> finding list" where
  "persist_finding env run asset nid raw fs =
     (let ev = assert_redacted (se_patterns env) ''finding.evidence'' (redact_value (se_patterns env) 0 (rf_evidence raw));
          rem = assert_redacted (se_patterns env) ''finding.remediation'' (redact_value (se_patterns env) 0 (rf_remediation raw))
      in case find (\<lambda>f. fd_asset f = asset \<and> fd_fingerprint f = rf_fingerprint raw) fs of
           Some f \<Rightarrow> row_put fd_id (fd_id f) (refreshed run raw ev rem) fs
         | None \<Rightarrow> fs @ [\<lparr>fd_id = nid, fd_assessment = run, fd_asset = asset, fd_fingerprint = rf_fingerprint raw,
                     fd_title = rf_title raw, fd_severity = rf_severity raw, fd_status = Open_finding, fd_evidence = ev,
                     fd_remediation = rem, fd_resolved_at = None\<rparr>])"

text \<open>The new id of the \<open>n\<close>th finding of the run is \<open>nids n\<close>.\<close>

fun persist_findings ::
    "security_env \<Rightarrow> nat \<Rightarrow> nat \<Rightarrow> (nat \<Rightarrow> nat) \<Rightarrow> nat \<Rightarrow> raw_finding list \<Rightarrow> finding list \<Rightarrow> finding list" where
  "persist_findings env run asset nids n [] fs = fs"
| "persist_findings env run asset nids n (raw # raws) fs =
     persist_findings env run asset nids (Suc n) raws (persist_finding env run asset (nids n) raw fs)"

definition record_refusal :: "scope_decision \<Rightarrow> nat \<Rightarrow> instant \<Rightarrow> security_db \<Rightarrow> security_db" where
  "record_refusal d nid now db =
     (case sd_asset d of
        None \<Rightarrow> db
      | Some a \<Rightarrow>
          db\<lparr>sec_assessments := sec_assessments db @
               [\<lparr>am_id = nid, am_asset = a, am_class = sd_class d, am_status = Refused_run, am_target = sd_target d,
                 am_decision = d,
                 am_result = JObj [(''refused'', JBool True), (''reason'', JStr (reason_text (sd_reason d)))],
                 am_started_at = None, am_completed_at = Some now\<rparr>]\<rparr>)"

definition put_run :: "nat \<Rightarrow> (assessment \<Rightarrow> assessment) \<Rightarrow> security_db \<Rightarrow> security_db" where
  "put_run i f db = db\<lparr>sec_assessments := row_put am_id i f (sec_assessments db)\<rparr>"

definition run_assessment ::
    "security_env \<Rightarrow> string \<Rightarrow> string \<Rightarrow> string option \<Rightarrow> string \<Rightarrow> nat \<Rightarrow> (nat \<Rightarrow> nat) \<Rightarrow> instant \<Rightarrow> security_db \<Rightarrow>
     (security_error + assessment) \<times> security_db" where
  "run_assessment env target cls config_root disruption nid nids now db =
     (let (d, reg) = evaluate_scope (take max_target_length (strip target)) cls disruption False True now (sec_registry db);
          db1 = db\<lparr>sec_registry := reg\<rparr>
      in if \<not> sd_allowed d then (Inl Out_of_scope, record_refusal d nid now db1)
         else (case row_get as_id (the (sd_asset d)) (assets reg) of
             None \<Rightarrow> (Inl Internal_bug, db1)
           | Some a \<Rightarrow>
               (case authorized_config_root (se_resolve env) a config_root of
                  Inl e \<Rightarrow> (Inl e, db1)
                | Inr root \<Rightarrow>
                    (let started = \<lparr>am_id = nid, am_asset = as_id a, am_class = cls, am_status = Running_run,
                           am_target = sd_target d, am_decision = d, am_result = JObj [],
                           am_started_at = Some now, am_completed_at = None\<rparr>;
                         db2 = db1\<lparr>sec_assessments := sec_assessments db1 @ [started]\<rparr>
                     in case collect env root of
                          Inl e \<Rightarrow>
                            (Inl e, put_run nid (\<lambda>r. r\<lparr>am_status := Failed_run, am_completed_at := Some now,
                               am_result := JObj [(''error'', JStr ''target_unavailable'')]\<rparr>) db2)
                        | Inr (summary, raws) \<Rightarrow>
                            (let db3 = db2\<lparr>sec_findings := persist_findings env nid (as_id a) nids 0 raws (sec_findings db2)\<rparr>;
                                 finish = (\<lambda>r. r\<lparr>am_status := Completed_run, am_completed_at := Some now,
                                    am_result := assert_redacted (se_patterns env) ''assessment.result''
                                                   (redact_value (se_patterns env) 0 summary)\<rparr>)
                             in (Inr (finish started), put_run nid finish db3))))))"

text \<open>The listing of findings: the limit is taken before the sorting, in the order of the table.\<close>

definition severity_rank :: "string \<Rightarrow> nat" where
  "severity_rank s = (if s \<in> set severities then length (takeWhile (\<lambda>v. v \<noteq> s) severities) else 0)"

definition by_urgency :: "finding list \<Rightarrow> finding list" where
  "by_urgency fs = sort_key (\<lambda>f. (- int (severity_rank (fd_severity f)), fd_fingerprint f)) fs"

definition findings_for_assessment :: "nat \<Rightarrow> security_db \<Rightarrow> finding list" where
  "findings_for_assessment run db = by_urgency (filter (\<lambda>f. fd_assessment f = run) (sec_findings db))"

definition list_findings ::
    "string option \<Rightarrow> nat option \<Rightarrow> string option \<Rightarrow> finding_status option \<Rightarrow> nat \<Rightarrow> security_db \<Rightarrow> security_error + finding list" where
  "list_findings ref run severity status limit db =
     (let wanted = (\<lambda>r. r \<noteq> Some [] \<and> r \<noteq> None);
          asset = (if wanted ref then map_option as_id (find_ref (map lower (strip (the ref))) (sec_registry db)) else None)
      in if wanted ref \<and> asset = None then Inr []
         else if wanted severity \<and> the severity \<notin> set severities then Inl Validation_error
         else Inr (by_urgency (take limit (filter (\<lambda>f.
                (wanted ref \<longrightarrow> Some (fd_asset f) = asset) \<and> (run \<noteq> None \<longrightarrow> run = Some (fd_assessment f)) \<and>
                (wanted severity \<longrightarrow> severity = Some (fd_severity f)) \<and> (status \<noteq> None \<longrightarrow> status = Some (fd_status f)))
              (sec_findings db)))))"

definition get_run :: "nat \<Rightarrow> security_db \<Rightarrow> security_error + assessment \<times> finding list" where
  "get_run i db =
     (case row_get am_id i (sec_assessments db) of
        None \<Rightarrow> Inl Not_found
      | Some r \<Rightarrow> Inr (r, findings_for_assessment i db))"

definition get_finding :: "nat \<Rightarrow> security_db \<Rightarrow> security_error + finding" where
  "get_finding i db = (case row_get fd_id i (sec_findings db) of None \<Rightarrow> Inl Not_found | Some f \<Rightarrow> Inr f)"

section \<open>What a run reads\<close>

lemma eligible_inside: "eligible root e = Some f \<Longrightarrow> is_prefix root (cf_from f)"
  by (auto simp: eligible_def split: option.splits if_splits)

lemma eligible_bounded:
  "eligible root e = Some f \<Longrightarrow> length (cf_lines f) \<le> max_lines_per_file \<and> (\<forall>l \<in> set (cf_lines f). length l \<le> max_line_chars)"
  by (auto simp: eligible_def split: option.splits if_splits)

lemma collect_loop_eligible: "f \<in> set (collect_loop root n es) \<Longrightarrow> \<exists>e \<in> set es. eligible root e = Some f"
  by (induction es arbitrary: n) (auto split: option.splits if_splits)

lemma collect_loop_length: "n \<le> max_files \<Longrightarrow> n + length (collect_loop root n es) \<le> max_files"
proof (induction es arbitrary: n)
  case (Cons e es)
  then show ?case using Cons.IH [of n] Cons.IH [of "Suc n"] by (auto split: option.split)
qed simp

lemma files_read_inside:
  assumes "f \<in> set (files_read env root)"
  shows "is_prefix root (cf_from f)" "length (cf_lines f) \<le> max_lines_per_file"
    "\<forall>l \<in> set (cf_lines f). length l \<le> max_line_chars"
  using assms
  by (auto simp: files_read_def collect_files_def split: option.splits
      dest!: collect_loop_eligible dest: eligible_inside eligible_bounded)

lemma files_read_length: "length (files_read env root) \<le> max_files"
  using collect_loop_length [of 0] by (simp add: files_read_def collect_files_def split: option.split)

lemma is_prefix_trans: "is_prefix a b \<Longrightarrow> is_prefix b c \<Longrightarrow> is_prefix a c"
  by (auto simp: is_prefix_iff)

lemma authorized_root_below:
  "authorized_config_root resolve a requested = Inr root \<Longrightarrow> \<exists>base \<in> set (recorded_roots resolve a). is_prefix base root"
  by (auto simp: authorized_config_root_def Let_def is_prefix_iff split: option.splits if_splits
      intro!: bexI [of _ "hd (recorded_roots resolve a)"] exI [of _ "[]"])

lemma evaluate_allowed:
  assumes "sd_allowed (fst (evaluate_scope raw cls disruption remediation audited now db))"
  shows "assets (snd (evaluate_scope raw cls disruption remediation audited now db)) = assets db \<and>
    (\<exists>t a. classify_target (take max_target_length (strip raw)) = Some t \<and> a \<in> set (assets db) \<and> covers_target a t \<and>
       authorizes a cls disruption now \<and> sd_asset (fst (evaluate_scope raw cls disruption remediation audited now db)) = Some (as_id a))"
proof -
  obtain t a m rest where
      t: "classify_target (take max_target_length (strip raw)) = Some t"
    and found: "find_matches t (all_assets db) = (a, m) # rest"
    and verdict: "asset_verdict a cls disruption now = In_scope"
    and d: "fst (decide_scope raw cls disruption now db) = on_asset a m (normalized t) cls disruption True In_scope"
    using assms
    by (auto simp: evaluate_scope_def split_beta Let_def decide_scope_def scope_refusal_def on_asset_def
        split: if_splits option.splits list.splits)
  have a: "a \<in> set (assets db)" using find_matches_member [OF found] by simp
  have "\<not> window_over now a" using verdict by (auto simp: asset_verdict_def split: if_splits)
  then have "snd (decide_scope raw cls disruption now db) = db"
    using found t by (simp add: decide_scope_def Let_def split: list.split)
  moreover have "a \<in> set (map fst (find_matches t (all_assets db)))" using found by simp
  then have "covers_target a t" unfolding find_matches_assets [OF classify_read [OF t]] by simp
  ultimately show ?thesis using t a d verdict
    by (auto simp: evaluate_scope_def split_beta Let_def audit_decision_def asset_verdict_In_scope on_asset_def)
qed

text \<open>A completed run: what was read, and what was written.\<close>

lemma run_completed:
  assumes "run_assessment env target cls config_root disruption nid nids now db = (Inr r, db')"
    and "distinct (map as_id (assets (sec_registry db)))"
  shows "\<exists>t a root summary raws.
    classify_target (take max_target_length (strip (take max_target_length (strip target)))) = Some t \<and>
    a \<in> set (assets (sec_registry db)) \<and> covers_target a t \<and> authorizes a cls disruption now \<and>
    am_id r = nid \<and> am_asset r = as_id a \<and> am_status r = Completed_run \<and>
    authorized_config_root (se_resolve env) a config_root = Inr root \<and> collect env root = Inr (summary, raws) \<and>
    am_result r = assert_redacted (se_patterns env) ''assessment.result'' (redact_value (se_patterns env) 0 summary) \<and>
    assets (sec_registry db') = assets (sec_registry db) \<and>
    sec_findings db' = persist_findings env nid (as_id a) nids 0 raws (sec_findings db)"
proof -
  let ?req = "take max_target_length (strip target)"
  let ?e = "evaluate_scope ?req cls disruption False True now (sec_registry db)"
  have allowed: "sd_allowed (fst ?e)" using assms(1)
    by (auto simp: run_assessment_def split_beta Let_def split: if_splits)
  obtain t a where t: "classify_target (take max_target_length (strip ?req)) = Some t"
    and a: "a \<in> set (assets (sec_registry db))" "covers_target a t" "authorizes a cls disruption now"
    and d: "sd_asset (fst ?e) = Some (as_id a)" and same: "assets (snd ?e) = assets (sec_registry db)"
    using evaluate_allowed [OF allowed] by auto
  have get: "row_get as_id (as_id a) (assets (snd ?e)) = Some a"
    unfolding same by (rule row_get_distinct [OF assms(2) a(1)])
  obtain root where root: "authorized_config_root (se_resolve env) a config_root = Inr root"
    using assms(1) allowed by (auto simp: run_assessment_def split_beta Let_def d get split: sum.splits)
  obtain summary raws where got: "collect env root = Inr (summary, raws)"
    using assms(1) allowed by (auto simp: run_assessment_def split_beta Let_def d get root split: sum.splits)
  show ?thesis
    using assms(1) allowed t a d same root got
    by (intro exI [of _ t] exI [of _ a] exI [of _ root] exI [of _ summary] exI [of _ raws])
      (auto simp: run_assessment_def split_beta Let_def get [unfolded same] put_run_def)
qed

text \<open>
  C24. An assessment reads only what the owner recorded.  Whenever a run completes, the target it was asked
  for is covered by an enrolled asset whose recorded authorization permits the class and the disruption at that time; the root
  it read is a config root recorded on that very asset, or a directory below one; every
  file it took lines from really lies below that root, links followed, at most 500 files, 5000 lines of each and
  4096 characters of a line; its result and its findings come from those files alone, and the assets in the registry are unchanged.
\<close>

theorem runs_read_below_recorded_roots:
  assumes "run_assessment env target cls config_root disruption nid nids now db = (Inr r, db')"
    and "distinct (map as_id (assets (sec_registry db)))"
  shows "\<exists>t a base root summary raws.
    classify_target (take max_target_length (strip (take max_target_length (strip target)))) = Some t \<and>
    a \<in> set (assets (sec_registry db)) \<and> covers_target a t \<and> authorizes a cls disruption now \<and> am_asset r = as_id a \<and>
    base \<in> set (recorded_roots (se_resolve env) a) \<and> is_prefix base root \<and>
    length (files_read env root) \<le> 500 \<and>
    (\<forall>f \<in> set (files_read env root). is_prefix base (cf_from f) \<and> length (cf_lines f) \<le> 5000 \<and>
       (\<forall>l \<in> set (cf_lines f). length l \<le> 4096)) \<and>
    collect env root = Inr (summary, raws) \<and>
    raws = run_checks (se_patterns env) (se_digest env) (se_secret env) (se_checks env) (files_read env root) \<and>
    am_result r = assert_redacted (se_patterns env) ''assessment.result'' (redact_value (se_patterns env) 0 summary) \<and>
    sec_findings db' = persist_findings env nid (as_id a) nids 0 raws (sec_findings db) \<and>
    assets (sec_registry db') = assets (sec_registry db)"
proof -
  obtain t a root summary raws where run:
    "classify_target (take max_target_length (strip (take max_target_length (strip target)))) = Some t"
    "a \<in> set (assets (sec_registry db))" "covers_target a t" "authorizes a cls disruption now" "am_asset r = as_id a"
    "authorized_config_root (se_resolve env) a config_root = Inr root" "collect env root = Inr (summary, raws)"
    "am_result r = assert_redacted (se_patterns env) ''assessment.result'' (redact_value (se_patterns env) 0 summary)"
    "assets (sec_registry db') = assets (sec_registry db)"
    "sec_findings db' = persist_findings env nid (as_id a) nids 0 raws (sec_findings db)"
    using run_completed [OF assms] by auto
  obtain base where base: "base \<in> set (recorded_roots (se_resolve env) a)" "is_prefix base root"
    using authorized_root_below [OF run(6)] by blast
  have "raws = run_checks (se_patterns env) (se_digest env) (se_secret env) (se_checks env) (files_read env root)"
    using run(7) by (auto simp: collect_def Let_def split: option.splits)
  then show ?thesis
    using run base files_read_inside [of _ env root] files_read_length [of env root] is_prefix_trans [OF base(2)]
    unfolding max_files_def max_lines_per_file_def max_line_chars_def by blast
qed

section \<open>What a run writes\<close>

definition finding_key :: "finding \<Rightarrow> nat \<times> string" where "finding_key f = (fd_asset f, fd_fingerprint f)"

definition finding_index :: "finding list \<Rightarrow> (nat \<times> nat \<times> string) list" where
  "finding_index fs = map (\<lambda>f. (fd_id f, finding_key f)) fs"

definition findings_ok :: "finding list \<Rightarrow> bool" where
  "findings_ok fs \<longleftrightarrow> distinct (map fd_id fs) \<and> distinct (map finding_key fs)"

definition raw_key :: "nat \<Rightarrow> raw_finding \<Rightarrow> nat \<times> string" where "raw_key asset raw = (asset, rf_fingerprint raw)"

lemma findings_ok_index: "findings_ok fs \<longleftrightarrow> distinct (map fst (finding_index fs)) \<and> distinct (map snd (finding_index fs))"
  by (simp add: findings_ok_def finding_index_def comp_def)

lemma finding_index_put:
  "(\<And>f. fd_id (g f) = fd_id f \<and> finding_key (g f) = finding_key f) \<Longrightarrow> finding_index (row_put fd_id i g fs) = finding_index fs"
  by (simp add: finding_index_def row_put_def)

lemma refreshed_simps [simp]:
  "fd_id (refreshed run raw ev rem f) = fd_id f" "finding_key (refreshed run raw ev rem f) = finding_key f"
  "fd_assessment (refreshed run raw ev rem f) = run" "fd_status (refreshed run raw ev rem f) \<noteq> Remediated"
  by (simp_all add: refreshed_def finding_key_def)

lemma index_keys [simp]: "snd ` set (finding_index fs) = finding_key ` set fs"
  "fst ` set (finding_index fs) = fd_id ` set fs"
  by (force simp: finding_index_def)+

lemma find_key_None:
  "find (\<lambda>f. fd_asset f = asset \<and> fd_fingerprint f = rf_fingerprint raw) fs = None \<longleftrightarrow> raw_key asset raw \<notin> finding_key ` set fs"
  by (auto simp: find_None_iff finding_key_def raw_key_def)

lemma persist_finding_index:
  "finding_index (persist_finding env run asset nid raw fs) =
     (if raw_key asset raw \<in> finding_key ` set fs then finding_index fs else finding_index fs @ [(nid, raw_key asset raw)])"
proof (cases "find (\<lambda>f. fd_asset f = asset \<and> fd_fingerprint f = rf_fingerprint raw) fs")
  case None
  then have "raw_key asset raw \<notin> finding_key ` set fs" by (simp add: find_key_None)
  then show ?thesis using None
    by (simp add: persist_finding_def Let_def finding_index_def) (simp add: finding_key_def raw_key_def)
next
  case (Some f)
  then have "raw_key asset raw \<in> finding_key ` set fs" using find_key_None [of asset raw fs] by auto
  then show ?thesis using Some by (simp add: persist_finding_def Let_def finding_index_put)
qed

lemma persist_finding_keys:
  "finding_key ` set (persist_finding env run asset nid raw fs) = insert (raw_key asset raw) (finding_key ` set fs)"
  using arg_cong [OF persist_finding_index [of env run asset nid raw fs], of "\<lambda>xs. snd ` set xs"] by (auto split: if_splits)

lemma persist_finding_ids:
  "fd_id ` set (persist_finding env run asset nid raw fs) \<subseteq> insert nid (fd_id ` set fs)"
  using arg_cong [OF persist_finding_index [of env run asset nid raw fs], of "\<lambda>xs. fst ` set xs"] by (auto split: if_splits)

lemma persist_finding_ok:
  "findings_ok fs \<Longrightarrow> nid \<notin> fd_id ` set fs \<Longrightarrow> findings_ok (persist_finding env run asset nid raw fs)"
  unfolding findings_ok_index persist_finding_index by simp

text \<open>The rows after one write: the row of the key belongs to the run and is not remediated, the others are as they were.\<close>

lemma persist_finding_rows:
  assumes "findings_ok fs"
  shows "\<exists>g \<in> set (persist_finding env run asset nid raw fs).
      finding_key g = raw_key asset raw \<and> fd_assessment g = run \<and> fd_status g \<noteq> Remediated" (is ?here)
    and "{f \<in> set (persist_finding env run asset nid raw fs). finding_key f \<noteq> raw_key asset raw} =
      {f \<in> set fs. finding_key f \<noteq> raw_key asset raw}" (is ?rest)
proof -
  have "?here \<and> ?rest"
  proof (cases "find (\<lambda>f. fd_asset f = asset \<and> fd_fingerprint f = rf_fingerprint raw) fs")
    case None
    then show ?thesis by (auto simp: persist_finding_def Let_def finding_key_def raw_key_def)
  next
    case (Some f)
    then have f: "f \<in> set fs" "finding_key f = raw_key asset raw"
      by (auto simp: find_Some_iff finding_key_def raw_key_def)
    have only: "finding_key r = raw_key asset raw" if "r \<in> set fs" "fd_id r = fd_id f" for r
      using that f assms by (auto simp: findings_ok_def distinct_map dest: inj_onD)
    obtain ev rem where put: "persist_finding env run asset nid raw fs = row_put fd_id (fd_id f) (refreshed run raw ev rem) fs"
      using Some by (simp add: persist_finding_def Let_def)
    have "refreshed run raw ev rem f \<in> set (row_put fd_id (fd_id f) (refreshed run raw ev rem) fs)"
      using f(1) by (force simp: set_row_put)
    moreover have "{g \<in> set (row_put fd_id (fd_id f) (refreshed run raw ev rem) fs). finding_key g \<noteq> raw_key asset raw} =
        {g \<in> set fs. finding_key g \<noteq> raw_key asset raw}"
      using only by (fastforce simp: set_row_put split: if_splits)
    ultimately show ?thesis unfolding put using f(2)
      by (intro conjI bexI [of _ "refreshed run raw ev rem f"]) simp_all
  qed
  then show ?here ?rest by blast+
qed

lemma persist_finding_keeps:
  assumes "findings_ok fs" "g \<in> set fs" "fd_assessment g = run" "fd_status g \<noteq> Remediated"
  shows "\<exists>h \<in> set (persist_finding env run asset nid raw fs).
    finding_key h = finding_key g \<and> fd_assessment h = run \<and> fd_status h \<noteq> Remediated"
  using persist_finding_rows [OF assms(1), of env run asset nid raw] assms(2-4)
  by (cases "finding_key g = raw_key asset raw") auto

lemma persist_findings_keys:
  "finding_key ` set (persist_findings env run asset nids n raws fs) = raw_key asset ` set raws \<union> finding_key ` set fs"
  by (induction raws arbitrary: n fs) (auto simp: persist_finding_keys)

lemma persist_findings_same_index:
  "raw_key asset ` set raws \<subseteq> finding_key ` set fs \<Longrightarrow>
     finding_index (persist_findings env run asset nids n raws fs) = finding_index fs"
proof (induction raws arbitrary: n fs)
  case (Cons raw raws)
  then show ?case using Cons.IH [of "persist_finding env run asset (nids n) raw fs" "Suc n"]
    by (simp add: persist_finding_keys persist_finding_index subset_insertI2)
qed simp

text \<open>New ids are fresh: no two the same, none in the table from the \<open>n\<close>th on.\<close>

definition new_ids :: "(nat \<Rightarrow> nat) \<Rightarrow> nat \<Rightarrow> finding list \<Rightarrow> bool" where
  "new_ids nids n fs \<longleftrightarrow> inj nids \<and> (\<forall>i \<ge> n. nids i \<notin> fd_id ` set fs)"

lemma new_ids_step:
  assumes "new_ids nids n fs"
  shows "new_ids nids (Suc n) (persist_finding env run asset (nids n) raw fs)"
proof -
  have "nids i \<notin> insert (nids n) (fd_id ` set fs)" if "i \<ge> Suc n" for i
    using assms that by (simp add: new_ids_def inj_eq)
  then show ?thesis using assms persist_finding_ids [of env run asset "nids n" raw fs]
    unfolding new_ids_def by (meson subsetD)
qed

lemma new_ids_fresh: "new_ids nids n fs \<Longrightarrow> nids n \<notin> fd_id ` set fs"
  by (simp add: new_ids_def)

lemma persist_findings_ok:
  "findings_ok fs \<Longrightarrow> new_ids nids n fs \<Longrightarrow> findings_ok (persist_findings env run asset nids n raws fs)"
  by (induction raws arbitrary: n fs) (simp_all add: persist_finding_ok new_ids_step new_ids_fresh)

definition belongs :: "nat \<Rightarrow> finding \<Rightarrow> bool" where
  "belongs run f = (fd_assessment f = run \<and> fd_status f \<noteq> Remediated)"

lemma persist_findings_keeps:
  assumes "findings_ok fs" "new_ids nids n fs" "g \<in> set fs" "belongs run g"
  shows "\<exists>h \<in> set (persist_findings env run asset nids n raws fs). finding_key h = finding_key g \<and> belongs run h"
  using assms
proof (induction raws arbitrary: n fs g)
  case (Cons raw raws)
  obtain h where h: "h \<in> set (persist_finding env run asset (nids n) raw fs)" "finding_key h = finding_key g" "belongs run h"
    using persist_finding_keeps [OF Cons.prems(1,3)] Cons.prems(4) unfolding belongs_def by metis
  show ?case
    using Cons.IH [OF persist_finding_ok [OF Cons.prems(1) new_ids_fresh [OF Cons.prems(2)]] new_ids_step [OF Cons.prems(2)] h(1,3)]
    unfolding h(2) by simp
qed auto

lemma persist_findings_belong:
  assumes "findings_ok fs" "new_ids nids n fs" "raw \<in> set raws"
  shows "\<exists>h \<in> set (persist_findings env run asset nids n raws fs). finding_key h = raw_key asset raw \<and> belongs run h"
  using assms
proof (induction raws arbitrary: n fs)
  case (Cons r raws)
  note step = persist_finding_ok [OF Cons.prems(1) new_ids_fresh [OF Cons.prems(2)]] new_ids_step [OF Cons.prems(2)]
  show ?case
  proof (cases "raw = r")
    case True
    obtain g where g: "g \<in> set (persist_finding env run asset (nids n) raw fs)" "finding_key g = raw_key asset raw" "belongs run g"
      using persist_finding_rows(1) [OF Cons.prems(1)] unfolding belongs_def by metis
    show ?thesis using persist_findings_keeps [OF step g(1) [unfolded True] g(3)] g(2) True by simp
  next
    case False
    then show ?thesis using Cons.IH [OF step] Cons.prems(3) by simp
  qed
qed simp

lemma persist_findings_others:
  assumes "findings_ok fs" "new_ids nids n fs"
  shows "{f \<in> set (persist_findings env run asset nids n raws fs). finding_key f \<notin> raw_key asset ` set raws} =
    {f \<in> set fs. finding_key f \<notin> raw_key asset ` set raws}"
  using assms
proof (induction raws arbitrary: n fs)
  case (Cons raw raws)
  note step = persist_finding_ok [OF Cons.prems(1) new_ids_fresh [OF Cons.prems(2)]] new_ids_step [OF Cons.prems(2)]
  have drop: "{f \<in> S. finding_key f \<notin> raw_key asset ` set (raw # raws)} =
      {f \<in> S. finding_key f \<noteq> raw_key asset raw} \<inter> {f \<in> S. finding_key f \<notin> raw_key asset ` set raws}" for S by auto
  show ?case
    using Cons.IH [OF step] persist_finding_rows(2) [OF Cons.prems(1), of env run asset "nids n" raw]
    unfolding persist_findings.simps drop by blast
qed simp

text \<open>Who is asked about: a second request for the same target, on the same assets, is about the same asset.\<close>

lemma same_asset:
  assumes "distinct (map as_id (assets db))" "sd_allowed (fst (evaluate_scope raw cls disruption remediation audited now db))"
    and "classify_target (take max_target_length (strip raw)) = Some t"
    and "a \<in> set (assets db)" "covers_target a t" "b \<in> set (assets db)" "covers_target b t"
  shows "a = b"
proof -
  obtain c where "{x \<in> set (assets db). covers_target x t} = {c}"
    using assms(2,3) unfolding scope_decision_iff [OF assms(1)] by auto
  then show ?thesis using assms(4-7) by (metis (mono_tags, lifting) mem_Collect_eq singletonD)
qed

lemma run_allowed:
  "run_assessment env target cls config_root disruption nid nids now db = (Inr r, db') \<Longrightarrow>
     sd_allowed (fst (evaluate_scope (take max_target_length (strip target)) cls disruption False True now (sec_registry db)))"
  by (auto simp: run_assessment_def split_beta Let_def split: if_splits)

text \<open>
  C25. A repeated assessment refreshes its findings instead of doubling them.  Take a findings table in which ids and
  the pairs of asset and fingerprint are unique.  After a run they still are.  When the same
  assessment runs again on the same files, at whatever later time, the table has the same rows, with the same ids and keys: each
  finding of the first run now belongs to the second, and one that was remediated in between would be open again; the
  findings of other assets, and of lines that are gone, are untouched by either run.
\<close>

theorem rerun_refreshes_findings:
  assumes dist: "distinct (map as_id (assets (sec_registry db)))"
    and ok: "findings_ok (sec_findings db)" and new: "new_ids nids 0 (sec_findings db)"
    and first: "run_assessment env target cls config_root disruption nid nids now db = (Inr r, db1)"
    and second: "run_assessment env target cls config_root disruption nid' nids' now' db1 = (Inr r', db2)"
    and new': "new_ids nids' 0 (sec_findings db1)" and run_new: "nid \<notin> fd_assessment ` set (sec_findings db)"
  shows "findings_ok (sec_findings db1) \<and> finding_index (sec_findings db2) = finding_index (sec_findings db1) \<and>
    (\<forall>f \<in> set (sec_findings db1). fd_assessment f = nid \<longrightarrow>
      (\<exists>g \<in> set (sec_findings db2). finding_key g = finding_key f \<and> fd_assessment g = nid' \<and> fd_status g \<noteq> Remediated)) \<and>
    (\<forall>f \<in> set (sec_findings db). finding_key f \<notin> finding_key ` {g \<in> set (sec_findings db1). fd_assessment g = nid} \<longrightarrow>
      f \<in> set (sec_findings db2))"
proof -
  obtain t a root summary raws where a: "classify_target (take max_target_length (strip (take max_target_length (strip target)))) = Some t"
      "a \<in> set (assets (sec_registry db))" "covers_target a t" "authorized_config_root (se_resolve env) a config_root = Inr root"
      "collect env root = Inr (summary, raws)" "assets (sec_registry db1) = assets (sec_registry db)"
    and fs1: "sec_findings db1 = persist_findings env nid (as_id a) nids 0 raws (sec_findings db)"
    using run_completed [OF first dist] by auto
  have dist1: "distinct (map as_id (assets (sec_registry db1)))" using dist a(6) by simp
  obtain b where b: "b \<in> set (assets (sec_registry db))" "covers_target b t"
      "\<exists>root summary raws. authorized_config_root (se_resolve env) b config_root = Inr root \<and>
         collect env root = Inr (summary, raws) \<and>
         sec_findings db2 = persist_findings env nid' (as_id b) nids' 0 raws (sec_findings db1)"
    using run_completed [OF second dist1] a(1,6) by auto
  have "b = a" using same_asset [OF dist run_allowed [OF first] a(1)] a(2,3) b(1,2) by simp
  then have fs2: "sec_findings db2 = persist_findings env nid' (as_id a) nids' 0 raws (sec_findings db1)"
    using b(3) a(4,5) by auto
  have ok1: "findings_ok (sec_findings db1)" unfolding fs1 by (rule persist_findings_ok [OF ok new])
  have index: "finding_index (sec_findings db2) = finding_index (sec_findings db1)"
    unfolding fs2 by (rule persist_findings_same_index) (simp add: fs1 persist_findings_keys)
  let ?keys = "raw_key (as_id a) ` set raws"
  have keyed: "finding_key f \<in> ?keys" if "f \<in> set (sec_findings db1)" "fd_assessment f = nid" for f
    using that persist_findings_others [OF ok new, of env nid "as_id a" raws] run_new unfolding fs1 by blast
  have written: "\<exists>g \<in> set (sec_findings db2). finding_key g = k \<and> belongs nid' g" if "k \<in> ?keys" for k
    using that persist_findings_belong [OF ok1 new'] unfolding fs2 by blast
  have kept: "\<forall>f \<in> set (sec_findings db1). fd_assessment f = nid \<longrightarrow>
      (\<exists>g \<in> set (sec_findings db2). finding_key g = finding_key f \<and> fd_assessment g = nid' \<and> fd_status g \<noteq> Remediated)"
    using keyed written unfolding belongs_def by metis
  have others: "\<forall>f \<in> set (sec_findings db). finding_key f \<notin> finding_key ` {g \<in> set (sec_findings db1). fd_assessment g = nid} \<longrightarrow>
      f \<in> set (sec_findings db2)"
  proof (intro ballI impI)
    fix f assume f: "f \<in> set (sec_findings db)" "finding_key f \<notin> finding_key ` {g \<in> set (sec_findings db1). fd_assessment g = nid}"
    have "finding_key f \<notin> ?keys"
      using f(2) persist_findings_belong [OF ok new, of _ raws env nid "as_id a"] unfolding fs1 belongs_def by force
    then show "f \<in> set (sec_findings db2)"
      using f(1) persist_findings_others [OF ok new, of env nid "as_id a" raws]
        persist_findings_others [OF ok1 new', of env nid' "as_id a" raws] unfolding fs1 fs2 by blast
  qed
  from ok1 index kept others show ?thesis by blast
qed

lemma put_new_run:
  "nid \<notin> am_id ` set rs \<Longrightarrow> am_id r = nid \<Longrightarrow> row_put am_id nid f (rs @ [r]) = rs @ [f r]"
  by (induction rs) (auto simp: row_put_def)

lemma authorized_root_error:
  "authorized_config_root resolve a requested = Inl e \<Longrightarrow> e = Validation_error \<or> e = Collector_root_violation"
  by (auto simp: authorized_config_root_def Let_def split: option.splits if_splits)

lemma collect_error: "collect env root = Inl e \<Longrightarrow> e = Target_unavailable"
  by (auto simp: collect_def Let_def split: option.splits)

text \<open>
  C26. An assessment that does not complete changes nothing but its own record.  Whatever the request: when
  it ends with an error, no finding was written or changed, and the registry keeps every asset's scope.  The request is refused
  as out of scope exactly when the scope guard says no, and then at most one assessment row is added, marked refused; when the
  directory is missing one row is added, marked failed; after every other error no row is added.
\<close>

theorem failed_runs_write_no_findings:
  assumes "distinct (map as_id (assets (sec_registry db)))" and "nid \<notin> am_id ` set (sec_assessments db)"
    and "run_assessment env target cls config_root disruption nid nids now db = (Inl e, db')"
  shows "sec_findings db' = sec_findings db \<and> unwidened (sec_registry db) (sec_registry db') \<and>
    (e = Out_of_scope \<longleftrightarrow>
      \<not> sd_allowed (fst (evaluate_scope (take max_target_length (strip target)) cls disruption False True now (sec_registry db)))) \<and>
    (\<exists>rows. sec_assessments db' = sec_assessments db @ rows \<and> length rows \<le> 1 \<and>
      (e = Target_unavailable \<longrightarrow> rows \<noteq> []) \<and> (e \<notin> {Out_of_scope, Target_unavailable} \<longrightarrow> rows = []) \<and>
      (\<forall>r \<in> set rows. am_status r = (if e = Out_of_scope then Refused_run else Failed_run) \<and> am_completed_at r = Some now))"
proof -
  let ?e = "evaluate_scope (take max_target_length (strip target)) cls disruption False True now (sec_registry db)"
  have reg: "unwidened (sec_registry db) (snd ?e)" by (rule evaluate_unwidened [OF assms(1)])
  have "sec_findings db' = sec_findings db \<and> sec_registry db' = snd ?e \<and> (e = Out_of_scope \<longleftrightarrow> \<not> sd_allowed (fst ?e)) \<and>
    (\<exists>rows. sec_assessments db' = sec_assessments db @ rows \<and> length rows \<le> 1 \<and>
      (e = Target_unavailable \<longrightarrow> rows \<noteq> []) \<and> (e \<notin> {Out_of_scope, Target_unavailable} \<longrightarrow> rows = []) \<and>
      (\<forall>r \<in> set rows. am_status r = (if e = Out_of_scope then Refused_run else Failed_run) \<and> am_completed_at r = Some now))"
  proof (cases "sd_allowed (fst ?e)")
    case False
    then show ?thesis using assms(3)
      by (auto simp: run_assessment_def split_beta Let_def record_refusal_def split: option.splits)
  next
    case True
    show ?thesis
    proof (cases "row_get as_id (the (sd_asset (fst ?e))) (assets (snd ?e))")
      case None
      then show ?thesis using assms(3) True by (auto simp: run_assessment_def split_beta Let_def)
    next
      case (Some a)
      show ?thesis
      proof (cases "authorized_config_root (se_resolve env) a config_root")
        case (Inl x)
        then show ?thesis using assms(3) True Some authorized_root_error [OF Inl]
          by (auto simp: run_assessment_def split_beta Let_def)
      next
        case (Inr root)
        then show ?thesis using assms(2,3) True Some
          by (cases "collect env root")
            (auto simp: run_assessment_def split_beta Let_def put_run_def put_new_run dest: collect_error)
      qed
    qed
  qed
  moreover from this have "unwidened (sec_registry db) (sec_registry db')" using reg by argo
  ultimately show ?thesis by blast
qed

section \<open>A sample\<close>

definition audited_asset :: asset where
  "audited_asset = lab_asset\<lparr>as_constraints :=
     JObj [(''max_disruption'', JStr ''low''), (''config_roots'', JList [JStr ''etc/ssh''])]\<rparr>"

definition root_login :: check where
  "root_login = \<lparr>ck_id = ''root_login'', ck_severity = ''high'', ck_title = ''t'', ck_rationale = ''r'', ck_action = ''a'',
     ck_summary = ''s'', ck_applies = (\<lambda>f. True),
     ck_capture = (\<lambda>l. if l = ''PermitRootLogin yes'' then Some ''PermitRootLogin'' else None),
     ck_fixes = [\<lambda>l. if l = ''PermitRootLogin yes'' then ''PermitRootLogin no'' else l], ck_apply_supported = True,
     ck_disruption = ''low'', ck_manual_steps = []\<rparr>"

definition no_secret :: check where
  "no_secret = root_login\<lparr>ck_id := ''secret_in_config'', ck_capture := \<lambda>l. None, ck_fixes := [], ck_apply_supported := False\<rparr>"

definition sample_walk :: "walk_entry list" where
  "sample_walk = [
     \<lparr>we_name = ''sshd_config'', we_real = Some [''etc'', ''ssh'', ''sshd_config''], we_is_file = True, we_suffix = '''',
       we_size = 20, we_bytes = Some (''PermitRootLogin yes'' @ [CHR 0x0A])\<rparr>,
     \<lparr>we_name = ''shadow'', we_real = Some [''etc'', ''shadow''], we_is_file = True, we_suffix = '''',
       we_size = 20, we_bytes = Some ''root''\<rparr>]"

definition sample_security_env :: security_env where
  "sample_security_env = \<lparr>se_resolve = split_on (CHR ''/''), se_path_text = join_with ''/'',
     se_walk = (\<lambda>p. if p = [''etc'', ''ssh''] then Some sample_walk else None), se_patterns = [], se_digest = id,
     se_secret = no_secret, se_checks = [root_login]\<rparr>"

definition sample_security_db :: security_db where
  "sample_security_db = \<lparr>sec_registry = \<lparr>assets = [audited_asset], events = []\<rparr>, sec_assessments = [], sec_findings = []\<rparr>"

lemma sample_lines: "map drop_break (splitlines_keep (''PermitRootLogin yes'' @ [CHR 0x0A])) = [''PermitRootLogin yes'']"
  by code_simp

lemma sample_files:
  "files_read sample_security_env [''etc'', ''ssh''] =
     [\<lparr>cf_name = ''sshd_config'', cf_from = [''etc'', ''ssh'', ''sshd_config''], cf_lines = [''PermitRootLogin yes'']\<rparr>]"
  unfolding files_read_def collect_files_def sample_security_env_def
  using sample_lines
  by (simp add: eligible_def sample_walk_def max_files_def text_suffixes_def max_file_bytes_def max_lines_per_file_def
      max_line_chars_def)

lemma sample_root: "authorized_config_root (split_on (CHR ''/'')) audited_asset None = Inr [''etc'', ''ssh'']"
  by code_simp

lemma sample_collect:
  "\<exists>summary raw. collect sample_security_env [''etc'', ''ssh''] = Inr (summary, [raw]) \<and> raw_key 1 raw = (1, ''root_login|sshd_config|permitrootlogin'')"
proof -
  have lowered: "map lower (strip ''PermitRootLogin'') = ''permitrootlogin''" by code_simp
  have key: "directive_key [] ''PermitRootLogin'' = ''permitrootlogin''"
    using lowered by (simp add: directive_key_def redact_text_def max_redact_chars_def)
  have "redact_hits [] ''PermitRootLogin yes'' = []" by (simp add: redact_hits_def max_redact_chars_def)
  then have one: "\<exists>raw. run_checks [] id no_secret [root_login]
      [\<lparr>cf_name = ''sshd_config'', cf_from = [''etc'', ''ssh'', ''sshd_config''], cf_lines = [''PermitRootLogin yes'']\<rparr>] = [raw] \<and>
      raw_key 1 raw = (1, ''root_login|sshd_config|permitrootlogin'')"
    by (simp add: run_checks_def root_login_def key raw_finding_of_def fingerprint_for_def raw_key_def Let_def)
  then show ?thesis using sample_files
    by (auto simp: collect_def Let_def sample_security_env_def)
qed

lemma sample_decision:
  assumes "assets reg = [audited_asset]" "0 \<le> now" "now < 100"
  shows "sd_allowed (fst (evaluate_scope ''10.20.30.40'' ''configuration_audit'' ''none'' False True now reg)) \<and>
    sd_asset (fst (evaluate_scope ''10.20.30.40'' ''configuration_audit'' ''none'' False True now reg)) = Some 1 \<and>
    assets (snd (evaluate_scope ''10.20.30.40'' ''configuration_audit'' ''none'' False True now reg)) = [audited_asset]"
proof -
  have dist: "distinct (map as_id (assets reg))" by (simp add: assms(1))
  have inside: "classify_target (take max_target_length (strip ''10.20.30.40'')) = Some (Ip_target (V4 0x0A141E28))"
    by code_simp
  have net: "ip_network ''10.20.30.0/24'' = Some (Net4 0x0A141E00 24)" by code_simp
  have "in_network (V4 0x0A141E28) (Net4 0x0A141E00 24)" by code_simp
  then have one: "{b \<in> set (assets reg). covers_target b (Ip_target (V4 0x0A141E28))} = {audited_asset}"
    by (auto simp: assms(1) audited_asset_def lab_asset_def covers_target_def net)
  have "authorizes audited_asset ''configuration_audit'' ''none'' now" using assms(2,3)
    by (simp add: authorizes_def audited_asset_def lab_asset_def max_disruption_def stored_def get_or_def disruption_levels_def
        disruption_rank_def)
  then have "sd_allowed (fst (evaluate_scope ''10.20.30.40'' ''configuration_audit'' ''none'' False True now reg))"
    unfolding scope_decision_iff [OF dist] using inside one
    by (auto simp: implemented_testing_classes_def disruption_levels_def)
  from evaluate_allowed [OF this] this show ?thesis
    by (auto simp: assms(1) audited_asset_def lab_asset_def)
qed

lemma sample_run:
  assumes "assets (sec_registry db) = [audited_asset]" "0 \<le> now" "now < 100"
  shows "\<exists>r db' raw. run_assessment sample_security_env ''10.20.30.40'' ''configuration_audit'' None ''none'' nid nids now db = (Inr r, db') \<and>
    assets (sec_registry db') = [audited_asset] \<and>
    sec_findings db' = persist_findings sample_security_env nid 1 nids 0 [raw] (sec_findings db) \<and>
    raw_key 1 raw = (1, ''root_login|sshd_config|permitrootlogin'')"
proof -
  have req: "take max_target_length (strip ''10.20.30.40'') = ''10.20.30.40''" by code_simp
  obtain summary raw where got: "collect sample_security_env [''etc'', ''ssh''] = Inr (summary, [raw])"
    and key: "raw_key 1 raw = (1, ''root_login|sshd_config|permitrootlogin'')" using sample_collect by blast
  have root: "authorized_config_root (se_resolve sample_security_env) audited_asset None = Inr [''etc'', ''ssh'']"
    using sample_root by (simp add: sample_security_env_def)
  have "row_get as_id 1 [audited_asset] = Some audited_asset" "as_id audited_asset = 1"
    by (simp_all add: row_get_Cons audited_asset_def lab_asset_def)
  then show ?thesis using sample_decision [OF assms]
    by (simp add: run_assessment_def split_beta Let_def req root got put_run_def)
      (rule exI [of _ raw], simp add: key [simplified])
qed

lemma runs_read_below_recorded_roots_witness:
  "\<exists>r db'. run_assessment sample_security_env ''10.20.30.40'' ''configuration_audit'' None ''none'' 7 id 50 sample_security_db = (Inr r, db') \<and>
     (\<exists>a \<in> {audited_asset}. \<exists>base \<in> set (recorded_roots (se_resolve sample_security_env) a).
        \<exists>root. is_prefix base root \<and> (\<forall>f \<in> set (files_read sample_security_env root). is_prefix base (cf_from f)))"
proof -
  have db: "assets (sec_registry sample_security_db) = [audited_asset]" by (simp add: sample_security_db_def)
  obtain r db' where run: "run_assessment sample_security_env ''10.20.30.40'' ''configuration_audit'' None ''none'' 7 id 50 sample_security_db = (Inr r, db')"
    using sample_run [OF db, of 50] by fastforce
  from runs_read_below_recorded_roots [OF run] db run show ?thesis by auto
qed

lemma rerun_refreshes_findings_witness:
  "\<exists>r r' db1 db2. run_assessment sample_security_env ''10.20.30.40'' ''configuration_audit'' None ''none'' 7 id 50 sample_security_db = (Inr r, db1) \<and>
     run_assessment sample_security_env ''10.20.30.40'' ''configuration_audit'' None ''none'' 8 Suc 60 db1 = (Inr r', db2) \<and>
     finding_index (sec_findings db1) = [(0, 1, ''root_login|sshd_config|permitrootlogin'')] \<and>
     finding_index (sec_findings db2) = finding_index (sec_findings db1)"
proof -
  have db: "assets (sec_registry sample_security_db) = [audited_asset]" by (simp add: sample_security_db_def)
  obtain r db1 raw where run: "run_assessment sample_security_env ''10.20.30.40'' ''configuration_audit'' None ''none'' 7 id 50 sample_security_db = (Inr r, db1)"
    and db1: "assets (sec_registry db1) = [audited_asset]"
    and fs: "sec_findings db1 = persist_findings sample_security_env 7 1 id 0 [raw] (sec_findings sample_security_db)"
      "raw_key 1 raw = (1, ''root_login|sshd_config|permitrootlogin'')"
    using sample_run [OF db, of 50 7 id] by fastforce
  obtain r' db2 where run': "run_assessment sample_security_env ''10.20.30.40'' ''configuration_audit'' None ''none'' 8 Suc 60 db1 = (Inr r', db2)"
    using sample_run [OF db1, of 60 8 Suc] by fastforce
  have index: "finding_index (sec_findings db1) = [(0, 1, ''root_login|sshd_config|permitrootlogin'')]"
    using fs by (simp add: sample_security_db_def persist_finding_index) (simp add: finding_index_def)
  have "fd_id ` set (sec_findings db1) = {0}" using index index_keys(2) [of "sec_findings db1"] by simp
  then have "finding_index (sec_findings db2) = finding_index (sec_findings db1)"
    using rerun_refreshes_findings [OF _ _ _ run run'] by (simp add: db new_ids_def findings_ok_def sample_security_db_def)
  then show ?thesis using run run' index by blast
qed

lemma failed_runs_write_no_findings_witness:
  "\<exists>db'. run_assessment sample_security_env ''nowhere'' ''configuration_audit'' None ''none'' 7 id 50 sample_security_db = (Inl Out_of_scope, db') \<and>
     sec_findings db' = []"
proof -
  have dist: "distinct (map as_id (assets (sec_registry sample_security_db)))" by (simp add: sample_security_db_def)
  have none: "{b \<in> set (assets (sec_registry sample_security_db)). covers_target b (Hostname_target s ls)} = {}" for s ls
    by (auto simp: sample_security_db_def covers_target_def audited_asset_def lab_asset_def)
  have "classify_target (take max_target_length (strip ''nowhere'')) = Some (Hostname_target ''nowhere'' [''nowhere''])" by code_simp
  moreover have "take max_target_length (strip ''nowhere'') = ''nowhere''" by code_simp
  ultimately have "\<not> sd_allowed (fst (evaluate_scope (take max_target_length (strip ''nowhere'')) ''configuration_audit'' ''none'' False True 50 (sec_registry sample_security_db)))"
    unfolding scope_decision_iff [OF dist] by (simp add: none)
  then obtain db' where run: "run_assessment sample_security_env ''nowhere'' ''configuration_audit'' None ''none'' 7 id 50 sample_security_db = (Inl Out_of_scope, db')"
    by (simp add: run_assessment_def split_beta Let_def)
  have "sec_findings db' = sec_findings sample_security_db"
    using failed_runs_write_no_findings [OF _ _ run] by (simp add: sample_security_db_def)
  then show ?thesis using run by (simp add: sample_security_db_def)
qed

section \<open>What the code allows\<close>

text \<open>A finding knows its file only below the root of its run: the same file name with the same line below a second
  recorded root of the asset is the same finding, and the second run takes the row over.\<close>

lemma checks_see_names_and_lines:
  assumes "map (\<lambda>f. (cf_name f, cf_lines f)) fs = map (\<lambda>f. (cf_name f, cf_lines f)) gs"
  shows "run_checks pats digest secret cs fs = run_checks pats digest secret cs gs"
proof -
  define per where "per p = secret_findings_loop pats digest secret (fst p) 1 [] (snd p) @
    concat (map (\<lambda>c. if ck_applies c (fst p) then check_loop pats digest c (fst p) 1 [] (snd p) else []) cs)" for p
  have "run_checks pats digest secret cs xs =
      sort_key (\<lambda>f. (rf_check f, rf_file f, rf_line f)) (concat (map per (map (\<lambda>f. (cf_name f, cf_lines f)) xs)))" for xs
    unfolding run_checks_def map_map comp_def per_def fst_conv snd_conv ..
  from this [of fs] this [of gs] show ?thesis unfolding assms by (rule trans [OF _ sym])
qed

lemma second_root_takes_over:
  assumes "findings_ok fs" "new_ids nids 0 fs" "new_ids nids' 0 (persist_findings env run asset nids 0 raws fs)" "raw \<in> set raws"
    and same: "map (\<lambda>f. (cf_name f, cf_lines f)) (files_read env root) = map (\<lambda>f. (cf_name f, cf_lines f)) (files_read env root')"
    and "raws = run_checks pats digest secret cs (files_read env root)" "raws' = run_checks pats digest secret cs (files_read env root')"
    and "run \<noteq> run'"
  shows "\<forall>f \<in> set (persist_findings env run' asset nids' 0 raws' (persist_findings env run asset nids 0 raws fs)).
    finding_key f = raw_key asset raw \<longrightarrow> fd_assessment f = run'"
proof -
  let ?fs = "persist_findings env run asset nids 0 raws fs"
  have raws: "raws' = raws" using checks_see_names_and_lines [OF same] assms(6,7) by simp
  have ok: "findings_ok ?fs" by (rule persist_findings_ok [OF assms(1,2)])
  have ok': "findings_ok (persist_findings env run' asset nids' 0 raws' ?fs)" by (rule persist_findings_ok [OF ok assms(3)])
  obtain h where h: "h \<in> set (persist_findings env run' asset nids' 0 raws' ?fs)" "finding_key h = raw_key asset raw"
      "fd_assessment h = run'"
    using persist_findings_belong [OF ok assms(3), of raw raws'] assms(4) raws unfolding belongs_def by metis
  have "f = h" if "f \<in> set (persist_findings env run' asset nids' 0 raws' ?fs)" "finding_key f = raw_key asset raw" for f
    using that h(1,2) ok' inj_onD [of finding_key] unfolding findings_ok_def distinct_map by metis
  then show ?thesis using h(3) by blast
qed

text \<open>The limit of a listing is taken before the sorting by severity: a critical finding beyond it is not shown.\<close>

definition graded_finding :: "nat \<Rightarrow> string \<Rightarrow> finding" where
  "graded_finding i severity = \<lparr>fd_id = i, fd_assessment = 7, fd_asset = 1, fd_fingerprint = show_nat i, fd_title = ''t'',
     fd_severity = severity, fd_status = Open_finding, fd_evidence = JObj [], fd_remediation = JObj [], fd_resolved_at = None\<rparr>"

lemma limit_hides_critical_finding:
  "list_findings None None None None 1 (sample_security_db\<lparr>sec_findings := [graded_finding 0 ''info'', graded_finding 1 ''critical'']\<rparr>) =
     Inr [graded_finding 0 ''info'']"
  by (simp add: list_findings_def by_urgency_def)

end
