(* ===== verification/Remediation.thy ===== *)
theory Remediation imports Security_Runs begin

text \<open>
  The remediations (\<open>app/security/remediation.py\<close>): the four modes over the findings table and the files they name.
  A file system maps the resolved path of a file to its bytes.  Resolving a path below a root, the test for an absolute path and
  the hexadecimal text of an id are arguments.  The properties: only an authorized fix or its revert writes, and only
  the finding's file and its backup; a proposal and a dry run write nothing; a fix changes one
  line; taking it back restores the bytes.
\<close>

type_synonym file_system = "path \<Rightarrow> string option"

record remedy_env =
  re_env :: security_env
  re_below :: "path \<Rightarrow> string \<Rightarrow> path"
  re_absolute :: "string \<Rightarrow> bool"
  re_hex :: "nat \<Rightarrow> string"

definition backup_path :: "remedy_env \<Rightarrow> nat \<Rightarrow> path \<Rightarrow> path" where
  "backup_path env i p = butlast p @ [last p @ ''.pagentos-bak-'' @ take 8 (re_hex env i)]"

section \<open>The file of a finding\<close>

definition remediation_dict :: "finding \<Rightarrow> (string \<times> json) list" where
  "remediation_dict f = stored (fd_remediation f)"

definition file_of_finding :: "finding \<Rightarrow> string" where
  "file_of_finding f =
     (let v = get_or ''file'' JNull (remediation_dict f) in if truthy v then str_of v else [])"

definition recorded_root :: "assessment \<Rightarrow> string option" where
  "recorded_root r = (case get_or ''config_root'' JNull (stored (am_result r)) of JStr s \<Rightarrow> Some s | _ \<Rightarrow> None)"

definition authorized_file :: "remedy_env \<Rightarrow> asset \<Rightarrow> assessment \<Rightarrow> finding \<Rightarrow> file_system \<Rightarrow> security_error + path" where
  "authorized_file env a r f fs =
     (let relative = file_of_finding f in
      if relative = [] \<or> contains_sub ''..'' relative \<or> re_absolute env relative then Inl Collector_root_violation
      else bind_sum (authorized_config_root (se_resolve (re_env env)) a (recorded_root r)) (\<lambda>root.
        let p = re_below env root relative in
        if \<not> is_prefix root p then Inl Collector_root_violation
        else if fs p = None then Inl Target_unavailable
        else Inr p))"

section \<open>The patch\<close>

definition find_check :: "security_env \<Rightarrow> string \<Rightarrow> check option" where
  "find_check env i = List.find (\<lambda>c. ck_id c = i) (se_secret env # se_checks env)"

definition line_content :: "string \<Rightarrow> string" where
  "line_content l = rev (dropWhile (\<lambda>c. c = CHR 0x0D \<or> c = CHR 0x0A) (rev l))"

definition patched_line :: "check \<Rightarrow> string \<Rightarrow> string option" where
  "patched_line c line =
     (if ck_capture c line = None \<or> fixed_line c line = line then None else Some (fixed_line c line))"

text \<open>\<open>isinstance(value, int)\<close> also holds of a bool.\<close>

definition recorded_line :: "finding \<Rightarrow> int option" where
  "recorded_line f =
     (case get_or ''line'' JNull (remediation_dict f) of
        JInt n \<Rightarrow> Some n | JBool b \<Rightarrow> Some (if b then 1 else 0) | _ \<Rightarrow> None)"

definition patch_candidates :: "finding \<Rightarrow> nat \<Rightarrow> nat list" where
  "patch_candidates f n =
     (case recorded_line f of
        Some l \<Rightarrow> if 1 \<le> l \<and> l \<le> int n then nat (l - 1) # filter (\<lambda>i. i \<noteq> nat (l - 1)) [0..<n] else [0..<n]
      | None \<Rightarrow> [0..<n])"

record patch =
  pt_index :: nat
  pt_current :: string
  pt_fixed :: string
  pt_content :: string

fun first_patch :: "check \<Rightarrow> string list \<Rightarrow> nat list \<Rightarrow> patch option" where
  "first_patch c lines [] = None"
| "first_patch c lines (i # is) =
     (case patched_line c (line_content (lines ! i)) of
        None \<Rightarrow> first_patch c lines is
      | Some new \<Rightarrow>
          Some \<lparr>pt_index = i, pt_current = line_content (lines ! i), pt_fixed = new,
            pt_content = concat (lines[i := new @ drop (length (line_content (lines ! i))) (lines ! i)])\<rparr>)"

definition text_lines :: "string \<Rightarrow> string list" where
  "text_lines raw = splitlines_keep (universal_newlines raw)"

definition compute_patch :: "security_env \<Rightarrow> finding \<Rightarrow> string \<Rightarrow> security_error + patch option" where
  "compute_patch env f raw =
     (case find_check env (str_of (get_or ''check_id'' JNull (remediation_dict f))) of
        None \<Rightarrow> Inl Remediation_not_automatable
      | Some c \<Rightarrow>
          if ck_fixes c = [] then Inl Remediation_not_automatable
          else if length raw > max_file_bytes then Inl Target_unavailable
          else Inr (first_patch c (text_lines raw) (patch_candidates f (length (text_lines raw)))))"

section \<open>The four modes\<close>

datatype remedy_outcome =
    Proposed bool
  | Already_resolved
  | Dry_run nat string string
  | Applied nat string string
  | Reverted

definition remedy_modes :: "string list" where "remedy_modes = [''propose'', ''dry_run'', ''apply'', ''revert'']"

definition put_finding :: "nat \<Rightarrow> finding_status \<Rightarrow> instant option \<Rightarrow> security_db \<Rightarrow> security_db" where
  "put_finding i s at db =
     db\<lparr>sec_findings := row_put fd_id i (\<lambda>f. f\<lparr>fd_status := s, fd_resolved_at := at\<rparr>) (sec_findings db)\<rparr>"

definition load_finding :: "nat \<Rightarrow> security_db \<Rightarrow> security_error + finding \<times> assessment \<times> asset" where
  "load_finding i db =
     (case row_get fd_id i (sec_findings db) of
        None \<Rightarrow> Inl Not_found
      | Some f \<Rightarrow>
          (case (row_get am_id (fd_assessment f) (sec_assessments db), row_get as_id (fd_asset f) (assets (sec_registry db))) of
             (Some r, Some a) \<Rightarrow> Inr (f, r, a)
           | _ \<Rightarrow> Inl Internal_bug))"

definition fix_disruption :: "finding \<Rightarrow> string" where
  "fix_disruption f = str_of (get_or ''disruption'' (JStr ''high'') (remediation_dict f))"

definition apply_supported :: "finding \<Rightarrow> bool" where
  "apply_supported f = truthy (get_or ''apply_supported'' JNull (remediation_dict f))"

definition revert_fix :: "remedy_env \<Rightarrow> nat \<Rightarrow> path \<Rightarrow> security_db \<Rightarrow> file_system \<Rightarrow>
    (security_error + remedy_outcome) \<times> security_db \<times> file_system" where
  "revert_fix env i p db fs =
     (case fs (backup_path env i p) of
        None \<Rightarrow> (Inl Not_found, db, fs)
      | Some old \<Rightarrow> (Inr Reverted, put_finding i Open_finding None db, fs(p \<mapsto> old, backup_path env i p := None)))"

definition apply_fix :: "remedy_env \<Rightarrow> nat \<Rightarrow> path \<Rightarrow> patch \<Rightarrow> instant \<Rightarrow> security_db \<Rightarrow> file_system \<Rightarrow>
    security_db \<times> file_system" where
  "apply_fix env i p x now db fs =
     (put_finding i Remediated (Some now) db,
      (if fs (backup_path env i p) = None then fs(backup_path env i p := fs p) else fs)(p \<mapsto> pt_content x))"

definition remediate :: "remedy_env \<Rightarrow> nat \<Rightarrow> string \<Rightarrow> instant \<Rightarrow> security_db \<times> file_system \<Rightarrow>
    (security_error + remedy_outcome) \<times> security_db \<times> file_system" where
  "remediate env i mode now s =
     (let (db, fs) = s; pats = se_patterns (re_env env) in
      if mode \<notin> set remedy_modes then (Inl Validation_error, s)
      else (case load_finding i db of
          Inl e \<Rightarrow> (Inl e, s)
        | Inr (f, r, a) \<Rightarrow>
            (let (d, reg) = evaluate_scope (am_target r) ''remediation'' (fix_disruption f) True (mode \<noteq> ''propose'') now
                              (sec_registry db);
                 db1 = db\<lparr>sec_registry := reg\<rparr>
             in if mode = ''propose'' then (Inr (Proposed (sd_allowed d \<and> apply_supported f)), db1, fs)
                else if \<not> sd_allowed d
                then (Inl (if sd_reason d = Disruption_exceeds_constraint then Constraint_violation else Out_of_scope), db1, fs)
                else (case authorized_file env a r f fs of
                    Inl e \<Rightarrow> (Inl e, db1, fs)
                  | Inr p \<Rightarrow>
                      if mode = ''revert'' then revert_fix env i p db1 fs
                      else if \<not> apply_supported f then (Inl Remediation_not_automatable, db1, fs)
                      else (case compute_patch (re_env env) f (the (fs p)) of
                          Inl e \<Rightarrow> (Inl e, db1, fs)
                        | Inr None \<Rightarrow>
                            (Inr Already_resolved, if mode = ''apply'' then put_finding i Remediated (Some now) db1 else db1, fs)
                        | Inr (Some x) \<Rightarrow>
                            if mode = ''dry_run''
                            then (Inr (Dry_run (pt_index x + 1) (redact_text pats (pt_current x)) (redact_text pats (pt_fixed x))),
                                  db1, fs)
                            else (Inr (Applied (pt_index x + 1) (redact_text pats (pt_current x)) (redact_text pats (pt_fixed x))),
                                  apply_fix env i p x now db1 fs))))))"

section \<open>Lines put together again\<close>

lemma split_keep_concat: "concat (split_keep acc s) = acc @ s"
  by (induction acc s rule: split_keep.induct) (auto simp: neq_Nil_conv)

lemma splitlines_keep_concat [simp]: "concat (splitlines_keep s) = s"
  by (simp add: splitlines_keep_def split_keep_concat)

lemma content_prefix: "take (length (line_content l)) l = line_content l"
proof -
  have "l = line_content l @ rev (takeWhile (\<lambda>c. c = CHR 0x0D \<or> c = CHR 0x0A) (rev l))"
    unfolding line_content_def by (metis rev_append rev_rev_ident takeWhile_dropWhile_id)
  then show ?thesis by (metis append_eq_conv_conj)
qed

lemma first_patch_Some:
  assumes "first_patch c lines is = Some x" "set is \<subseteq> {..<length lines}"
  shows "pt_index x \<in> set is \<and> pt_current x = line_content (lines ! pt_index x) \<and>
    patched_line c (pt_current x) = Some (pt_fixed x) \<and>
    pt_content x = concat (lines[pt_index x := pt_fixed x @ drop (length (pt_current x)) (lines ! pt_index x)])"
  using assms by (induction c lines "is" rule: first_patch.induct) (auto split: option.splits)

lemma first_patch_None:
  "first_patch c lines is = None \<longleftrightarrow> (\<forall>i \<in> set is. patched_line c (line_content (lines ! i)) = None)"
  by (induction c lines "is" rule: first_patch.induct) (auto split: option.splits)

lemma patch_candidates_set: "set (patch_candidates f n) = {..<n}"
  by (auto simp: patch_candidates_def nat_less_iff split: option.splits)

section \<open>When something is written\<close>

lemma load_finding_rows:
  "load_finding i db = Inr (f, r, a) \<Longrightarrow>
     row_get fd_id i (sec_findings db) = Some f \<and> row_get am_id (fd_assessment f) (sec_assessments db) = Some r \<and>
     row_get as_id (fd_asset f) (assets (sec_registry db)) = Some a"
  by (auto simp: load_finding_def split: option.splits)

lemma authorized_file_below:
  assumes "authorized_file env a r f fs = Inr p"
  shows "\<exists>base \<in> set (recorded_roots (se_resolve (re_env env)) a). is_prefix base p" and "\<exists>old. fs p = Some old"
proof -
  obtain root where "authorized_config_root (se_resolve (re_env env)) a (recorded_root r) = Inr root" "is_prefix root p"
    and p: "fs p \<noteq> None"
    using assms by (auto simp: authorized_file_def Let_def sum_simps split: if_splits)
  then show "\<exists>base \<in> set (recorded_roots (se_resolve (re_env env)) a). is_prefix base p"
    using authorized_root_below is_prefix_trans by blast
  show "\<exists>old. fs p = Some old" using p by blast
qed

lemma remediate_writes:
  assumes "remediate env i mode now (db, fs) = (res, db', fs')" and "fs' \<noteq> fs"
  shows "\<exists>f r a p. load_finding i db = Inr (f, r, a) \<and>
    sd_allowed (fst (evaluate_scope (am_target r) ''remediation'' (fix_disruption f) True True now (sec_registry db))) \<and>
    authorized_file env a r f fs = Inr p \<and>
    (mode = ''apply'' \<and> apply_supported f \<and>
       (\<exists>x. compute_patch (re_env env) f (the (fs p)) = Inr (Some x) \<and>
          (db', fs') = apply_fix env i p x now
            (db\<lparr>sec_registry := snd (evaluate_scope (am_target r) ''remediation'' (fix_disruption f) True True now (sec_registry db))\<rparr>) fs) \<or>
     mode = ''revert'' \<and> (\<exists>old. fs (backup_path env i p) = Some old \<and> fs' = fs(p \<mapsto> old, backup_path env i p := None)))"
proof (cases "load_finding i db")
  case (Inl e)
  then show ?thesis using assms by (auto simp: remediate_def Let_def split: if_splits)
next
  case (Inr x)
  obtain f r a where x: "x = (f, r, a)" by (cases x) auto
  have mode: "mode \<in> set remedy_modes" "mode \<noteq> ''propose''"
    using assms Inr x by (auto simp: remediate_def Let_def split_beta split: if_splits)
  let ?e = "evaluate_scope (am_target r) ''remediation'' (fix_disruption f) True True now (sec_registry db)"
  have allowed: "sd_allowed (fst ?e)" using assms Inr x mode
    by (auto simp: remediate_def Let_def split_beta split: if_splits)
  obtain p where p: "authorized_file env a r f fs = Inr p" using assms Inr x mode allowed
    by (auto simp: remediate_def Let_def split_beta split: sum.splits)
  show ?thesis
  proof (cases "mode = ''revert''")
    case True
    then show ?thesis using assms Inr x mode allowed p
      by (auto simp: remediate_def Let_def split_beta revert_fix_def split: option.splits)
  next
    case False
    then have "mode = ''apply'' \<or> mode = ''dry_run''" using mode by (auto simp: remedy_modes_def)
    then show ?thesis using assms Inr x mode allowed p False
      by (auto simp: remediate_def Let_def split_beta split: sum.splits option.splits if_splits)
  qed
qed

text \<open>
  C27. A remediation writes only what was authorized.  Whenever a remediation changes any file: it was an apply or a
  revert; an enrolled asset covers the target of the finding's assessment, allows remediation now, and permits the
  disruption the fix is recorded with; the changed file is the finding's file, lying below a config root recorded on the finding's
  asset, or the backup beside it; and a fix that is not marked as automatable was not applied.
\<close>

theorem remediation_writes_within_authority:
  assumes "remediate env i mode now (db, fs) = (res, db', fs')" and "fs' q \<noteq> fs q"
  shows "\<exists>f r a p. load_finding i db = Inr (f, r, a) \<and> mode \<in> {''apply'', ''revert''} \<and>
    (mode = ''apply'' \<longrightarrow> apply_supported f) \<and>
    (\<exists>t b. classify_target (take max_target_length (strip (am_target r))) = Some t \<and> b \<in> set (assets (sec_registry db)) \<and>
       covers_target b t \<and> authorizes b ''remediation'' (fix_disruption f) now) \<and>
    (\<exists>base \<in> set (recorded_roots (se_resolve (re_env env)) a). is_prefix base p) \<and>
    q \<in> {p, backup_path env i p}"
proof -
  have "fs' \<noteq> fs" using assms(2) by blast
  from remediate_writes [OF assms(1) this] obtain f r a p where w:
    "load_finding i db = Inr (f, r, a)"
    "sd_allowed (fst (evaluate_scope (am_target r) ''remediation'' (fix_disruption f) True True now (sec_registry db)))"
    "authorized_file env a r f fs = Inr p"
    "mode = ''apply'' \<and> apply_supported f \<and>
       (\<exists>x. compute_patch (re_env env) f (the (fs p)) = Inr (Some x) \<and>
          (db', fs') = apply_fix env i p x now
            (db\<lparr>sec_registry := snd (evaluate_scope (am_target r) ''remediation'' (fix_disruption f) True True now (sec_registry db))\<rparr>) fs) \<or>
     mode = ''revert'' \<and> (\<exists>old. fs (backup_path env i p) = Some old \<and> fs' = fs(p \<mapsto> old, backup_path env i p := None))"
    by blast
  have "q \<in> {p, backup_path env i p}" using w(4) assms(2) by (auto simp: apply_fix_def split: if_splits)
  then show ?thesis using w authorized_file_below(1) [OF w(3)] evaluate_allowed [OF w(2)] by blast
qed

lemma remediate_registry:
  assumes "distinct (map as_id (assets (sec_registry db)))" "remediate env i mode now (db, fs) = (res, db', fs')"
  shows "unwidened (sec_registry db) (sec_registry db')"
  using assms(2) evaluate_unwidened [OF assms(1)]
  by (auto simp: remediate_def Let_def split_beta revert_fix_def apply_fix_def put_finding_def unwidened_refl
      split: if_splits sum.splits option.splits)

text \<open>
  Proposing, trying and failing write nothing.  A remediation in the modes propose and dry run, in any unknown mode, and
  every remediation that ends with an error leaves all files, all findings and all assessments as they were; and no remediation of
  any mode widens the registry.
\<close>

theorem only_applied_fixes_write:
  assumes "remediate env i mode now (db, fs) = (res, db', fs')" and "mode \<notin> {''apply'', ''revert''} \<or> res = Inl e"
    and "distinct (map as_id (assets (sec_registry db)))"
  shows "fs' = fs \<and> sec_findings db' = sec_findings db \<and> sec_assessments db' = sec_assessments db \<and>
    unwidened (sec_registry db) (sec_registry db')"
proof -
  have "fs' = fs \<and> sec_findings db' = sec_findings db \<and> sec_assessments db' = sec_assessments db"
    using assms(2)
  proof
    assume "mode \<notin> {''apply'', ''revert''}"
    then show ?thesis using assms(1)
      by (simp add: remediate_def Let_def split_beta split: if_splits sum.splits option.splits)
        (auto simp: remedy_modes_def split: if_splits)
  next
    assume "res = Inl e"
    then show ?thesis using assms(1)
      by (simp add: remediate_def Let_def split_beta revert_fix_def split: if_splits sum.splits option.splits) (auto split: if_splits)
  qed
  then show ?thesis using remediate_registry [OF assms(3,1)] by simp
qed

section \<open>Taking a fix back\<close>

lemma backup_elsewhere [simp]: "backup_path env i p \<noteq> p" "p \<noteq> backup_path env i p"
proof -
  have "last (backup_path env i p) = last p @ ''.pagentos-bak-'' @ take 8 (re_hex env i)" by (simp add: backup_path_def)
  then have "last (backup_path env i p) \<noteq> last p" by simp
  then show "backup_path env i p \<noteq> p" "p \<noteq> backup_path env i p" by auto
qed

lemma load_after_put:
  assumes "load_finding i db = Inr (f, r, a)" "assets reg = assets (sec_registry db)"
  shows "load_finding i (put_finding i st at (db\<lparr>sec_registry := reg\<rparr>)) = Inr (f\<lparr>fd_status := st, fd_resolved_at := at\<rparr>, r, a)"
  using assms
  by (auto simp: load_finding_def put_finding_def row_get_put split: option.splits)

lemma same_remediation [simp]:
  "remediation_dict (f\<lparr>fd_status := st, fd_resolved_at := at\<rparr>) = remediation_dict f"
  "file_of_finding (f\<lparr>fd_status := st, fd_resolved_at := at\<rparr>) = file_of_finding f"
  "fix_disruption (f\<lparr>fd_status := st, fd_resolved_at := at\<rparr>) = fix_disruption f"
  by (simp_all add: remediation_dict_def file_of_finding_def fix_disruption_def)

lemma authorized_file_again:
  "authorized_file env a r f fs = Inr p \<Longrightarrow> fs' p \<noteq> None \<Longrightarrow>
     authorized_file env a r (f\<lparr>fd_status := st, fd_resolved_at := at\<rparr>) fs' = Inr p"
  by (auto simp: authorized_file_def Let_def sum_simps split: if_splits)

lemma remediate_applied:
  assumes "remediate env i ''apply'' now (db, fs) = (Inr (Applied n cur new), db1, fs1)"
    and "load_finding i db = Inr (f, r, a)" "authorized_file env a r f fs = Inr p"
  shows "\<exists>x reg. compute_patch (re_env env) f (the (fs p)) = Inr (Some x) \<and> assets reg = assets (sec_registry db) \<and>
    (db1, fs1) = apply_fix env i p x now (db\<lparr>sec_registry := reg\<rparr>) fs"
proof -
  let ?e = "evaluate_scope (am_target r) ''remediation'' (fix_disruption f) True True now (sec_registry db)"
  have allowed: "sd_allowed (fst ?e)" using assms
    by (auto simp: remediate_def Let_def split_beta split: if_splits)
  show ?thesis using assms allowed evaluate_allowed [OF allowed]
    by (auto simp: remediate_def Let_def split_beta split: if_splits sum.splits option.splits
        intro!: exI [of _ "snd ?e"])
qed

lemma first_patch_one_line:
  assumes "compute_patch env f old = Inr (Some x)"
  shows "\<exists>k c. k < length (text_lines old) \<and> find_check env (str_of (get_or ''check_id'' JNull (remediation_dict f))) = Some c \<and>
    (let line = line_content (text_lines old ! k) in ck_capture c line \<noteq> None \<and> fixed_line c line \<noteq> line \<and>
       pt_content x = concat ((text_lines old)[k := fixed_line c line @ drop (length line) (text_lines old ! k)]))"
proof -
  obtain c where c: "find_check env (str_of (get_or ''check_id'' JNull (remediation_dict f))) = Some c"
    and x: "first_patch c (text_lines old) (patch_candidates f (length (text_lines old))) = Some x"
    using assms by (auto simp: compute_patch_def split: option.splits if_splits)
  from first_patch_Some [OF x] c show ?thesis
    by (intro exI [of _ "pt_index x"] exI [of _ c]) (auto simp: patch_candidates_set patched_line_def Let_def split: if_splits)
qed

text \<open>
  C28. A fix can be taken back to the letter, and in a file without carriage returns it changes one line.  When a fix was
  applied and no backup of that file lay there before: a file without carriage returns then is its text with exactly
  one line changed, a line on which the check fired, by the check's own substitutions and with its line ending kept (in
  one with carriage returns every line ending is rewritten, \<open>fix_rewrites_line_endings\<close>); no other file changed but
  the backup.  If later, after any edit of that
  file by anyone, the fix is taken back while remediation is allowed, the call succeeds, every file is byte for byte
  what it was before the fix, the backup is gone, and the finding is open again.
\<close>

theorem applied_fix_can_be_taken_back:
  assumes applied: "remediate env i ''apply'' now (db, fs) = (Inr (Applied n cur new), db1, fs1)"
    and found: "load_finding i db = Inr (f, r, a)" "authorized_file env a r f fs = Inr p"
    and fresh: "fs (backup_path env i p) = None"
    and allowed: "sd_allowed (fst (evaluate_scope (am_target r) ''remediation'' (fix_disruption f) True True now' (sec_registry db1)))"
  shows "(CHR 0x0D \<notin> set (the (fs p)) \<longrightarrow>
      (\<exists>k c. k < length (splitlines_keep (the (fs p))) \<and>
        (let lines = splitlines_keep (the (fs p)); line = line_content (lines ! k)
         in ck_capture c line \<noteq> None \<and> fixed_line c line \<noteq> line \<and>
            concat lines = the (fs p) \<and> fs1 p = Some (concat (lines[k := fixed_line c line @ drop (length line) (lines ! k)]))))) \<and>
    fs1 (backup_path env i p) = fs p \<and> (\<forall>q. q \<notin> {p, backup_path env i p} \<longrightarrow> fs1 q = fs q) \<and>
    (\<exists>db2 g. remediate env i ''revert'' now' (db1, fs1(p \<mapsto> edited)) = (Inr Reverted, db2, fs) \<and>
      row_get fd_id i (sec_findings db2) = Some g \<and> fd_status g = Open_finding)"
proof -
  obtain x reg where x: "compute_patch (re_env env) f (the (fs p)) = Inr (Some x)"
    and reg: "assets reg = assets (sec_registry db)"
    and db1: "db1 = put_finding i Remediated (Some now) (db\<lparr>sec_registry := reg\<rparr>)"
    and fs1: "fs1 = fs(backup_path env i p := fs p, p \<mapsto> pt_content x)"
    using remediate_applied [OF applied found] fresh by (auto simp: apply_fix_def)
  have backup: "fs1 (backup_path env i p) = fs p" and rest: "\<forall>q. q \<notin> {p, backup_path env i p} \<longrightarrow> fs1 q = fs q" by (simp_all add: fs1)
  have line: "\<exists>k c. k < length (splitlines_keep (the (fs p))) \<and>
        (let lines = splitlines_keep (the (fs p)); line = line_content (lines ! k)
         in ck_capture c line \<noteq> None \<and> fixed_line c line \<noteq> line \<and>
            concat lines = the (fs p) \<and> fs1 p = Some (concat (lines[k := fixed_line c line @ drop (length line) (lines ! k)])))"
    if "CHR 0x0D \<notin> set (the (fs p))"
    using first_patch_one_line [OF x] that by (auto simp: text_lines_def universal_newlines_id Let_def fs1)
  obtain old where old: "fs p = Some old" using authorized_file_below(2) [OF found(2)] by blast
  have load: "load_finding i db1 = Inr (f\<lparr>fd_status := Remediated, fd_resolved_at := Some now\<rparr>, r, a)"
    unfolding db1 by (rule load_after_put [OF found(1) reg])
  have there: "authorized_file env a r (f\<lparr>fd_status := Remediated, fd_resolved_at := Some now\<rparr>) (fs1(p \<mapsto> edited)) = Inr p"
    by (rule authorized_file_again [OF found(2)]) simp
  have "(fs1(p \<mapsto> edited))(p \<mapsto> old, backup_path env i p := None) = fs"
    using old fresh by (auto simp: fs1 fun_eq_iff)
  moreover have "row_get fd_id i (sec_findings db1) = Some (f\<lparr>fd_status := Remediated, fd_resolved_at := Some now\<rparr>)"
    using load_finding_rows [OF load] by simp
  ultimately have "\<exists>db2 g. remediate env i ''revert'' now' (db1, fs1(p \<mapsto> edited)) = (Inr Reverted, db2, fs) \<and>
      row_get fd_id i (sec_findings db2) = Some g \<and> fd_status g = Open_finding"
    using allowed load there old
    by (auto simp: remediate_def remedy_modes_def split_beta revert_fix_def fs1 put_finding_def row_get_put)
  with line backup rest show ?thesis by blast
qed

section \<open>What the code allows\<close>

text \<open>Backups are per finding, so that two fixes of one file keep their restore points.  But taking back the first one also
  undoes the second, whose finding stays remediated.\<close>

lemma revert_undoes_later_fix:
  assumes first: "(db1, fs1) = apply_fix env i p x t db fs" and second: "(db2, fs2) = apply_fix env j p y t' db1 fs1"
    and there: "fs p = Some old" and fresh: "fs (backup_path env i p) = None"
    and "i \<noteq> j" "backup_path env j p \<noteq> backup_path env i p" and row: "row_get fd_id j (sec_findings db) = Some g"
  shows "\<exists>db3 fs3. revert_fix env i p db2 fs2 = (Inr Reverted, db3, fs3) \<and> fs3 p = Some old \<and>
    (\<exists>h. row_get fd_id j (sec_findings db3) = Some h \<and> fd_status h = Remediated)"
  using assms by (auto simp: apply_fix_def revert_fix_def put_finding_def row_get_put)

text \<open>The recorded line is fine by now, another directive of the same check is not: the fix is applied there.\<close>

definition listing_check :: check where
  "listing_check = root_login\<lparr>ck_id := ''directory_listing'',
     ck_capture := (\<lambda>l. if l = ''autoindex on'' then Some ''autoindex'' else if l = ''listing: on'' then Some ''listing'' else None),
     ck_fixes := [\<lambda>l. if l = ''autoindex on'' then ''autoindex off'' else l, \<lambda>l. if l = ''listing: on'' then ''listing: off'' else l]\<rparr>"

definition listing_env :: security_env where "listing_env = sample_security_env\<lparr>se_checks := [listing_check]\<rparr>"

definition listing_finding :: finding where
  "listing_finding = \<lparr>fd_id = 0, fd_assessment = 7, fd_asset = 1, fd_fingerprint = ''directory_listing|web.conf|autoindex'', fd_title = ''t'',
     fd_severity = ''low'', fd_status = Open_finding, fd_evidence = JObj [],
     fd_remediation = JObj [(''check_id'', JStr ''directory_listing''), (''disruption'', JStr ''low''),
       (''apply_supported'', JBool True), (''file'', JStr ''web.conf''), (''line'', JInt 1)], fd_resolved_at = None\<rparr>"

lemma listing_lines:
  "text_lines (''autoindex off'' @ [CHR 0x0A] @ ''listing: on'' @ [CHR 0x0A]) = [''autoindex off'' @ [CHR 0x0A], ''listing: on'' @ [CHR 0x0A]]"
  "text_lines (''autoindex on'' @ [CHR 0x0D, CHR 0x0A] @ ''# kept'' @ [CHR 0x0D, CHR 0x0A]) = [''autoindex on'' @ [CHR 0x0A], ''# kept'' @ [CHR 0x0A]]"
  by code_simp+

lemma listing_patch:
  "find_check listing_env (str_of (get_or ''check_id'' JNull (remediation_dict listing_finding))) = Some listing_check"
  "patch_candidates listing_finding 2 = [0, 1]"
proof -
  show "find_check listing_env (str_of (get_or ''check_id'' JNull (remediation_dict listing_finding))) = Some listing_check"
    by (simp add: find_check_def listing_env_def sample_security_env_def no_secret_def root_login_def listing_check_def
        remediation_dict_def stored_def get_or_def listing_finding_def)
  show "patch_candidates listing_finding 2 = [0, 1]" by code_simp
qed

lemma fix_of_another_directive:
  "\<exists>x. compute_patch listing_env listing_finding (''autoindex off'' @ [CHR 0x0A] @ ''listing: on'' @ [CHR 0x0A]) = Inr (Some x) \<and>
     pt_index x = 1 \<and> pt_content x = ''autoindex off'' @ [CHR 0x0A] @ ''listing: off'' @ [CHR 0x0A]"
  unfolding compute_patch_def listing_lines using listing_patch
  by (simp add: max_file_bytes_def listing_check_def patched_line_def fixed_line_def line_content_def numeral_2_eq_2)

text \<open>A file with carriage returns is read with universal newlines: every other line loses its ending too.\<close>

lemma fix_rewrites_line_endings:
  "\<exists>x. compute_patch listing_env listing_finding (''autoindex on'' @ [CHR 0x0D, CHR 0x0A] @ ''# kept'' @ [CHR 0x0D, CHR 0x0A]) = Inr (Some x) \<and>
     pt_index x = 0 \<and> pt_content x = ''autoindex off'' @ [CHR 0x0A] @ ''# kept'' @ [CHR 0x0A]"
  unfolding compute_patch_def listing_lines using listing_patch
  by (simp add: max_file_bytes_def listing_check_def patched_line_def fixed_line_def line_content_def numeral_2_eq_2)

section \<open>A sample\<close>

definition fixable_asset :: asset where
  "fixable_asset = audited_asset\<lparr>as_testing := JObj [(''configuration_audit'', JBool True), (''remediation'', JBool True)]\<rparr>"

definition listing_run :: assessment where
  "listing_run = \<lparr>am_id = 7, am_asset = 1, am_class = ''configuration_audit'', am_status = Completed_run,
     am_target = ''10.20.30.40'', am_decision = scope_refusal In_scope ''10.20.30.40'' ''configuration_audit'' ''none'',
     am_result = JObj [(''config_root'', JStr ''etc/ssh'')], am_started_at = Some 0, am_completed_at = Some 0\<rparr>"

definition fixable_db :: security_db where
  "fixable_db = \<lparr>sec_registry = \<lparr>assets = [fixable_asset], events = []\<rparr>, sec_assessments = [listing_run],
     sec_findings = [listing_finding]\<rparr>"

definition sample_remedy_env :: remedy_env where
  "sample_remedy_env = \<lparr>re_env = listing_env, re_below = (\<lambda>root f. root @ [f]), re_absolute = is_prefix ''/'',
     re_hex = (\<lambda>i. show_nat i)\<rparr>"

definition web_conf :: path where "web_conf = [''etc'', ''ssh'', ''web.conf'']"

definition web_files :: file_system where
  "web_files = [web_conf \<mapsto> ''autoindex on'' @ [CHR 0x0A] @ ''# kept'' @ [CHR 0x0A]]"

lemma fix_decision:
  assumes "assets reg = [fixable_asset]" "0 \<le> now" "now < 100"
  shows "sd_allowed (fst (evaluate_scope ''10.20.30.40'' ''remediation'' ''low'' True audited now reg)) \<and>
    assets (snd (evaluate_scope ''10.20.30.40'' ''remediation'' ''low'' True audited now reg)) = [fixable_asset]"
proof -
  have dist: "distinct (map as_id (assets reg))" by (simp add: assms(1))
  have inside: "classify_target (take max_target_length (strip ''10.20.30.40'')) = Some (Ip_target (V4 0x0A141E28))"
    by code_simp
  have net: "ip_network ''10.20.30.0/24'' = Some (Net4 0x0A141E00 24)" by code_simp
  have "in_network (V4 0x0A141E28) (Net4 0x0A141E00 24)" by code_simp
  then have one: "{b \<in> set (assets reg). covers_target b (Ip_target (V4 0x0A141E28))} = {fixable_asset}"
    by (auto simp: assms(1) fixable_asset_def audited_asset_def lab_asset_def covers_target_def net)
  have "authorizes fixable_asset ''remediation'' ''low'' now" using assms(2,3)
    by (simp add: authorizes_def fixable_asset_def audited_asset_def lab_asset_def max_disruption_def stored_def get_or_def
        disruption_levels_def disruption_rank_def)
  then have "sd_allowed (fst (evaluate_scope ''10.20.30.40'' ''remediation'' ''low'' True audited now reg))"
    unfolding scope_decision_iff [OF dist] using inside one
    by (auto simp: implemented_testing_classes_def disruption_levels_def)
  from evaluate_allowed [OF this] this show ?thesis by (simp add: assms(1))
qed

lemma sample_load: "load_finding 0 fixable_db = Inr (listing_finding, listing_run, fixable_asset)"
  by (simp add: load_finding_def fixable_db_def row_get_Cons listing_finding_def listing_run_def fixable_asset_def
      audited_asset_def lab_asset_def)

lemma sample_authorized_file:
  "authorized_file sample_remedy_env fixable_asset listing_run listing_finding web_files = Inr web_conf"
proof -
  have "authorized_config_root (split_on (CHR ''/'')) fixable_asset (Some ''etc/ssh'') = Inr [''etc'', ''ssh'']" by code_simp
  moreover have "file_of_finding listing_finding = ''web.conf''" "recorded_root listing_run = Some ''etc/ssh''" by code_simp+
  moreover have "se_resolve listing_env = split_on (CHR ''/'')" by (simp add: listing_env_def sample_security_env_def)
  ultimately show ?thesis
    by (simp add: authorized_file_def sample_remedy_env_def web_files_def web_conf_def)
qed

lemma sample_backup: "web_files (backup_path sample_remedy_env 0 web_conf) = None"
  by (simp add: web_files_def backup_path_def web_conf_def)

lemma sample_applied:
  "\<exists>cur new db1 fs1. remediate sample_remedy_env 0 ''apply'' 50 (fixable_db, web_files) = (Inr (Applied 1 cur new), db1, fs1) \<and>
     assets (sec_registry db1) = [fixable_asset] \<and> fs1 web_conf = Some (''autoindex off'' @ [CHR 0x0A] @ ''# kept'' @ [CHR 0x0A])"
proof -
  have lines: "text_lines (''autoindex on'' @ [CHR 0x0A] @ ''# kept'' @ [CHR 0x0A]) = [''autoindex on'' @ [CHR 0x0A], ''# kept'' @ [CHR 0x0A]]"
    by code_simp
  have patch: "\<exists>x. compute_patch listing_env listing_finding (''autoindex on'' @ [CHR 0x0A] @ ''# kept'' @ [CHR 0x0A]) = Inr (Some x) \<and>
      pt_index x = 0 \<and> pt_content x = ''autoindex off'' @ [CHR 0x0A] @ ''# kept'' @ [CHR 0x0A]"
    unfolding compute_patch_def lines using listing_patch
    by (simp add: max_file_bytes_def listing_check_def patched_line_def fixed_line_def line_content_def numeral_2_eq_2)
  have "apply_supported listing_finding" "fix_disruption listing_finding = ''low''" "am_target listing_run = ''10.20.30.40''"
    by code_simp+
  moreover have "assets (sec_registry fixable_db) = [fixable_asset]" by (simp add: fixable_db_def)
  ultimately show ?thesis
    using patch sample_load sample_authorized_file fix_decision [of "sec_registry fixable_db" 50 True]
    by (auto simp: remediate_def remedy_modes_def Let_def split_beta apply_fix_def put_finding_def sample_remedy_env_def web_files_def)
qed

lemma remediation_writes_within_authority_witness:
  "\<exists>res db1 fs1. remediate sample_remedy_env 0 ''apply'' 50 (fixable_db, web_files) = (res, db1, fs1) \<and>
     fs1 web_conf \<noteq> web_files web_conf \<and>
     (\<exists>p. web_conf \<in> {p, backup_path sample_remedy_env 0 p} \<and>
        (\<exists>base \<in> set (recorded_roots (se_resolve listing_env) fixable_asset). is_prefix base p))"
proof -
  obtain cur new db1 fs1 where run: "remediate sample_remedy_env 0 ''apply'' 50 (fixable_db, web_files) = (Inr (Applied 1 cur new), db1, fs1)"
    and changed: "fs1 web_conf = Some (''autoindex off'' @ [CHR 0x0A] @ ''# kept'' @ [CHR 0x0A])"
    using sample_applied by blast
  have "fs1 web_conf \<noteq> web_files web_conf" by (simp add: changed) (simp add: web_files_def)
  moreover from remediation_writes_within_authority [OF run this] have
    "\<exists>p. web_conf \<in> {p, backup_path sample_remedy_env 0 p} \<and>
        (\<exists>base \<in> set (recorded_roots (se_resolve listing_env) fixable_asset). is_prefix base p)"
    using sample_load by (auto simp: sample_remedy_env_def)
  ultimately show ?thesis using run by blast
qed

lemma only_applied_fixes_write_witness:
  "snd (snd (remediate sample_remedy_env 0 ''dry_run'' 50 (fixable_db, web_files))) = web_files"
proof -
  obtain res db' fs' where run: "remediate sample_remedy_env 0 ''dry_run'' 50 (fixable_db, web_files) = (res, db', fs')"
    by (cases "remediate sample_remedy_env 0 ''dry_run'' 50 (fixable_db, web_files)") auto
  show ?thesis using only_applied_fixes_write [OF run] run by (simp add: fixable_db_def)
qed

lemma applied_fix_can_be_taken_back_witness:
  "\<exists>cur new db1 fs1 db2. remediate sample_remedy_env 0 ''apply'' 50 (fixable_db, web_files) = (Inr (Applied 1 cur new), db1, fs1) \<and>
     fs1 web_conf = Some (''autoindex off'' @ [CHR 0x0A] @ ''# kept'' @ [CHR 0x0A]) \<and>
     remediate sample_remedy_env 0 ''revert'' 60 (db1, fs1(web_conf \<mapsto> ''edited'')) = (Inr Reverted, db2, web_files)"
proof -
  obtain cur new db1 fs1 where run: "remediate sample_remedy_env 0 ''apply'' 50 (fixable_db, web_files) = (Inr (Applied 1 cur new), db1, fs1)"
    and changed: "fs1 web_conf = Some (''autoindex off'' @ [CHR 0x0A] @ ''# kept'' @ [CHR 0x0A])"
    and reg: "assets (sec_registry db1) = [fixable_asset]"
    using sample_applied by blast
  have "fix_disruption listing_finding = ''low''" "am_target listing_run = ''10.20.30.40''" by code_simp+
  then have "sd_allowed (fst (evaluate_scope (am_target listing_run) ''remediation'' (fix_disruption listing_finding) True True 60 (sec_registry db1)))"
    using fix_decision [OF reg, of 60 True] by simp
  from applied_fix_can_be_taken_back [OF run sample_load sample_authorized_file sample_backup this] show ?thesis
    using run changed by blast
qed

end
