(* ===== verification/Step_Up.thy ===== *)
theory Step_Up imports Broker_Commands Complex_Main begin

text \<open>
  What a voice may do (\<open>app/security/step_up.py\<close>, \<open>app/voice/speaker.py\<close>, \<open>app/voice/device_trust.py\<close>) and the gate of
  permanent deletions (\<open>app/security/deletion.py\<close>) with the retention of the audit (\<open>audit_retention.py\<close>).
  A score is a rational number (every float is one) and is given: the similarity of two embeddings is an argument.  The
  properties: a sensitive tool runs on a voice only after the owner was recognized, recently, on a device that was
  trusted then and is trusted now; a deletion for good needs a fresh confirmation of that very thing, not by voice.
\<close>

section \<open>The speaker verdict\<close>

datatype speaker_decision = Is_owner | Not_owner | Uncertain

record thresholds =
  owner_accept :: rat
  not_owner_max :: rat
  untrusted_penalty :: rat

definition default_thresholds :: thresholds where
  "default_thresholds = \<lparr>owner_accept = 75/100, not_owner_max = 45/100, untrusted_penalty = 10/100\<rparr>"

definition thresholds_ok :: "thresholds \<Rightarrow> bool" where
  "thresholds_ok th = (0 \<le> not_owner_max th \<and> not_owner_max th < owner_accept th \<and> owner_accept th \<le> 1)"

record speaker_verdict =
  vd_decision :: speaker_decision
  vd_score :: rat
  vd_trusted :: bool
  vd_accept :: rat

definition verify_speaker :: "thresholds \<Rightarrow> rat \<Rightarrow> bool \<Rightarrow> speaker_verdict" where
  "verify_speaker th score trusted =
     (let accept = owner_accept th + (if trusted then 0 else untrusted_penalty th);
          verdict = (\<lambda>d. \<lparr>vd_decision = d, vd_score = score, vd_trusted = trusted, vd_accept = accept\<rparr>)
      in if score \<le> not_owner_max th then verdict Not_owner
         else if score \<ge> accept then (if \<not> trusted then verdict Uncertain else verdict Is_owner)
         else verdict Uncertain)"

text \<open>Trust is derived: the session is bound to a device that is enrolled and not revoked.\<close>

definition device_is_trusted :: "broker_db \<Rightarrow> nat option \<Rightarrow> bool" where
  "device_is_trusted db bound =
     (case bound of
        None \<Rightarrow> False
      | Some i \<Rightarrow> (case get_device db i of None \<Rightarrow> False | Some d \<Rightarrow> \<not> d_revoked d))"

section \<open>The policy\<close>

datatype tier = Open | Sensitive | Critical

definition tiers :: "(string \<times> tier) list" where
  "tiers = [
     (''eye.enable'', Critical), (''mail.send'', Critical), (''operator.shell'', Critical),
     (''release.promote'', Critical), (''release.rollback'', Critical), (''capability.approve'', Critical),
     (''evolution.control'', Critical), (''alarm.cancel'', Sensitive), (''alarm.create'', Sensitive),
     (''alarm.snooze'', Sensitive), (''alarm.stop'', Sensitive), (''ambient.set_policy'', Sensitive),
     (''ambient.test_display'', Sensitive), (''app.create'', Sensitive), (''app.open'', Sensitive),
     (''app.run'', Sensitive), (''app.stop'', Sensitive), (''app.test'', Sensitive), (''app.fix'', Sensitive),
     (''app.verify'', Sensitive), (''app.log'', Open), (''app.package'', Sensitive), (''app.launch'', Sensitive),
     (''app.history'', Open), (''app.resume'', Open), (''app.modify'', Sensitive), (''artifact.create'', Sensitive),
     (''artifact.open'', Sensitive), (''artifact.render'', Sensitive), (''calendar.commit'', Sensitive),
     (''calendar.discard'', Sensitive), (''calendar.cancel'', Sensitive), (''capability.cancel'', Sensitive),
     (''capability.propose'', Sensitive), (''capability.request'', Sensitive), (''creative.adjust'', Sensitive),
     (''creative.background'', Sensitive), (''creative.cleanup'', Sensitive), (''creative.design'', Sensitive),
     (''creative.export'', Sensitive), (''creative.open'', Sensitive), (''creative.redraw'', Sensitive),
     (''creative.generate'', Sensitive), (''creative.enhance'', Sensitive), (''creative.undo'', Sensitive),
     (''creative.redo'', Sensitive), (''creative.deliver'', Sensitive), (''creative.drive'', Sensitive),
     (''display.off'', Sensitive), (''display.wake'', Sensitive), (''document.answer'', Sensitive),
     (''document.common_points'', Sensitive), (''document.compare'', Sensitive), (''document.inspect'', Sensitive),
     (''document.previous'', Sensitive), (''document.read'', Sensitive), (''document.preview'', Sensitive),
     (''document.find_text'', Sensitive), (''document.duplicates'', Sensitive), (''document.dedup'', Critical),
     (''document.summarize'', Sensitive), (''document.write'', Critical), (''document.append'', Critical),
     (''document.edit'', Sensitive), (''document.rename'', Sensitive), (''document.move'', Sensitive),
     (''document.copy'', Sensitive), (''document.delete'', Sensitive), (''document.apply'', Critical),
     (''document.discard'', Sensitive), (''document.undo'', Critical), (''document.versions'', Sensitive),
     (''executive.amend'', Sensitive), (''executive.cancel'', Sensitive), (''executive.pause'', Sensitive),
     (''executive.resume'', Sensitive), (''executive.retry'', Sensitive), (''executive.start'', Sensitive),
     (''eye.disable'', Sensitive), (''file.search'', Sensitive), (''location.set_default'', Sensitive),
     (''mail.discard'', Sensitive), (''mail.draft'', Sensitive), (''mail.edit_draft'', Sensitive),
     (''mail.inbox'', Sensitive), (''mail.read'', Sensitive), (''mail.read_draft'', Sensitive),
     (''mail.search'', Sensitive), (''mail.thread'', Sensitive), (''mail.attachments'', Sensitive),
     (''mail.save_attachment'', Sensitive), (''memory.correct'', Sensitive), (''memory.forget'', Sensitive),
     (''memory.pin'', Sensitive), (''memory.remember'', Sensitive), (''pronunciation.forget'', Sensitive),
     (''pronunciation.teach'', Sensitive), (''narration.start'', Sensitive), (''media.play'', Sensitive),
     (''media.stop'', Sensitive), (''media.volume'', Sensitive), (''native.build'', Sensitive),
     (''native.create'', Sensitive), (''native.fix'', Sensitive), (''native.install'', Sensitive),
     (''native.launch'', Sensitive), (''native.package'', Sensitive), (''native.rebuild'', Sensitive),
     (''native.verify'', Sensitive), (''native.log'', Sensitive), (''native.update'', Sensitive),
     (''native.uninstall'', Critical), (''selfdev.defect'', Sensitive), (''selfdev.feature'', Sensitive),
     (''selfdev.status'', Open), (''news.close'', Sensitive), (''news.open'', Sensitive),
     (''operator.app_open'', Sensitive), (''operator.cancel'', Sensitive), (''operator.type'', Sensitive),
     (''operator.window_control'', Sensitive), (''operator.screenshot'', Sensitive), (''operator.key'', Sensitive),
     (''operator.pointer'', Sensitive), (''operator.ui'', Sensitive), (''operator.inspect'', Sensitive),
     (''operator.see'', Sensitive), (''operator.app_close'', Sensitive), (''operator.process'', Sensitive),
     (''operator.service'', Critical), (''operator.mission'', Sensitive), (''research.start'', Sensitive),
     (''research.cancel'', Sensitive), (''research.pause'', Sensitive), (''research.resume'', Sensitive),
     (''research.verify'', Sensitive), (''household.level'', Sensitive), (''household.list_add'', Sensitive),
     (''household.list_remove'', Sensitive), (''money.balance'', Sensitive), (''money.spent'', Sensitive),
     (''money.spend_yes'', Sensitive), (''money.spend_no'', Sensitive), (''money.undo'', Sensitive),
     (''money.cash'', Sensitive), (''routine.cancel'', Sensitive), (''routine.create'', Sensitive),
     (''routine.pause'', Sensitive), (''routine.resume'', Sensitive), (''macro.record_start'', Sensitive),
     (''macro.record_end'', Sensitive), (''macro.name'', Sensitive), (''macro.cancel'', Sensitive),
     (''macro.run'', Sensitive), (''macro.delete'', Sensitive), (''watch.create'', Sensitive),
     (''watch.remove'', Sensitive), (''watch.forget_all'', Sensitive), (''godseye.open'', Sensitive),
     (''scene.add'', Sensitive), (''scene.camera'', Sensitive), (''scene.create'', Sensitive),
     (''scene.light'', Sensitive), (''scene.material'', Sensitive), (''scene.render'', Sensitive),
     (''scene.animate'', Sensitive), (''scene.export'', Sensitive), (''scene.transform'', Sensitive),
     (''activity.explain'', Open), (''assistant.capabilities'', Open), (''assistant.chat'', Open),
     (''alarm.status'', Open), (''ambient.explain'', Open), (''app.list'', Open), (''app.status'', Open),
     (''artifact.list'', Open), (''artifact.validate'', Open), (''artifact.edit'', Sensitive),
     (''artifact.clone'', Sensitive), (''artifact.delete'', Critical), (''artifact.compare'', Open),
     (''briefing.morning'', Open), (''memory.search'', Open), (''memory.why'', Open), (''pronunciation.list'', Open),
     (''briefing.overnight_work'', Open), (''team.status'', Open), (''briefing.system_status'', Open),
     (''calendar.agenda'', Open), (''calendar.find_slot'', Open), (''calendar.propose'', Open),
     (''calendar.read_proposal'', Open), (''capability.status'', Open), (''clock.now'', Open),
     (''display.status'', Open), (''evolution.status'', Open), (''executive.explain'', Open),
     (''executive.status'', Open), (''location.get_default'', Open), (''narration.control'', Open),
     (''native.check'', Open), (''news.query_latest'', Open), (''news.summarize'', Open),
     (''operator.status'', Open), (''plan.redirect'', Open), (''research.explain'', Open), (''research.open'', Open),
     (''research.answer_mode'', Open), (''routine.list'', Open), (''household.list_read'', Open),
     (''macro.list'', Open), (''watch.list'', Open), (''research.finding_detail'', Open),
     (''research.sources'', Open), (''research.verify_recall'', Open), (''scene.inspect'', Open),
     (''state.now'', Open), (''voice.intent'', Open), (''weather.current'', Open), (''weather.last_evidence'', Open)]"

definition tier_of :: "string \<Rightarrow> tier" where
  "tier_of tool = (case map_of tiers tool of None \<Rightarrow> Sensitive | Some t \<Rightarrow> t)"

definition fresh_for_sensitive :: instant where "fresh_for_sensitive = seconds (15 * 60)"
definition fresh_for_critical :: instant where "fresh_for_critical = seconds (3 * 60)"
definition critical_min_score :: rat where "critical_min_score = 88/100"

definition fresh_for :: "tier \<Rightarrow> instant" where
  "fresh_for t = (if t = Critical then fresh_for_critical else fresh_for_sensitive)"

datatype step_up_reason = No_verdict | Stale_verdict | Speaker_not_owner | Untrusted_device | Score_below_critical

datatype step_up_mode = Shadow | Enforce

text \<open>An unknown mode counts as shadow.\<close>

definition step_up_mode_of :: "string \<Rightarrow> step_up_mode" where
  "step_up_mode_of s = (if s = ''enforce'' then Enforce else Shadow)"

record step_up_decision =
  su_allowed :: bool
  su_would_refuse :: bool
  su_tier :: tier
  su_reason :: "step_up_reason option"
  su_tool :: string
  su_mode :: step_up_mode

record verdict_row =
  vr_session :: nat
  vr_decision :: speaker_decision
  vr_score :: rat
  vr_trusted :: bool
  vr_accept :: rat
  vr_at :: instant

text \<open>One row per owner session, replaced.\<close>

definition record_verdict :: "nat \<Rightarrow> speaker_verdict \<Rightarrow> instant \<Rightarrow> verdict_row list \<Rightarrow> verdict_row list" where
  "record_verdict session v now rows =
     (let row = \<lparr>vr_session = session, vr_decision = vd_decision v, vr_score = vd_score v, vr_trusted = vd_trusted v,
                 vr_accept = vd_accept v, vr_at = now\<rparr>
      in if row_get vr_session session rows = None then rows @ [row]
         else row_put vr_session session (\<lambda>_. row) rows)"

definition step_up_refuse :: "string \<Rightarrow> tier \<Rightarrow> step_up_reason \<Rightarrow> step_up_mode \<Rightarrow> step_up_decision" where
  "step_up_refuse tool t reason mode =
     \<lparr>su_allowed = (mode \<noteq> Enforce), su_would_refuse = True, su_tier = t, su_reason = Some reason, su_tool = tool, su_mode = mode\<rparr>"

definition step_up_allow :: "string \<Rightarrow> tier \<Rightarrow> step_up_mode \<Rightarrow> step_up_decision" where
  "step_up_allow tool t mode =
     \<lparr>su_allowed = True, su_would_refuse = False, su_tier = t, su_reason = None, su_tool = tool, su_mode = mode\<rparr>"

definition evaluate_step_up ::
    "verdict_row list \<Rightarrow> string \<Rightarrow> nat \<Rightarrow> bool \<Rightarrow> instant \<Rightarrow> step_up_mode \<Rightarrow> step_up_decision" where
  "evaluate_step_up rows tool session trusted now mode =
     (let t = tier_of tool; refuse = (\<lambda>r. step_up_refuse tool t r mode) in
      if t = Open then step_up_allow tool t mode
      else if \<not> trusted then refuse Untrusted_device
      else (case row_get vr_session session rows of
              None \<Rightarrow> refuse No_verdict
            | Some row \<Rightarrow>
                if now - vr_at row > fresh_for t then refuse Stale_verdict
                else if vr_decision row \<noteq> Is_owner then refuse Speaker_not_owner
                else if \<not> vr_trusted row then refuse No_verdict
                else if t = Critical \<and> vr_score row < critical_min_score then refuse Score_below_critical
                else step_up_allow tool t mode))"

text \<open>The route that verifies a speaker: the trust of that moment goes into the verdict.\<close>

definition verify_route :: "thresholds \<Rightarrow> broker_db \<Rightarrow> nat \<Rightarrow> nat option \<Rightarrow> rat \<Rightarrow> instant \<Rightarrow> verdict_row list \<Rightarrow> verdict_row list" where
  "verify_route th db session bound score now rows =
     record_verdict session (verify_speaker th score (device_is_trusted db bound)) now rows"

section \<open>Permanent deletion\<close>

datatype deletion_reason = No_confirmation | Wrong_subject | Confirmation_expired | Voice_channel | Unknown_channel

record deletion_confirmation =
  dc_kind :: string
  dc_id :: string
  dc_channel :: string
  dc_at :: instant

record deletion_decision =
  dd_allowed :: bool
  dd_permanent :: bool
  dd_reason :: "deletion_reason option"
  dd_kind :: string
  dd_id :: string

definition confirming_channels :: "string list" where
  "confirming_channels = [''web'', ''mobile'', ''desktop'', ''cli'']"

definition non_confirming_channels :: "string list" where "non_confirming_channels = [''voice'', ''device'']"

definition confirmation_ttl :: instant where "confirmation_ttl = seconds (5 * 60)"

definition evaluate_soft_delete :: "string \<Rightarrow> string \<Rightarrow> deletion_decision" where
  "evaluate_soft_delete kind i = \<lparr>dd_allowed = True, dd_permanent = False, dd_reason = None, dd_kind = kind, dd_id = i\<rparr>"

definition evaluate_permanent_delete ::
    "string \<Rightarrow> string \<Rightarrow> deletion_confirmation option \<Rightarrow> instant \<Rightarrow> deletion_decision" where
  "evaluate_permanent_delete kind i confirmation now =
     (let decide = (\<lambda>r. \<lparr>dd_allowed = (r = None), dd_permanent = True, dd_reason = r, dd_kind = kind, dd_id = i\<rparr>) in
      case confirmation of
        None \<Rightarrow> decide (Some No_confirmation)
      | Some c \<Rightarrow>
          if dc_channel c \<in> set non_confirming_channels then decide (Some Voice_channel)
          else if dc_channel c \<notin> set confirming_channels then decide (Some Unknown_channel)
          else if (dc_kind c, dc_id c) \<noteq> (kind, i) then decide (Some Wrong_subject)
          else if now - dc_at c > confirmation_ttl then decide (Some Confirmation_expired)
          else decide None)"

definition require_permanent_delete ::
    "string \<Rightarrow> string \<Rightarrow> deletion_confirmation option \<Rightarrow> instant \<Rightarrow> deletion_reason option + deletion_decision" where
  "require_permanent_delete kind i confirmation now =
     (let d = evaluate_permanent_delete kind i confirmation now in if \<not> dd_allowed d then Inl (dd_reason d) else Inr d)"

section \<open>Retention of the audit\<close>

text \<open>The tables of audit rows by name, a row being its time; \<open>broken\<close> says on which tables the database fails.\<close>

definition retention :: "(string \<times> instant) list" where
  "retention = [(''audit_events'', seconds (180 * 24 * 3600)), (''session_events'', seconds (365 * 24 * 3600))]"

definition never_swept :: "string list" where "never_swept = [''activity_events'']"

definition sweep_table :: "instant \<Rightarrow> bool \<Rightarrow> (string \<Rightarrow> bool) \<Rightarrow> (string \<Rightarrow> instant list) \<times> (string \<times> nat) list \<Rightarrow>
    string \<times> instant \<Rightarrow> (string \<Rightarrow> instant list) \<times> (string \<times> nat) list" where
  "sweep_table now dry broken s entry =
     (let (rows, counted) = s; (table, keep_for) = entry;
          old = filter (\<lambda>r. r < now - keep_for) (rows table)
      in if broken table then (rows, counted @ [(table, 0)])
         else (if old \<noteq> [] \<and> \<not> dry then rows(table := filter (\<lambda>r. \<not> r < now - keep_for) (rows table)) else rows,
               counted @ [(table, length old)]))"

definition sweep_audit_retention ::
    "instant \<Rightarrow> bool \<Rightarrow> (string \<Rightarrow> bool) \<Rightarrow> (string \<Rightarrow> instant list) \<Rightarrow> (string \<Rightarrow> instant list) \<times> (string \<times> nat) list" where
  "sweep_audit_retention now dry broken rows = foldl (sweep_table now dry broken) (rows, []) retention"

section \<open>The decision\<close>

lemma step_up_mode_allowed:
  "su_allowed (evaluate_step_up rows tool s trusted now mode) \<longleftrightarrow>
     mode = Shadow \<or> \<not> su_would_refuse (evaluate_step_up rows tool s trusted now mode)"
  by (cases mode) (auto simp: evaluate_step_up_def Let_def step_up_refuse_def step_up_allow_def split: option.split)

lemma step_up_would_refuse:
  "\<not> su_would_refuse (evaluate_step_up rows tool s trusted now mode) \<longleftrightarrow>
     tier_of tool = Open \<or>
     trusted \<and> (\<exists>row. row_get vr_session s rows = Some row \<and> vr_decision row = Is_owner \<and> vr_trusted row \<and>
       now - vr_at row \<le> fresh_for (tier_of tool) \<and> (tier_of tool = Critical \<longrightarrow> critical_min_score \<le> vr_score row))"
  by (auto simp: evaluate_step_up_def Let_def step_up_refuse_def step_up_allow_def split: option.split)

lemma fresh_for_seconds: "fresh_for t = seconds (if t = Critical then 180 else 900)"
  by (simp add: fresh_for_def fresh_for_critical_def fresh_for_sensitive_def)

text \<open>
  The step-up policy is exactly its rule.  A call would be refused unless the tool is an open one, or the
  session speaks from a trusted device and the last verdict of that session says owner, was itself reached on a
  trusted device, is at most fifteen minutes old (three for a critical tool), and for a critical tool has a score of at
  least 0.88.  In enforce mode exactly the calls that would be refused are refused; in shadow mode none is, and the
  conclusion is recorded.
\<close>

theorem step_up_exact:
  "(\<not> su_would_refuse (evaluate_step_up rows tool s trusted now mode)) =
     (tier_of tool = Open \<or>
      trusted \<and> (\<exists>row. row_get vr_session s rows = Some row \<and> vr_decision row = Is_owner \<and> vr_trusted row \<and>
        now - vr_at row \<le> seconds (if tier_of tool = Critical then 180 else 900) \<and>
        (tier_of tool \<noteq> Critical \<or> 88/100 \<le> vr_score row))) \<and>
   su_allowed (evaluate_step_up rows tool s trusted now mode) =
     (mode = Shadow \<or> \<not> su_would_refuse (evaluate_step_up rows tool s trusted now mode))"
  unfolding step_up_mode_allowed step_up_would_refuse fresh_for_seconds critical_min_score_def by blast

lemma step_up_exact_witness:
  "\<not> su_would_refuse (evaluate_step_up [] ''clock.now'' 1 False 0 Enforce) \<and>
   \<not> su_allowed (evaluate_step_up [] ''mail.send'' 1 True 0 Enforce)"
proof -
  have "tier_of ''clock.now'' = Open" "tier_of ''mail.send'' = Critical" by code_simp+
  then show ?thesis using step_up_exact [of "[]" "''clock.now''" 1 False 0 Enforce] step_up_exact [of "[]" "''mail.send''" 1 True 0 Enforce]
    by simp
qed

section \<open>Histories of verdicts\<close>

text \<open>A probe: the device table of that moment, the session and the device it is bound to, the score, the time.\<close>

record probe =
  pb_devices :: broker_db
  pb_session :: nat
  pb_bound :: "nat option"
  pb_score :: rat
  pb_at :: instant

definition probe_row :: "thresholds \<Rightarrow> probe \<Rightarrow> verdict_row" where
  "probe_row th p =
     (let v = verify_speaker th (pb_score p) (device_is_trusted (pb_devices p) (pb_bound p)) in
      \<lparr>vr_session = pb_session p, vr_decision = vd_decision v, vr_score = vd_score v, vr_trusted = vd_trusted v,
       vr_accept = vd_accept v, vr_at = pb_at p\<rparr>)"

definition verify_all :: "thresholds \<Rightarrow> probe list \<Rightarrow> verdict_row list" where
  "verify_all th ps =
     foldl (\<lambda>rows p. verify_route th (pb_devices p) (pb_session p) (pb_bound p) (pb_score p) (pb_at p) rows) [] ps"

lemma verify_route_row:
  "row_get vr_session s (verify_route th (pb_devices p) (pb_session p) (pb_bound p) (pb_score p) (pb_at p) rows) =
     (if s = pb_session p then Some (probe_row th p) else row_get vr_session s rows)"
  by (auto simp: verify_route_def record_verdict_def probe_row_def Let_def row_get_put row_get_append row_get_Cons
      split: option.split)

lemma verify_all_row:
  "row_get vr_session s (verify_all th ps) = map_option (probe_row th) (List.find (\<lambda>p. pb_session p = s) (rev ps))"
  by (induction ps rule: rev_induct) (simp_all add: verify_all_def verify_route_row)

lemma find_rev_split:
  "List.find P (rev xs) = Some x \<Longrightarrow> \<exists>before after. xs = before @ x # after \<and> P x \<and> (\<forall>y \<in> set after. \<not> P y)"
proof (induction xs rule: rev_induct)
  case (snoc y ys)
  show ?case
  proof (cases "P y")
    case True
    then show ?thesis using snoc.prems by (intro exI [of _ ys] exI [of _ "[]"]) simp
  next
    case False
    then obtain before after where "ys = before @ x # after" "P x" "\<forall>z \<in> set after. \<not> P z"
      using snoc by auto
    then show ?thesis using False by (intro exI [of _ before] exI [of _ "after @ [y]"]) auto
  qed
qed simp

lemma owner_verdict:
  "vd_decision (verify_speaker th score trusted) = Is_owner \<longleftrightarrow> trusted \<and> not_owner_max th < score \<and> owner_accept th \<le> score"
  by (auto simp: verify_speaker_def Let_def)

text \<open>
  C11. A voice alone is never enough.  Take any history of speaker verifications, each with the device table of its
  moment.  When enforcement allows a session a sensitive or critical tool, that session is bound to a device that is enrolled and not revoked now, and
  its latest verification, and no other, found the owner: on a device that was trusted at that time too, with a
  score of at least the accept threshold, and 0.88 for a critical tool, not more than fifteen (three) minutes ago.
\<close>

theorem voice_alone_is_never_enough:
  assumes "su_allowed (evaluate_step_up (verify_all th ps) tool s (device_is_trusted db bound) now Enforce)"
    and "tier_of tool \<noteq> Open"
  shows "device_is_trusted db bound \<and>
    (\<exists>before p after. ps = before @ p # after \<and> pb_session p = s \<and> (\<forall>q \<in> set after. pb_session q \<noteq> s) \<and>
       device_is_trusted (pb_devices p) (pb_bound p) \<and> owner_accept th \<le> pb_score p \<and> not_owner_max th < pb_score p \<and>
       now - pb_at p \<le> seconds (if tier_of tool = Critical then 180 else 900) \<and>
       (tier_of tool = Critical \<longrightarrow> 88/100 \<le> pb_score p))"
proof -
  obtain row where trusted: "device_is_trusted db bound" and row: "row_get vr_session s (verify_all th ps) = Some row"
      "vr_decision row = Is_owner" "vr_trusted row" "now - vr_at row \<le> seconds (if tier_of tool = Critical then 180 else 900)"
      "tier_of tool = Critical \<longrightarrow> 88/100 \<le> vr_score row"
    using assms unfolding step_up_mode_allowed step_up_would_refuse fresh_for_seconds critical_min_score_def by auto
  obtain p where p: "List.find (\<lambda>p. pb_session p = s) (rev ps) = Some p" "row = probe_row th p"
    using row(1) unfolding verify_all_row by auto
  have "vr_score row = pb_score p" "vr_at row = pb_at p"
    "vr_decision row = vd_decision (verify_speaker th (pb_score p) (device_is_trusted (pb_devices p) (pb_bound p)))"
    by (simp_all add: p(2) probe_row_def Let_def verify_speaker_def)
  then have "vd_decision (verify_speaker th (pb_score p) (device_is_trusted (pb_devices p) (pb_bound p))) = Is_owner"
    and score: "vr_score row = pb_score p" "vr_at row = pb_at p" using row(2) by metis+
  from this(1) have facts: "device_is_trusted (pb_devices p) (pb_bound p)" "not_owner_max th < pb_score p" "owner_accept th \<le> pb_score p"
    unfolding owner_verdict by blast+
  have late: "now - pb_at p \<le> seconds (if tier_of tool = Critical then 180 else 900)" "tier_of tool = Critical \<longrightarrow> 88/100 \<le> pb_score p"
    using row(4,5) unfolding score .
  obtain before after where "ps = before @ p # after" "pb_session p = s" "\<forall>q \<in> set after. pb_session q \<noteq> s"
    using find_rev_split [OF p(1)] by blast
  then have "\<exists>before p after. ps = before @ p # after \<and> pb_session p = s \<and> (\<forall>q \<in> set after. pb_session q \<noteq> s) \<and>
      device_is_trusted (pb_devices p) (pb_bound p) \<and> owner_accept th \<le> pb_score p \<and> not_owner_max th < pb_score p \<and>
      now - pb_at p \<le> seconds (if tier_of tool = Critical then 180 else 900) \<and> (tier_of tool = Critical \<longrightarrow> 88/100 \<le> pb_score p)"
    using facts late by (intro exI [of _ before] exI [of _ p] exI [of _ after] conjI)
  with trusted show ?thesis by (rule conjI)
qed

definition owner_device :: device where
  "owner_device = \<lparr>d_id = 4, d_name = ''laptop'', d_platform = ''windows'', d_public_key = ''k'', d_capabilities = [],
     d_enrolled_at = 0, d_last_seen_at = None, d_revoked = False, d_revoked_at = None, d_metadata = [],
     d_software_version = None, d_build_id = None, d_source_revision = None\<rparr>"

definition owner_home :: broker_db where "owner_home = empty_broker\<lparr>devices := [owner_device]\<rparr>"

definition owner_probe :: probe where
  "owner_probe = \<lparr>pb_devices = owner_home, pb_session = 1, pb_bound = Some 4, pb_score = 9/10, pb_at = 0\<rparr>"

lemma voice_alone_is_never_enough_witness:
  "su_allowed (evaluate_step_up (verify_all default_thresholds [owner_probe]) ''mail.send'' 1 (device_is_trusted owner_home (Some 4)) (seconds 100) Enforce) \<and>
   device_is_trusted owner_home (Some 4)"
proof -
  have trusted: "device_is_trusted owner_home (Some 4)"
    by (simp add: device_is_trusted_def owner_home_def owner_device_def get_device_def row_get_Cons)
  have tier: "tier_of ''mail.send'' = Critical" by code_simp
  have allowed: "su_allowed (evaluate_step_up (verify_all default_thresholds [owner_probe]) ''mail.send'' 1 (device_is_trusted owner_home (Some 4)) (seconds 100) Enforce)"
    using trusted
    by (simp add: step_up_mode_allowed step_up_would_refuse verify_all_row tier probe_row_def Let_def owner_verdict
        owner_probe_def default_thresholds_def fresh_for_seconds critical_min_score_def) (simp add: verify_speaker_def)
  show ?thesis using voice_alone_is_never_enough [OF allowed] allowed by (simp add: tier)
qed

section \<open>Deletions\<close>

text \<open>
  Nothing is deleted for good by voice.  A permanent deletion is allowed exactly when there is a confirmation
  from a channel where the owner clicked or typed (web, mobile, desktop, the command line), for that very subject,
  not more than five minutes old; then and only then the requiring form does not raise.
\<close>

theorem permanent_delete_exact:
  "isOk (require_permanent_delete kind i confirmation now) =
     (\<exists>c. confirmation = Some c \<and> dc_channel c \<in> {''web'', ''mobile'', ''desktop'', ''cli''} \<and>
        dc_kind c = kind \<and> dc_id c = i \<and> now - dc_at c \<le> seconds 300)"
  by (auto simp: require_permanent_delete_def evaluate_permanent_delete_def Let_def confirming_channels_def
      non_confirming_channels_def confirmation_ttl_def split: option.split)

section \<open>The audit keeps what it must\<close>

text \<open>
  The retention sweep deletes only what is past its time.  Of every table the rows that remain are the
  rows within its retention, when the sweep is real and the table is not broken, and all rows otherwise; every table without a
  retention, the activity ledger among them, keeps every row; and the reported number of a table is the number of
  its rows past retention.
\<close>

theorem sweep_deletes_only_expired_rows:
  assumes "sweep_audit_retention now dry broken rows = (rows', counted)"
  shows "rows' table = (case map_of retention table of
       None \<Rightarrow> rows table
     | Some keep \<Rightarrow> if dry \<or> broken table then rows table else filter (\<lambda>r. now - keep \<le> r) (rows table)) \<and>
    (\<forall>t n. (t, n) \<in> set counted \<longrightarrow>
       (\<exists>keep. map_of retention t = Some keep \<and> n = (if broken t then 0 else length (filter (\<lambda>r. r < now - keep) (rows t)))))"
proof -
  have none: "filter (\<lambda>r. r < b) xs = [] \<Longrightarrow> filter (\<lambda>r. b \<le> r) xs = xs" for b :: int and xs
    by (simp add: filter_empty_conv filter_id_conv not_less)
  have step: "sweep_table now dry broken (r, c) (t, k) =
      ((\<lambda>u. if u = t \<and> \<not> broken t \<and> \<not> dry then filter (\<lambda>x. now - k \<le> x) (r u) else r u),
       c @ [(t, if broken t then 0 else length (filter (\<lambda>x. x < now - k) (r t)))])" for r c t k
    using none by (auto simp: sweep_table_def Let_def not_less fun_eq_iff)
  define a :: string where "a = ''audit_events''"
  define b :: string where "b = ''session_events''"
  define k :: instant where "k = seconds (180 * 24 * 3600)"
  define l :: instant where "l = seconds (365 * 24 * 3600)"
  have ab: "a \<noteq> b" by (simp add: a_def b_def)
  have ret: "retention = [(a, k), (b, l)]" by (simp add: retention_def a_def b_def k_def l_def)
  have "sweep_audit_retention now dry broken rows =
      ((\<lambda>u. if u = b \<and> \<not> broken b \<and> \<not> dry then filter (\<lambda>x. now - l \<le> x) (rows u)
        else if u = a \<and> \<not> broken a \<and> \<not> dry then filter (\<lambda>x. now - k \<le> x) (rows u) else rows u),
       [(a, if broken a then 0 else length (filter (\<lambda>x. x < now - k) (rows a))),
        (b, if broken b then 0 else length (filter (\<lambda>x. x < now - l) (rows b)))])"
    using ab by (auto simp: sweep_audit_retention_def ret step)
  with assms have swept: "rows' = (\<lambda>u. if u = b \<and> \<not> broken b \<and> \<not> dry then filter (\<lambda>x. now - l \<le> x) (rows u)
        else if u = a \<and> \<not> broken a \<and> \<not> dry then filter (\<lambda>x. now - k \<le> x) (rows u) else rows u)"
    "counted = [(a, if broken a then 0 else length (filter (\<lambda>x. x < now - k) (rows a))),
        (b, if broken b then 0 else length (filter (\<lambda>x. x < now - l) (rows b)))]" by simp_all
  show ?thesis unfolding swept ret using ab by auto
qed

lemma sweep_deletes_only_expired_rows_witness:
  "fst (sweep_audit_retention (seconds (400 * 24 * 3600)) False (\<lambda>_. False) (\<lambda>_. [0])) ''activity_events'' = [0]"
proof -
  obtain rows' counted where sweep: "sweep_audit_retention (seconds (400 * 24 * 3600)) False (\<lambda>_. False) (\<lambda>_. [0]) = (rows', counted)"
    by (cases "sweep_audit_retention (seconds (400 * 24 * 3600)) False (\<lambda>_. False) (\<lambda>_. [0])") auto
  have "rows' ''activity_events'' = [0]"
    using sweep_deletes_only_expired_rows [OF sweep, of "''activity_events''"] by (simp add: retention_def)
  then show ?thesis unfolding sweep by simp
qed

section \<open>What the code allows\<close>

text \<open>The module says a confirmation is used once.  Nothing uses it up: within its five minutes the same
  confirmation authorizes the deletion again.\<close>

lemma confirmation_authorizes_again:
  "isOk (require_permanent_delete kind i (Some c) now) \<Longrightarrow> dc_at c \<le> later \<Longrightarrow> later - dc_at c \<le> seconds 300 \<Longrightarrow>
     isOk (require_permanent_delete kind i (Some c) later)"
  by (auto simp: require_permanent_delete_def evaluate_permanent_delete_def Let_def confirmation_ttl_def split: if_splits)

end
