(* ===== verification/Voice_Macros.thy ===== *)
theory Voice_Macros imports Step_Up Py_Strings Redaction "HOL-Library.List_Lexorder" "HOL-Library.Char_ord" begin

text \<open>
  Voice macros (\<open>app/macros/naming.py\<close>, \<open>app/macros/service.py\<close>, \<open>app/voice/realtime_sessions/tools_macros.py\<close>): how a name
  is kept and recognized, the recording on the session, the rows, and the replay through the tools' own handlers.
  Words are ASCII (the tables hold the folded spellings).  The tools' handlers, the tables of tool names behind the status
  a result earns and the test for words that name a secret are arguments.  The properties: a macro holds
  exactly the calls that were made, never a control word's name; a replay meets the step-up gate at every step, goes in order and
  stops at the first step that failed.
\<close>

section \<open>Names\<close>

definition max_name_tokens :: nat where "max_name_tokens = 8"
definition max_name_chars :: nat where "max_name_chars = 80"

definition name_frame_words :: "string list" where
  "name_frame_words = [''adi'', ''ismi'', ''isim'', ''ad'', ''olsun'', ''olarak'', ''kaydet'', ''diye'', ''hareketi'', ''hareket'',
     ''hareketini'', ''bu'', ''su'', ''o'', ''efendim'', ''lutfen'', ''koy'', ''ver'', ''de'', ''da'']"

definition run_filler_words :: "string list" where
  "run_filler_words = [''ac'', ''yap'', ''calistir'', ''baslat'', ''oynat'', ''tekrarla'', ''uygula'', ''yurut'', ''et'', ''lutfen'',
     ''hareketini'', ''hareketi'', ''hareket'', ''bir'', ''daha'', ''simdi'', ''hadi'', ''efendim'', ''hemen'', ''yine'', ''tekrar'']"

definition last_word_suffixes :: "string list" where
  "last_word_suffixes = [''ni'', ''nu'', ''yi'', ''yu'', ''ne'', ''na'', ''ye'', ''ya'', ''de'', ''da'', ''den'', ''dan'', ''nde'', ''nda'',
     ''nden'', ''ndan'', ''i'', ''u'', ''e'', ''a'']"

definition reserved_name_keys :: "string list" where
  "reserved_name_keys = [''dur'', ''kes'', ''sus'', ''yeter'', ''tamam dur'', ''sustur'', ''durdur'', ''tamam'', ''devam'', ''iptal'',
     ''vazgec'', ''evet'', ''hayir'', ''tekrar'', ''yeniden'', ''bir daha'', ''peki'']"

definition fold_word :: "string \<Rightarrow> string" where "fold_word w = map lower w"

definition is_reserved :: "string \<Rightarrow> bool" where "is_reserved key = (strip (fold_word key) \<in> set reserved_name_keys)"

definition py_words :: "string \<Rightarrow> string list" where
  "py_words s = filter (\<lambda>w. w \<noteq> []) (split_on (CHR '' '') (map (\<lambda>c. if is_space c then CHR '' '' else c) s))"

definition name_tokens :: "string \<Rightarrow> string list" where
  "name_tokens text = filter (\<lambda>w. w \<noteq> []) (split_on (CHR '' '')
     (map (\<lambda>c. if is_digit c \<or> (97 \<le> (of_char c :: nat) \<and> (of_char c :: nat) \<le> 122) then c else CHR '' '') (fold_word text)))"

definition drop_frames :: "(string \<Rightarrow> bool) \<Rightarrow> string list \<Rightarrow> string list" where
  "drop_frames frame ws = rev (dropWhile frame (rev (dropWhile frame ws)))"

definition name_key :: "string \<Rightarrow> string" where
  "name_key text =
     (let key = join_with '' '' (take max_name_tokens (drop_frames (\<lambda>w. w \<in> set name_frame_words) (name_tokens text)))
      in if key \<in> set reserved_name_keys then [] else key)"

definition edge_char :: "char \<Rightarrow> bool" where
  "edge_char c = (is_space c \<or> c \<in> set ''.,!?:;-'' \<or> c = CHR 0x22 \<or> c = CHR 0x27)"

definition strip_edges :: "string \<Rightarrow> string" where
  "strip_edges s = rev (dropWhile edge_char (rev (dropWhile edge_char s)))"

definition spoken_name :: "string \<Rightarrow> string" where
  "spoken_name text =
     (let cleaned = filter (\<lambda>w. w \<noteq> []) (map strip_edges (py_words (strip_edges (strip text))));
          name = take max_name_chars (join_with '' '' (take max_name_tokens
                   (drop_frames (\<lambda>w. fold_word w \<in> set name_frame_words) cleaned)))
      in if name_key name = [] then [] else name)"

definition last_word_matches :: "string \<Rightarrow> string \<Rightarrow> bool" where
  "last_word_matches spoken stored_word =
     (spoken = stored_word \<or>
      is_prefix stored_word spoken \<and> drop (length stored_word) spoken \<in> set last_word_suffixes)"

definition named_at :: "string list \<Rightarrow> string list \<Rightarrow> nat \<Rightarrow> bool" where
  "named_at folded parts start =
     (let window = take (length parts) (drop start folded) in
      butlast window = butlast parts \<and> last_word_matches (last window) (last parts) \<and>
      (\<forall>w \<in> set (take start folded @ drop (start + length parts) folded). w \<in> set run_filler_words))"

definition match_stored_name :: "string list \<Rightarrow> string list \<Rightarrow> string option" where
  "match_stored_name ws keys =
     (let folded = map fold_word (filter (\<lambda>t. t \<noteq> []) ws) in
      List.find (\<lambda>key. key \<notin> set reserved_name_keys \<and> py_words key \<noteq> [] \<and> length (py_words key) \<le> length folded \<and>
          (\<exists>start \<in> set [0..<Suc (length folded - length (py_words key))]. named_at folded (py_words key) start))
        (sort_key (\<lambda>k. (- int (length (py_words k)), k)) (remdups (filter (\<lambda>k. k \<noteq> []) keys))))"

section \<open>The recording\<close>

type_synonym fields = "(string \<times> json) list"

record macro_step =
  ms_tool :: string
  ms_args :: fields
  ms_turn :: fields
  ms_at :: instant

datatype recording_status = Recording | Awaiting_name

record recording =
  rc_status :: recording_status
  rc_steps :: "macro_step list"
  rc_started_at :: instant
  rc_dropped :: nat
  rc_dropped_secret :: nat

text \<open>The session's context: the recording, the last utterance, the rest.\<close>

record voice_context =
  vc_recording :: "recording option"
  vc_turn :: "fields option"
  vc_rest :: fields

definition max_macro_steps :: nat where "max_macro_steps = 30"

definition turn_keys_dropped :: "string list" where
  "turn_keys_dropped = [''at'', ''t_ms'', ''turn'', ''route_source'', ''route_confidence'', ''clarification_question'']"

definition is_recording :: "voice_context \<Rightarrow> bool" where
  "is_recording ctx = (\<exists>r \<in> set_option (vc_recording ctx). rc_status r = Recording)"

definition is_awaiting_name :: "voice_context \<Rightarrow> bool" where
  "is_awaiting_name ctx = (\<exists>r \<in> set_option (vc_recording ctx). rc_status r = Awaiting_name)"

definition begin_recording :: "instant \<Rightarrow> voice_context \<Rightarrow> voice_context" where
  "begin_recording now ctx = ctx\<lparr>vc_recording := Some \<lparr>rc_status = Recording, rc_steps = [], rc_started_at = now, rc_dropped = 0,
     rc_dropped_secret = 0\<rparr>\<rparr>"

definition is_recordable :: "string \<Rightarrow> bool" where
  "is_recordable tool = (\<not> is_prefix ''macro.'' tool \<and> tool \<notin> {''assistant.chat'', ''voice.intent'', ''research.start''})"

definition strings_in :: "fields \<Rightarrow> string list" where
  "strings_in kvs = List.map_filter (\<lambda>(k, v). case v of JStr s \<Rightarrow> Some s | _ \<Rightarrow> None) kvs"

definition names_a_secret :: "(string \<Rightarrow> bool) \<Rightarrow> fields \<Rightarrow> fields option \<Rightarrow> bool" where
  "names_a_secret secret_word args turn =
     list_ex secret_word (strings_in args @
       strings_in (filter (\<lambda>(k, v). k \<in> {''text_to_type'', ''find_text'', ''replace_text'', ''question''}) (case turn of None \<Rightarrow> [] | Some t \<Rightarrow> t)))"

definition capture_step ::
    "(string \<Rightarrow> bool) \<Rightarrow> string \<Rightarrow> fields \<Rightarrow> fields option \<Rightarrow> instant \<Rightarrow> voice_context \<Rightarrow> bool \<times> voice_context" where
  "capture_step secret_word tool args turn now ctx =
     (case vc_recording ctx of
        None \<Rightarrow> (False, ctx)
      | Some r \<Rightarrow>
          if rc_status r \<noteq> Recording \<or> \<not> is_recordable tool then (False, ctx)
          else if names_a_secret secret_word args turn
          then (False, ctx\<lparr>vc_recording := Some (r\<lparr>rc_dropped_secret := Suc (rc_dropped_secret r)\<rparr>)\<rparr>)
          else if length (rc_steps r) \<ge> max_macro_steps
          then (False, ctx\<lparr>vc_recording := Some (r\<lparr>rc_dropped := Suc (rc_dropped r)\<rparr>)\<rparr>)
          else (True, ctx\<lparr>vc_recording := Some (r\<lparr>rc_steps := rc_steps r @
                 [\<lparr>ms_tool = tool, ms_args = args,
                   ms_turn = filter (\<lambda>(k, v). k \<notin> set turn_keys_dropped) (case turn of None \<Rightarrow> [] | Some t \<Rightarrow> t),
                   ms_at = now\<rparr>]\<rparr>)\<rparr>))"

definition end_recording :: "voice_context \<Rightarrow> recording option \<times> voice_context" where
  "end_recording ctx =
     (case vc_recording ctx of
        None \<Rightarrow> (None, ctx)
      | Some r \<Rightarrow>
          if rc_status r \<noteq> Recording then (None, ctx)
          else if rc_steps r = [] then (Some r, ctx\<lparr>vc_recording := None\<rparr>)
          else let e = r\<lparr>rc_status := Awaiting_name\<rparr> in (Some e, ctx\<lparr>vc_recording := Some e\<rparr>))"

definition cancel_recording :: "voice_context \<Rightarrow> recording option \<times> voice_context" where
  "cancel_recording ctx =
     (case vc_recording ctx of None \<Rightarrow> (None, ctx) | Some r \<Rightarrow> (Some r, ctx\<lparr>vc_recording := None\<rparr>))"

definition take_pending :: "voice_context \<Rightarrow> macro_step list option \<times> voice_context" where
  "take_pending ctx =
     (case vc_recording ctx of
        None \<Rightarrow> (None, ctx)
      | Some r \<Rightarrow> if rc_status r \<noteq> Awaiting_name then (None, ctx) else (Some (rc_steps r), ctx\<lparr>vc_recording := None\<rparr>))"

section \<open>The rows\<close>

record macro_row =
  mr_id :: nat
  mr_name :: string
  mr_key :: string
  mr_steps :: "macro_step list"
  mr_run_count :: nat
  mr_last_run_at :: "instant option"
  mr_updated_at :: instant

definition find_macro :: "string \<Rightarrow> macro_row list \<Rightarrow> macro_row option" where
  "find_macro key rows = (if key = [] then None else row_get mr_key key rows)"

text \<open>The two \<open>ValueError\<close>s are the result \<open>None\<close>.\<close>

definition save_macro :: "nat \<Rightarrow> string \<Rightarrow> macro_step list \<Rightarrow> instant \<Rightarrow> macro_row list \<Rightarrow> (macro_row \<times> bool \<times> macro_row list) option" where
  "save_macro nid name steps now rows =
     (let key = name_key name in
      if key = [] \<or> steps = [] then None
      else (case find_macro key rows of
              Some old \<Rightarrow>
                (let row = old\<lparr>mr_name := take 200 (strip name), mr_steps := take max_macro_steps steps, mr_updated_at := now\<rparr>
                 in Some (row, True, row_put mr_key key (\<lambda>_. row) rows))
            | None \<Rightarrow>
                (let row = \<lparr>mr_id = nid, mr_name = take 200 (strip name), mr_key = key, mr_steps = take max_macro_steps steps,
                       mr_run_count = 0, mr_last_run_at = None, mr_updated_at = now\<rparr>
                 in Some (row, False, rows @ [row]))))"

definition delete_macro :: "string \<Rightarrow> macro_row list \<Rightarrow> macro_row option \<times> macro_row list" where
  "delete_macro key rows =
     (case find_macro key rows of None \<Rightarrow> (None, rows) | Some r \<Rightarrow> (Some r, filter (\<lambda>x. mr_key x \<noteq> key) rows))"

definition mark_run :: "instant \<Rightarrow> macro_row \<Rightarrow> macro_row" where
  "mark_run now r = r\<lparr>mr_run_count := Suc (mr_run_count r), mr_last_run_at := Some now\<rparr>"

section \<open>The tools\<close>

datatype macro_answer =
    Already_recording | Name_pending | Recording_started | Idle | No_steps | Name_needed | Which_macro
  | Ask_name nat nat | Saved macro_row bool | Cancelled nat | Unknown_macro string | Busy_recording
  | Listed "macro_row list" | Deleted macro_row

definition spoken_macro_name :: "voice_context \<Rightarrow> fields \<Rightarrow> string" where
  "spoken_macro_name ctx args =
     (case dict_get ''macro_name'' (JObj (case vc_turn ctx of None \<Rightarrow> [] | Some t \<Rightarrow> t)) of
        JStr s \<Rightarrow> if strip s \<noteq> [] then strip s else (case dict_get ''name'' (JObj args) of JStr n \<Rightarrow> strip n | _ \<Rightarrow> [])
      | _ \<Rightarrow> (case dict_get ''name'' (JObj args) of JStr n \<Rightarrow> strip n | _ \<Rightarrow> []))"

definition macro_record_start :: "instant \<Rightarrow> voice_context \<Rightarrow> macro_answer \<times> voice_context" where
  "macro_record_start now ctx =
     (if is_recording ctx then (Already_recording, ctx)
      else if is_awaiting_name ctx then (Name_pending, ctx)
      else (Recording_started, begin_recording now ctx))"

definition macro_record_end :: "voice_context \<Rightarrow> macro_answer \<times> voice_context" where
  "macro_record_end ctx =
     (if is_awaiting_name ctx then (Name_needed, ctx)
      else (case end_recording ctx of
              (None, ctx') \<Rightarrow> (Idle, ctx')
            | (Some r, ctx') \<Rightarrow>
                if rc_steps r = [] then (No_steps, ctx')
                else (Ask_name (length (rc_steps r)) (rc_dropped r + rc_dropped_secret r), ctx')))"

definition macro_name :: "nat \<Rightarrow> instant \<Rightarrow> fields \<Rightarrow> voice_context \<times> macro_row list \<Rightarrow> macro_answer \<times> voice_context \<times> macro_row list" where
  "macro_name nid now args s =
     (let (ctx, rows) = s; name = spoken_macro_name ctx args in
      if \<not> is_awaiting_name ctx then (Idle, s)
      else if name = [] \<or> name_key name = [] then (Name_needed, s)
      else (case take_pending ctx of
              (None, ctx') \<Rightarrow> (No_steps, ctx', rows)
            | (Some steps, ctx') \<Rightarrow>
                (case save_macro nid name steps now rows of
                   None \<Rightarrow> (No_steps, ctx', rows)
                 | Some (row, replaced, rows') \<Rightarrow> (Saved row replaced, ctx', rows'))))"

definition macro_cancel :: "voice_context \<Rightarrow> macro_answer \<times> voice_context" where
  "macro_cancel ctx =
     (case cancel_recording ctx of
        (None, ctx') \<Rightarrow> (Idle, ctx')
      | (Some r, ctx') \<Rightarrow> (Cancelled (length (rc_steps r)), ctx'))"

definition macro_list :: "macro_row list \<Rightarrow> macro_answer" where "macro_list rows = Listed rows"

definition macro_delete :: "fields \<Rightarrow> voice_context \<times> macro_row list \<Rightarrow> macro_answer \<times> voice_context \<times> macro_row list" where
  "macro_delete args s =
     (let (ctx, rows) = s; name = spoken_macro_name ctx args in
      if name = [] then (Which_macro, s)
      else (case delete_macro (name_key name) rows of
              (None, _) \<Rightarrow> (Unknown_macro name, s)
            | (Some r, rows') \<Rightarrow> (Deleted r, ctx, rows')))"

section \<open>The replay\<close>

text \<open>A handler gets its arguments, the session's context and the world; it returns a result or raises, a voice error (class, message, details) or
  anything else, and leaves a context and a world.\<close>

datatype handler_error = Voice_error string string json | Crash string

record 'w tool_spec =
  ts_name :: string
  ts_long_running :: bool
  ts_preamble :: "string option"
  ts_handler :: "fields \<Rightarrow> voice_context \<Rightarrow> 'w \<Rightarrow> (handler_error + json) \<times> voice_context \<times> 'w"

record 'w replay_env =
  re_registry :: "string \<Rightarrow> 'w tool_spec option"
  re_gate :: "'w \<Rightarrow> string \<Rightarrow> step_up_decision"
  re_earned :: "string \<Rightarrow> json \<Rightarrow> string"
  re_now :: instant
  re_iso :: string

definition step_went_well :: "(string \<Rightarrow> json \<Rightarrow> string) \<Rightarrow> string \<Rightarrow> json \<Rightarrow> bool" where
  "step_went_well earned tool result =
     (let body = (\<lambda>k. dict_get k (if is_dict result then result else JObj [])) in
      body ''status'' \<noteq> JStr ''needs_clarification'' \<and>
      body ''execution_status'' \<notin> {JStr ''refused'', JStr ''failed''} \<and> body ''status'' \<noteq> JStr ''refused'' \<and>
      body ''terminal_status'' \<noteq> JStr ''failed'' \<and> \<not> truthy (body ''error_class'') \<and>
      earned tool result \<noteq> ''failed'')"

datatype step_report = Unknown_tool | Step_up_required | Raised string | Came_back bool

definition replay_turn :: "string \<Rightarrow> string \<Rightarrow> macro_step \<Rightarrow> fields" where
  "replay_turn at_text key s = AList.update ''macro_replay'' (JStr key) (AList.update ''at'' (JStr at_text) (ms_turn s))"

fun replay_steps ::
    "'w replay_env \<Rightarrow> string \<Rightarrow> macro_step list \<Rightarrow> voice_context \<Rightarrow> 'w \<Rightarrow>
     string option \<times> (string \<times> step_report) list \<times> voice_context \<times> 'w" where
  "replay_steps env key [] ctx w = (None, [], ctx, w)"
| "replay_steps env key (s # ss) ctx w =
     (case re_registry env (ms_tool s) of
        None \<Rightarrow> (None, [(ms_tool s, Unknown_tool)], ctx, w)
      | Some spec \<Rightarrow>
          if \<not> su_allowed (re_gate env w (ts_name spec)) then (None, [(ms_tool s, Step_up_required)], ctx, w)
          else (case ts_handler spec (ms_args s) (ctx\<lparr>vc_turn := Some (replay_turn (re_iso env) key s)\<rparr>) w of
                  (Inl (Crash c), ctx', w') \<Rightarrow> (Some c, [], ctx', w')
                | (Inl (Voice_error c message details), ctx', w') \<Rightarrow> (None, [(ms_tool s, Raised c)], ctx', w')
                | (Inr result, ctx', w') \<Rightarrow>
                    if \<not> step_went_well (re_earned env) (ms_tool s) result
                    then (None, [(ms_tool s, Came_back False)], ctx', w')
                    else (case replay_steps env key ss ctx' w' of
                            (c, reports, ctx'', w'') \<Rightarrow> (c, (ms_tool s, Came_back True) # reports, ctx'', w''))))"

datatype run_answer =
    Run_while_recording | Run_which | Run_unknown string
  | Run_done macro_row "(string \<times> step_report) list" bool

text \<open>\<open>finally\<close> puts the owner's own last utterance back, also when a handler crashes; then nothing is counted.\<close>

definition macro_run ::
    "'w replay_env \<Rightarrow> fields \<Rightarrow> voice_context \<times> macro_row list \<times> 'w \<Rightarrow> (string + run_answer) \<times> voice_context \<times> macro_row list \<times> 'w" where
  "macro_run env args s =
     (let (ctx, rows, w) = s; name = spoken_macro_name ctx args in
      if is_recording ctx then (Inr Run_while_recording, s)
      else if name = [] then (Inr Run_which, s)
      else (case find_macro (name_key name) rows of
              None \<Rightarrow> (Inr (Run_unknown name), s)
            | Some row \<Rightarrow>
                (case replay_steps env (mr_key row) (mr_steps row) ctx w of
                   (Some c, reports, ctx', w') \<Rightarrow> (Inl c, ctx'\<lparr>vc_turn := vc_turn ctx\<rparr>, rows, w')
                 | (None, reports, ctx', w') \<Rightarrow>
                     (Inr (Run_done (mark_run (re_now env) row) reports
                        (length (filter (\<lambda>r. snd r = Came_back True) reports) = length (mr_steps row))),
                      ctx'\<lparr>vc_turn := vc_turn ctx\<rparr>, row_put mr_key (mr_key row) (mark_run (re_now env)) rows, w'))))"

section \<open>A replay passes no gate\<close>

text \<open>Two registries whose tools do the same wherever the gate allows them.\<close>

definition same_where_allowed :: "'w replay_env \<Rightarrow> 'w replay_env \<Rightarrow> bool" where
  "same_where_allowed env other =
     (re_gate other = re_gate env \<and> re_earned other = re_earned env \<and> re_now other = re_now env \<and> re_iso other = re_iso env \<and>
      (\<forall>tool. case re_registry env tool of
         None \<Rightarrow> re_registry other tool = None
       | Some spec \<Rightarrow> \<exists>spec'. re_registry other tool = Some spec' \<and> ts_name spec' = ts_name spec \<and>
           (\<forall>args ctx w. su_allowed (re_gate env w (ts_name spec)) \<longrightarrow> ts_handler spec' args ctx w = ts_handler spec args ctx w)))"

lemma replay_same_where_allowed:
  assumes "same_where_allowed env other"
  shows "replay_steps other key steps ctx w = replay_steps env key steps ctx w"
proof (induction steps arbitrary: ctx w)
  case (Cons s ss)
  have fields: "re_gate other = re_gate env" "re_earned other = re_earned env" "re_iso other = re_iso env"
    using assms by (simp_all add: same_where_allowed_def)
  have reg: "case re_registry env (ms_tool s) of
         None \<Rightarrow> re_registry other (ms_tool s) = None
       | Some spec \<Rightarrow> \<exists>spec'. re_registry other (ms_tool s) = Some spec' \<and> ts_name spec' = ts_name spec \<and>
           (\<forall>args ctx w. su_allowed (re_gate env w (ts_name spec)) \<longrightarrow> ts_handler spec' args ctx w = ts_handler spec args ctx w)"
    using assms unfolding same_where_allowed_def by blast
  show ?case
  proof (cases "re_registry env (ms_tool s)")
    case None
    then show ?thesis using reg by simp
  next
    case (Some spec)
    then obtain spec' where spec': "re_registry other (ms_tool s) = Some spec'" "ts_name spec' = ts_name spec"
        "\<And>args ctx w. su_allowed (re_gate env w (ts_name spec)) \<Longrightarrow> ts_handler spec' args ctx w = ts_handler spec args ctx w"
      using reg by auto
    show ?thesis
    proof (cases "su_allowed (re_gate env w (ts_name spec))")
      case True
      show ?thesis unfolding replay_steps.simps fields Some spec'(1,2) option.case spec'(3) [OF True] Cons.IH ..
    qed (simp add: Some spec'(1,2) fields)
  qed
qed simp

text \<open>
  A macro is never a way around the step-up gate.  Change the tools' handlers in any way, as long as each does the same
  in the states where the gate allows the tool: every replay of every macro does exactly the same, with the same answer, the same
  context, the same rows and the same effects.  So no handler ever runs in a replay where the gate does not allow it.
\<close>

theorem macro_never_passes_gate:
  assumes "same_where_allowed env other"
  shows "macro_run other args s = macro_run env args s"
proof -
  have now: "re_now other = re_now env" using assms by (simp add: same_where_allowed_def)
  show ?thesis unfolding macro_run_def replay_same_where_allowed [OF assms] now ..
qed

lemma replay_reports:
  assumes "replay_steps env key steps ctx w = (crash, reports, ctx', w')"
  shows "map fst reports = map ms_tool (take (length reports) steps)" "length reports \<le> length steps"
    "\<forall>r \<in> set (butlast reports). snd r = Came_back True"
    "crash = None \<Longrightarrow> (\<forall>r \<in> set reports. snd r = Came_back True) \<longleftrightarrow> length (filter (\<lambda>r. snd r = Came_back True) reports) = length steps"
    "crash = None \<Longrightarrow> steps \<noteq> [] \<Longrightarrow> reports \<noteq> []"
proof -
  have "map fst reports = map ms_tool (take (length reports) steps) \<and> length reports \<le> length steps \<and>
      (\<forall>r \<in> set (butlast reports). snd r = Came_back True) \<and>
      (crash = None \<longrightarrow> ((\<forall>r \<in> set reports. snd r = Came_back True) \<longleftrightarrow>
         length (filter (\<lambda>r. snd r = Came_back True) reports) = length steps) \<and> (steps \<noteq> [] \<longrightarrow> reports \<noteq> []))"
    using assms
  proof (induction env key steps ctx w arbitrary: crash reports ctx' w' rule: replay_steps.induct)
    case (2 env key s ss ctx w)
    show ?case
    proof (cases "re_registry env (ms_tool s)")
      case None
      then show ?thesis using 2(2) by auto
    next
      case (Some spec)
      show ?thesis
      proof (cases "su_allowed (re_gate env w (ts_name spec))")
        case False
        then show ?thesis using 2(2) Some by auto
      next
        case True
        obtain out ctx1 w1 where h: "ts_handler spec (ms_args s) (ctx\<lparr>vc_turn := Some (replay_turn (re_iso env) key s)\<rparr>) w = (out, ctx1, w1)"
          by (cases "ts_handler spec (ms_args s) (ctx\<lparr>vc_turn := Some (replay_turn (re_iso env) key s)\<rparr>) w") auto
        show ?thesis
        proof (cases "\<exists>result. out = Inr result \<and> step_went_well (re_earned env) (ms_tool s) result")
          case False
          then show ?thesis using 2(2) Some True h by (auto split: sum.splits handler_error.splits)
        next
          case well: True
          then obtain result where result: "out = Inr result" "step_went_well (re_earned env) (ms_tool s) result" by blast
          obtain c rs ctx2 w2 where rest: "replay_steps env key ss ctx1 w1 = (c, rs, ctx2, w2)"
            by (cases "replay_steps env key ss ctx1 w1") auto
          have IH: "map fst rs = map ms_tool (take (length rs) ss) \<and> length rs \<le> length ss \<and>
              (\<forall>r \<in> set (butlast rs). snd r = Came_back True) \<and>
              (c = None \<longrightarrow> ((\<forall>r \<in> set rs. snd r = Came_back True) \<longleftrightarrow>
                 length (filter (\<lambda>r. snd r = Came_back True) rs) = length ss) \<and> (ss \<noteq> [] \<longrightarrow> rs \<noteq> []))"
            using 2(1) [OF Some] True h result rest by simp
          have "crash = c" "reports = (ms_tool s, Came_back True) # rs"
            using 2(2) Some True h result rest by simp_all
          then show ?thesis using IH by auto
        qed
      qed
    qed
  qed simp
  then show "map fst reports = map ms_tool (take (length reports) steps)" "length reports \<le> length steps"
    "\<forall>r \<in> set (butlast reports). snd r = Came_back True"
    "crash = None \<Longrightarrow> (\<forall>r \<in> set reports. snd r = Came_back True) \<longleftrightarrow> length (filter (\<lambda>r. snd r = Came_back True) reports) = length steps"
    "crash = None \<Longrightarrow> steps \<noteq> [] \<Longrightarrow> reports \<noteq> []" by blast+
qed

text \<open>
  A replay repeats the macro in order and stops at the first step that did not succeed.  When a macro
  is run: the tools of the reported steps are the first tools of the macro, in its order; every reported step but
  the last succeeded; the answer says done exactly when all its steps succeeded; the owner's own last utterance is put back, whatever the handlers did to it;
  and of the rows only the run counter and the time of the last run of this macro changed, a crash not even that.
\<close>

theorem replay_in_order_until_failure:
  assumes "macro_run env args (ctx, rows, w) = (answer, ctx', rows', w')"
  shows "vc_turn ctx' = vc_turn ctx \<and>
    (case answer of
       Inr (Run_done row reports success) \<Rightarrow>
         (\<exists>old. find_macro (name_key (spoken_macro_name ctx args)) rows = Some old \<and> row = mark_run (re_now env) old \<and>
            map fst reports = map ms_tool (take (length reports) (mr_steps old)) \<and>
            (\<forall>r \<in> set (butlast reports). snd r = Came_back True) \<and>
            success = (\<forall>r \<in> set reports. snd r = Came_back True) \<and> (success \<longrightarrow> length reports = length (mr_steps old)) \<and>
            rows' = row_put mr_key (mr_key old) (mark_run (re_now env)) rows)
     | _ \<Rightarrow> rows' = rows)"
proof (cases "is_recording ctx \<or> spoken_macro_name ctx args = [] \<or> find_macro (name_key (spoken_macro_name ctx args)) rows = None")
  case True
  then show ?thesis using assms by (auto simp: macro_run_def Let_def split: if_splits)
next
  case False
  then obtain old where old: "find_macro (name_key (spoken_macro_name ctx args)) rows = Some old" by auto
  obtain crash reports ctx1 w1 where replay: "replay_steps env (mr_key old) (mr_steps old) ctx w = (crash, reports, ctx1, w1)"
    by (cases "replay_steps env (mr_key old) (mr_steps old) ctx w") auto
  note reports = replay_reports [OF replay]
  show ?thesis
  proof (cases crash)
    case None
    have fin: "answer = Inr (Run_done (mark_run (re_now env) old) reports
        (length (filter (\<lambda>r. snd r = Came_back True) reports) = length (mr_steps old)))"
      "ctx' = ctx1\<lparr>vc_turn := vc_turn ctx\<rparr>" "rows' = row_put mr_key (mr_key old) (mark_run (re_now env)) rows"
      using assms False old replay None by (simp_all add: macro_run_def Let_def)
    have "length (filter (\<lambda>r. snd r = Came_back True) reports) \<le> length reports" by simp
    then show ?thesis unfolding fin using old reports None by auto
  next
    case (Some c)
    then show ?thesis using assms False old replay by (auto simp: macro_run_def Let_def)
  qed
qed

section \<open>What a macro holds\<close>

definition kept_call :: "(string \<Rightarrow> bool) \<Rightarrow> string \<times> fields \<times> fields option \<times> instant \<Rightarrow> bool" where
  "kept_call secret_word c = (case c of (tool, args, turn, t) \<Rightarrow> is_recordable tool \<and> \<not> names_a_secret secret_word args turn)"

fun step_of_call :: "string \<times> fields \<times> fields option \<times> instant \<Rightarrow> macro_step" where
  "step_of_call (tool, args, turn, t) =
     \<lparr>ms_tool = tool, ms_args = args,
      ms_turn = filter (\<lambda>(k, v). k \<notin> set turn_keys_dropped) (case turn of None \<Rightarrow> [] | Some t \<Rightarrow> t), ms_at = t\<rparr>"

definition capture_all :: "(string \<Rightarrow> bool) \<Rightarrow> (string \<times> fields \<times> fields option \<times> instant) list \<Rightarrow> voice_context \<Rightarrow> voice_context" where
  "capture_all secret_word calls ctx =
     foldl (\<lambda>ctx (tool, args, turn, t). snd (capture_step secret_word tool args turn t ctx)) ctx calls"

lemma capture_all_steps:
  assumes "vc_recording ctx = Some r" "rc_status r = Recording" "length (rc_steps r) \<le> max_macro_steps"
  shows "\<exists>r'. vc_recording (capture_all secret_word calls ctx) = Some r' \<and> rc_status r' = Recording \<and>
    rc_steps r' = take max_macro_steps (rc_steps r @ map step_of_call (filter (kept_call secret_word) calls)) \<and>
    vc_turn (capture_all secret_word calls ctx) = vc_turn ctx"
  using assms
proof (induction calls arbitrary: ctx r)
  case (Cons c calls)
  obtain tool args turn t where c: "c = (tool, args, turn, t)" by (cases c) auto
  define ctx1 where "ctx1 = snd (capture_step secret_word tool args turn t ctx)"
  have all: "capture_all secret_word (c # calls) ctx = capture_all secret_word calls ctx1"
    by (simp add: capture_all_def c ctx1_def)
  have "\<exists>r1. vc_recording ctx1 = Some r1 \<and> rc_status r1 = Recording \<and> vc_turn ctx1 = vc_turn ctx \<and>
      rc_steps r1 = take max_macro_steps (rc_steps r @ (if kept_call secret_word c then [step_of_call c] else []))"
    using Cons.prems
    by (cases "is_recordable tool"; cases "names_a_secret secret_word args turn"; cases "length (rc_steps r) \<ge> max_macro_steps")
      (simp_all add: ctx1_def capture_step_def c kept_call_def Suc_le_eq)
  then obtain r1 where r1: "vc_recording ctx1 = Some r1" "rc_status r1 = Recording" "vc_turn ctx1 = vc_turn ctx"
      "rc_steps r1 = take max_macro_steps (rc_steps r @ (if kept_call secret_word c then [step_of_call c] else []))" by blast
  have "length (rc_steps r1) \<le> max_macro_steps" by (simp add: r1(4))
  from Cons.IH [OF r1(1,2) this] obtain r' where r': "vc_recording (capture_all secret_word calls ctx1) = Some r'"
      "rc_status r' = Recording" "vc_turn (capture_all secret_word calls ctx1) = vc_turn ctx"
      "rc_steps r' = take max_macro_steps (rc_steps r1 @ map step_of_call (filter (kept_call secret_word) calls))"
    using r1(3) by auto
  have cut: "take n (take n xs @ ys) = take n (xs @ ys)" for n and xs ys :: "macro_step list"
    by (cases "length xs \<le> n") (simp_all)
  then have "rc_steps r' = take max_macro_steps (rc_steps r @ map step_of_call (filter (kept_call secret_word) (c # calls)))"
    unfolding r'(4) r1(4) cut by (cases "kept_call secret_word c") (simp_all del: take_append)
  then show ?case using r' all by auto
qed (simp add: capture_all_def)

text \<open>
  A macro holds exactly the calls that were made.  The owner starts a recording, makes any
  sequence of calls, ends it, and says a name that is a name.  Then the row under the key of that name holds the first thirty of
  the calls that may be kept, as they were made and in their order, nothing is being recorded any more, and no other row changed; if no call could be
  kept there is nothing to name.
\<close>

theorem macro_holds_the_calls_made:
  assumes idle: "vc_recording ctx = None" and start: "macro_record_start t0 ctx = (Recording_started, ctx1)"
    and calls: "ctx2 = capture_all secret_word calls ctx1" and ending: "macro_record_end ctx2 = (answer, ctx3)"
    and named: "macro_name nid t1 args (ctx3, rows) = (answer', ctx4, rows')"
    and name: "name = spoken_macro_name ctx args" "name \<noteq> []" "name_key name \<noteq> []"
  shows "vc_recording ctx4 = None \<and>
    (if filter (kept_call secret_word) calls = [] then answer = No_steps \<and> rows' = rows
     else (\<exists>row replaced. answer' = Saved row replaced \<and> find_macro (name_key name) rows' = Some row \<and>
       mr_steps row = take 30 (map step_of_call (filter (kept_call secret_word) calls)) \<and>
       (\<forall>key. key \<noteq> name_key name \<longrightarrow> find_macro key rows' = find_macro key rows)))"
proof -
  let ?kept = "map step_of_call (filter (kept_call secret_word) calls)"
  have ctx1: "ctx1 = begin_recording t0 ctx" using start by (simp add: macro_record_start_def split: if_splits)
  obtain r where r: "vc_recording ctx2 = Some r" "rc_status r = Recording" "rc_steps r = take max_macro_steps ?kept"
      "vc_turn ctx2 = vc_turn ctx"
    using capture_all_steps [of ctx1 _ secret_word calls] unfolding calls by (auto simp: ctx1 begin_recording_def)
  show ?thesis
  proof (cases "filter (kept_call secret_word) calls = []")
    case True
    then have "answer = No_steps" "vc_recording ctx3 = None"
      using ending r by (auto simp: macro_record_end_def is_awaiting_name_def end_recording_def)
    then show ?thesis using True named by (simp add: macro_name_def is_awaiting_name_def Let_def)
  next
    case False
    then have steps: "rc_steps r \<noteq> []" by (simp add: r(3) max_macro_steps_def)
    then have ctx3: "ctx3 = ctx2\<lparr>vc_recording := Some (r\<lparr>rc_status := Awaiting_name\<rparr>)\<rparr>"
      using ending r by (auto simp: macro_record_end_def is_awaiting_name_def end_recording_def Let_def)
    have spoken: "spoken_macro_name ctx3 args = name" by (simp add: ctx3 r(4) name(1) spoken_macro_name_def)
    have pending: "take_pending ctx3 = (Some (rc_steps r), ctx2\<lparr>vc_recording := None\<rparr>)" "is_awaiting_name ctx3"
      by (simp_all add: ctx3 take_pending_def is_awaiting_name_def)
    obtain row replaced rows1 where "save_macro nid name (rc_steps r) t1 rows = Some (row, replaced, rows1)"
      using name(3) steps by (cases "find_macro (name_key name) rows") (auto simp: save_macro_def Let_def)
    with named have save: "save_macro nid name (rc_steps r) t1 rows = Some (row, replaced, rows')"
        "answer' = Saved row replaced" "vc_recording ctx4 = None"
      by (auto simp: macro_name_def spoken pending Let_def name(2,3))
    have "find_macro (name_key name) rows' = Some row \<and> mr_steps row = take max_macro_steps (rc_steps r) \<and>
        (\<forall>key. key \<noteq> name_key name \<longrightarrow> find_macro key rows' = find_macro key rows)"
    proof (cases "row_get mr_key (name_key name) rows")
      case None
      then show ?thesis using save(1) name(3) steps
        by (auto simp: save_macro_def Let_def find_macro_def row_get_append row_get_Cons split: option.splits)
    next
      case (Some old)
      then have "mr_key old = name_key name" by (auto dest: row_get_SomeD)
      then show ?thesis using save(1) name(3) steps Some
        by (auto simp: save_macro_def Let_def find_macro_def row_get_put)
    qed
    then show ?thesis using save False by (simp add: r(3) max_macro_steps_def)
  qed
qed

section \<open>What a sentence names\<close>

text \<open>A sentence names a stored key: its words are the key's words, the last one possibly with a listed ending, and
  around them nothing but words that ask to run something.\<close>

definition names_key :: "string list \<Rightarrow> string \<Rightarrow> bool" where
  "names_key sentence key =
     (key \<notin> set reserved_name_keys \<and> py_words key \<noteq> [] \<and>
      (\<exists>before after ending. sentence = before @ butlast (py_words key) @ [last (py_words key) @ ending] @ after \<and>
         (ending = [] \<or> ending \<in> set last_word_suffixes) \<and> set before \<union> set after \<subseteq> set run_filler_words))"

lemma last_word_matches_iff:
  "last_word_matches spoken w \<longleftrightarrow> (\<exists>ending. spoken = w @ ending \<and> (ending = [] \<or> ending \<in> set last_word_suffixes))"
  by (auto simp: last_word_matches_def is_prefix_iff)

lemma named_at_iff:
  assumes "parts \<noteq> []"
  shows "(length parts \<le> length folded \<and> (\<exists>start \<in> set [0..<Suc (length folded - length parts)]. named_at folded parts start)) \<longleftrightarrow>
    (\<exists>before after ending. folded = before @ butlast parts @ [last parts @ ending] @ after \<and>
       (ending = [] \<or> ending \<in> set last_word_suffixes) \<and> set before \<union> set after \<subseteq> set run_filler_words)"
proof
  assume "length parts \<le> length folded \<and> (\<exists>start \<in> set [0..<Suc (length folded - length parts)]. named_at folded parts start)"
  then obtain start where "length parts \<le> length folded" "start < Suc (length folded - length parts)"
    and at_start: "named_at folded parts start" unfolding set_upt by force
  then have "start + length parts \<le> length folded" by linarith
  note start = this at_start
  let ?window = "take (length parts) (drop start folded)"
  obtain ending where ending: "last ?window = last parts @ ending" "ending = [] \<or> ending \<in> set last_word_suffixes"
    using start(2) by (auto simp: named_at_def Let_def last_word_matches_iff)
  have "?window \<noteq> []" using start(1) assms by (cases parts) auto
  then have "?window = butlast parts @ [last parts @ ending]"
    using start(2) append_butlast_last_id [of ?window] unfolding ending(1) by (simp add: named_at_def Let_def)
  moreover have "folded = take start folded @ ?window @ drop (start + length parts) folded"
    by (metis append_take_drop_id drop_drop add.commute)
  moreover have "set (take start folded) \<union> set (drop (start + length parts) folded) \<subseteq> set run_filler_words"
    using start(2) by (auto simp: named_at_def Let_def)
  ultimately show "\<exists>before after ending. folded = before @ butlast parts @ [last parts @ ending] @ after \<and>
       (ending = [] \<or> ending \<in> set last_word_suffixes) \<and> set before \<union> set after \<subseteq> set run_filler_words"
    using ending(2) by (metis append.assoc)
next
  assume "\<exists>before after ending. folded = before @ butlast parts @ [last parts @ ending] @ after \<and>
       (ending = [] \<or> ending \<in> set last_word_suffixes) \<and> set before \<union> set after \<subseteq> set run_filler_words"
  then obtain before after ending where f: "folded = before @ butlast parts @ [last parts @ ending] @ after"
    and e: "ending = [] \<or> ending \<in> set last_word_suffixes" "set before \<union> set after \<subseteq> set run_filler_words" by blast
  have len: "length parts = Suc (length (butlast parts))" using assms by simp
  have window: "take (length parts) (drop (length before) folded) = butlast parts @ [last parts @ ending]"
    unfolding f len by simp
  have "drop (length before + length parts) folded = after" unfolding f len by simp
  then have "named_at folded parts (length before)"
    using e unfolding named_at_def Let_def window by (auto simp: last_word_matches_iff f)
  moreover have "length before + length parts \<le> length folded" unfolding f len by simp
  ultimately show "length parts \<le> length folded \<and> (\<exists>start \<in> set [0..<Suc (length folded - length parts)]. named_at folded parts start)"
    unfolding set_upt by (intro conjI bexI [of _ "length before"]) auto
qed

lemma find_sorted_max:
  fixes f :: "'a \<Rightarrow> 'b::linorder"
  assumes "List.find P (sort_key f xs) = Some x"
  shows "x \<in> set xs \<and> P x \<and> (\<forall>y \<in> set xs. P y \<longrightarrow> f x \<le> f y)"
proof -
  obtain i where i: "i < length (sort_key f xs)" "P (sort_key f xs ! i)" "x = sort_key f xs ! i"
    "\<forall>j < i. \<not> P (sort_key f xs ! j)" using assms by (auto simp: find_Some_iff)
  have "f x \<le> f y" if "y \<in> set xs" "P y" for y
  proof -
    have "y \<in> set (sort_key f xs)" using that(1) by simp
    then obtain j where j: "j < length (sort_key f xs)" "sort_key f xs ! j = y" unfolding in_set_conv_nth by blast
    then have "i \<le> j" using i(4) that(2) by (metis not_le)
    have "map f (sort_key f xs) ! i \<le> map f (sort_key f xs) ! j"
      by (rule sorted_nth_mono [OF sorted_sort_key]) (use \<open>i \<le> j\<close> j(1) in simp_all)
    then show ?thesis using i(1,3) j by simp
  qed
  moreover have "x \<in> set xs" using nth_mem [OF i(1)] i(3) by simp
  moreover have "P x" using i(2,3) by simp
  ultimately show ?thesis by blast
qed

text \<open>
  Only a sentence that is a macro's name runs the macro.  A sentence is matched with a stored key exactly when all its
  words are accounted for: the key's words in a row, the last one possibly with one of the listed endings, and around them only run words.
  Nothing is matched when no stored key is named so; the key of a control word is never matched; and of several
  keys that are named the one with the most words wins.
\<close>

theorem sentence_names_macro:
  "case match_stored_name ws keys of
     None \<Rightarrow> \<forall>key \<in> set keys. \<not> names_key (map fold_word (filter (\<lambda>w. w \<noteq> []) ws)) key
   | Some key \<Rightarrow> key \<in> set keys \<and> names_key (map fold_word (filter (\<lambda>w. w \<noteq> []) ws)) key \<and>
       (\<forall>other \<in> set keys. names_key (map fold_word (filter (\<lambda>w. w \<noteq> []) ws)) other \<longrightarrow>
          length (py_words other) \<le> length (py_words key))"
proof -
  let ?s = "map fold_word (filter (\<lambda>w. w \<noteq> []) ws)"
  have empty: "py_words [] = []" by (simp add: py_words_def)
  have P: "key \<notin> set reserved_name_keys \<and> py_words key \<noteq> [] \<and> length (py_words key) \<le> length ?s \<and>
      (\<exists>start \<in> set [0..<Suc (length ?s - length (py_words key))]. named_at ?s (py_words key) start) \<longleftrightarrow> names_key ?s key" for key
    using named_at_iff [of "py_words key" ?s] unfolding names_key_def by blast
  have names: "names_key ?s key \<Longrightarrow> key \<noteq> []" for key using empty by (auto simp: names_key_def)
  define found where "found = List.find (names_key ?s) (sort_key (\<lambda>k. (- int (length (py_words k)), k)) (remdups (filter (\<lambda>k. k \<noteq> []) keys)))"
  have match: "match_stored_name ws keys = found" unfolding match_stored_name_def Let_def P found_def ..
  show ?thesis
  proof (cases found)
    case None
    then have "\<forall>key \<in> set keys. key \<noteq> [] \<longrightarrow> \<not> names_key ?s key" by (auto simp: found_def find_None_iff)
    then have "\<forall>key \<in> set keys. \<not> names_key ?s key" using names by blast
    then show ?thesis unfolding match None by simp
  next
    case (Some key)
    note best = find_sorted_max [OF Some [unfolded found_def]]
    have "length (py_words other) \<le> length (py_words key)" if "other \<in> set keys" "names_key ?s other" for other
    proof -
      have "(- int (length (py_words key)), key) \<le> (- int (length (py_words other)), other)"
        using best that names [OF that(2)] by simp
      then show ?thesis by (auto simp: less_eq_prod_def)
    qed
    then show ?thesis unfolding match Some option.case using best by auto
  qed
qed

section \<open>Any conversation\<close>

datatype voice_event =
    Ev_start | Ev_end | Ev_name nat fields | Ev_cancel | Ev_call string fields | Ev_heard "fields option"
  | Ev_delete fields | Ev_counted fields

text \<open>One event at a time: the tools, a call the relay may capture, a new utterance, a run that is counted.\<close>

fun voice_event_step ::
    "(string \<Rightarrow> bool) \<Rightarrow> instant \<times> voice_event \<Rightarrow> voice_context \<times> macro_row list \<Rightarrow> voice_context \<times> macro_row list" where
  "voice_event_step secret_word (now, Ev_start) (ctx, rows) = (snd (macro_record_start now ctx), rows)"
| "voice_event_step secret_word (now, Ev_end) (ctx, rows) = (snd (macro_record_end ctx), rows)"
| "voice_event_step secret_word (now, Ev_name nid args) (ctx, rows) = snd (macro_name nid now args (ctx, rows))"
| "voice_event_step secret_word (now, Ev_cancel) (ctx, rows) = (snd (macro_cancel ctx), rows)"
| "voice_event_step secret_word (now, Ev_call tool args) (ctx, rows) =
     (snd (capture_step secret_word tool args (vc_turn ctx) now ctx), rows)"
| "voice_event_step secret_word (now, Ev_heard turn) (ctx, rows) = (ctx\<lparr>vc_turn := turn\<rparr>, rows)"
| "voice_event_step secret_word (now, Ev_delete args) (ctx, rows) = snd (macro_delete args (ctx, rows))"
| "voice_event_step secret_word (now, Ev_counted args) (ctx, rows) =
     (ctx, row_put mr_key (name_key (spoken_macro_name ctx args)) (mark_run now) rows)"

definition conversation ::
    "(string \<Rightarrow> bool) \<Rightarrow> (instant \<times> voice_event) list \<Rightarrow> voice_context \<times> macro_row list \<Rightarrow> voice_context \<times> macro_row list" where
  "conversation secret_word evs s = foldl (\<lambda>s e. voice_event_step secret_word e s) s evs"

definition steps_ok :: "(string \<Rightarrow> bool) \<Rightarrow> macro_step list \<Rightarrow> bool" where
  "steps_ok secret_word ss =
     (length ss \<le> 30 \<and>
      (\<forall>s \<in> set ss. is_recordable (ms_tool s) \<and> \<not> names_a_secret secret_word (ms_args s) (Some (ms_turn s))))"

definition macros_ok :: "(string \<Rightarrow> bool) \<Rightarrow> voice_context \<times> macro_row list \<Rightarrow> bool" where
  "macros_ok secret_word s =
     (distinct (map mr_key (snd s)) \<and>
      (\<forall>r \<in> set (snd s). mr_key r \<noteq> [] \<and> mr_key r \<notin> set reserved_name_keys \<and> mr_steps r \<noteq> [] \<and> steps_ok secret_word (mr_steps r)) \<and>
      (\<forall>r \<in> set_option (vc_recording (fst s)). steps_ok secret_word (rc_steps r) \<and> (rc_status r = Awaiting_name \<longrightarrow> rc_steps r \<noteq> [])))"

lemma name_key_not_reserved: "name_key text \<notin> set reserved_name_keys"
proof -
  have "[] \<notin> set reserved_name_keys" by (simp add: reserved_name_keys_def)
  then show ?thesis by (simp add: name_key_def Let_def)
qed

lemma secret_turn_kept:
  "names_a_secret secret_word args (Some (filter (\<lambda>(k, v). k \<notin> set turn_keys_dropped) t)) = names_a_secret secret_word args (Some t)"
proof -
  have same: "filter (\<lambda>(k, v). k \<in> {''text_to_type'', ''find_text'', ''replace_text'', ''question''})
      (filter (\<lambda>(k, v). k \<notin> set turn_keys_dropped) t) =
      filter (\<lambda>(k, v). k \<in> {''text_to_type'', ''find_text'', ''replace_text'', ''question''}) t" for t :: fields
    by (induction t) (auto simp: turn_keys_dropped_def)
  show ?thesis unfolding names_a_secret_def option.case same ..
qed

lemma capture_ok:
  assumes "\<forall>r \<in> set_option (vc_recording ctx). steps_ok secret_word (rc_steps r) \<and> (rc_status r = Awaiting_name \<longrightarrow> rc_steps r \<noteq> [])"
    and "r \<in> set_option (vc_recording (snd (capture_step secret_word tool args turn now ctx)))"
  shows "steps_ok secret_word (rc_steps r) \<and> (rc_status r = Awaiting_name \<longrightarrow> rc_steps r \<noteq> [])"
proof -
  have secret: "names_a_secret secret_word args (Some (filter (\<lambda>(k, v). k \<notin> set turn_keys_dropped) (case turn of None \<Rightarrow> [] | Some t \<Rightarrow> t))) =
      names_a_secret secret_word args turn"
    unfolding secret_turn_kept by (cases turn) (simp_all add: names_a_secret_def)
  show ?thesis
  proof (cases "vc_recording ctx")
    case None
    then show ?thesis using assms by (simp add: capture_step_def)
  next
    case (Some old)
    then have old: "steps_ok secret_word (rc_steps old)" "rc_status old = Awaiting_name \<longrightarrow> rc_steps old \<noteq> []"
      using assms(1) by auto
    show ?thesis
    proof (cases "rc_status old = Recording \<and> is_recordable tool \<and> \<not> names_a_secret secret_word args turn \<and> length (rc_steps old) < max_macro_steps")
      case False
      then have "rc_steps r = rc_steps old" "rc_status r = rc_status old"
        using assms(2) Some by (auto simp: capture_step_def split: if_splits)
      then show ?thesis using old by simp
    next
      case True
      then have "rc_steps r = rc_steps old @ [\<lparr>ms_tool = tool, ms_args = args,
          ms_turn = filter (\<lambda>(k, v). k \<notin> set turn_keys_dropped) (case turn of None \<Rightarrow> [] | Some t \<Rightarrow> t), ms_at = now\<rparr>]"
        "rc_status r = Recording"
        using assms(2) Some by (auto simp: capture_step_def)
      then show ?thesis using old(1) True by (simp add: steps_ok_def secret max_macro_steps_def)
    qed
  qed
qed

lemma macro_name_ok:
  assumes "macros_ok secret_word (ctx, rows)"
  shows "macros_ok secret_word (snd (macro_name nid now args (ctx, rows)))"
proof (cases "is_awaiting_name ctx \<and> spoken_macro_name ctx args \<noteq> [] \<and> name_key (spoken_macro_name ctx args) \<noteq> []")
  case False
  then show ?thesis using assms by (auto simp: macro_name_def Let_def)
next
  case True
  then obtain r where r: "vc_recording ctx = Some r" "rc_status r = Awaiting_name"
    by (auto simp: is_awaiting_name_def)
  then have steps: "rc_steps r \<noteq> []" "steps_ok secret_word (rc_steps r)" using assms by (auto simp: macros_ok_def)
  have cut: "take max_macro_steps (rc_steps r) = rc_steps r"
    using steps(2) by (simp add: steps_ok_def max_macro_steps_def)
  let ?key = "name_key (spoken_macro_name ctx args)"
  have key: "?key \<notin> set reserved_name_keys" by (rule name_key_not_reserved)
  show ?thesis
  proof (cases "row_get mr_key ?key rows")
    case None
    then have "?key \<notin> mr_key ` set rows" by (simp add: row_get_None_iff)
    then show ?thesis using assms True r steps key None
      by (auto simp: macro_name_def Let_def take_pending_def save_macro_def find_macro_def macros_ok_def cut)
  next
    case (Some old)
    then have old: "mr_key old = ?key" by (auto dest: row_get_SomeD)
    define row where "row = old\<lparr>mr_name := take 200 (strip (spoken_macro_name ctx args)), mr_steps := rc_steps r, mr_updated_at := now\<rparr>"
    have "snd (macro_name nid now args (ctx, rows)) = (ctx\<lparr>vc_recording := None\<rparr>, row_put mr_key ?key (\<lambda>_. row) rows)"
      using True r steps Some
      by (simp add: macro_name_def Let_def take_pending_def save_macro_def find_macro_def cut row_def)
    moreover have "map mr_key (row_put mr_key ?key (\<lambda>_. row) rows) = map mr_key rows"
      using old by (auto simp: row_put_def row_def)
    ultimately show ?thesis using assms True steps key old
      by (auto simp: macros_ok_def row_def set_row_put)
  qed
qed

lemma voice_event_ok:
  assumes "macros_ok secret_word s"
  shows "macros_ok secret_word (voice_event_step secret_word e s)"
proof -
  obtain now ev where e: "e = (now, ev)" by (cases e) auto
  obtain ctx rows where s: "s = (ctx, rows)" by (cases s) auto
  note ok = assms [unfolded s]
  show ?thesis
  proof (cases ev)
    case Ev_start
    then show ?thesis using ok
      by (auto simp: e s macro_record_start_def begin_recording_def macros_ok_def steps_ok_def)
  next
    case Ev_end
    then show ?thesis using ok
      by (auto simp: e s macro_record_end_def end_recording_def macros_ok_def Let_def split: option.splits)
  next
    case (Ev_name nid args)
    then show ?thesis using macro_name_ok [OF ok] by (simp add: e s)
  next
    case Ev_cancel
    then show ?thesis using ok by (auto simp: e s macro_cancel_def cancel_recording_def macros_ok_def split: option.splits)
  next
    case (Ev_call tool args)
    have "\<forall>r \<in> set_option (vc_recording (snd (capture_step secret_word tool args (vc_turn ctx) now ctx))).
        steps_ok secret_word (rc_steps r) \<and> (rc_status r = Awaiting_name \<longrightarrow> rc_steps r \<noteq> [])"
      using ok by (intro ballI, elim capture_ok [rotated]) (simp add: macros_ok_def)
    then show ?thesis using ok Ev_call by (simp add: e s macros_ok_def)
  next
    case (Ev_heard turn)
    then show ?thesis using ok by (simp add: e s macros_ok_def)
  next
    case (Ev_delete args)
    then show ?thesis using ok
      by (auto simp: e s macro_delete_def delete_macro_def macros_ok_def Let_def distinct_map_filter split: option.splits)
  next
    case (Ev_counted args)
    have "map mr_key (row_put mr_key k (mark_run now) rows) = map mr_key rows" for k
      by (simp add: mark_run_def)
    then show ?thesis using ok Ev_counted by (auto simp: e s macros_ok_def set_row_put mark_run_def)
  qed
qed

text \<open>
  The macros stay well formed in every conversation.  From an empty table and an idle session, after any sequence
  of starts, ends, names, cancellations, calls, utterances, deletions and runs: no two macros have one name key, no key is
  empty or a control word, every macro has between one and thirty steps, and no kept step, in a row or in a recording,
  is a macro tool, a conversation tool or a research, or names a secret.
\<close>

theorem macros_stay_wellformed:
  "macros_ok secret_word (conversation secret_word evs (\<lparr>vc_recording = None, vc_turn = None, vc_rest = []\<rparr>, []))"
proof (induction evs rule: rev_induct)
  case Nil
  then show ?case by (simp add: conversation_def macros_ok_def)
next
  case (snoc e evs)
  then show ?case using voice_event_ok by (simp add: conversation_def)
qed

section \<open>A sample\<close>

definition idle_session :: voice_context where
  "idle_session = \<lparr>vc_recording = None, vc_turn = None, vc_rest = []\<rparr>"

definition sample_calls :: "(string \<times> fields \<times> fields option \<times> instant) list" where
  "sample_calls = [(''operator.app_open'', [(''app'', JStr ''mail'')], None, 1), (''macro.list'', [], None, 2),
     (''operator.key'', [(''key'', JStr ''n'')], None, 3)]"

lemma macro_holds_the_calls_made_witness:
  "\<exists>row replaced ctx4 rows'.
     macro_name 1 5 [(''name'', JStr ''yeni mail'')]
       (snd (macro_record_end (capture_all (\<lambda>_. False) sample_calls (snd (macro_record_start 0 idle_session)))), []) =
       (Saved row replaced, ctx4, rows') \<and>
     map ms_tool (mr_steps row) = [''operator.app_open'', ''operator.key'']"
proof -
  define ctx1 where "ctx1 = snd (macro_record_start 0 idle_session)"
  define ctx2 where "ctx2 = capture_all (\<lambda>_. False) sample_calls ctx1"
  obtain answer ctx3 where e: "macro_record_end ctx2 = (answer, ctx3)" by (cases "macro_record_end ctx2") auto
  obtain answer' ctx4 rows' where n: "macro_name 1 5 [(''name'', JStr ''yeni mail'')] (ctx3, []) = (answer', ctx4, rows')"
    by (cases "macro_name 1 5 [(''name'', JStr ''yeni mail'')] (ctx3, [])") auto
  have start: "macro_record_start 0 idle_session = (Recording_started, ctx1)"
    by (simp add: ctx1_def macro_record_start_def is_recording_def is_awaiting_name_def idle_session_def)
  have name: "''yeni mail'' = spoken_macro_name idle_session [(''name'', JStr ''yeni mail'')]" "name_key ''yeni mail'' \<noteq> []"
    by code_simp+
  have kept: "filter (kept_call (\<lambda>_. False)) sample_calls =
      [(''operator.app_open'', [(''app'', JStr ''mail'')], None, 1), (''operator.key'', [(''key'', JStr ''n'')], None, 3)]"
    by (simp add: sample_calls_def kept_call_def is_recordable_def names_a_secret_def list_ex_iff)
  have "vc_recording idle_session = None" by (simp add: idle_session_def)
  from macro_holds_the_calls_made [OF this start ctx2_def e n name(1) _ name(2)] obtain row replaced where
      "answer' = Saved row replaced" "map ms_tool (mr_steps row) = [''operator.app_open'', ''operator.key'']"
    by (auto simp: kept)
  then show ?thesis using n e by (auto simp: ctx1_def ctx2_def)
qed

definition click_spec :: "nat tool_spec" where
  "click_spec = \<lparr>ts_name = ''operator.key'', ts_long_running = False, ts_preamble = None, ts_handler = (\<lambda>args ctx n. (Inr (JObj []), ctx, Suc n))\<rparr>"

definition sample_replay_env :: "nat replay_env" where
  "sample_replay_env = \<lparr>re_registry = (\<lambda>t. if t = ''operator.key'' then Some click_spec else None),
     re_gate = (\<lambda>w tool. evaluate_step_up [] tool 1 False 0 Enforce), re_earned = (\<lambda>t r. ''succeeded''), re_now = 9, re_iso = ''t''\<rparr>"

definition sample_macro :: macro_row where
  "sample_macro = \<lparr>mr_id = 1, mr_name = ''yeni mail'', mr_key = ''yeni mail'',
     mr_steps = [\<lparr>ms_tool = ''operator.key'', ms_args = [], ms_turn = [], ms_at = 0\<rparr>], mr_run_count = 0, mr_last_run_at = None,
     mr_updated_at = 0\<rparr>"

lemma macro_never_passes_gate_witness:
  "macro_run (sample_replay_env\<lparr>re_registry := (\<lambda>t. if t = ''operator.key'' then Some (click_spec\<lparr>ts_handler := (\<lambda>args ctx n. (Inl (Crash ''x''), ctx, 7))\<rparr>) else None)\<rparr>)
     [(''name'', JStr ''yeni mail'')] (idle_session, [sample_macro], 0) =
   macro_run sample_replay_env [(''name'', JStr ''yeni mail'')] (idle_session, [sample_macro], 0)"
proof (rule macro_never_passes_gate)
  have "tier_of ''operator.key'' = Sensitive" by code_simp
  then show "same_where_allowed sample_replay_env (sample_replay_env\<lparr>re_registry := (\<lambda>t. if t = ''operator.key'' then Some (click_spec\<lparr>ts_handler := (\<lambda>args ctx n. (Inl (Crash ''x''), ctx, 7))\<rparr>) else None)\<rparr>)"
    by (simp add: same_where_allowed_def sample_replay_env_def click_spec_def evaluate_step_up_def step_up_refuse_def)
qed

lemma replay_in_order_until_failure_witness:
  "\<exists>answer ctx' rows' w'. macro_run sample_replay_env [(''name'', JStr ''yeni mail'')] (idle_session, [sample_macro], 0) = (answer, ctx', rows', w') \<and>
     vc_turn ctx' = None"
proof -
  obtain answer ctx' rows' w' where run: "macro_run sample_replay_env [(''name'', JStr ''yeni mail'')] (idle_session, [sample_macro], 0) = (answer, ctx', rows', w')"
    by (cases "macro_run sample_replay_env [(''name'', JStr ''yeni mail'')] (idle_session, [sample_macro], 0)") auto
  from replay_in_order_until_failure [OF run] show ?thesis using run by (auto simp: idle_session_def)
qed

lemma sentence_names_macro_witness:
  "match_stored_name [''yeni'', ''mail'', ''sekmesini'', ''ac''] [''yeni mail'', ''yeni mail sekmesi''] = Some ''yeni mail sekmesi'' \<and>
   names_key [''yeni'', ''mail'', ''sekmesini'', ''ac''] ''yeni mail sekmesi''"
proof -
  have match: "match_stored_name [''yeni'', ''mail'', ''sekmesini'', ''ac''] [''yeni mail'', ''yeni mail sekmesi''] = Some ''yeni mail sekmesi''"
    by code_simp
  have folded: "map fold_word (filter (\<lambda>w. w \<noteq> []) [''yeni'', ''mail'', ''sekmesini'', ''ac'']) = [''yeni'', ''mail'', ''sekmesini'', ''ac'']"
    by code_simp
  show ?thesis using sentence_names_macro [of "[''yeni mail'', ''yeni mail sekmesi'']" "[''yeni'', ''mail'', ''sekmesini'', ''ac'']"]
    unfolding match folded option.case by blast
qed

section \<open>What the code allows\<close>

text \<open>A control word is never a key, but it may be a key with an ending: the owner who says \<open>yeniden\<close> (again) runs
  a macro called \<open>yeni\<close>, and \<open>peki\<close> (all right) runs a macro called \<open>pek\<close>.\<close>

lemma control_word_runs_macro:
  "match_stored_name [''yeniden''] [''yeni''] = Some ''yeni''" "match_stored_name [''peki''] [''pek''] = Some ''pek''"
  "''yeniden'' \<in> set reserved_name_keys" "''peki'' \<in> set reserved_name_keys"
  by code_simp+

text \<open>The frame words are dropped before the name is cut to eight words, so a stored key may end in a frame word; its
  own key is then another one.\<close>

lemma key_of_key_differs:
  "name_key ''a b c d e f g bu h'' = ''a b c d e f g bu''" "name_key ''a b c d e f g bu'' = ''a b c d e f g''"
  by code_simp+

end
