(* ===== verification/Voice_Relay.thy ===== *)
theory Voice_Relay imports Voice_Macros begin

text \<open>
  The relay of tool calls in a voice session (\<open>app/voice/realtime_sessions/service.py\<close>): the sessions and their media
  leg, the one door every tool call passes, the completion of long-running calls by the client and by the system, the
  sweeps, and the sideband buffer.  The status a result earns is from \<open>tools.py\<close>, the questions of an uncertain turn from
  \<open>app/voice/understanding/policy.py\<close>.
  A tool's handler is an argument; it sees the home: devices, verdicts and the rest.  Sentences are in folded spelling.
  The properties: a call id is executed once, nothing happens that the gate, the understanding or the session forbids,
  a finished call never changes, the context and the leg move only as they should.
\<close>

section \<open>The status a result earns\<close>

datatype tool_status = Running | Succeeded | Failed | Needs_clarification

definition research_followup_tools :: "string list" where
  "research_followup_tools = [''research.explain'', ''research.sources'', ''research.finding_detail'']"

definition clarifying_tools :: "string list" where
  "clarifying_tools = [
     ''operator.window_control'', ''operator.type'', ''operator.key'', ''operator.pointer'', ''operator.ui'',
     ''operator.inspect'', ''operator.app_close'', ''operator.process'', ''operator.service'', ''file.search'',
     ''document.read'', ''document.summarize'', ''document.answer'', ''document.compare'', ''document.inspect'',
     ''document.common_points'', ''document.previous'', ''document.preview'', ''document.find_text'',
     ''document.duplicates'', ''document.dedup'', ''document.write'', ''document.append'', ''document.edit'',
     ''document.rename'', ''document.move'', ''document.copy'', ''document.delete'', ''document.apply'',
     ''document.discard'', ''document.undo'', ''document.versions'', ''mail.inbox'', ''mail.search'', ''mail.read'',
     ''mail.thread'', ''mail.draft'', ''mail.edit_draft'', ''mail.read_draft'', ''mail.send'', ''mail.discard'',
     ''mail.attachments'', ''mail.save_attachment'', ''calendar.agenda'', ''calendar.find_slot'', ''calendar.propose'',
     ''calendar.read_proposal'', ''calendar.commit'', ''calendar.discard'', ''calendar.cancel'', ''artifact.create'',
     ''artifact.render'', ''artifact.validate'', ''artifact.open'', ''artifact.list'', ''app.create'', ''app.run'',
     ''app.test'', ''app.stop'', ''app.status'', ''app.open'', ''app.list'', ''capability.request'', ''capability.status'',
     ''capability.approve'', ''capability.cancel'', ''scene.create'', ''scene.add'', ''scene.transform'',
     ''scene.material'', ''scene.light'', ''scene.camera'', ''scene.render'', ''scene.inspect'', ''scene.animate'',
     ''scene.export'', ''executive.start'', ''executive.status'', ''executive.explain'', ''executive.pause'',
     ''executive.resume'', ''executive.retry'', ''executive.amend'', ''executive.cancel'', ''weather.current'',
     ''weather.last_evidence'', ''location.get_default'', ''location.set_default'', ''creative.redraw'', ''creative.open'',
     ''creative.background'', ''creative.adjust'', ''creative.cleanup'', ''creative.design'', ''creative.export'',
     ''native.create'', ''native.build'', ''native.package'', ''native.install'', ''native.launch'', ''native.check'',
     ''native.fix'', ''native.rebuild'', ''native.verify'', ''native.log'', ''native.uninstall'', ''native.update'',
     ''macro.record_start'', ''macro.record_end'', ''macro.name'', ''macro.cancel'', ''macro.run'', ''macro.list'',
     ''macro.delete'', ''watch.create'', ''watch.remove'', ''household.level'', ''household.list_add'',
     ''household.list_remove'', ''household.list_read'', ''money.balance'', ''money.spent'', ''money.spend_yes'',
     ''money.spend_no'', ''money.undo'', ''money.cash'']"

definition research_empty_answer :: string where
  "research_empty_answer = ''Bu arastirma icin anlatabilecegim bir sonuc bulamadim efendim.''"

text \<open>\<open>str(x or "").strip()\<close>.\<close>

definition text_of :: "json \<Rightarrow> string" where "text_of j = (if truthy j then strip (str_of j) else [])"

definition result_is_research_bound :: "string \<Rightarrow> json \<Rightarrow> bool" where
  "result_is_research_bound tool result =
     (tool \<in> set research_followup_tools \<or>
      dict_get ''routed'' result \<in> {JStr ''research_report'', JStr ''research_reference''})"

definition terminal_status_for :: "string \<Rightarrow> json \<Rightarrow> tool_status \<times> string option" where
  "terminal_status_for tool result =
     (let speech = text_of (dict_get ''speech'' result); target = truthy (dict_get ''research_job_id'' result);
          status = (if truthy (dict_get ''status'' result) then str_of (dict_get ''status'' result) else []) in
      if \<not> result_is_research_bound tool result then
        (if tool \<in> set clarifying_tools \<and> is_dict result \<and> dict_get ''status'' result = JStr ''needs_clarification'' \<and> speech \<noteq> []
         then (Needs_clarification, None) else (Succeeded, None))
      else if status = ''needs_clarification'' then
        (if speech \<noteq> [] \<and> \<not> target then (Needs_clarification, None) else (Failed, Some ''internal_bug''))
      else if status = ''no_report'' then (Failed, Some ''empty_result'')
      else if status = ''ok'' \<and> target \<and> speech \<noteq> [] then (Succeeded, None)
      else (Failed, Some ''internal_bug''))"

text \<open>\<open>{**base, **more}\<close>.\<close>

definition dict_merge :: "fields \<Rightarrow> fields \<Rightarrow> fields" where
  "dict_merge base extra = foldl (\<lambda>d (k, v). AList.update k v d) base extra"

fun dict_fields :: "json \<Rightarrow> fields" where
  "dict_fields (JObj kvs) = kvs"
| "dict_fields _ = []"

definition failed_result_payload :: "json \<Rightarrow> string \<Rightarrow> json" where
  "failed_result_payload result error_class =
     (let speech = (if error_class = ''empty_result'' then text_of (dict_get ''speech'' result) else []) in
      JObj (dict_merge (dict_fields result)
        [(''status'', JStr ''failed''), (''error_class'', JStr error_class),
         (''message'', JStr (if error_class = ''empty_result'' then ''the resolved research has no report body to read''
            else ''research-bound result without a target or without speech'')),
         (''speech'', JStr (if speech \<noteq> [] then speech else research_empty_answer))]))"

section \<open>Questions of the turn\<close>

definition device_key_parts :: "string list" where
  "device_key_parts = [''device'', ''cihaz'', ''machine'', ''computer'', ''bilgisayar'', ''hostname'']"

text \<open>The keys of a call's arguments that name a device; \<open>fuzzy.fold\<close> lower-cases ASCII.\<close>

definition device_slot_keys :: "fields \<Rightarrow> string list" where
  "device_slot_keys args =
     filter (\<lambda>k. let folded = filter (\<lambda>c. CHR ''a'' \<le> c \<and> c \<le> CHR ''z'' \<or> is_digit c) (map lower k)
                 in list_ex (\<lambda>part. contains_sub part folded) device_key_parts) (map fst args)"

definition question_fresh :: instant where "question_fresh = seconds 60"

text \<open>\<open>read_at\<close> is \<open>datetime.fromisoformat\<close>.\<close>

definition turn_question :: "(json \<Rightarrow> instant option) \<Rightarrow> fields option \<Rightarrow> instant \<Rightarrow> string option" where
  "turn_question read_at turn now =
     (let block = (case turn of None \<Rightarrow> JNull | Some t \<Rightarrow> dict_get ''understanding'' (JObj t)) in
      if \<not> is_dict block \<or> dict_get ''band'' block \<noteq> JStr ''low'' then None
      else (case dict_get ''question'' block of
              JStr q \<Rightarrow>
                (if q = [] then None
                 else (case turn of
                         None \<Rightarrow> None
                       | Some t \<Rightarrow>
                           (case read_at (dict_get ''at'' (JObj t)) of
                              None \<Rightarrow> None
                            | Some at_time \<Rightarrow>
                                if 0 \<le> now - at_time \<and> now - at_time \<le> question_fresh then Some q else None)))
            | _ \<Rightarrow> None))"

definition understanding_refusal ::
    "(json \<Rightarrow> instant option) \<Rightarrow> string \<Rightarrow> string \<Rightarrow> fields \<Rightarrow> fields option \<Rightarrow> instant \<Rightarrow>
     (tool_status \<times> string option \<times> json) option" where
  "understanding_refusal read_at device_question name args turn now =
     (if device_slot_keys args \<noteq> [] then
        Some (Failed, Some ''validation_error'',
          JObj [(''refused'', JStr ''device_slot_forbidden''), (''keys'', JList (map JStr (device_slot_keys args))),
            (''speech'', JStr device_question)])
      else (case turn_question read_at turn now of
              None \<Rightarrow> None
            | Some q \<Rightarrow>
                (let result = JObj [(''status'', JStr ''needs_clarification''), (''speech'', JStr q), (''candidates'', JList []),
                       (''refused'', JStr ''understanding_low'')]
                 in Some (fst (terminal_status_for name result), snd (terminal_status_for name result), result))))"

section \<open>Sessions, calls and the home\<close>

datatype rt_state = Rt_created | Rt_active | Rt_closed | Rt_expired

record rt_session =
  rs_id :: nat
  rs_provider :: string
  rs_owner :: nat
  rs_device :: "nat option"
  rs_client :: string
  rs_state :: rt_state
  rs_plan_id :: "string option"
  rs_ctx :: voice_context
  rs_summary :: string
  rs_created :: instant
  rs_expires :: "instant option"
  rs_closed :: "instant option"
  rs_updated :: instant

record tool_call =
  tc_session :: nat
  tc_call_id :: string
  tc_name :: string
  tc_args :: fields
  tc_status :: tool_status
  tc_result :: "json option"
  tc_error :: "string option"
  tc_long :: bool
  tc_created :: instant
  tc_completed :: "instant option"

abbreviation tc_key :: "tool_call \<Rightarrow> nat \<times> string" where "tc_key c \<equiv> (tc_session c, tc_call_id c)"

text \<open>What a handler sees and changes: the devices, the verdicts, the frames it pushes in this call, the rest.\<close>

record 'w home =
  hm_devices :: broker_db
  hm_verdicts :: "verdict_row list"
  hm_pushes :: "(string \<times> json) list"
  hm_rest :: 'w

text \<open>The tables: sessions, calls, briefings with the time they were heard, the audit as (action, session, call).\<close>

record 'w relay =
  rl_sessions :: "rt_session list"
  rl_calls :: "tool_call list"
  rl_home :: "'w home"
  rl_briefings :: "(string \<times> instant option) list"
  rl_clock :: "instant option"
  rl_audit :: "(string \<times> nat \<times> string) list"

record owner_session =
  ow_session :: nat
  ow_device :: "nat option"
  ow_client :: string

text \<open>
  The fixed surroundings: the registry, the mode of the step-up gate, the refusal of a second research on a follow-up turn,
  the question that offers the devices, the reader of times, the secret words, the push channel (device and frame),
  the preference for carrying conversations over, the text of a time, the name of a device, the focus of research.
\<close>

record 'w relay_env =
  rv_tools :: "(string \<times> 'w home tool_spec) list"
  rv_mode :: step_up_mode
  rv_followup :: "'w home \<Rightarrow> string \<Rightarrow> voice_context \<Rightarrow> instant \<Rightarrow> json option"
  rv_device_question :: "'w home \<Rightarrow> string"
  rv_read_at :: "json \<Rightarrow> instant option"
  rv_secret :: "string \<Rightarrow> bool"
  rv_push :: "nat option \<Rightarrow> json \<Rightarrow> bool"
  rv_carryover :: bool
  rv_iso :: "instant \<Rightarrow> string"
  rv_label :: "'w home \<Rightarrow> nat option \<Rightarrow> string option"
  rv_focus :: "string \<Rightarrow> nat \<Rightarrow> instant \<Rightarrow> 'w home \<Rightarrow> 'w home"

datatype voice_fail =
    No_session | Session_over rt_state | Session_expired | Leg_mismatch | Provider_gone
  | Unknown_call string | Already_resolved string tool_status | Mint_failed

fun cloud_tool_name :: "string \<Rightarrow> string" where
  "cloud_tool_name (a # b # cs) =
     (if a = CHR ''_'' \<and> b = CHR ''_'' then CHR ''.'' # cloud_tool_name cs else a # cloud_tool_name (b # cs))"
| "cloud_tool_name cs = cs"

definition registry_get :: "'w relay_env \<Rightarrow> string \<Rightarrow> 'w home tool_spec option" where
  "registry_get env name =
     (case map_of (rv_tools env) name of None \<Rightarrow> map_of (rv_tools env) (cloud_tool_name name) | Some s \<Rightarrow> Some s)"

definition put_session :: "nat \<Rightarrow> (rt_session \<Rightarrow> rt_session) \<Rightarrow> 'w relay \<Rightarrow> 'w relay" where
  "put_session sid f st = st\<lparr>rl_sessions := row_put rs_id sid f (rl_sessions st)\<rparr>"

definition audit_rt :: "string \<Rightarrow> nat \<Rightarrow> string \<Rightarrow> 'w relay \<Rightarrow> 'w relay" where
  "audit_rt action sid call_id st = st\<lparr>rl_audit := rl_audit st @ [(action, sid, call_id)]\<rparr>"

definition get_tool_call :: "nat \<Rightarrow> string \<Rightarrow> 'w relay \<Rightarrow> tool_call option" where
  "get_tool_call sid call_id st = row_get tc_key (sid, call_id) (rl_calls st)"

definition put_tool_call :: "tool_call \<Rightarrow> 'w relay \<Rightarrow> 'w relay" where
  "put_tool_call c st = st\<lparr>rl_calls := row_put tc_key (tc_key c) (\<lambda>_. c) (rl_calls st)\<rparr>"

definition require_live :: "instant \<Rightarrow> nat \<Rightarrow> 'w relay \<Rightarrow> (voice_fail + rt_session) \<times> 'w relay" where
  "require_live now sid st =
     (case row_get rs_id sid (rl_sessions st) of
        None \<Rightarrow> (Inl No_session, st)
      | Some row \<Rightarrow>
          if rs_state row \<in> {Rt_closed, Rt_expired} then (Inl (Session_over (rs_state row)), st)
          else (case rs_expires row of
                  None \<Rightarrow> (Inr row, st)
                | Some e \<Rightarrow>
                    if e \<le> now
                    then (Inl Session_expired, audit_rt ''voice_session_expired'' sid []
                       (put_session sid (\<lambda>r. r\<lparr>rs_state := Rt_expired, rs_closed := Some now, rs_updated := now\<rparr>) st))
                    else (Inr row, st)))"

definition require_leg :: "rt_session \<Rightarrow> owner_session \<Rightarrow> voice_fail + unit" where
  "require_leg row owner = (if rs_owner row \<noteq> ow_session owner then Inl Leg_mismatch else Inr ())"

definition touch :: "instant \<Rightarrow> rt_session \<Rightarrow> rt_session" where
  "touch now row = row\<lparr>rs_state := (if rs_state row = Rt_created then Rt_active else rs_state row), rs_updated := now\<rparr>"

section \<open>The sideband\<close>

definition ctx_get :: "string \<Rightarrow> voice_context \<Rightarrow> json" where "ctx_get k ctx = dict_get k (JObj (vc_rest ctx))"

definition ctx_put :: "string \<Rightarrow> json \<Rightarrow> voice_context \<Rightarrow> voice_context" where
  "ctx_put k v ctx = ctx\<lparr>vc_rest := AList.update k v (vc_rest ctx)\<rparr>"

definition max_pending_sideband :: nat where "max_pending_sideband = 50"

fun list_items :: "json \<Rightarrow> json list" where
  "list_items (JList xs) = xs"
| "list_items _ = []"

abbreviation pending_frames :: "voice_context \<Rightarrow> json list" where
  "pending_frames ctx \<equiv> list_items (ctx_get ''pending_sideband'' ctx)"

definition sideband_frame :: "nat \<Rightarrow> string \<Rightarrow> json \<Rightarrow> json" where
  "sideband_frame sid event payload =
     JObj [(''session_id'', JInt (int sid)), (''event'', JStr event), (''payload'', payload)]"

definition last_n :: "nat \<Rightarrow> 'a list \<Rightarrow> 'a list" where "last_n n xs = drop (length xs - n) xs"

definition queue_frame :: "json \<Rightarrow> voice_context \<Rightarrow> voice_context" where
  "queue_frame frame ctx =
     ctx_put ''pending_sideband'' (JList (last_n max_pending_sideband (pending_frames ctx @ [frame]))) ctx"

definition deliver :: "'w relay_env \<Rightarrow> rt_session \<Rightarrow> string \<times> json \<Rightarrow> voice_context \<times> 'w relay \<Rightarrow> bool \<times> voice_context \<times> 'w relay" where
  "deliver env row ev s =
     (let (ctx, st) = s; frame = sideband_frame (rs_id row) (fst ev) (snd ev) in
      if rv_push env (rs_device row) frame then (True, ctx, audit_rt ''voice_sideband_pushed'' (rs_id row) [] st)
      else (False, queue_frame frame ctx, audit_rt ''voice_sideband_queued'' (rs_id row) [] st))"

definition deliver_all :: "'w relay_env \<Rightarrow> rt_session \<Rightarrow> (string \<times> json) list \<Rightarrow> voice_context \<times> 'w relay \<Rightarrow> voice_context \<times> 'w relay" where
  "deliver_all env row evs s = foldl (\<lambda>s ev. snd (deliver env row ev s)) s evs"

definition queue_sideband_frame :: "json \<Rightarrow> nat \<Rightarrow> 'w relay \<Rightarrow> 'w relay" where
  "queue_sideband_frame frame sid st =
     audit_rt ''voice_sideband_queued'' sid [] (put_session sid (\<lambda>r. r\<lparr>rs_ctx := queue_frame frame (rs_ctx r)\<rparr>) st)"

definition drained :: "voice_context \<Rightarrow> voice_context" where "drained ctx = ctx_put ''pending_sideband'' (JList []) ctx"

text \<open>\<open>mark_delivered\<close> of the briefings: idempotent.\<close>

definition mark_briefing :: "instant \<Rightarrow> string \<Rightarrow> (string \<times> instant option) list \<Rightarrow> (string \<times> instant option) list" where
  "mark_briefing now i rows = map (\<lambda>(j, t). (j, if j = i \<and> t = None then Some now else t)) rows"

definition briefing_ids :: "json list \<Rightarrow> string list" where
  "briefing_ids frames =
     concat (map (\<lambda>f. if dict_get ''event'' f = JStr ''say''
                      then map str_of (list_items (dict_get ''briefing_ids'' (dict_get ''payload'' f))) else []) frames)"

definition stamp_delivered_briefings :: "instant \<Rightarrow> json list \<Rightarrow> 'w relay \<Rightarrow> 'w relay" where
  "stamp_delivered_briefings now frames st =
     st\<lparr>rl_briefings := foldl (\<lambda>rows i. mark_briefing now i rows) (rl_briefings st) (briefing_ids frames)\<rparr>"

definition pull_pending_sideband ::
    "owner_session \<Rightarrow> nat \<Rightarrow> instant \<Rightarrow> 'w relay \<Rightarrow> (voice_fail + json list) \<times> 'w relay" where
  "pull_pending_sideband owner sid now st =
     (case require_live now sid st of
        (Inl e, st') \<Rightarrow> (Inl e, st')
      | (Inr row, st') \<Rightarrow>
          (case require_leg row owner of
             Inl e \<Rightarrow> (Inl e, st')
           | Inr _ \<Rightarrow>
               if \<not> truthy (ctx_get ''pending_sideband'' (rs_ctx row)) then (Inr [], st')
               else (let frames = pending_frames (rs_ctx row) in
                     (Inr frames, stamp_delivered_briefings now frames
                        (put_session sid (\<lambda>r. touch now (r\<lparr>rs_ctx := drained (rs_ctx r)\<rparr>)) st')))))"

section \<open>The door of every tool call\<close>

record call_payload =
  cp_call_id :: string
  cp_name :: string
  cp_status :: tool_status
  cp_long :: bool
  cp_replayed :: bool
  cp_result :: "json option"
  cp_error :: "fields option"
  cp_preamble :: "string option"

text \<open>A running call's preamble is told when there is one; an empty text is none.\<close>

definition tool_row_payload :: "tool_call \<Rightarrow> string option \<Rightarrow> bool \<Rightarrow> call_payload" where
  "tool_row_payload c preamble replayed =
     \<lparr>cp_call_id = tc_call_id c, cp_name = tc_name c, cp_status = tc_status c, cp_long = tc_long c, cp_replayed = replayed,
      cp_result = (if tc_status c = Failed then None else tc_result c),
      cp_error = (if tc_status c = Failed
         then Some (dict_merge [(''error_class'', jopt (tc_error c))] (case tc_result c of None \<Rightarrow> [] | Some r \<Rightarrow> dict_fields r))
         else None),
      cp_preamble = (if tc_status c = Running \<and> preamble \<noteq> Some [] then preamble else None)\<rparr>"

definition tier_text :: "tier \<Rightarrow> string" where
  "tier_text t = (case t of Open \<Rightarrow> ''open'' | Sensitive \<Rightarrow> ''sensitive'' | Critical \<Rightarrow> ''critical'')"

definition step_up_reason_text :: "step_up_reason \<Rightarrow> string" where
  "step_up_reason_text r =
     (case r of No_verdict \<Rightarrow> ''no_speaker_verdict'' | Stale_verdict \<Rightarrow> ''speaker_verdict_stale''
        | Speaker_not_owner \<Rightarrow> ''speaker_not_owner'' | Untrusted_device \<Rightarrow> ''device_not_trusted''
        | Score_below_critical \<Rightarrow> ''score_below_critical_bar'')"

definition step_up_speech :: "step_up_reason \<Rightarrow> string" where
  "step_up_speech r =
     (case r of No_verdict \<Rightarrow> ''Bunu yapmadan once sesinizi dogrulamam gerekiyor efendim.''
        | Stale_verdict \<Rightarrow> ''Ses dogrulamasi eskidi efendim; tekrar dogrulamam gerekiyor.''
        | Speaker_not_owner \<Rightarrow> ''Sesi taniyamadim efendim; bu islemi yapamam.''
        | Untrusted_device \<Rightarrow> ''Bu cihaz kayitli degil efendim; sesle tek basina bu islemi yapamam.''
        | Score_below_critical \<Rightarrow> ''Bu islem icin ses dogrulamasi yeterince kesin degil efendim.'')"

text \<open>The refused call's result; the copy of the verdict is left out.\<close>

definition step_up_refusal :: "step_up_decision \<Rightarrow> json" where
  "step_up_refusal d =
     JObj [(''refused'', JStr ''step_up_required''), (''speech'', jopt (map_option step_up_speech (su_reason d))),
       (''allowed'', JBool (su_allowed d)), (''would_refuse'', JBool (su_would_refuse d)), (''tier'', JStr (tier_text (su_tier d))),
       (''reason'', jopt (map_option step_up_reason_text (su_reason d))), (''tool'', JStr (su_tool d)),
       (''mode'', JStr (if su_mode d = Enforce then ''enforce'' else ''shadow''))]"

definition gate_of :: "'w relay_env \<Rightarrow> owner_session \<Rightarrow> instant \<Rightarrow> 'w home \<Rightarrow> string \<Rightarrow> step_up_decision" where
  "gate_of env owner now h tool =
     evaluate_step_up (hm_verdicts h) tool (ow_session owner) (device_is_trusted (hm_devices h) (ow_device owner)) now (rv_mode env)"

text \<open>What stops a call before its handler: the gate, a second research on a follow-up turn, the understanding.\<close>

definition stopped ::
    "'w relay_env \<Rightarrow> owner_session \<Rightarrow> instant \<Rightarrow> 'w home \<Rightarrow> string \<Rightarrow> fields \<Rightarrow> voice_context \<Rightarrow>
     (string \<times> tool_status \<times> string option \<times> json) option" where
  "stopped env owner now h tool args ctx =
     (let d = gate_of env owner now h tool in
      if \<not> su_allowed d then Some (''voice_tool_call'', Failed, Some ''validation_error'', step_up_refusal d)
      else (case rv_followup env h tool ctx now of
              Some refusal \<Rightarrow> Some (''voice_research_start_refused'', Succeeded, None, refusal)
            | None \<Rightarrow>
                map_option (Pair ''voice_tool_call'')
                  (understanding_refusal (rv_read_at env) (rv_device_question env h) tool args (vc_turn ctx) now)))"

text \<open>The status, error and result of a call whose handler came back.\<close>

definition tool_outcome :: "bool \<Rightarrow> string \<Rightarrow> handler_error + json \<Rightarrow> tool_status \<times> string option \<times> json" where
  "tool_outcome long tool r =
     (case r of
        Inl (Voice_error c message details) \<Rightarrow>
          (Failed, Some c, JObj ([(''message'', JStr message), (''details'', details)] @
             (if truthy (dict_get ''speech'' details) then [(''speech'', JStr (take 2000 (str_of (dict_get ''speech'' details))))] else [])))
      | Inl (Crash name) \<Rightarrow> (Failed, Some ''internal_bug'', JObj [(''message'', JStr name)])
      | Inr result \<Rightarrow>
          if long then (Running, None, result)
          else (case terminal_status_for tool result of
                  (status, error) \<Rightarrow>
                    (status, error,
                     case error of Some e \<Rightarrow> (if status = Failed then failed_result_payload result e else result) | None \<Rightarrow> result)))"

definition unknown_tool :: "'w relay_env \<Rightarrow> string \<Rightarrow> tool_status \<times> string option \<times> json" where
  "unknown_tool env name =
     (Failed, Some ''capability_missing'',
      JObj [(''message'', JStr (''unknown tool '' @ [CHR 0x27] @ name @ [CHR 0x27])),
        (''available'', JList (map JStr (sort (map fst (rv_tools env)))))])"

text \<open>A macro being recorded keeps the call when it did something.\<close>

definition captured :: "'w relay_env \<Rightarrow> bool \<Rightarrow> tool_call \<Rightarrow> instant \<Rightarrow> voice_context \<Rightarrow> voice_context" where
  "captured env long c now ctx =
     (if tc_status c \<in> {Succeeded, Running} \<and> \<not> long \<and>
         \<not> (\<exists>r \<in> set_option (tc_result c). dict_get ''status'' r = JStr ''needs_clarification'')
      then snd (capture_step (rv_secret env) (tc_name c) (tc_args c) (vc_turn ctx) now ctx) else ctx)"

definition close_call :: "tool_call \<Rightarrow> instant \<Rightarrow> tool_status \<times> string option \<times> json \<Rightarrow> tool_call" where
  "close_call c done_at oc =
     (case oc of (status, error, result) \<Rightarrow>
        c\<lparr>tc_status := status, tc_error := error, tc_result := Some result,
          tc_completed := (if status = Running then None else Some done_at)\<rparr>)"

definition plan_of_call :: "bool \<Rightarrow> voice_context \<Rightarrow> rt_session \<Rightarrow> rt_session" where
  "plan_of_call running ctx row =
     (let plan_id = dict_get ''plan_id'' (ctx_get ''plan'' ctx) in
      if running \<and> truthy plan_id then row\<lparr>rs_plan_id := Some (str_of plan_id)\<rparr> else row)"

text \<open>The rest of the relay once the handler is back: the row, the recording, the frames, the context, the audit.\<close>

definition settle_call ::
    "'w relay_env \<Rightarrow> instant \<Rightarrow> rt_session \<Rightarrow> bool \<Rightarrow> string option \<Rightarrow> tool_call \<Rightarrow> (string \<times> json) list \<Rightarrow>
     voice_context \<times> 'w relay \<Rightarrow> call_payload \<times> 'w relay" where
  "settle_call env now row long preamble c pushes s =
     (let (ctx, st) = s;
          row' = plan_of_call (long \<and> tc_status c = Running) ctx row;
          (ctx', st') = deliver_all env row pushes (captured env long c now ctx, put_tool_call c st)
      in (tool_row_payload c preamble False,
          audit_rt ''voice_tool_call'' (rs_id row) (tc_call_id c)
            (put_session (rs_id row) (\<lambda>r. touch now (r\<lparr>rs_plan_id := rs_plan_id row', rs_ctx := ctx'\<rparr>)) st')))"

text \<open>The calls are made in the order of the code; \<open>done_at\<close> is the time when the handler is back.\<close>

definition make_call ::
    "'w relay_env \<Rightarrow> owner_session \<Rightarrow> instant \<Rightarrow> instant \<Rightarrow> rt_session \<Rightarrow> 'w home tool_spec option \<Rightarrow> tool_call \<Rightarrow> 'w relay \<Rightarrow>
     call_payload \<times> 'w relay" where
  "make_call env owner now done_at row spec c st =
     (case spec of
        None \<Rightarrow> settle_call env now row False None (close_call c done_at (unknown_tool env (tc_name c))) [] (rs_ctx row, st)
      | Some sp \<Rightarrow>
          (case stopped env owner now (rl_home st) (tc_name c) (tc_args c) (rs_ctx row) of
             Some (action, oc) \<Rightarrow>
               (let c' = (close_call c done_at oc)\<lparr>tc_long := False\<rparr> in
                (tool_row_payload c' None False,
                 put_session (rs_id row) (touch now) (audit_rt action (rs_id row) (tc_call_id c) (put_tool_call c' st))))
           | None \<Rightarrow>
               (case ts_handler sp (tc_args c) (rs_ctx row) ((rl_home st)\<lparr>hm_pushes := []\<rparr>) of
                  (r, ctx, h) \<Rightarrow>
                    (let oc = tool_outcome (ts_long_running sp) (tc_name c) r in
                     settle_call env now row (ts_long_running sp) (if fst oc = Running then ts_preamble sp else None)
                       (close_call c done_at oc) (hm_pushes h) (ctx, st\<lparr>rl_home := h\<lparr>hm_pushes := []\<rparr>\<rparr>)))))"

text \<open>A request of the same call id may have committed its row in between: it is replayed then.\<close>

definition handle_tool_call ::
    "'w relay_env \<Rightarrow> owner_session \<Rightarrow> nat \<Rightarrow> string \<Rightarrow> string \<Rightarrow> fields \<Rightarrow> tool_call option \<Rightarrow> instant \<Rightarrow> instant \<Rightarrow> 'w relay \<Rightarrow>
     (voice_fail + call_payload) \<times> 'w relay" where
  "handle_tool_call env owner sid call_id name args rival now done_at st =
     (case require_live now sid st of
        (Inl e, st') \<Rightarrow> (Inl e, st')
      | (Inr row, st') \<Rightarrow>
          (case require_leg row owner of
             Inl e \<Rightarrow> (Inl e, st')
           | Inr _ \<Rightarrow>
               (case get_tool_call sid call_id st' of
                  Some c \<Rightarrow>
                    (Inr (tool_row_payload c (Option.bind (registry_get env (tc_name c)) ts_preamble) True),
                     audit_rt ''voice_tool_call_replayed'' sid call_id st')
                | None \<Rightarrow>
                    (case rival of
                       Some w \<Rightarrow>
                         (let w' = w\<lparr>tc_session := sid, tc_call_id := call_id\<rparr> in
                          (Inr (tool_row_payload w' None True), st'\<lparr>rl_calls := rl_calls st' @ [w']\<rparr>))
                     | None \<Rightarrow>
                         (let spec = registry_get env name;
                              c = \<lparr>tc_session = sid, tc_call_id = call_id, tc_name = (case spec of None \<Rightarrow> name | Some sp \<Rightarrow> ts_name sp),
                                   tc_args = args, tc_status = Running, tc_result = None, tc_error = None,
                                   tc_long = (case spec of None \<Rightarrow> False | Some sp \<Rightarrow> ts_long_running sp),
                                   tc_created = now, tc_completed = None\<rparr>;
                              (p, st'') = make_call env owner now done_at row spec c (st'\<lparr>rl_calls := rl_calls st' @ [c]\<rparr>)
                          in (Inr p, st''))))))"

section \<open>Completion\<close>

definition tool_status_text :: "tool_status \<Rightarrow> string" where
  "tool_status_text s = (case s of Running \<Rightarrow> ''running'' | Succeeded \<Rightarrow> ''succeeded'' | Failed \<Rightarrow> ''failed''
     | Needs_clarification \<Rightarrow> ''needs_clarification'')"

text \<open>\<open>str(a or b or "")\<close>.\<close>

definition first_text :: "json list \<Rightarrow> string" where
  "first_text js = (case find truthy js of None \<Rightarrow> [] | Some j \<Rightarrow> str_of j)"

definition resolved_call :: "bool \<Rightarrow> fields option \<Rightarrow> fields option \<Rightarrow> instant \<Rightarrow> tool_call \<Rightarrow> tool_call" where
  "resolved_call by_system result error now c =
     (case error of
        Some (e # es) \<Rightarrow>
          (let err = JObj (e # es) in
           c\<lparr>tc_status := Failed, tc_error := Some (first_text [dict_get ''error_class'' err, JStr ''dependency_unavailable'']),
             tc_result := Some (JObj ((''message'', JStr (take 2000 (first_text [dict_get ''message'' err]))) #
               (if by_system \<and> truthy (dict_get ''speech'' err)
                then [(''speech'', JStr (take 2000 (str_of (dict_get ''speech'' err))))] else []))),
             tc_completed := Some now\<rparr>)
      | _ \<Rightarrow> c\<lparr>tc_status := Succeeded, tc_result := Some (JObj (case result of None \<Rightarrow> [] | Some r \<Rightarrow> r)), tc_completed := Some now\<rparr>)"

definition result_of :: "tool_call \<Rightarrow> json" where
  "result_of c = (case tc_result c of None \<Rightarrow> JObj [] | Some r \<Rightarrow> r)"

definition plan_resolved :: "string option \<Rightarrow> bool \<Rightarrow> voice_context \<Rightarrow> voice_context" where
  "plan_resolved plan_id succeeded ctx =
     (let plan = ctx_get ''plan'' ctx in
      if truthy plan \<and> plan_id = Some (str_of (dict_get ''plan_id'' plan))
      then ctx_put ''plan'' (JObj (AList.update ''status'' (JStr (if succeeded then ''completed'' else ''failed'')) (dict_fields plan))) ctx
      else ctx)"

definition research_task :: "tool_call \<Rightarrow> json \<Rightarrow> string" where
  "research_task c running =
     (if tc_name c \<noteq> ''research.start'' \<or> tc_status c \<noteq> Succeeded then []
      else first_text [dict_get ''task_id'' running, dict_get ''task_id'' (result_of c)])"

definition record_research_linkage :: "string \<Rightarrow> tool_call \<Rightarrow> json \<Rightarrow> voice_context \<Rightarrow> voice_context" where
  "record_research_linkage at_text c running ctx =
     (let task = research_task c running; plan = ctx_get ''plan'' ctx in
      if task = [] then ctx
      else (let ctx' = ctx_put ''last_research''
                  (JObj [(''research_job_id'', JStr task), (''call_id'', JStr (tc_call_id c)),
                     (''topic'', JStr (take 500 (first_text [dict_get ''topic'' running, dict_get ''topic'' plan]))),
                     (''completed_at'', JStr at_text)]) ctx
            in if truthy plan \<and> first_text [dict_get ''task_id'' plan] = task
               then ctx_put ''plan'' (JObj (AList.update ''research_job_id'' (JStr task) (dict_fields plan))) ctx' else ctx'))"

definition focus_on_spoken_result :: "'w relay_env \<Rightarrow> nat \<Rightarrow> tool_call \<Rightarrow> json \<Rightarrow> instant \<Rightarrow> 'w relay \<Rightarrow> 'w relay" where
  "focus_on_spoken_result env sid c running now st =
     (if research_task c running = [] then st
      else st\<lparr>rl_home := rv_focus env (research_task c running) sid now (rl_home st)\<rparr>)"

definition completed_payload :: "tool_call \<Rightarrow> fields" where
  "completed_payload c =
     [(''call_id'', JStr (tc_call_id c)), (''name'', JStr (tc_name c)), (''status'', JStr (tool_status_text (tc_status c))),
      (''result'', if tc_status c = Succeeded then result_of c else JNull),
      (''error'', if tc_status c = Failed then JObj (dict_merge [(''error_class'', jopt (tc_error c))] (dict_fields (result_of c)))
                  else JNull)]"

text \<open>What both completions do with the call before they tell anyone.\<close>

definition resolve_call ::
    "'w relay_env \<Rightarrow> bool \<Rightarrow> rt_session \<Rightarrow> tool_call \<Rightarrow> fields option \<Rightarrow> fields option \<Rightarrow> instant \<Rightarrow> 'w relay \<Rightarrow>
     tool_call \<times> voice_context \<times> 'w relay" where
  "resolve_call env by_system row c result error now st =
     (let c' = resolved_call by_system result error now c; running = result_of c in
      (c', record_research_linkage (rv_iso env now) c' running (plan_resolved (rs_plan_id row) (tc_status c' = Succeeded) (rs_ctx row)),
       focus_on_spoken_result env (rs_id row) c' running now (put_tool_call c' st)))"

definition complete_tool_call ::
    "'w relay_env \<Rightarrow> owner_session \<Rightarrow> nat \<Rightarrow> string \<Rightarrow> fields option \<Rightarrow> fields option \<Rightarrow> instant \<Rightarrow> 'w relay \<Rightarrow>
     (voice_fail + fields \<times> bool) \<times> 'w relay" where
  "complete_tool_call env owner sid call_id result error now st =
     (case require_live now sid st of
        (Inl e, st') \<Rightarrow> (Inl e, st')
      | (Inr row, st') \<Rightarrow>
          (case require_leg row owner of
             Inl e \<Rightarrow> (Inl e, st')
           | Inr _ \<Rightarrow>
               (case get_tool_call sid call_id st' of
                  None \<Rightarrow> (Inl (Unknown_call call_id), st')
                | Some c \<Rightarrow>
                    if tc_status c \<noteq> Running then (Inl (Already_resolved call_id (tc_status c)), st')
                    else (case resolve_call env False row c result error now st' of
                            (c', ctx, st1) \<Rightarrow>
                              (case deliver env row (''tool_completed'', JObj (completed_payload c')) (ctx, st1) of
                                 (told, ctx', st2) \<Rightarrow>
                                   (Inr (completed_payload c', told),
                                    audit_rt ''voice_tool_completed'' sid call_id
                                      (put_session sid (\<lambda>r. r\<lparr>rs_ctx := ctx', rs_updated := now\<rparr>) st2)))))))"

definition find_running_tool_call_by_task_id :: "string \<Rightarrow> string \<Rightarrow> 'w relay \<Rightarrow> (rt_session \<times> tool_call) option" where
  "find_running_tool_call_by_task_id name task st =
     (case find (\<lambda>c. tc_name c = name \<and> tc_status c = Running \<and> first_text [dict_get ''task_id'' (result_of c)] = task \<and>
                 row_get rs_id (tc_session c) (rl_sessions st) \<noteq> None) (rl_calls st) of
        None \<Rightarrow> None
      | Some c \<Rightarrow> map_option (\<lambda>row. (row, c)) (row_get rs_id (tc_session c) (rl_sessions st)))"

subsection \<open>A closed session's work told to the live one\<close>

definition carryover_window :: instant where "carryover_window = seconds (30 * 60)"

definition last_activity :: "rt_session \<Rightarrow> instant" where
  "last_activity r = (case rs_closed r of None \<Rightarrow> rs_updated r | Some c \<Rightarrow> max (rs_updated r) c)"

text \<open>\<open>max(candidates, key=last_activity)\<close>: the first of the latest.\<close>

definition latest :: "rt_session list \<Rightarrow> rt_session option" where
  "latest rows = foldl (\<lambda>best r. case best of None \<Rightarrow> Some r | Some b \<Rightarrow> if last_activity b < last_activity r then Some r else best) None rows"

definition inside :: "instant \<Rightarrow> rt_session \<Rightarrow> bool" where "inside now r = (now - last_activity r \<le> carryover_window)"

definition pick_previous :: "nat \<Rightarrow> instant \<Rightarrow> rt_session list \<Rightarrow> rt_session option" where
  "pick_previous excluded now rows = latest (filter (\<lambda>r. rs_id r \<noteq> excluded \<and> strip (rs_summary r) \<noteq> [] \<and> inside now r) rows)"

definition is_live :: "instant \<Rightarrow> rt_session \<Rightarrow> bool" where
  "is_live now r = (rs_state r \<in> {Rt_created, Rt_active} \<and> (\<forall>e \<in> set_option (rs_expires r). now < e))"

definition pick_live :: "nat \<Rightarrow> instant \<Rightarrow> rt_session list \<Rightarrow> rt_session option" where
  "pick_live excluded now rows = latest (filter (\<lambda>r. rs_id r \<noteq> excluded \<and> is_live now r \<and> inside now r) rows)"

definition earlier_research_done :: string where
  "earlier_research_done = ''Daha once baslattigin arastirma bitti:''"

definition lead_with :: "json \<Rightarrow> json" where
  "lead_with j = (case j of JStr (ch # cs) \<Rightarrow> JStr (earlier_research_done @ CHR 0x0A # ch # cs) | _ \<Rightarrow> j)"

definition led :: "string \<Rightarrow> fields \<Rightarrow> fields" where
  "led k kvs = AList.update k (lead_with (dict_get k (JObj kvs))) kvs"

definition told_elsewhere :: "fields \<Rightarrow> fields" where
  "told_elsewhere payload =
     (let p1 = (case dict_get ''result'' (JObj payload) of
                  JObj r \<Rightarrow> AList.update ''result'' (JObj (led ''spoken_result'' (led ''speech'' r))) payload | _ \<Rightarrow> payload)
      in (case dict_get ''error'' (JObj payload) of
            JObj e \<Rightarrow> AList.update ''error'' (JObj (led (if truthy (dict_get ''speech'' (JObj e)) then ''speech'' else ''message'') e)) p1
          | _ \<Rightarrow> p1))"

definition forward_to_live :: "'w relay_env \<Rightarrow> nat \<Rightarrow> fields \<Rightarrow> instant \<Rightarrow> 'w relay \<Rightarrow> bool \<times> 'w relay" where
  "forward_to_live env origin payload now st =
     (case pick_live origin now (rl_sessions st) of
        None \<Rightarrow> (False, st)
      | Some live \<Rightarrow>
          if \<not> rv_carryover env then (False, st)
          else (case deliver env live (''tool_completed'', JObj (told_elsewhere payload)) (rs_ctx live, st) of
                  (told, ctx, st') \<Rightarrow> (told, put_session (rs_id live) (\<lambda>r. r\<lparr>rs_ctx := ctx\<rparr>) st')))"

definition complete_tool_call_system ::
    "'w relay_env \<Rightarrow> bool \<Rightarrow> nat \<Rightarrow> string \<Rightarrow> fields option \<Rightarrow> fields option \<Rightarrow> instant \<Rightarrow> 'w relay \<Rightarrow>
     (fields \<times> bool) option \<times> 'w relay" where
  "complete_tool_call_system env forward sid call_id result error now st =
     (case (row_get rs_id sid (rl_sessions st), get_tool_call sid call_id st) of
        (Some row, Some c) \<Rightarrow>
          (if tc_status c \<noteq> Running then (None, st)
           else (case resolve_call env True row c result error now st of
                   (c', ctx, st1) \<Rightarrow>
                     (case (if rs_state row \<notin> {Rt_closed, Rt_expired}
                            then deliver env row (''tool_completed'', JObj (completed_payload c')) (ctx, st1)
                            else if forward
                            then (case forward_to_live env sid (completed_payload c') now st1 of (told, st2) \<Rightarrow> (told, ctx, st2))
                            else (False, ctx, st1)) of
                        (told, ctx', st2) \<Rightarrow>
                          (Some (completed_payload c', told),
                           audit_rt ''voice_tool_completed'' sid call_id
                             (put_session sid (\<lambda>r. r\<lparr>rs_ctx := ctx', rs_updated := now\<rparr>) st2)))))
      | _ \<Rightarrow> (None, st))"

definition interrupted_after :: instant where "interrupted_after = seconds (2 * 3600)"

definition interrupted :: "instant \<Rightarrow> instant \<Rightarrow> tool_call \<Rightarrow> bool" where
  "interrupted now older_than c = (tc_status c = Running \<and> \<not> tc_long c \<and> tc_created c < now - older_than)"

definition fail_interrupted_tool_calls :: "instant \<Rightarrow> instant \<Rightarrow> 'w relay \<Rightarrow> nat \<times> 'w relay" where
  "fail_interrupted_tool_calls now older_than st =
     (length (filter (interrupted now older_than) (rl_calls st)),
      st\<lparr>rl_calls := map (\<lambda>c. if interrupted now older_than c
        then c\<lparr>tc_status := Failed, tc_error := Some ''interrupted'',
          tc_result := Some (JObj [(''speech'', JStr ''Bu is yarida kaldi efendim; onu yuruten surec durdu. Isterseniz yeniden baslatayim.''),
            (''message'', JStr ''the process that ran this call stopped before it finished'')]),
          tc_completed := Some now\<rparr>
        else c) (rl_calls st)\<rparr>)"

section \<open>The life of a session\<close>

definition clock_next :: "instant option \<Rightarrow> instant \<Rightarrow> instant" where
  "clock_next previous candidate =
     (case previous of None \<Rightarrow> candidate | Some l \<Rightarrow> if candidate \<le> l then l + 1 else candidate)"

definition max_summary_chars :: nat where "max_summary_chars = 2000"

definition carried_record :: "'w relay_env \<Rightarrow> 'w relay \<Rightarrow> rt_session \<Rightarrow> json" where
  "carried_record env st previous =
     JObj [(''session_id'', JInt (int (rs_id previous))),
       (''device'', JStr (case rv_label env (rl_home st) (rs_device previous) of Some l \<Rightarrow> l | None \<Rightarrow> rs_client previous)),
       (''device_id'', case rs_device previous of None \<Rightarrow> JNull | Some d \<Rightarrow> JInt (int d)),
       (''ended_at'', JStr (rv_iso env (last_activity previous)))]"

definition carry_previous :: "'w relay_env \<Rightarrow> instant \<Rightarrow> 'w relay \<Rightarrow> rt_session \<Rightarrow> rt_session" where
  "carry_previous env now st row =
     (if \<not> rv_carryover env then row
      else (case pick_previous (rs_id row) now (rl_sessions st) of
              None \<Rightarrow> row
            | Some previous \<Rightarrow>
                (let ctx = ctx_put ''carried_from'' (carried_record env st previous) (rs_ctx row);
                     plan = ctx_get ''plan'' (rs_ctx previous)
                 in row\<lparr>rs_summary := take max_summary_chars (strip (rs_summary previous)),
                        rs_ctx := (if truthy plan then ctx_put ''plan'' plan ctx else ctx)\<rparr>)))"

text \<open>A new session; \<open>choices\<close> are the client's selection, voice and model, recorded in the context as they are.\<close>

definition new_session ::
    "owner_session \<Rightarrow> nat \<Rightarrow> string \<Rightarrow> string option \<Rightarrow> nat option \<Rightarrow> nat option \<Rightarrow> int \<Rightarrow> fields \<Rightarrow> instant \<Rightarrow> rt_session" where
  "new_session owner nid provider client device declared ttl choices now =
     \<lparr>rs_id = nid, rs_provider = provider, rs_owner = ow_session owner,
      rs_device = (case device of None \<Rightarrow> ow_device owner | Some d \<Rightarrow> Some d),
      rs_client = take 16 (case client of Some (x # xs) \<Rightarrow> x # xs | _ \<Rightarrow> ow_client owner), rs_state = Rt_created, rs_plan_id = None,
      rs_ctx = \<lparr>vc_recording = None, vc_turn = None,
        vc_rest = [(''pending_sideband'', JList []), (''fsm_state'', JStr ''idle''), (''barge_in_count'', JInt 0), (''legs'', JInt 1),
          (''declared_device_id'', case declared of None \<Rightarrow> JNull | Some d \<Rightarrow> JInt (int d))] @ choices\<rparr>,
      rs_summary = [], rs_created = now, rs_expires = (if 0 < ttl then Some (now + seconds ttl) else None), rs_closed = None,
      rs_updated = now\<rparr>"

definition create_session ::
    "'w relay_env \<Rightarrow> bool \<Rightarrow> owner_session \<Rightarrow> nat \<Rightarrow> string \<Rightarrow> string option \<Rightarrow> nat option \<Rightarrow> nat option \<Rightarrow> int \<Rightarrow> fields \<Rightarrow> instant \<Rightarrow>
     'w relay \<Rightarrow> (voice_fail + rt_session) \<times> 'w relay" where
  "create_session env minted owner nid provider client device declared ttl choices wall st =
     (let now = clock_next (rl_clock st) wall;
          row = carry_previous env now st (new_session owner nid provider client device declared ttl choices now)
      in if \<not> minted then (Inl Mint_failed, st\<lparr>rl_clock := Some now\<rparr>)
         else (Inr row, audit_rt ''voice_credential_minted'' nid [] (audit_rt ''voice_session_created'' nid []
                 (st\<lparr>rl_sessions := rl_sessions st @ [row], rl_clock := Some now\<rparr>))))"

definition int_of :: "int \<Rightarrow> json \<Rightarrow> int" where
  "int_of absent j = (case j of JInt n \<Rightarrow> n | JBool b \<Rightarrow> (if b then 1 else 0) | _ \<Rightarrow> absent)"

text \<open>A client takes the session over.  The frame to the leg before is only pushed, never queued.\<close>

definition attached ::
    "owner_session \<Rightarrow> string option \<Rightarrow> nat option \<Rightarrow> nat option \<Rightarrow> instant \<Rightarrow> rt_session \<Rightarrow> rt_session" where
  "attached owner client device declared now row =
     (let ctx = rs_ctx row;
          legs = int_of 1 (ctx_get ''legs'' ctx) + (if rs_owner row = ow_session owner then 0 else 1);
          ctx1 = ctx_put ''declared_device_id'' (case declared of None \<Rightarrow> JNull | Some d \<Rightarrow> JInt (int d)) ctx;
          ctx2 = ctx_put ''legs'' (JInt legs) ctx1;
          ctx3 = ctx_put ''network'' (if ctx_get ''network'' ctx = JStr ''lost'' then JStr ''restored'' else ctx_get ''network'' ctx) ctx2
      in touch now (row\<lparr>rs_owner := ow_session owner,
           rs_client := take 16 (case client of Some (x # xs) \<Rightarrow> x # xs | _ \<Rightarrow> ow_client owner),
           rs_device := (case device of None \<Rightarrow> ow_device owner | Some d \<Rightarrow> Some d), rs_ctx := drained ctx3\<rparr>))"

definition attach ::
    "'w relay_env \<Rightarrow> bool \<Rightarrow> owner_session \<Rightarrow> nat \<Rightarrow> string \<Rightarrow> string option \<Rightarrow> nat option \<Rightarrow> nat option \<Rightarrow> instant \<Rightarrow> 'w relay \<Rightarrow>
     (voice_fail + json list) \<times> 'w relay" where
  "attach env minted owner sid provider client device declared now st =
     (case require_live now sid st of
        (Inl e, st') \<Rightarrow> (Inl e, st')
      | (Inr row, st') \<Rightarrow>
          if provider \<noteq> rs_provider row then (Inl Provider_gone, st')
          else if \<not> minted then (Inl Mint_failed, st')
          else (Inr (pending_frames (rs_ctx row)),
                audit_rt ''voice_session_attached'' sid [] (audit_rt ''voice_credential_minted'' sid []
                  (put_session sid (attached owner client device declared now)
                    (if rs_owner row = ow_session owner then st' else audit_rt ''voice_leg_closed'' sid [] st')))))"

definition close_session :: "nat \<Rightarrow> instant \<Rightarrow> 'w relay \<Rightarrow> 'w relay" where
  "close_session sid now st =
     (case row_get rs_id sid (rl_sessions st) of
        None \<Rightarrow> st
      | Some row \<Rightarrow>
          if rs_state row \<in> {Rt_closed, Rt_expired} then st
          else audit_rt ''voice_session_closed'' sid []
                 (put_session sid (\<lambda>r. r\<lparr>rs_state := Rt_closed, rs_closed := Some now, rs_updated := now\<rparr>) st))"

definition idle_after_default :: instant where "idle_after_default = seconds (12 * 3600)"

definition idle_sessions :: "instant \<Rightarrow> instant \<Rightarrow> nat \<Rightarrow> 'w relay \<Rightarrow> nat list" where
  "idle_sessions now idle_after most st =
     map rs_id (take most (sort_key rs_updated
       (filter (\<lambda>r. rs_state r \<in> {Rt_created, Rt_active} \<and> rs_updated r \<le> now - idle_after) (rl_sessions st))))"

definition sweep_idle_sessions :: "instant \<Rightarrow> instant \<Rightarrow> nat \<Rightarrow> 'w relay \<Rightarrow> nat list \<times> 'w relay" where
  "sweep_idle_sessions now idle_after most st =
     (let ids = idle_sessions now idle_after most st in
      (ids, foldl (\<lambda>s i. audit_rt ''voice_session_expired'' i []
               (put_session i (\<lambda>r. r\<lparr>rs_state := Rt_expired, rs_closed := Some now, rs_updated := now\<rparr>) s)) st ids))"

section \<open>Histories\<close>

text \<open>
  A request to the relay.  \<open>Died\<close> is a call whose process stops while its handler works, after the row was committed;
  \<open>Client_events\<close> changes the context in some way and hands the waiting frames over; \<open>Elsewhere\<close> is anything that happens
  outside the sessions.
\<close>

datatype 'w rt_request =
    Call owner_session nat string string fields "tool_call option" instant instant
  | Died owner_session nat string string fields instant "'w home \<Rightarrow> 'w home"
  | Complete owner_session nat string "fields option" "fields option" instant
  | Complete_system bool nat string "fields option" "fields option" instant
  | Sweep_interrupted instant instant
  | Open_session bool owner_session nat string "string option" "nat option" "nat option" int fields instant
  | Attach bool owner_session nat string "string option" "nat option" "nat option" instant
  | Close nat instant
  | Sweep_idle instant instant nat
  | Pull owner_session nat instant
  | Queue json nat
  | Client_events owner_session nat instant "voice_context \<Rightarrow> voice_context"
  | Elsewhere "'w home \<Rightarrow> 'w home"

definition died ::
    "'w relay_env \<Rightarrow> owner_session \<Rightarrow> nat \<Rightarrow> string \<Rightarrow> string \<Rightarrow> fields \<Rightarrow> instant \<Rightarrow> ('w home \<Rightarrow> 'w home) \<Rightarrow> 'w relay \<Rightarrow> 'w relay" where
  "died env owner sid call_id name args now f st =
     (case require_live now sid st of
        (Inl e, st') \<Rightarrow> st'
      | (Inr row, st') \<Rightarrow>
          if require_leg row owner \<noteq> Inr () \<or> get_tool_call sid call_id st' \<noteq> None then st'
          else (case registry_get env name of
                  None \<Rightarrow> st'
                | Some sp \<Rightarrow>
                    if stopped env owner now (rl_home st') (ts_name sp) args (rs_ctx row) \<noteq> None then st'
                    else st'\<lparr>rl_calls := rl_calls st' @
                           [\<lparr>tc_session = sid, tc_call_id = call_id, tc_name = ts_name sp, tc_args = args, tc_status = Running,
                             tc_result = None, tc_error = None, tc_long = ts_long_running sp, tc_created = now, tc_completed = None\<rparr>],
                         rl_home := f (rl_home st')\<rparr>))"

definition client_events :: "owner_session \<Rightarrow> nat \<Rightarrow> instant \<Rightarrow> (voice_context \<Rightarrow> voice_context) \<Rightarrow> 'w relay \<Rightarrow> 'w relay" where
  "client_events owner sid now f st =
     (case require_live now sid st of
        (Inl e, st') \<Rightarrow> st'
      | (Inr row, st') \<Rightarrow>
          if require_leg row owner \<noteq> Inr () then st'
          else stamp_delivered_briefings now (pending_frames (f (rs_ctx row)))
                 (put_session sid (\<lambda>r. touch now (r\<lparr>rs_ctx := drained (f (rs_ctx row))\<rparr>)) st'))"

fun relay_step :: "'w relay_env \<Rightarrow> 'w rt_request \<Rightarrow> 'w relay \<Rightarrow> 'w relay" where
  "relay_step env (Call owner sid call_id name args rival now done_at) st =
     snd (handle_tool_call env owner sid call_id name args rival now done_at st)"
| "relay_step env (Died owner sid call_id name args now f) st = died env owner sid call_id name args now f st"
| "relay_step env (Complete owner sid call_id result error now) st = snd (complete_tool_call env owner sid call_id result error now st)"
| "relay_step env (Complete_system forward sid call_id result error now) st =
     snd (complete_tool_call_system env forward sid call_id result error now st)"
| "relay_step env (Sweep_interrupted now older_than) st = snd (fail_interrupted_tool_calls now older_than st)"
| "relay_step env (Open_session minted owner nid provider client device declared ttl choices wall) st =
     (if row_get rs_id nid (rl_sessions st) \<noteq> None then st
      else snd (create_session env minted owner nid provider client device declared ttl choices wall st))"
| "relay_step env (Attach minted owner sid provider client device declared now) st =
     snd (attach env minted owner sid provider client device declared now st)"
| "relay_step env (Close sid now) st = close_session sid now st"
| "relay_step env (Sweep_idle now idle_after most) st = snd (sweep_idle_sessions now idle_after most st)"
| "relay_step env (Pull owner sid now) st = snd (pull_pending_sideband owner sid now st)"
| "relay_step env (Queue frame sid) st = queue_sideband_frame frame sid st"
| "relay_step env (Client_events owner sid now f) st = client_events owner sid now f st"
| "relay_step env (Elsewhere f) st = st\<lparr>rl_home := f (rl_home st)\<rparr>"

definition relay_run :: "'w relay_env \<Rightarrow> 'w rt_request list \<Rightarrow> 'w relay \<Rightarrow> 'w relay" where
  "relay_run env qs st = foldl (\<lambda>s q. relay_step env q s) st qs"

definition row_ok :: "tool_call \<Rightarrow> bool" where
  "row_ok c =
     ((tc_status c = Running) = (tc_completed c = None) \<and> (tc_status c = Running \<and> \<not> tc_long c \<longrightarrow> tc_result c = None) \<and>
      (tc_status c \<noteq> Running \<longrightarrow> tc_result c \<noteq> None) \<and> (tc_status c = Failed) = (tc_error c \<noteq> None))"

text \<open>What a row of a call may become: a finished one stays as it is.\<close>

definition call_became :: "tool_call \<Rightarrow> tool_call \<Rightarrow> bool" where
  "call_became c c' =
     (if tc_status c \<noteq> Running then c' = c
      else tc_name c' = tc_name c \<and> tc_args c' = tc_args c \<and> tc_created c' = tc_created c)"

interpretation call_rows: row_development tc_key call_became
  by unfold_locales (auto simp: call_became_def split: if_splits)

definition calls_ok :: "'w relay \<Rightarrow> bool" where
  "calls_ok st = (distinct (map tc_key (rl_calls st)) \<and> (\<forall>c \<in> set (rl_calls st). row_ok c))"

section \<open>What a step leaves alone\<close>

lemma put_session_simps [simp]:
  "rl_calls (put_session sid f st) = rl_calls st" "rl_home (put_session sid f st) = rl_home st"
  "rl_briefings (put_session sid f st) = rl_briefings st" "rl_sessions (put_session sid f st) = row_put rs_id sid f (rl_sessions st)"
  by (simp_all add: put_session_def)

lemma audit_rt_simps [simp]:
  "rl_calls (audit_rt a i k st) = rl_calls st" "rl_home (audit_rt a i k st) = rl_home st"
  "rl_briefings (audit_rt a i k st) = rl_briefings st" "rl_sessions (audit_rt a i k st) = rl_sessions st"
  by (simp_all add: audit_rt_def)

lemma put_tool_call_simps [simp]:
  "rl_calls (put_tool_call c st) = row_put tc_key (tc_key c) (\<lambda>_. c) (rl_calls st)" "rl_home (put_tool_call c st) = rl_home st"
  "rl_briefings (put_tool_call c st) = rl_briefings st" "rl_sessions (put_tool_call c st) = rl_sessions st"
  by (simp_all add: put_tool_call_def)

lemma stamp_simps [simp]:
  "rl_calls (stamp_delivered_briefings now frames st) = rl_calls st"
  "rl_home (stamp_delivered_briefings now frames st) = rl_home st"
  "rl_sessions (stamp_delivered_briefings now frames st) = rl_sessions st"
  by (simp_all add: stamp_delivered_briefings_def)

lemma deliver_simps [simp]:
  "rl_calls (snd (snd (deliver env row ev s))) = rl_calls (snd s)"
  "rl_home (snd (snd (deliver env row ev s))) = rl_home (snd s)"
  "rl_sessions (snd (snd (deliver env row ev s))) = rl_sessions (snd s)"
  by (simp_all add: deliver_def Let_def split: prod.split)

lemma deliver_eq:
  assumes "deliver env row ev s = (told, ctx, st')"
  shows "rl_calls st' = rl_calls (snd s)" "rl_home st' = rl_home (snd s)" "rl_sessions st' = rl_sessions (snd s)"
  using deliver_simps [of env row ev s] assms by simp_all

lemma deliver_all_simps [simp]:
  "rl_calls (snd (deliver_all env row evs s)) = rl_calls (snd s)"
  "rl_home (snd (deliver_all env row evs s)) = rl_home (snd s)"
  "rl_sessions (snd (deliver_all env row evs s)) = rl_sessions (snd s)"
  unfolding deliver_all_def by (induction evs arbitrary: s) simp_all

lemma require_live_cases:
  obtains (gone) "require_live now sid st = (Inl No_session, st)" "row_get rs_id sid (rl_sessions st) = None"
  | (over) row where "require_live now sid st = (Inl (Session_over (rs_state row)), st)" "row_get rs_id sid (rl_sessions st) = Some row"
      "rs_state row \<in> {Rt_closed, Rt_expired}"
  | (expired) row where "require_live now sid st = (Inl Session_expired, audit_rt ''voice_session_expired'' sid []
        (put_session sid (\<lambda>r. r\<lparr>rs_state := Rt_expired, rs_closed := Some now, rs_updated := now\<rparr>) st))"
      "row_get rs_id sid (rl_sessions st) = Some row" "is_live now row = False" "rs_state row \<notin> {Rt_closed, Rt_expired}"
  | (live) row where "require_live now sid st = (Inr row, st)" "row_get rs_id sid (rl_sessions st) = Some row" "is_live now row"
proof (cases "row_get rs_id sid (rl_sessions st)")
  case None
  then show ?thesis using gone by (simp add: require_live_def)
next
  case (Some row)
  show ?thesis
  proof (cases "rs_state row \<in> {Rt_closed, Rt_expired}")
    case True
    then show ?thesis using over [of row] Some by (simp add: require_live_def)
  next
    case False
    then have state: "rs_state row \<in> {Rt_created, Rt_active}" by (cases "rs_state row") auto
    show ?thesis
    proof (cases "is_live now row")
      case True
      then show ?thesis using live [of row] Some False
        by (cases "rs_expires row") (auto simp: require_live_def is_live_def)
    next
      case notlive: False
      then obtain e where "rs_expires row = Some e" "e \<le> now" using state by (auto simp: is_live_def not_less split: option.splits)
      then show ?thesis using expired [of row] Some False notlive by (simp add: require_live_def)
    qed
  qed
qed

lemma require_live_simps [simp]:
  "rl_calls (snd (require_live now sid st)) = rl_calls st" "rl_home (snd (require_live now sid st)) = rl_home st"
  "rl_briefings (snd (require_live now sid st)) = rl_briefings st"
  by (rule require_live_cases [of now sid st]; simp)+

lemma require_live_eq:
  assumes "require_live now sid st = (r, st')"
  shows "rl_calls st' = rl_calls st" "rl_home st' = rl_home st" "rl_briefings st' = rl_briefings st"
  using require_live_simps [of now sid st] assms by simp_all

lemma get_tool_call_cong: "rl_calls st' = rl_calls st \<Longrightarrow> get_tool_call sid call_id st' = get_tool_call sid call_id st"
  by (simp add: get_tool_call_def)

section \<open>Results\<close>

lemma terminal_status_simps:
  "fst (terminal_status_for tool r) \<noteq> Running" "(fst (terminal_status_for tool r) = Failed) = (snd (terminal_status_for tool r) \<noteq> None)"
  by (auto simp: terminal_status_for_def Let_def)

lemma tool_outcome_simps:
  assumes "tool_outcome long tool r = (s, e, j)"
  shows "s = Running \<Longrightarrow> long" "(s = Failed) = (e \<noteq> None)"
proof -
  have "(s = Running \<longrightarrow> long) \<and> (s = Failed) = (e \<noteq> None)"
  proof (cases r)
    case (Inl err)
    then show ?thesis using assms by (cases err) (auto simp: tool_outcome_def)
  next
    case (Inr result)
    then show ?thesis using assms terminal_status_simps [of tool result]
      by (cases "terminal_status_for tool result") (auto simp: tool_outcome_def split: if_splits)
  qed
  then show "s = Running \<Longrightarrow> long" "(s = Failed) = (e \<noteq> None)" by auto
qed

lemma stopped_simps:
  assumes "stopped env owner now h tool args ctx = Some (action, s, e, j)"
  shows "s \<noteq> Running" "(s = Failed) = (e \<noteq> None)"
proof -
  have "s \<noteq> Running \<and> (s = Failed) = (e \<noteq> None)"
    using assms terminal_status_simps
    by (auto simp: stopped_def understanding_refusal_def Let_def split: if_splits option.splits)
  then show "s \<noteq> Running" "(s = Failed) = (e \<noteq> None)" by auto
qed

lemma close_call_simps [simp]:
  "tc_session (close_call c d oc) = tc_session c" "tc_call_id (close_call c d oc) = tc_call_id c" "tc_name (close_call c d oc) = tc_name c"
  "tc_args (close_call c d oc) = tc_args c" "tc_created (close_call c d oc) = tc_created c" "tc_long (close_call c d oc) = tc_long c"
  "tc_status (close_call c d oc) = fst oc"
  by (simp_all add: close_call_def split: prod.split)

lemma close_row_ok:
  assumes "(fst oc = Failed) = (fst (snd oc) \<noteq> None)" "fst oc = Running \<Longrightarrow> tc_long c"
  shows "row_ok (close_call c d oc)"
  using assms by (auto simp: row_ok_def close_call_def split: prod.split)

lemma settle_call_result:
  "fst (settle_call env now row long preamble c pushes s) = tool_row_payload c preamble False"
  "rl_calls (snd (settle_call env now row long preamble c pushes s)) = row_put tc_key (tc_key c) (\<lambda>_. c) (rl_calls (snd s))"
  "rl_home (snd (settle_call env now row long preamble c pushes s)) = rl_home (snd s)"
proof -
  obtain ctx st where s: "s = (ctx, st)" by (cases s)
  have frame: "rl_calls st' = rl_calls (put_tool_call c st)" "rl_home st' = rl_home st"
    if "deliver_all env row pushes (captured env long c now ctx, put_tool_call c st) = (ctx', st')" for ctx' st'
    using deliver_all_simps(1,2) [of env row pushes "(captured env long c now ctx, put_tool_call c st)"] that by simp_all
  show "fst (settle_call env now row long preamble c pushes s) = tool_row_payload c preamble False"
    by (simp add: settle_call_def s Let_def split: prod.split)
  show "rl_calls (snd (settle_call env now row long preamble c pushes s)) = row_put tc_key (tc_key c) (\<lambda>_. c) (rl_calls (snd s))"
    by (auto simp: settle_call_def s Let_def frame split: prod.split)
  show "rl_home (snd (settle_call env now row long preamble c pushes s)) = rl_home (snd s)"
    by (auto simp: settle_call_def s Let_def frame split: prod.split)
qed

text \<open>The row of a call that was made, and what its answer says.\<close>

lemma make_call_row:
  assumes "\<And>sp. spec = Some sp \<Longrightarrow> tc_long c = ts_long_running sp"
  obtains c' pre where "fst (make_call env owner now d row spec c st) = tool_row_payload c' pre False"
    "rl_calls (snd (make_call env owner now d row spec c st)) = row_put tc_key (tc_key c) (\<lambda>_. c') (rl_calls st)"
    "tc_key c' = tc_key c" "row_ok c'"
proof (cases spec)
  case None
  let ?c = "close_call c d (unknown_tool env (tc_name c))"
  have "row_ok ?c" by (intro close_row_ok) (simp_all add: unknown_tool_def)
  then show ?thesis using that [of ?c None] by (simp add: make_call_def None settle_call_result)
next
  case (Some sp)
  show ?thesis
  proof (cases "stopped env owner now (rl_home st) (tc_name c) (tc_args c) (rs_ctx row)")
    case None
    obtain r ctx h where h: "ts_handler sp (tc_args c) (rs_ctx row) ((rl_home st)\<lparr>hm_pushes := []\<rparr>) = (r, ctx, h)"
      by (metis prod_cases3)
    let ?c = "close_call c d (tool_outcome (ts_long_running sp) (tc_name c) r)"
    obtain s e j where oc: "tool_outcome (ts_long_running sp) (tc_name c) r = (s, e, j)" by (metis prod_cases3)
    have "row_ok ?c" using tool_outcome_simps [OF oc] assms [OF Some] by (intro close_row_ok) (auto simp: oc)
    then show ?thesis
      using that [of ?c "if s = Running then ts_preamble sp else None"] by (simp add: make_call_def Some None h Let_def settle_call_result oc)
  next
    case (Some a)
    obtain action s e j where a: "a = (action, s, e, j)" by (metis prod_cases4)
    let ?c = "(close_call c d (s, e, j))\<lparr>tc_long := False\<rparr>"
    have "row_ok ?c" using stopped_simps [OF Some [unfolded a]]
      by (auto simp: row_ok_def close_call_def)
    then show ?thesis using that [of ?c None] by (simp add: make_call_def \<open>spec = Some sp\<close> Some a Let_def)
  qed
qed

section \<open>The calls through a history\<close>

abbreviation calls_step :: "tool_call list \<Rightarrow> tool_call list \<Rightarrow> bool" where
  "calls_step \<equiv> table_step tc_key row_ok call_became"

lemmas calls_step_refl = call_rows.table_step_refl [where ok = row_ok]
lemmas calls_step_trans = call_rows.table_step_trans [where ok = row_ok]
lemmas calls_step_append = call_rows.table_step_append [where ok = row_ok]

lemma row_put_appended:
  assumes "row_get key (key c) xs = None"
  shows "row_put key (key c) (\<lambda>_. c') (xs @ [c]) = xs @ [c']"
proof -
  have "key c \<notin> key ` set xs" using assms by (simp add: row_get_None_iff)
  then have "\<forall>x \<in> set xs. key x \<noteq> key c" by (metis imageI)
  then show ?thesis by (auto simp: row_put_def intro!: map_idI)
qed

lemma interrupted_step:
  "calls_step xs (map (\<lambda>c. if interrupted now older_than c
     then c\<lparr>tc_status := Failed, tc_error := Some e, tc_result := Some j, tc_completed := Some now\<rparr> else c) xs)" (is "calls_step xs (map ?f xs)")
proof -
  have key: "map tc_key (map ?f xs) = map tc_key xs" by simp
  have became: "call_became c (?f c)" "row_ok c \<Longrightarrow> row_ok (?f c)" for c
    by (auto simp: call_became_def interrupted_def row_ok_def)
  have "developed tc_key call_became xs (map ?f xs)" by (intro call_rows.developed_map conjI became) simp
  moreover have "\<forall>c \<in> set (map ?f xs). row_ok c" if "\<forall>c \<in> set xs. row_ok c" using that by (auto simp: row_ok_def)
  ultimately show ?thesis unfolding table_step_def key by blast
qed

text \<open>How the door answers, case by case.\<close>

lemma handle_cases:
  obtains (refused) e where "handle_tool_call env owner sid call_id name args rival now d st = (Inl e, snd (require_live now sid st))"
      "\<not> (\<exists>row. require_live now sid st = (Inr row, st) \<and> require_leg row owner = Inr ())"
  | (replayed) row c where "row_get rs_id sid (rl_sessions st) = Some row" "is_live now row" "rs_owner row = ow_session owner"
      "get_tool_call sid call_id st = Some c"
      "handle_tool_call env owner sid call_id name args rival now d st =
         (Inr (tool_row_payload c (Option.bind (registry_get env (tc_name c)) ts_preamble) True),
          audit_rt ''voice_tool_call_replayed'' sid call_id st)"
  | (lost) row w where "row_get rs_id sid (rl_sessions st) = Some row" "is_live now row" "rs_owner row = ow_session owner"
      "get_tool_call sid call_id st = None" "rival = Some w"
      "handle_tool_call env owner sid call_id name args rival now d st =
         (Inr (tool_row_payload (w\<lparr>tc_session := sid, tc_call_id := call_id\<rparr>) None True),
          st\<lparr>rl_calls := rl_calls st @ [w\<lparr>tc_session := sid, tc_call_id := call_id\<rparr>]\<rparr>)"
  | (made) row spec c where "row_get rs_id sid (rl_sessions st) = Some row" "is_live now row" "rs_owner row = ow_session owner"
      "get_tool_call sid call_id st = None" "rival = None" "spec = registry_get env name"
      "c = \<lparr>tc_session = sid, tc_call_id = call_id, tc_name = (case spec of None \<Rightarrow> name | Some sp \<Rightarrow> ts_name sp),
            tc_args = args, tc_status = Running, tc_result = None, tc_error = None,
            tc_long = (case spec of None \<Rightarrow> False | Some sp \<Rightarrow> ts_long_running sp), tc_created = now, tc_completed = None\<rparr>"
      "handle_tool_call env owner sid call_id name args rival now d st =
         (Inr (fst (make_call env owner now d row spec c (st\<lparr>rl_calls := rl_calls st @ [c]\<rparr>))),
          snd (make_call env owner now d row spec c (st\<lparr>rl_calls := rl_calls st @ [c]\<rparr>)))"
proof (cases rule: require_live_cases [of now sid st])
  case gone
  then show ?thesis using refused by (simp add: handle_tool_call_def)
next
  case (over row)
  then show ?thesis using refused by (simp add: handle_tool_call_def)
next
  case (expired row)
  then show ?thesis using refused by (simp add: handle_tool_call_def)
next
  case (live row)
  show ?thesis
  proof (cases "require_leg row owner")
    case (Inl e)
    then show ?thesis using refused live by (simp add: handle_tool_call_def)
  next
    case leg: (Inr u)
    then have own: "rs_owner row = ow_session owner" by (simp add: require_leg_def split: if_splits)
    show ?thesis
    proof (cases "get_tool_call sid call_id st")
      case (Some c)
      then show ?thesis using replayed live leg own by (simp add: handle_tool_call_def)
    next
      case None
      show ?thesis
      proof (cases rival)
        case (Some w)
        then show ?thesis using lost live leg own None by (simp add: handle_tool_call_def Let_def)
      next
        case norival: None
        show ?thesis
          by (rule made [OF live(2,3) own None norival refl refl])
             (simp add: handle_tool_call_def live(1) leg None norival Let_def split: prod.split)
      qed
    qed
  qed
qed

lemma handle_calls:
  obtains (same) "rl_calls (snd (handle_tool_call env owner sid call_id name args rival now d st)) = rl_calls st"
  | (new) c row where "rl_calls (snd (handle_tool_call env owner sid call_id name args rival now d st)) = rl_calls st @ [c]"
      "tc_key c = (sid, call_id)" "get_tool_call sid call_id st = None"
      "row_ok c \<or> (\<exists>r. rival = Some r \<and> c = r\<lparr>tc_session := sid, tc_call_id := call_id\<rparr>)"
      "row_get rs_id sid (rl_sessions st) = Some row" "is_live now row"
proof (cases rule: handle_cases [of env owner sid call_id name args rival now d st])
  case (lost row w)
  then show ?thesis using new [of "w\<lparr>tc_session := sid, tc_call_id := call_id\<rparr>" row] by simp
next
  case (made row spec c)
  have c: "tc_key c = (sid, call_id)" "\<And>sp. spec = Some sp \<Longrightarrow> tc_long c = ts_long_running sp" by (simp_all add: made(7))
  have key: "row_get tc_key (tc_key c) (rl_calls st) = None" using made(4) c(1) by (simp add: get_tool_call_def)
  obtain c' pre where c': "rl_calls (snd (make_call env owner now d row spec c (st\<lparr>rl_calls := rl_calls st @ [c]\<rparr>))) =
      row_put tc_key (tc_key c) (\<lambda>_. c') (rl_calls st @ [c])" "tc_key c' = tc_key c" "row_ok c'"
    using make_call_row [OF c(2), of spec env owner now d row "st\<lparr>rl_calls := rl_calls st @ [c]\<rparr>"] by auto
  show ?thesis
    by (rule new [of c' row]) (use c' c(1) made(1,2,4,8) row_put_appended [OF key, of c'] in simp_all)
qed (use same in simp_all)

lemma handle_calls_step:
  assumes "\<And>r. rival = Some r \<Longrightarrow> row_ok r"
  shows "calls_step (rl_calls st) (rl_calls (snd (handle_tool_call env owner sid call_id name args rival now d st)))"
proof (cases rule: handle_calls [of env owner sid call_id name args rival now d st])
  case same
  then show ?thesis by (simp add: calls_step_refl)
next
  case (new c)
  have "row_ok c" using new(4) assms by (auto simp: row_ok_def)
  then show ?thesis unfolding new(1) using new(2,3) by (intro calls_step_append) (auto simp: get_tool_call_def)
qed

lemma resolved_call_step:
  assumes "get_tool_call sid call_id st = Some c" "tc_status c = Running"
  shows "calls_step (rl_calls st) (row_put tc_key (tc_key c) (\<lambda>_. resolved_call s result error now c) (rl_calls st))"
proof (rule call_rows.table_step_put)
  fix r
  assume "row_get tc_key (tc_key c) (rl_calls st) = Some r"
  moreover have "row_get tc_key (tc_key c) (rl_calls st) = Some c"
    using assms(1) row_get_SomeD [OF assms(1) [unfolded get_tool_call_def]] by (simp add: get_tool_call_def)
  ultimately show "tc_key (resolved_call s result error now c) = tc_key c \<and> call_became r (resolved_call s result error now c) \<and>
      (row_ok r \<longrightarrow> row_ok (resolved_call s result error now c))"
    using assms(2) by (auto simp: call_became_def resolved_call_def row_ok_def Let_def split: option.split list.split)
qed

lemma resolve_call_simps:
  assumes "resolve_call env s row c result error now st = (c', ctx, st1)"
  shows "c' = resolved_call s result error now c" "rl_calls st1 = row_put tc_key (tc_key c) (\<lambda>_. c') (rl_calls st)"
    "rl_sessions st1 = rl_sessions st" "rl_briefings st1 = rl_briefings st"
proof -
  have key: "tc_key (resolved_call s result error now c) = tc_key c"
    by (simp add: resolved_call_def Let_def split: option.split list.split)
  have focus: "rl_calls (focus_on_spoken_result env i c' j now t) = rl_calls t"
      "rl_sessions (focus_on_spoken_result env i c' j now t) = rl_sessions t"
      "rl_briefings (focus_on_spoken_result env i c' j now t) = rl_briefings t" for i c' j t
    by (simp_all add: focus_on_spoken_result_def)
  show "c' = resolved_call s result error now c" "rl_calls st1 = row_put tc_key (tc_key c) (\<lambda>_. c') (rl_calls st)"
    "rl_sessions st1 = rl_sessions st" "rl_briefings st1 = rl_briefings st"
    using assms key by (auto simp: resolve_call_def Let_def focus)
qed

lemma complete_calls_step:
  "calls_step (rl_calls st) (rl_calls (snd (complete_tool_call env owner sid call_id result error now st)))"
proof -
  obtain r st' where rl: "require_live now sid st = (r, st')" by (cases "require_live now sid st")
  have calls: "rl_calls st' = rl_calls st" using require_live_simps(1) [of now sid st] rl by simp
  show ?thesis
  proof (cases r)
    case (Inl e)
    then show ?thesis by (simp add: complete_tool_call_def rl calls calls_step_refl)
  next
    case (Inr row)
    show ?thesis
    proof (cases "require_leg row owner = Inr () \<and> (\<exists>c. get_tool_call sid call_id st' = Some c \<and> tc_status c = Running)")
      case True
      then obtain c where c: "require_leg row owner = Inr ()" "get_tool_call sid call_id st' = Some c" "tc_status c = Running" by blast
      obtain c' ctx st1 where rc: "resolve_call env False row c result error now st' = (c', ctx, st1)" by (metis prod_cases3)
      obtain told ctx' st2 where dl: "deliver env row (''tool_completed'', JObj (completed_payload c')) (ctx, st1) = (told, ctx', st2)"
        by (metis prod_cases3)
      have "rl_calls st2 = rl_calls st1"
        using deliver_simps(1) [of env row "(''tool_completed'', JObj (completed_payload c'))" "(ctx, st1)"] dl by simp
      then show ?thesis
        using resolved_call_step [OF c(2,3), of False result error now] resolve_call_simps(2) [OF rc]
        unfolding resolve_call_simps(1) [OF rc, symmetric] by (simp add: complete_tool_call_def rl Inr c rc dl calls)
    next
      case False
      have "rl_calls (snd (complete_tool_call env owner sid call_id result error now st)) = rl_calls st"
      proof (cases "require_leg row owner")
        case (Inl e)
        then show ?thesis by (simp add: complete_tool_call_def rl Inr calls)
      next
        case leg: (Inr u)
        then show ?thesis using False calls
          by (cases "get_tool_call sid call_id st'") (auto simp: complete_tool_call_def rl Inr)
      qed
      then show ?thesis by (simp add: calls_step_refl)
    qed
  qed
qed

lemma complete_system_rest:
  assumes "row_get rs_id sid (rl_sessions st) = Some row" "get_tool_call sid call_id st = Some c" "tc_status c = Running"
    and "resolve_call env True row c result error now st = (c', ctx, st1)"
  obtains told ctx' st2 where
    "complete_tool_call_system env forward sid call_id result error now st =
       (Some (completed_payload c', told),
        audit_rt ''voice_tool_completed'' sid call_id (put_session sid (\<lambda>r. r\<lparr>rs_ctx := ctx', rs_updated := now\<rparr>) st2))"
    "rl_calls st2 = rl_calls st1"
    "rl_sessions st2 = rl_sessions st1 \<or> (\<exists>i f. rl_sessions st2 = row_put rs_id i (\<lambda>r. r\<lparr>rs_ctx := f\<rparr>) (rl_sessions st1))"
proof -
  let ?e = "(if rs_state row \<notin> {Rt_closed, Rt_expired}
     then deliver env row (''tool_completed'', JObj (completed_payload c')) (ctx, st1)
     else if forward then (case forward_to_live env sid (completed_payload c') now st1 of (told, st2) \<Rightarrow> (told, ctx, st2))
     else (False, ctx, st1))"
  obtain told ctx' st2 where e: "?e = (told, ctx', st2)" by (metis prod_cases3)
  have fw: "rl_calls (snd (forward_to_live env sid p now st1)) = rl_calls st1 \<and>
      (rl_sessions (snd (forward_to_live env sid p now st1)) = rl_sessions st1 \<or>
       (\<exists>i f. rl_sessions (snd (forward_to_live env sid p now st1)) = row_put rs_id i (\<lambda>r. r\<lparr>rs_ctx := f\<rparr>) (rl_sessions st1)))" for p
  proof (cases "pick_live sid now (rl_sessions st1)")
    case None
    then show ?thesis by (simp add: forward_to_live_def)
  next
    case (Some live)
    obtain told ctx' st2 where dl: "deliver env live (''tool_completed'', JObj (told_elsewhere p)) (rs_ctx live, st1) = (told, ctx', st2)"
      by (metis prod_cases3)
    show ?thesis using deliver_eq [OF dl] by (auto simp: forward_to_live_def Some dl)
  qed
  have "rl_calls st2 = rl_calls st1 \<and>
      (rl_sessions st2 = rl_sessions st1 \<or> (\<exists>i f. rl_sessions st2 = row_put rs_id i (\<lambda>r. r\<lparr>rs_ctx := f\<rparr>) (rl_sessions st1)))"
  proof (cases "rs_state row \<notin> {Rt_closed, Rt_expired}")
    case True
    then show ?thesis using deliver_eq(1,3) [of env row _ "(ctx, st1)" told ctx' st2] e by simp
  next
    case False
    then show ?thesis using e fw [of "completed_payload c'"] by (auto split: if_splits prod.splits)
  qed
  then show ?thesis using that [of told ctx' st2] assms e by (simp add: complete_tool_call_system_def split del: if_split)
qed

lemma complete_system_none:
  assumes "\<not> (\<exists>row c. row_get rs_id sid (rl_sessions st) = Some row \<and> get_tool_call sid call_id st = Some c \<and> tc_status c = Running)"
  shows "complete_tool_call_system env forward sid call_id result error now st = (None, st)"
  using assms by (auto simp: complete_tool_call_system_def split: option.split)

lemma complete_system_calls_step:
  "calls_step (rl_calls st) (rl_calls (snd (complete_tool_call_system env forward sid call_id result error now st)))"
proof (cases "\<exists>row c. row_get rs_id sid (rl_sessions st) = Some row \<and> get_tool_call sid call_id st = Some c \<and> tc_status c = Running")
  case True
  then obtain row c where c: "row_get rs_id sid (rl_sessions st) = Some row" "get_tool_call sid call_id st = Some c" "tc_status c = Running"
    by blast
  obtain c' ctx st1 where rc: "resolve_call env True row c result error now st = (c', ctx, st1)" by (metis prod_cases3)
  show ?thesis
    by (rule complete_system_rest [OF c rc, of forward])
       (use resolved_call_step [OF c(2,3), of True result error now] resolve_call_simps(1,2) [OF rc] in simp)
qed (simp add: complete_system_none calls_step_refl)

lemma died_calls_step: "calls_step (rl_calls st) (rl_calls (died env owner sid call_id name args now f st))"
proof -
  obtain r st' where rl: "require_live now sid st = (r, st')" by (cases "require_live now sid st")
  have calls: "rl_calls st' = rl_calls st" using require_live_simps(1) [of now sid st] rl by simp
  show ?thesis
  proof (cases r)
    case (Inl e)
    then show ?thesis by (simp add: died_def rl calls calls_step_refl)
  next
    case (Inr row)
    show ?thesis
    proof (cases "require_leg row owner \<noteq> Inr () \<or> get_tool_call sid call_id st' \<noteq> None")
      case True
      then show ?thesis by (auto simp: died_def rl Inr calls calls_step_refl)
    next
      case False
      then show ?thesis using calls
        by (auto simp: died_def rl Inr calls_step_refl get_tool_call_def row_ok_def split: option.split intro!: calls_step_append)
    qed
  qed
qed

lemma session_requests_calls [simp]:
  "rl_calls (snd (create_session env minted owner nid provider client device declared ttl choices wall st)) = rl_calls st"
  "rl_calls (snd (attach env minted owner sid provider client device declared now st)) = rl_calls st"
  "rl_calls (close_session sid now st) = rl_calls st"
  "rl_calls (snd (pull_pending_sideband owner sid now st)) = rl_calls st"
  "rl_calls (client_events owner sid now f st) = rl_calls st"
  by (auto simp: create_session_def attach_def close_session_def pull_pending_sideband_def client_events_def Let_def
         dest: require_live_eq(1) split: prod.split sum.split option.split)

lemma sweep_idle_calls [simp]: "rl_calls (snd (sweep_idle_sessions now idle_after most st)) = rl_calls st"
proof -
  have "rl_calls (foldl (\<lambda>s i. audit_rt a i [] (put_session i g s)) st ids) = rl_calls st" for a g ids st
    by (induction ids arbitrary: st) simp_all
  then show ?thesis by (simp add: sweep_idle_sessions_def Let_def)
qed

definition winner_ok :: "'w rt_request \<Rightarrow> bool" where
  "winner_ok q = (case q of Call _ _ _ _ _ (Some r) _ _ \<Rightarrow> row_ok r | _ \<Rightarrow> True)"

lemma relay_step_calls: "winner_ok q \<Longrightarrow> calls_step (rl_calls st) (rl_calls (relay_step env q st))"
  by (cases q)
     (auto simp: winner_ok_def complete_calls_step complete_system_calls_step died_calls_step calls_step_refl interrupted_step
        fail_interrupted_tool_calls_def queue_sideband_frame_def intro!: handle_calls_step)

lemma relay_run_calls: "\<forall>q \<in> set qs. winner_ok q \<Longrightarrow> calls_step (rl_calls st) (rl_calls (relay_run env qs st))"
  unfolding relay_run_def
proof (induction qs arbitrary: st)
  case (Cons q qs)
  then show ?case using calls_step_trans [OF relay_step_calls [of q st env] Cons.IH [of "relay_step env q st"]] by simp
qed (simp add: calls_step_refl)

section \<open>The sessions through a history\<close>

abbreviation is_over :: "rt_session \<Rightarrow> bool" where "is_over r \<equiv> rs_state r \<in> {Rt_closed, Rt_expired}"

text \<open>A session that is over keeps its end, its leg and its device; no session changes its provider or its expiry.\<close>

definition session_became :: "rt_session \<Rightarrow> rt_session \<Rightarrow> bool" where
  "session_became r r' =
     (rs_provider r' = rs_provider r \<and> rs_created r' = rs_created r \<and> rs_expires r' = rs_expires r \<and>
      (is_over r \<longrightarrow> rs_state r' = rs_state r \<and> rs_closed r' = rs_closed r \<and> rs_owner r' = rs_owner r \<and> rs_device r' = rs_device r))"

interpretation session_rows: row_development rs_id session_became
  by unfold_locales (auto simp: session_became_def)

abbreviation sessions_step :: "rt_session list \<Rightarrow> rt_session list \<Rightarrow> bool" where
  "sessions_step \<equiv> table_step rs_id (\<lambda>_. True) session_became"

lemmas sessions_step_refl = session_rows.table_step_refl [where ok = "\<lambda>_. True"]
lemmas sessions_step_trans = session_rows.table_step_trans [where ok = "\<lambda>_. True"]

text \<open>A write that may be made on any row, and one that is made on a live row.\<close>

lemma sessions_step_plain:
  "(\<And>r. rs_id (f r) = rs_id r \<and> session_became r (f r)) \<Longrightarrow> sessions_step xs (row_put rs_id i f xs)"
  by (rule session_rows.table_step_put) (auto dest: row_get_SomeD)

lemma sessions_step_live:
  assumes "row_get rs_id i xs = Some row" "\<not> is_over row"
    and "\<And>r. rs_id (f r) = rs_id r \<and> rs_provider (f r) = rs_provider r \<and> rs_created (f r) = rs_created r \<and> rs_expires (f r) = rs_expires r"
  shows "sessions_step xs (row_put rs_id i f xs)"
  using assms by (intro session_rows.table_step_put) (auto simp: session_became_def dest: row_get_SomeD)

lemma touch_simps [simp]:
  "rs_id (touch now r) = rs_id r" "rs_provider (touch now r) = rs_provider r" "rs_created (touch now r) = rs_created r"
  "rs_expires (touch now r) = rs_expires r" "rs_closed (touch now r) = rs_closed r" "rs_owner (touch now r) = rs_owner r"
  "rs_device (touch now r) = rs_device r" "rs_ctx (touch now r) = rs_ctx r" "is_over (touch now r) = is_over r"
  "is_over r \<Longrightarrow> rs_state (touch now r) = rs_state r" "rs_state r = Rt_active \<Longrightarrow> rs_state (touch now r) = Rt_active"
  by (auto simp: touch_def)

lemma require_live_sessions: "sessions_step (rl_sessions st) (rl_sessions (snd (require_live now sid st)))"
proof (cases rule: require_live_cases [of now sid st])
  case (expired row)
  then show ?thesis by (auto intro!: sessions_step_live)
qed (simp_all add: sessions_step_refl)

lemma is_live_not_over: "is_live now row \<Longrightarrow> \<not> is_over row"
  by (auto simp: is_live_def)

definition harmless :: "(rt_session \<Rightarrow> rt_session) \<Rightarrow> bool" where
  "harmless f =
     (\<forall>r. rs_id (f r) = rs_id r \<and> rs_provider (f r) = rs_provider r \<and> rs_created (f r) = rs_created r \<and>
       rs_expires (f r) = rs_expires r \<and> rs_closed (f r) = rs_closed r \<and> rs_owner (f r) = rs_owner r \<and>
       rs_device (f r) = rs_device r \<and> (is_over (f r) = is_over r) \<and> (is_over r \<longrightarrow> rs_state (f r) = rs_state r))"

lemma harmless_became: "harmless f \<Longrightarrow> rs_id (f r) = rs_id r \<and> session_became r (f r)"
  unfolding harmless_def session_became_def by blast

lemma settle_call_sessions:
  "\<exists>f. rl_sessions (snd (settle_call env now row long preamble c pushes s)) = row_put rs_id (rs_id row) f (rl_sessions (snd s)) \<and>
     harmless f"
proof -
  obtain ctx st where s: "s = (ctx, st)" by (cases s)
  obtain ctx' st' where da: "deliver_all env row pushes (captured env long c now ctx, put_tool_call c st) = (ctx', st')"
    by (metis prod.exhaust)
  have "rl_sessions st' = rl_sessions st" using deliver_all_simps(3) [of env row pushes "(captured env long c now ctx, put_tool_call c st)"] da by simp
  then show ?thesis
    by (intro exI [of _ "\<lambda>r. touch now (r\<lparr>rs_plan_id := rs_plan_id (plan_of_call (long \<and> tc_status c = Running) ctx row), rs_ctx := ctx'\<rparr>)"])
       (simp add: settle_call_def s Let_def da touch_def harmless_def)
qed

lemma make_call_sessions:
  "\<exists>f. rl_sessions (snd (make_call env owner now d row spec c st)) = row_put rs_id (rs_id row) f (rl_sessions st) \<and>
     harmless f"
proof (cases spec)
  case None
  show ?thesis
    using settle_call_sessions [of env now row False None "close_call c d (unknown_tool env (tc_name c))" "[]" "(rs_ctx row, st)"]
    by (simp add: make_call_def None)
next
  case (Some sp)
  show ?thesis
  proof (cases "stopped env owner now (rl_home st) (tc_name c) (tc_args c) (rs_ctx row)")
    case None
    obtain r ctx h where h: "ts_handler sp (tc_args c) (rs_ctx row) ((rl_home st)\<lparr>hm_pushes := []\<rparr>) = (r, ctx, h)"
      by (metis prod_cases3)
    let ?oc = "tool_outcome (ts_long_running sp) (tc_name c) r"
    show ?thesis
      using settle_call_sessions [of env now row "ts_long_running sp" "if fst ?oc = Running then ts_preamble sp else None"
          "close_call c d ?oc" "hm_pushes h" "(ctx, st\<lparr>rl_home := h\<lparr>hm_pushes := []\<rparr>\<rparr>)"]
      by (simp add: make_call_def Some None h Let_def)
  next
    case stop: (Some a)
    show ?thesis by (intro exI [of _ "touch now"]) (simp add: make_call_def Some stop Let_def harmless_def touch_def split: prod.split)
  qed
qed

lemma handle_sessions:
  "sessions_step (rl_sessions st) (rl_sessions (snd (handle_tool_call env owner sid call_id name args rival now d st)))"
proof (cases rule: handle_cases [of env owner sid call_id name args rival now d st])
  case (refused e)
  then show ?thesis using require_live_sessions by simp
next
  case (replayed row c)
  then show ?thesis by (simp add: sessions_step_refl)
next
  case (lost row w)
  then show ?thesis by (simp add: sessions_step_refl)
next
  case (made row spec c)
  obtain f where f: "rl_sessions (snd (make_call env owner now d row spec c (st\<lparr>rl_calls := rl_calls st @ [c]\<rparr>))) = row_put rs_id (rs_id row) f (rl_sessions st)"
      "harmless f"
    using make_call_sessions [of env owner now d row spec c "st\<lparr>rl_calls := rl_calls st @ [c]\<rparr>"] by auto
  show ?thesis unfolding made(8) snd_conv f(1) by (rule sessions_step_plain) (rule harmless_became [OF f(2)])
qed

lemma complete_sessions:
  "sessions_step (rl_sessions st) (rl_sessions (snd (complete_tool_call env owner sid call_id result error now st)))"
proof -
  obtain r st' where rl: "require_live now sid st = (r, st')" by (cases "require_live now sid st")
  have first: "sessions_step (rl_sessions st) (rl_sessions st')" using require_live_sessions [of st now sid] rl by simp
  show ?thesis
  proof (cases "\<exists>row c. r = Inr row \<and> require_leg row owner = Inr () \<and> get_tool_call sid call_id st' = Some c \<and> tc_status c = Running")
    case True
    then obtain row c where c: "r = Inr row" "require_leg row owner = Inr ()" "get_tool_call sid call_id st' = Some c" "tc_status c = Running"
      by blast
    obtain c' ctx st1 where rc: "resolve_call env False row c result error now st' = (c', ctx, st1)" by (metis prod_cases3)
    obtain told ctx' st2 where dl: "deliver env row (''tool_completed'', JObj (completed_payload c')) (ctx, st1) = (told, ctx', st2)"
      by (metis prod_cases3)
    have "rl_sessions st2 = rl_sessions st'" using deliver_eq(3) [OF dl] resolve_call_simps(3) [OF rc] by simp
    then show ?thesis
      by (intro sessions_step_trans [OF first])
         (simp add: complete_tool_call_def rl c rc dl session_became_def sessions_step_plain)
  next
    case False
    have "snd (complete_tool_call env owner sid call_id result error now st) = st'"
    proof (cases r)
      case (Inr row)
      then show ?thesis using False
        by (cases "require_leg row owner"; cases "get_tool_call sid call_id st'") (auto simp: complete_tool_call_def rl)
    qed (simp add: complete_tool_call_def rl)
    then show ?thesis using first by simp
  qed
qed

lemma complete_system_sessions:
  "sessions_step (rl_sessions st) (rl_sessions (snd (complete_tool_call_system env forward sid call_id result error now st)))"
proof (cases "\<exists>row c. row_get rs_id sid (rl_sessions st) = Some row \<and> get_tool_call sid call_id st = Some c \<and> tc_status c = Running")
  case True
  then obtain row c where c: "row_get rs_id sid (rl_sessions st) = Some row" "get_tool_call sid call_id st = Some c" "tc_status c = Running"
    by blast
  obtain c' ctx st1 where rc: "resolve_call env True row c result error now st = (c', ctx, st1)" by (metis prod_cases3)
  show ?thesis
  proof (rule complete_system_rest [OF c rc, of forward])
    fix told ctx' st2
    assume eq: "complete_tool_call_system env forward sid call_id result error now st =
       (Some (completed_payload c', told),
        audit_rt ''voice_tool_completed'' sid call_id (put_session sid (\<lambda>r. r\<lparr>rs_ctx := ctx', rs_updated := now\<rparr>) st2))"
      and rows: "rl_sessions st2 = rl_sessions st1 \<or> (\<exists>i f. rl_sessions st2 = row_put rs_id i (\<lambda>r. r\<lparr>rs_ctx := f\<rparr>) (rl_sessions st1))"
    have "sessions_step (rl_sessions st1) (rl_sessions st2)"
      using rows by (auto simp: session_became_def sessions_step_refl intro!: sessions_step_plain)
    then have "sessions_step (rl_sessions st) (rl_sessions st2)" using resolve_call_simps(3) [OF rc] by simp
    then show ?thesis unfolding eq snd_conv audit_rt_simps put_session_simps
      by (rule sessions_step_trans) (simp add: session_became_def sessions_step_plain)
  qed
qed (simp add: complete_system_none sessions_step_refl)

lemma sessions_step_append: "row_get rs_id (rs_id r) xs = None \<Longrightarrow> sessions_step xs (xs @ [r])"
  by (rule session_rows.table_step_append) simp_all

lemma create_sessions:
  assumes "row_get rs_id nid (rl_sessions st) = None"
  shows "sessions_step (rl_sessions st) (rl_sessions (snd (create_session env minted owner nid provider client device declared ttl choices wall st)))"
proof -
  have "rs_id (carry_previous env now st (new_session owner nid provider client device declared ttl choices now)) = nid" for now
    by (simp add: carry_previous_def new_session_def Let_def split: option.split)
  then show ?thesis using assms
    by (auto simp: create_session_def Let_def sessions_step_refl intro!: sessions_step_append)
qed

lemma attach_sessions:
  "sessions_step (rl_sessions st) (rl_sessions (snd (attach env minted owner sid provider client device declared now st)))"
proof (cases rule: require_live_cases [of now sid st])
  case (live row)
  have same: "rl_sessions (if rs_owner row = ow_session owner then st else audit_rt ''voice_leg_closed'' sid [] st) = rl_sessions st"
    by simp
  show ?thesis using is_live_not_over [OF live(3)]
    by (auto simp: attach_def live(1) sessions_step_refl same attached_def Let_def intro!: sessions_step_live [OF live(2)])
next
  case (expired row)
  then show ?thesis using require_live_sessions [of st now sid] by (simp add: attach_def)
qed (simp_all add: attach_def sessions_step_refl)

lemma pull_sessions: "sessions_step (rl_sessions st) (rl_sessions (snd (pull_pending_sideband owner sid now st)))"
proof (cases rule: require_live_cases [of now sid st])
  case (live row)
  show ?thesis using is_live_not_over [OF live(3)]
    by (auto simp: pull_pending_sideband_def live(1) sessions_step_refl Let_def split: sum.split intro!: sessions_step_live [OF live(2)])
next
  case (expired row)
  then show ?thesis using require_live_sessions [of st now sid] by (simp add: pull_pending_sideband_def)
qed (simp_all add: pull_pending_sideband_def sessions_step_refl)

lemma client_events_sessions: "sessions_step (rl_sessions st) (rl_sessions (client_events owner sid now f st))"
proof (cases rule: require_live_cases [of now sid st])
  case (live row)
  show ?thesis using is_live_not_over [OF live(3)]
    by (auto simp: client_events_def live(1) sessions_step_refl intro!: sessions_step_live [OF live(2)])
next
  case (expired row)
  then show ?thesis using require_live_sessions [of st now sid] by (simp add: client_events_def)
qed (simp_all add: client_events_def sessions_step_refl)

lemma close_sessions: "sessions_step (rl_sessions st) (rl_sessions (close_session sid now st))"
proof (cases "row_get rs_id sid (rl_sessions st)")
  case (Some row)
  then show ?thesis
    by (cases "is_over row") (auto simp: close_session_def sessions_step_refl intro!: sessions_step_live [OF Some])
qed (simp add: close_session_def sessions_step_refl)

lemma sweep_idle_sessions_step: "sessions_step (rl_sessions st) (rl_sessions (snd (sweep_idle_sessions now idle_after most st)))"
proof (cases "distinct (map rs_id (rl_sessions st))")
  case True
  let ?g = "\<lambda>r::rt_session. r\<lparr>rs_state := Rt_expired, rs_closed := Some now, rs_updated := now\<rparr>"
  have fold: "sessions_step (rl_sessions s) (rl_sessions (foldl (\<lambda>s i. audit_rt a i [] (put_session i ?g s)) s ids))"
    if "\<forall>i \<in> set ids. \<exists>row. row_get rs_id i (rl_sessions s) = Some row \<and> \<not> is_over row" "distinct ids" for a ids s
    using that
  proof (induction ids arbitrary: s)
    case (Cons i ids)
    obtain row where row: "row_get rs_id i (rl_sessions s) = Some row" "\<not> is_over row" using Cons.prems(1) by auto
    have "\<forall>j \<in> set ids. \<exists>row. row_get rs_id j (rl_sessions (audit_rt a i [] (put_session i ?g s))) = Some row \<and> \<not> is_over row"
      using Cons.prems by (auto simp: row_get_put)
    then have tail: "sessions_step (row_put rs_id i ?g (rl_sessions s)) (rl_sessions (foldl (\<lambda>s i. audit_rt a i [] (put_session i ?g s)) s (i # ids)))"
      using Cons.IH [of "audit_rt a i [] (put_session i ?g s)"] Cons.prems(2) by simp
    show ?case by (rule sessions_step_trans [OF sessions_step_live [OF row] tail]) simp
  qed (simp add: sessions_step_refl)
  have ids: "set (idle_sessions now idle_after most st) \<subseteq> rs_id ` {r \<in> set (rl_sessions st). \<not> is_over r}"
    unfolding idle_sessions_def by (auto dest!: in_set_takeD)
  have "distinct (idle_sessions now idle_after most st)"
    unfolding idle_sessions_def take_map [symmetric] using True
    by (intro distinct_take) (simp add: distinct_map inj_on_subset [of _ "set (rl_sessions st)"] subset_iff)
  moreover have "\<forall>i \<in> set (idle_sessions now idle_after most st). \<exists>row. row_get rs_id i (rl_sessions st) = Some row \<and> \<not> is_over row"
    using ids row_get_distinct [OF True] by fastforce
  ultimately show ?thesis using fold by (simp add: sweep_idle_sessions_def Let_def)
qed (simp add: table_step_def)

lemma died_sessions: "sessions_step (rl_sessions st) (rl_sessions (died env owner sid call_id name args now f st))"
proof -
  have "rl_sessions (died env owner sid call_id name args now f st) = rl_sessions (snd (require_live now sid st))"
    by (auto simp: died_def split: prod.split sum.split option.split)
  then show ?thesis using require_live_sessions by simp
qed

lemma relay_step_sessions: "sessions_step (rl_sessions st) (rl_sessions (relay_step env q st))"
  by (cases q)
     (auto simp: handle_sessions died_sessions complete_sessions complete_system_sessions attach_sessions
        close_sessions sweep_idle_sessions_step pull_sessions client_events_sessions sessions_step_refl create_sessions
        fail_interrupted_tool_calls_def queue_sideband_frame_def session_became_def intro!: sessions_step_plain)

lemma relay_run_sessions: "sessions_step (rl_sessions st) (rl_sessions (relay_run env qs st))"
  unfolding relay_run_def
proof (induction qs arbitrary: st)
  case (Cons q qs)
  then show ?case using sessions_step_trans [OF relay_step_sessions [of st env q] Cons.IH [of "relay_step env q st"]] by simp
qed (simp add: sessions_step_refl)

section \<open>Properties\<close>

text \<open>
  C17. The table of calls through every history.  Whatever requests come in whatever order, each call id of a session has one
  row; a row is running exactly while it has no completion time, it has a result once it is finished and an error class exactly
  when it failed; and in every continuation the rows stay, the finished ones as they are, the running ones with their tool,
  their arguments and their time.
\<close>

theorem tool_calls_history:
  assumes "\<forall>q \<in> set (qs @ rs). winner_ok q" and "rl_calls start = []"
  shows "calls_ok (relay_run env qs start) \<and>
    developed tc_key call_became (rl_calls (relay_run env qs start)) (rl_calls (relay_run env (qs @ rs) start))"
proof -
  have ok: "calls_ok (relay_run env qs start)"
    using relay_run_calls [of qs start env] assms by (simp add: table_step_def calls_ok_def)
  have "relay_run env (qs @ rs) start = relay_run env rs (relay_run env qs start)" by (simp add: relay_run_def)
  then show ?thesis
    using relay_run_calls [of rs "relay_run env qs start" env] assms(1) ok by (simp add: table_step_def calls_ok_def)
qed

text \<open>The row behind an answer.\<close>

lemma handle_answer:
  assumes "handle_tool_call env owner sid call_id name args rival now d st = (Inr p, st')"
  obtains c pre again where "get_tool_call sid call_id st' = Some c" "p = tool_row_payload c pre again"
proof (cases rule: handle_cases [of env owner sid call_id name args rival now d st])
  case (refused e)
  then show ?thesis using assms by simp
next
  case (replayed row c)
  then show ?thesis using assms that [of c _ True] by (auto simp: get_tool_call_def)
next
  case (lost row w)
  then show ?thesis
    using assms that [of "w\<lparr>tc_session := sid, tc_call_id := call_id\<rparr>" None True]
    by (auto simp: get_tool_call_def row_get_append row_get_Cons)
next
  case (made row spec c)
  have c: "tc_key c = (sid, call_id)" "\<And>sp. spec = Some sp \<Longrightarrow> tc_long c = ts_long_running sp" by (simp_all add: made(7))
  have key: "row_get tc_key (tc_key c) (rl_calls st) = None" using made(4) c(1) by (simp add: get_tool_call_def)
  obtain c' pre where c': "fst (make_call env owner now d row spec c (st\<lparr>rl_calls := rl_calls st @ [c]\<rparr>)) = tool_row_payload c' pre False"
      "rl_calls (snd (make_call env owner now d row spec c (st\<lparr>rl_calls := rl_calls st @ [c]\<rparr>))) =
        row_put tc_key (tc_key c) (\<lambda>_. c') (rl_calls st @ [c])" "tc_key c' = tc_key c"
    by (rule make_call_row [OF c(2), of spec env owner now d row "st\<lparr>rl_calls := rl_calls st @ [c]\<rparr>"]) auto
  have "rl_calls st' = rl_calls st @ [c']" "p = tool_row_payload c' pre False"
    using assms made(8) c' row_put_appended [OF key, of c'] by auto
  then show ?thesis using that [of c' pre False] key c'(3) c(1) by (simp add: get_tool_call_def row_get_append row_get_Cons)
qed

text \<open>
  C13. A call id is executed once.  When a call was answered, then at any later time, whatever happened in between, a
  request with the same call id (with any tool, any arguments, under any registry) changes neither the home nor the calls: no handler
  runs.  If it is answered at all, it is answered as a replay, with the recorded tool, and with the recorded told_so when the call was
  finished.
\<close>

theorem tool_call_executed_once:
  assumes "handle_tool_call env owner sid call_id name args rival now d st = (Inr p, st1)"
    and "calls_ok st1" and "\<forall>q \<in> set rs. winner_ok q" and "st2 = relay_run env rs st1"
    and "handle_tool_call env' owner' sid call_id name' args' rival' now' d' st2 = (r, st3)"
  shows "rl_home st3 = rl_home st2 \<and> rl_calls st3 = rl_calls st2 \<and>
    (case r of Inl _ \<Rightarrow> True
     | Inr p' \<Rightarrow> cp_replayed p' \<and> cp_name p' = cp_name p \<and>
         (cp_status p = Running \<or>
          cp_status p' = cp_status p \<and> cp_result p' = cp_result p \<and> cp_error p' = cp_error p \<and> cp_long p' = cp_long p))"
proof -
  obtain c pre again where c: "get_tool_call sid call_id st1 = Some c" "p = tool_row_payload c pre again"
    by (rule handle_answer [OF assms(1)])
  have later: "distinct (map tc_key (rl_calls st2))" "developed tc_key call_became (rl_calls st1) (rl_calls st2)"
    using relay_run_calls [OF assms(3), of st1 env] assms(2,4) by (simp_all add: table_step_def calls_ok_def)
  obtain c2 where c2: "get_tool_call sid call_id st2 = Some c2" "call_became c c2"
    using call_rows.developed_get [OF later(2,1) c(1) [unfolded get_tool_call_def]] by (auto simp: get_tool_call_def)
  show ?thesis
  proof (cases rule: handle_cases [of env' owner' sid call_id name' args' rival' now' d' st2])
    case (refused e)
    then show ?thesis using assms(5) by auto
  next
    case (replayed row c')
    then have "c' = c2" "st3 = audit_rt ''voice_tool_call_replayed'' sid call_id st2"
        "r = Inr (tool_row_payload c' (Option.bind (registry_get env' (tc_name c')) ts_preamble) True)"
      using c2(1) assms(5) by simp_all
    then show ?thesis using c2(2) c(2) by (auto simp: tool_row_payload_def call_became_def split: if_splits)
  qed (use c2(1) in simp_all)
qed

text \<open>
  C12. Nothing happens without permission.  When a tool call changes anything in the home (devices, verdicts or the rest), then
  the session was live and the caller held its media leg, the call id was new, the tool is registered, and the call named no device, was
  not the second research of a follow-up turn and met no open question.  And the gate allowed it: it is in shadow mode, or the tool is an open one,
  or the call came from a trusted device whose session was recognized as the owner, on a trusted device, recently and surely enough for the tool.
\<close>

theorem tool_effects_need_permission:
  assumes "handle_tool_call env owner sid call_id name args rival now d st = (r, st')"
    and "hm_pushes (rl_home st) = []" and "rl_home st' \<noteq> rl_home st"
  shows "\<exists>row sp. row_get rs_id sid (rl_sessions st) = Some row \<and> is_live now row \<and> rs_owner row = ow_session owner \<and>
    get_tool_call sid call_id st = None \<and> registry_get env name = Some sp \<and>
    device_slot_keys args = [] \<and> rv_followup env (rl_home st) (ts_name sp) (rs_ctx row) now = None \<and>
    turn_question (rv_read_at env) (vc_turn (rs_ctx row)) now = None \<and>
    (rv_mode env = Shadow \<or> tier_of (ts_name sp) = Open \<or>
     device_is_trusted (hm_devices (rl_home st)) (ow_device owner) \<and>
     (\<exists>v. row_get vr_session (ow_session owner) (hm_verdicts (rl_home st)) = Some v \<and> vr_decision v = Is_owner \<and> vr_trusted v \<and>
        now - vr_at v \<le> seconds (if tier_of (ts_name sp) = Critical then 180 else 900) \<and>
        (tier_of (ts_name sp) \<noteq> Critical \<or> critical_min_score \<le> vr_score v)))"
proof (cases rule: handle_cases [of env owner sid call_id name args rival now d st])
  case (refused e)
  then show ?thesis using assms(1,3) by auto
next
  case (replayed row c)
  then show ?thesis using assms(1,3) by auto
next
  case (lost row w)
  then show ?thesis using assms(1,3) by auto
next
  case (made row spec c)
  let ?st = "st\<lparr>rl_calls := rl_calls st @ [c]\<rparr>"
  have st': "st' = snd (make_call env owner now d row spec c ?st)" using assms(1) made(8) by simp
  obtain sp where sp: "spec = Some sp" using assms(3) st' by (cases spec) (auto simp: make_call_def settle_call_result)
  have c: "tc_name c = ts_name sp" "tc_args c = args" by (simp_all add: made(7) sp)
  have free: "stopped env owner now (rl_home st) (ts_name sp) args (rs_ctx row) = None"
    using assms(3) st' by (cases "stopped env owner now (rl_home st) (ts_name sp) args (rs_ctx row)") (auto simp: make_call_def sp c Let_def)
  have gate: "su_allowed (gate_of env owner now (rl_home st) (ts_name sp))"
    and rest: "rv_followup env (rl_home st) (ts_name sp) (rs_ctx row) now = None" "device_slot_keys args = []"
      "turn_question (rv_read_at env) (vc_turn (rs_ctx row)) now = None"
    using free by (auto simp: stopped_def understanding_refusal_def Let_def split: if_splits option.splits)
  have "rv_mode env = Shadow \<or> tier_of (ts_name sp) = Open \<or>
     device_is_trusted (hm_devices (rl_home st)) (ow_device owner) \<and>
     (\<exists>v. row_get vr_session (ow_session owner) (hm_verdicts (rl_home st)) = Some v \<and> vr_decision v = Is_owner \<and> vr_trusted v \<and>
        now - vr_at v \<le> seconds (if tier_of (ts_name sp) = Critical then 180 else 900) \<and>
        (tier_of (ts_name sp) \<noteq> Critical \<or> critical_min_score \<le> vr_score v))"
    using gate unfolding gate_of_def step_up_mode_allowed step_up_would_refuse fresh_for_seconds by blast
  then show ?thesis
    by (intro exI [of _ row] exI [of _ sp] conjI) (use made(1-4,6) sp rest in simp_all)
qed

text \<open>The calls of one session.\<close>

definition call_ids :: "nat \<Rightarrow> 'w relay \<Rightarrow> string list" where
  "call_ids sid st = map tc_call_id (filter (\<lambda>c. tc_session c = sid) (rl_calls st))"

lemma call_ids_put:
  assumes "\<And>c. tc_key c = k \<Longrightarrow> tc_key (f c) = tc_key c"
  shows "map tc_call_id (filter (\<lambda>c. tc_session c = sid) (row_put tc_key k f cs)) = map tc_call_id (filter (\<lambda>c. tc_session c = sid) cs)"
  using assms by (induction cs) (auto simp: row_put_def)

lemma resolved_call_key: "tc_key (resolved_call s result error now c) = tc_key c"
  by (simp add: resolved_call_def Let_def split: option.split list.split)

lemma complete_call_ids:
  "call_ids i (snd (complete_tool_call env owner sid call_id result error now st)) = call_ids i st"
proof -
  obtain r st' where rl: "require_live now sid st = (r, st')" by (cases "require_live now sid st")
  have calls: "rl_calls st' = rl_calls st" by (rule require_live_eq(1) [OF rl])
  show ?thesis
  proof (cases "\<exists>row c. r = Inr row \<and> require_leg row owner = Inr () \<and> get_tool_call sid call_id st' = Some c \<and> tc_status c = Running")
    case True
    then obtain row c where c: "r = Inr row" "require_leg row owner = Inr ()" "get_tool_call sid call_id st' = Some c" "tc_status c = Running"
      by blast
    obtain c' ctx st1 where rc: "resolve_call env False row c result error now st' = (c', ctx, st1)" by (metis prod_cases3)
    obtain told ctx' st2 where dl: "deliver env row (''tool_completed'', JObj (completed_payload c')) (ctx, st1) = (told, ctx', st2)"
      by (metis prod_cases3)
    have "rl_calls st2 = row_put tc_key (tc_key c) (\<lambda>_. c') (rl_calls st)" "tc_key c' = tc_key c"
      using deliver_eq(1) [OF dl] resolve_call_simps(1,2) [OF rc] calls resolved_call_key by simp_all
    then show ?thesis by (simp add: complete_tool_call_def rl c rc dl call_ids_def call_ids_put)
  next
    case False
    have "rl_calls (snd (complete_tool_call env owner sid call_id result error now st)) = rl_calls st"
    proof (cases r)
      case (Inr row)
      then show ?thesis using False calls
        by (cases "require_leg row owner"; cases "get_tool_call sid call_id st'") (auto simp: complete_tool_call_def rl)
    qed (simp add: complete_tool_call_def rl calls)
    then show ?thesis by (simp add: call_ids_def)
  qed
qed

lemma complete_system_call_ids:
  "call_ids i (snd (complete_tool_call_system env forward sid call_id result error now st)) = call_ids i st"
proof (cases "\<exists>row c. row_get rs_id sid (rl_sessions st) = Some row \<and> get_tool_call sid call_id st = Some c \<and> tc_status c = Running")
  case True
  then obtain row c where c: "row_get rs_id sid (rl_sessions st) = Some row" "get_tool_call sid call_id st = Some c" "tc_status c = Running"
    by blast
  obtain c' ctx st1 where rc: "resolve_call env True row c result error now st = (c', ctx, st1)" by (metis prod_cases3)
  have "tc_key c' = tc_key c" using resolve_call_simps(1) [OF rc] resolved_call_key by simp
  then show ?thesis
    by (rule_tac complete_system_rest [OF c rc, of forward]) (simp add: call_ids_def resolve_call_simps(2) [OF rc] call_ids_put)
qed (simp add: complete_system_none)

lemma over_session_call_ids:
  assumes "row_get rs_id i (rl_sessions st) = Some row" "is_over row"
  shows "call_ids i (relay_step env q st) = call_ids i st"
proof (cases q)
  case (Call owner sid call_id name args rival now d)
  show ?thesis
  proof (cases rule: handle_calls [of env owner sid call_id name args rival now d st])
    case (new c row')
    then have "tc_session c \<noteq> i" using assms is_live_not_over by auto
    then show ?thesis using new(1) by (simp add: Call call_ids_def)
  qed (simp add: Call call_ids_def)
next
  case (Died owner sid call_id name args now f)
  have "rl_calls (died env owner sid call_id name args now f st) = rl_calls st \<or>
      (\<exists>c. rl_calls (died env owner sid call_id name args now f st) = rl_calls st @ [c] \<and> tc_session c \<noteq> i)"
  proof (cases rule: require_live_cases [of now sid st])
    case (live row')
    then have "sid \<noteq> i" using assms is_live_not_over by auto
    then show ?thesis using live by (auto simp: died_def split: option.split)
  qed (simp_all add: died_def)
  then show ?thesis by (auto simp: Died call_ids_def)
next
  case (Sweep_interrupted now older_than)
  have "map tc_call_id (filter (\<lambda>c. tc_session c = i) (map (\<lambda>c. if interrupted now older_than c
     then c\<lparr>tc_status := Failed, tc_error := e, tc_result := j, tc_completed := t\<rparr> else c) cs)) = map tc_call_id (filter (\<lambda>c. tc_session c = i) cs)"
    for cs e j t by (induction cs) auto
  then show ?thesis by (simp add: Sweep_interrupted fail_interrupted_tool_calls_def call_ids_def)
qed (simp_all add: complete_call_ids complete_system_call_ids call_ids_def [of i] queue_sideband_frame_def)

text \<open>
  C18. A session that is over stays over.  Once a session is closed or expired, no history of requests opens it again: its end, its
  leg, its device and its expiry stay as they are, and no call is ever added to it, so no handler runs in its name.  What was still
  running in it can only be completed.
\<close>

theorem session_over_stays_over:
  assumes "row_get rs_id sid (rl_sessions st) = Some row" "is_over row" "distinct (map rs_id (rl_sessions st))"
  shows "(\<exists>row'. row_get rs_id sid (rl_sessions (relay_run env qs st)) = Some row' \<and> rs_state row' = rs_state row \<and>
      rs_closed row' = rs_closed row \<and> rs_owner row' = rs_owner row \<and> rs_device row' = rs_device row \<and> rs_expires row' = rs_expires row) \<and>
    call_ids sid (relay_run env qs st) = call_ids sid st"
  using assms
proof (induction qs arbitrary: st row)
  case Nil
  then show ?case by (auto simp: relay_run_def)
next
  case (Cons q qs)
  have step: "distinct (map rs_id (rl_sessions (relay_step env q st)))"
      "developed rs_id session_became (rl_sessions st) (rl_sessions (relay_step env q st))"
    using relay_step_sessions [of st env q] Cons.prems(3) by (simp_all add: table_step_def)
  obtain row' where row': "row_get rs_id sid (rl_sessions (relay_step env q st)) = Some row'" "session_became row row'"
    using session_rows.developed_get [OF step(2,1) Cons.prems(1)] by blast
  then have same: "rs_state row' = rs_state row" "rs_closed row' = rs_closed row" "rs_owner row' = rs_owner row"
      "rs_device row' = rs_device row" "rs_expires row' = rs_expires row" "is_over row'"
    using Cons.prems(2) by (auto simp: session_became_def)
  show ?case
    using Cons.IH [OF row'(1) same(6) step(1)] over_session_call_ids [OF Cons.prems(1,2), of env q]
    unfolding same(1-5) by (simp add: relay_run_def)
qed

lemma resolve_call_done:
  assumes "resolve_call env s row c result error now st = (c', ctx, st1)" "get_tool_call sid call_id st = Some c"
    and "rl_calls st2 = rl_calls st1"
  shows "\<exists>c2. get_tool_call sid call_id st2 = Some c2 \<and> tc_status c2 \<noteq> Running"
proof -
  have "tc_status c' \<noteq> Running" "tc_key c' = tc_key c"
    using resolve_call_simps(1) [OF assms(1)] resolved_call_key by (auto simp: resolved_call_def Let_def split: option.split list.split)
  then show ?thesis
    using row_get_SomeD [OF assms(2) [unfolded get_tool_call_def]] assms(2,3) resolve_call_simps(2) [OF assms(1)]
    by (auto simp: get_tool_call_def row_get_put)
qed

lemma complete_done:
  assumes "complete_tool_call env owner sid call_id result error now st = (Inr told_so, st1)"
  shows "\<exists>c. get_tool_call sid call_id st1 = Some c \<and> tc_status c \<noteq> Running"
proof -
  obtain r st' where rl: "require_live now sid st = (r, st')" by (cases "require_live now sid st")
  obtain row c where c: "r = Inr row" "require_leg row owner = Inr ()" "get_tool_call sid call_id st' = Some c" "tc_status c = Running"
    using assms by (auto simp: complete_tool_call_def rl split: sum.splits option.splits if_splits)
  obtain c' ctx sta where rc: "resolve_call env False row c result error now st' = (c', ctx, sta)" by (metis prod_cases3)
  obtain told ctx' stb where dl: "deliver env row (''tool_completed'', JObj (completed_payload c')) (ctx, sta) = (told, ctx', stb)"
    by (metis prod_cases3)
  have "rl_calls st1 = rl_calls sta" using assms deliver_eq(1) [OF dl] by (auto simp: complete_tool_call_def rl c rc dl)
  then show ?thesis by (rule resolve_call_done [OF rc c(3)])
qed

lemma complete_system_done:
  assumes "complete_tool_call_system env forward sid call_id result error now st = (Some told_so, st1)"
  shows "\<exists>c. get_tool_call sid call_id st1 = Some c \<and> tc_status c \<noteq> Running"
proof -
  obtain row c where c: "row_get rs_id sid (rl_sessions st) = Some row" "get_tool_call sid call_id st = Some c" "tc_status c = Running"
    using assms complete_system_none [of sid st call_id env forward result error now] by fastforce
  obtain c' ctx sta where rc: "resolve_call env True row c result error now st = (c', ctx, sta)" by (metis prod_cases3)
  have "rl_calls st1 = rl_calls sta" by (rule complete_system_rest [OF c rc, of forward]) (use assms in auto)
  then show ?thesis by (rule resolve_call_done [OF rc c(2)])
qed

text \<open>
  A call is completed once.  After a completion by the client or by the system succeeded, no later completion does anything: the
  client's is an error that leaves the calls and the home as they are, the system's is no answer and changes nothing at all.
\<close>

theorem call_completed_once:
  assumes "complete_tool_call env owner sid call_id result error now st = (Inr told_so, st1) \<or>
      complete_tool_call_system env forward sid call_id result error now st = (Some told_so, st1)"
    and "calls_ok st" and "\<forall>q \<in> set rs. winner_ok q" and "st2 = relay_run env rs st1"
  shows "complete_tool_call_system env' forward' sid call_id result' error' now' st2 = (None, st2) \<and>
    (\<exists>e st3. complete_tool_call env' owner' sid call_id result' error' now' st2 = (Inl e, st3) \<and>
       rl_calls st3 = rl_calls st2 \<and> rl_home st3 = rl_home st2)"
proof -
  have step: "calls_step (rl_calls st) (rl_calls st1)"
    using assms(1) complete_calls_step [of st env owner sid call_id result error now]
      complete_system_calls_step [of st env forward sid call_id result error now] by auto
  obtain c where c: "get_tool_call sid call_id st1 = Some c" "tc_status c \<noteq> Running"
    using disjE [OF assms(1) complete_done complete_system_done] by blast
  have "distinct (map tc_key (rl_calls st1)) \<and> (\<forall>c \<in> set (rl_calls st1). row_ok c)"
    using step assms(2) unfolding table_step_def calls_ok_def by blast
  then have "distinct (map tc_key (rl_calls st2)) \<and> developed tc_key call_became (rl_calls st1) (rl_calls st2)"
    using relay_run_calls [OF assms(3), of st1 env] unfolding table_step_def assms(4) by blast
  then have c2: "get_tool_call sid call_id st2 = Some c"
    using call_rows.developed_get [of "rl_calls st1" "rl_calls st2" "(sid, call_id)" c] c by (auto simp: get_tool_call_def call_became_def)
  obtain r st' where rl: "require_live now' sid st2 = (r, st')" by (cases "require_live now' sid st2")
  have "get_tool_call sid call_id st' = Some c" using c2 get_tool_call_cong [OF require_live_eq(1) [OF rl]] by simp
  then have "\<exists>e. complete_tool_call env' owner' sid call_id result' error' now' st2 = (Inl e, st')"
    using c(2) by (auto simp: complete_tool_call_def rl split: sum.split)
  then show ?thesis
    using c2 c(2) require_live_eq(1,2) [OF rl] complete_system_none [of sid st2 call_id env' forward' result' error' now'] by auto
qed

section \<open>Sample runs\<close>

text \<open>One session of owner session 1, one tool that counts in the home, no gate.\<close>

definition sample_ctx :: "json list \<Rightarrow> voice_context" where
  "sample_ctx frames = \<lparr>vc_recording = None, vc_turn = None, vc_rest = [(''pending_sideband'', JList frames)]\<rparr>"

definition sample_session :: "rt_state \<Rightarrow> json list \<Rightarrow> rt_session" where
  "sample_session state frames =
     \<lparr>rs_id = 7, rs_provider = ''p'', rs_owner = 1, rs_device = None, rs_client = ''web'', rs_state = state, rs_plan_id = None,
      rs_ctx = sample_ctx frames, rs_summary = [], rs_created = 0, rs_expires = None, rs_closed = None, rs_updated = 0\<rparr>"

definition sample_spec :: "bool \<Rightarrow> nat home tool_spec" where
  "sample_spec long = \<lparr>ts_name = ''clock.now'', ts_long_running = long, ts_preamble = None,
     ts_handler = (\<lambda>args ctx h. (Inr (JObj []), ctx, h\<lparr>hm_rest := Suc (hm_rest h)\<rparr>))\<rparr>"

definition sample_relay_env :: "bool \<Rightarrow> nat relay_env" where
  "sample_relay_env long = \<lparr>rv_tools = [(''clock.now'', sample_spec long)], rv_mode = Shadow, rv_followup = (\<lambda>_ _ _ _. None),
     rv_device_question = (\<lambda>_. []), rv_read_at = (\<lambda>_. None), rv_secret = (\<lambda>_. False), rv_push = (\<lambda>_ _. False),
     rv_carryover = True, rv_iso = (\<lambda>_. []), rv_label = (\<lambda>_ _. None), rv_focus = (\<lambda>_ _ _ h. h)\<rparr>"

definition sample_owner :: owner_session where "sample_owner = \<lparr>ow_session = 1, ow_device = None, ow_client = ''web''\<rparr>"

definition sample_relay :: "rt_state \<Rightarrow> json list \<Rightarrow> nat relay" where
  "sample_relay state frames =
     \<lparr>rl_sessions = [sample_session state frames], rl_calls = [],
      rl_home = \<lparr>hm_devices = \<lparr>devices = [], sessions = [], commands = [], tokens = [], audits = []\<rparr>, hm_verdicts = [], hm_pushes = [], hm_rest = 0\<rparr>,
      rl_briefings = [(''b1'', None)], rl_clock = None, rl_audit = []\<rparr>"

lemmas sample_relay_defs = sample_ctx_def sample_session_def sample_spec_def sample_relay_env_def sample_owner_def sample_relay_def

lemma sample_free: "stopped (sample_relay_env long) sample_owner 5 h ''clock.now'' [] (sample_ctx frames) = None"
proof -
  have "su_allowed (gate_of (sample_relay_env long) sample_owner 5 h ''clock.now'')"
    by (simp add: gate_of_def sample_relay_env_def step_up_mode_allowed)
  then show ?thesis
    by (simp add: stopped_def Let_def understanding_refusal_def device_slot_keys_def turn_question_def sample_relay_env_def sample_ctx_def)
qed

definition sample_call :: "bool \<Rightarrow> tool_call" where
  "sample_call long = \<lparr>tc_session = 7, tc_call_id = ''c'', tc_name = ''clock.now'', tc_args = [], tc_status = (if long then Running else Succeeded),
     tc_result = Some (JObj []), tc_error = None, tc_long = long, tc_created = 5, tc_completed = (if long then None else Some 6)\<rparr>"

lemma sample_status: "terminal_status_for ''clock.now'' (JObj []) = (Succeeded, None)"
  by code_simp

lemma sample_handled:
  "\<exists>p st. handle_tool_call (sample_relay_env long) sample_owner 7 ''c'' ''clock.now'' [] None 5 6 (sample_relay Rt_active frames) = (Inr p, st) \<and>
     rl_calls st = [sample_call long] \<and> hm_rest (rl_home st) = 1 \<and>
     rl_sessions st = [(sample_session Rt_active frames)\<lparr>rs_updated := 5\<rparr>]"
proof -
  have get: "registry_get (sample_relay_env long) ''clock.now'' = Some (sample_spec long)"
    by (simp add: registry_get_def sample_relay_env_def)
  have live: "require_live 5 7 (sample_relay Rt_active frames) = (Inr (sample_session Rt_active frames), sample_relay Rt_active frames)"
    by (simp add: require_live_def sample_relay_def row_get_Cons sample_session_def)
  have oc: "tool_outcome long ''clock.now'' (Inr (JObj [])) = (if long then Running else Succeeded, None, JObj [])"
    by (simp add: tool_outcome_def sample_status)
  have stop: "stopped (sample_relay_env long) sample_owner 5 (rl_home (sample_relay Rt_active frames)) ''clock.now'' [] (rs_ctx (sample_session Rt_active frames)) = None"
    unfolding sample_session_def rt_session.simps by (rule sample_free)
  have handler: "ts_handler (sample_spec long) [] ctx h = (Inr (JObj []), ctx, h\<lparr>hm_rest := Suc (hm_rest h)\<rparr>)" for ctx h
    by (simp add: sample_spec_def)
  have fields: "ts_name (sample_spec long) = ''clock.now''" "ts_long_running (sample_spec long) = long" "ts_preamble (sample_spec long) = None"
    by (simp_all add: sample_spec_def)
  have capture: "captured env l c now (sample_ctx frames) = sample_ctx frames" for env :: "nat relay_env" and l c now
    by (simp add: captured_def capture_step_def sample_ctx_def)
  have plan: "\<not> truthy (dict_get ''plan_id'' (ctx_get ''plan'' (sample_ctx frames)))"
    by (simp add: ctx_get_def sample_ctx_def)
  show ?thesis
    using live stop
    by (simp add: plan row_put_def touch_def handle_tool_call_def live require_leg_def get Let_def make_call_def stop handler fields oc
        settle_call_def deliver_all_def plan_of_call_def
        get_tool_call_def sample_relay_def sample_owner_def sample_session_def capture close_call_def sample_call_def)
qed

definition sample_tool_request :: "nat rt_request" where
  "sample_tool_request = Call sample_owner 7 ''c'' ''clock.now'' [] None 5 6"

lemma tool_calls_history_witness:
  "calls_ok (relay_run (sample_relay_env False) [sample_tool_request] (sample_relay Rt_active [])) \<and>
   rl_calls (relay_run (sample_relay_env False) [sample_tool_request] (sample_relay Rt_active [])) = [sample_call False]"
  using tool_calls_history [of "[sample_tool_request]" "[]" "sample_relay Rt_active []" "sample_relay_env False"] sample_handled [of False "[]"]
  by (auto simp: relay_run_def sample_tool_request_def winner_ok_def sample_relay_def)

lemma tool_call_executed_once_witness:
  "\<exists>p st. handle_tool_call (sample_relay_env False) sample_owner 7 ''c'' ''clock.now'' [] None 5 6 (sample_relay Rt_active []) = (Inr p, st) \<and>
     hm_rest (rl_home st) = 1 \<and>
     hm_rest (rl_home (snd (handle_tool_call (sample_relay_env True) sample_owner 7 ''c'' ''mail.send'' [] None 8 9 st))) = 1"
proof -
  obtain p st where h: "handle_tool_call (sample_relay_env False) sample_owner 7 ''c'' ''clock.now'' [] None 5 6 (sample_relay Rt_active []) = (Inr p, st)"
      "rl_calls st = [sample_call False]" "hm_rest (rl_home st) = 1"
    using sample_handled [of False "[]"] by blast
  obtain r st3 where again: "handle_tool_call (sample_relay_env True) sample_owner 7 ''c'' ''mail.send'' [] None 8 9 st = (r, st3)"
    by (metis prod.exhaust)
  have ok: "calls_ok st" by (simp add: calls_ok_def h(2) sample_call_def row_ok_def)
  have idle: "\<forall>q \<in> set ([] :: nat rt_request list). winner_ok q" "st = relay_run (sample_relay_env False) [] st"
    by (simp_all add: relay_run_def)
  have "rl_home st3 = rl_home st" using tool_call_executed_once [OF h(1) ok idle again] by simp
  then show ?thesis using h again by auto
qed

lemma tool_effects_need_permission_witness:
  "\<exists>r st. handle_tool_call (sample_relay_env False) sample_owner 7 ''c'' ''clock.now'' [] None 5 6 (sample_relay Rt_active []) = (r, st) \<and>
     rl_home st \<noteq> rl_home (sample_relay Rt_active []) \<and> registry_get (sample_relay_env False) ''clock.now'' \<noteq> None"
proof -
  obtain p st where h: "handle_tool_call (sample_relay_env False) sample_owner 7 ''c'' ''clock.now'' [] None 5 6 (sample_relay Rt_active []) = (Inr p, st)"
      "hm_rest (rl_home st) = 1"
    using sample_handled [of False "[]"] by blast
  have home: "hm_pushes (rl_home (sample_relay Rt_active [])) = []" "rl_home st \<noteq> rl_home (sample_relay Rt_active [])"
    using h(2) by (auto simp: sample_relay_def)
  show ?thesis using tool_effects_need_permission [OF h(1) home] h(1) home(2) by auto
qed

lemma session_over_stays_over_witness:
  "call_ids 7 (relay_run (sample_relay_env False) [sample_tool_request, Close 7 9] (sample_relay Rt_closed [])) = []"
  using session_over_stays_over [of 7 "sample_relay Rt_closed []" "sample_session Rt_closed []" "sample_relay_env False" "[sample_tool_request, Close 7 9]"]
  by (simp add: sample_relay_def row_get_Cons sample_session_def call_ids_def)

lemma call_completed_once_witness:
  "\<exists>st told_so st2. rl_calls st = [sample_call True] \<and>
     complete_tool_call_system (sample_relay_env True) True 7 ''c'' (Some []) None 9 st = (Some told_so, st2) \<and>
     complete_tool_call_system (sample_relay_env True) True 7 ''c'' (Some []) None 9 st2 = (None, st2)"
proof -
  obtain st :: "nat relay" where st: "rl_calls st = [sample_call True]" "rl_sessions st = [(sample_session Rt_active [])\<lparr>rs_updated := 5\<rparr>]"
    using sample_handled [of True "[]"] by blast
  let ?row = "(sample_session Rt_active [])\<lparr>rs_updated := 5\<rparr>"
  have c: "row_get rs_id 7 (rl_sessions st) = Some ?row" "get_tool_call 7 ''c'' st = Some (sample_call True)" "tc_status (sample_call True) = Running"
    by (simp_all add: st row_get_Cons get_tool_call_def sample_session_def sample_call_def)
  obtain c' ctx st1 where rc: "resolve_call (sample_relay_env True) True ?row (sample_call True) (Some []) None 9 st = (c', ctx, st1)"
    by (metis prod_cases3)
  obtain told_so st2 where done1: "complete_tool_call_system (sample_relay_env True) True 7 ''c'' (Some []) None 9 st = (Some told_so, st2)"
    by (rule complete_system_rest [OF c rc, of True]) auto
  have ok: "calls_ok st" by (simp add: calls_ok_def st(1) sample_call_def row_ok_def)
  have "complete_tool_call_system (sample_relay_env True) True 7 ''c'' (Some []) None 9 st2 = (None, st2)"
    using call_completed_once [OF disjI2 [OF done1] ok, of "[]" st2] by (simp add: relay_run_def)
  then show ?thesis using st(1) done1 by blast
qed

section \<open>What the model shows\<close>

text \<open>A frame that reads out a briefing.\<close>

definition say_frame :: json where
  "say_frame = JObj [(''event'', JStr ''say''), (''payload'', JObj [(''briefing_ids'', JList [JStr ''b1''])])]"

text \<open>
  A briefing handed to a client is a briefing heard, also, says the code, when the leg attaches again.  The pull stamps it; the attach
  hands the same frame over and drops it from the buffer, but the briefing stays unheard, to be told again.
\<close>

lemma attach_leaves_briefing_unheard:
  "fst (attach (sample_relay_env False) True sample_owner 7 ''p'' None None None 5 (sample_relay Rt_active [say_frame])) = Inr [say_frame]"
  "rl_briefings (snd (attach (sample_relay_env False) True sample_owner 7 ''p'' None None None 5 (sample_relay Rt_active [say_frame]))) = [(''b1'', None)]"
  "fst (pull_pending_sideband sample_owner 7 5 (sample_relay Rt_active [say_frame])) = Inr [say_frame]"
  "rl_briefings (snd (pull_pending_sideband sample_owner 7 5 (sample_relay Rt_active [say_frame]))) = [(''b1'', Some 5)]"
proof -
  have live: "require_live 5 7 (sample_relay Rt_active [say_frame]) = (Inr (sample_session Rt_active [say_frame]), sample_relay Rt_active [say_frame])"
    by (simp add: require_live_def sample_relay_def row_get_Cons sample_session_def)
  have frames: "pending_frames (rs_ctx (sample_session Rt_active [say_frame])) = [say_frame]"
      "truthy (ctx_get ''pending_sideband'' (rs_ctx (sample_session Rt_active [say_frame])))"
    by (simp_all add: ctx_get_def sample_session_def sample_ctx_def)
  have own: "require_leg (sample_session Rt_active [say_frame]) sample_owner = Inr ()" "rs_provider (sample_session Rt_active [say_frame]) = ''p''"
      "rs_owner (sample_session Rt_active [say_frame]) = ow_session sample_owner"
    by (simp_all add: require_leg_def sample_session_def sample_owner_def)
  have ids: "briefing_ids [say_frame] = [''b1'']" by (simp add: briefing_ids_def say_frame_def)
  show "fst (attach (sample_relay_env False) True sample_owner 7 ''p'' None None None 5 (sample_relay Rt_active [say_frame])) = Inr [say_frame]"
    by (simp add: attach_def live own frames)
  show "rl_briefings (snd (attach (sample_relay_env False) True sample_owner 7 ''p'' None None None 5 (sample_relay Rt_active [say_frame]))) = [(''b1'', None)]"
    by (simp add: attach_def live own) (simp add: sample_relay_def)
  show "fst (pull_pending_sideband sample_owner 7 5 (sample_relay Rt_active [say_frame])) = Inr [say_frame]"
    by (simp add: pull_pending_sideband_def live own frames Let_def)
  show "rl_briefings (snd (pull_pending_sideband sample_owner 7 5 (sample_relay Rt_active [say_frame]))) = [(''b1'', Some 5)]"
    by (simp add: pull_pending_sideband_def live own frames Let_def stamp_delivered_briefings_def ids mark_briefing_def)
      (simp add: sample_relay_def)
qed

text \<open>Every artifact tool may ask a question; the question of the tools that edit, clone, delete and compare is recorded as a success.\<close>

lemma edit_question_counts_as_success:
  "terminal_status_for ''artifact.open'' (JObj [(''status'', JStr ''needs_clarification''), (''speech'', JStr ''q'')]) = (Needs_clarification, None)"
  "terminal_status_for ''artifact.edit'' (JObj [(''status'', JStr ''needs_clarification''), (''speech'', JStr ''q'')]) = (Succeeded, None)"
  "terminal_status_for ''artifact.delete'' (JObj [(''status'', JStr ''needs_clarification''), (''speech'', JStr ''q'')]) = (Succeeded, None)"
  by code_simp+

end
