(* ===== verification/Owner_Identity.thy ===== *)
theory Owner_Identity imports Py_Strings begin

text \<open>
  The owner's identity (\<open>app/identity/service.py\<close>, \<open>tokens.py\<close>, \<open>root.py\<close>, \<open>dependencies.py\<close>, \<open>recover.py\<close>): one
  credential, the opaque sessions exchanged for it, their rotation, revocation and expiry, the limiter of wrong attempts
  and the audit.  SHA-256 is an argument of the model; a new credential or token is given by the request, as the random
  generator gives it.  Times are instants; the limiter's monotonic clock is a time of its own.
  The properties: exactly which tokens are accepted, what revocation and rotation end for good, how long a session lives
  at most, how many wrong credentials are tried in a window, and what a narrowed session may reach.
\<close>

section \<open>Tokens\<close>

definition owner_credential_prefix :: string where "owner_credential_prefix = ''pagentos_ok_''"
definition session_token_prefix :: string where "session_token_prefix = ''pagentos_st_''"
definition min_secret_chars :: nat where "min_secret_chars = 40"
definition max_token_chars :: nat where "max_token_chars = 256"

definition printable_ascii :: "char \<Rightarrow> bool" where
  "printable_ascii c = (32 \<le> (of_char c :: nat) \<and> (of_char c :: nat) \<le> 126)"

definition looks_like_secret :: "string \<Rightarrow> string \<Rightarrow> bool" where
  "looks_like_secret value prefix =
     (is_prefix prefix value \<and> min_secret_chars \<le> length value \<and> length value \<le> max_token_chars \<and>
      list_all printable_ascii value)"

definition looks_like_session_token :: "string \<Rightarrow> bool" where
  "looks_like_session_token value = looks_like_secret value session_token_prefix"

definition looks_like_owner_credential :: "string \<Rightarrow> bool" where
  "looks_like_owner_credential value = looks_like_secret value owner_credential_prefix"

text \<open>\<open>header.split(None, 1)\<close>: the first word and the rest without its leading blanks.\<close>

definition split_word :: "string \<Rightarrow> (string \<times> string) option" where
  "split_word s =
     (let t = dropWhile is_space s; rest = dropWhile is_space (dropWhile (\<lambda>c. \<not> is_space c) t) in
      if t = [] \<or> rest = [] then None else Some (takeWhile (\<lambda>c. \<not> is_space c) t, rest))"

definition parse_bearer :: "string option \<Rightarrow> string option" where
  "parse_bearer header =
     (case header of
        None \<Rightarrow> None
      | Some h \<Rightarrow>
          (case split_word h of
             None \<Rightarrow> None
           | Some (scheme, rest) \<Rightarrow>
               (let credential = strip rest in
                if map lower scheme \<noteq> ''bearer'' \<or> credential = [] \<or> max_token_chars < length credential then None
                else Some credential)))"

section \<open>The limiter\<close>

type_synonym hits = "string \<Rightarrow> instant list"

definition prune :: "instant \<Rightarrow> instant \<Rightarrow> instant list \<Rightarrow> instant list" where
  "prune window now hs = dropWhile (\<lambda>h. h < now - window) hs"

definition limiter_record_failure :: "instant \<Rightarrow> instant \<Rightarrow> string \<Rightarrow> hits \<Rightarrow> nat \<times> hits" where
  "limiter_record_failure window now key h =
     (let hs = prune window now (h key) @ [now] in (length hs, h(key := hs)))"

definition failures :: "instant \<Rightarrow> instant \<Rightarrow> string \<Rightarrow> hits \<Rightarrow> nat" where
  "failures window now key h = length (prune window now (h key))"

definition throttled :: "nat \<Rightarrow> instant \<Rightarrow> instant \<Rightarrow> string \<Rightarrow> hits \<Rightarrow> bool" where
  "throttled max_failures window now key h = (max_failures \<le> failures window now key h)"

text \<open>Seconds until the oldest failure leaves the window, at least one.\<close>

definition limiter_retry_after :: "instant \<Rightarrow> instant \<Rightarrow> string \<Rightarrow> hits \<Rightarrow> int" where
  "limiter_retry_after window now key h =
     (case prune window now (h key) of
        [] \<Rightarrow> 0
      | oldest # _ \<Rightarrow> max 1 ((window - (now - oldest)) div 1000000 + 1))"

definition reset_hits :: "string \<Rightarrow> hits \<Rightarrow> hits" where "reset_hits key h = h(key := [])"

section \<open>The root, the sessions and the audit\<close>

record root_record =
  rr_hash :: string
  rr_created :: instant
  rr_rotated :: "instant option"
  rr_rotations :: nat

text \<open>The file of the root: absent, unreadable, or a record.\<close>

datatype root_file = No_root | Corrupt_root | Root root_record

datatype session_status = Session_active | Session_revoked | Session_expired

record own_session =
  os_id :: nat
  os_hash :: string
  os_kind :: string
  os_label :: string
  os_device :: "nat option"
  os_status :: session_status
  os_scopes :: "string list"
  os_created :: instant
  os_seen :: "instant option"
  os_expires :: instant
  os_revoked_at :: "instant option"
  os_revoked_reason :: "string option"

datatype session_action = Issued | Refreshed | Revoked_event | Expired_event | Rejected

record session_event =
  sv_action :: session_action
  sv_session :: "nat option"
  sv_reason :: string
  sv_at :: instant

record identity =
  id_root :: root_file
  id_rows :: "own_session list"
  id_events :: "session_event list"
  id_hits :: hits

record identity_env =
  ie_ttl :: int
  ie_idle :: int
  ie_lifetime :: int
  ie_max_failures :: nat
  ie_window :: instant
  ie_hash :: "string \<Rightarrow> string"

datatype identity_refusal =
    Not_bootstrapped | Malformed | Unknown | Expired_token | Revoked_token | Idle_timeout | Scope_missing | Unavailable

datatype identity_error =
    Already_bootstrapped | Corrupt_identity_root | No_credential | Invalid_owner_credential | Throttled int
  | Bad_value string | Duplicate_row

definition client_kinds :: "string list" where "client_kinds = [''web'', ''mobile'', ''desktop'', ''device'', ''cli'']"
definition max_scopes :: nat where "max_scopes = 16"
definition max_scope_chars :: nat where "max_scope_chars = 64"
definition min_ttl :: int where "min_ttl = 60"

definition session_event_of :: "session_action \<Rightarrow> string \<Rightarrow> nat option \<Rightarrow> instant \<Rightarrow> identity \<Rightarrow> identity" where
  "session_event_of action reason session now st =
     st\<lparr>id_events := id_events st @ [\<lparr>sv_action = action, sv_session = session, sv_reason = take 256 reason, sv_at = now\<rparr>]\<rparr>"

section \<open>The credential\<close>

definition is_bootstrapped :: "identity \<Rightarrow> bool" where "is_bootstrapped st = (id_root st \<noteq> No_root)"

definition load_root :: "identity \<Rightarrow> identity_error + root_record option" where
  "load_root st = (case id_root st of No_root \<Rightarrow> Inr None | Corrupt_root \<Rightarrow> Inl Corrupt_identity_root | Root r \<Rightarrow> Inr (Some r))"

definition bootstrap :: "identity_env \<Rightarrow> bool \<Rightarrow> string \<Rightarrow> instant \<Rightarrow> identity \<Rightarrow> (identity_error + string) \<times> identity" where
  "bootstrap env force credential now st =
     (case load_root st of
        Inl e \<Rightarrow> (Inl e, st)
      | Inr existing \<Rightarrow>
          if existing \<noteq> None \<and> \<not> force then (Inl Already_bootstrapped, st)
          else (let r = (case existing of
                     None \<Rightarrow> \<lparr>rr_hash = ie_hash env credential, rr_created = now, rr_rotated = None, rr_rotations = 0\<rparr>
                   | Some old \<Rightarrow> \<lparr>rr_hash = ie_hash env credential, rr_created = rr_created old, rr_rotated = Some now,
                       rr_rotations = rr_rotations old + 1\<rparr>)
                in (Inr credential,
                    session_event_of Issued (if existing \<noteq> None then ''owner_credential_rotated'' else ''owner_credential_bootstrapped'') None now
                      (st\<lparr>id_root := Root r, id_hits := reset_hits ''credential'' (id_hits st)\<rparr>))))"

definition verify_owner_credential :: "identity_env \<Rightarrow> string \<Rightarrow> identity \<Rightarrow> identity_error + bool" where
  "verify_owner_credential env credential st =
     bind_sum (load_root st)
       (\<lambda>r. case r of None \<Rightarrow> Inl No_credential
            | Some rr \<Rightarrow> Inr (looks_like_owner_credential credential \<and> ie_hash env credential = rr_hash rr))"

definition clean_scopes :: "string list \<Rightarrow> identity_error + string list" where
  "clean_scopes scopes =
     (if max_scopes < length scopes then Inl (Bad_value ''scopes'')
      else foldl (\<lambda>acc s. bind_sum acc (\<lambda>done_so_far.
             let value = strip s in
             if value = [] \<or> max_scope_chars < length value then Inl (Bad_value ''scope'')
             else Inr (if value \<in> set done_so_far then done_so_far else done_so_far @ [value]))) (Inr []) scopes)"

section \<open>Refusals and the audit of them\<close>

text \<open>A refusal is counted, and audited while the window holds at most the allowed number; one row more says that the rest is not.\<close>

definition reject ::
    "identity_env \<Rightarrow> identity_refusal \<Rightarrow> string \<Rightarrow> string \<Rightarrow> nat option \<Rightarrow> instant \<Rightarrow> instant \<Rightarrow> identity \<Rightarrow> identity_refusal \<times> identity" where
  "reject env refusal reason key session now tick st =
     (case limiter_record_failure (ie_window env) tick key (id_hits st) of
        (count, h) \<Rightarrow>
          (let st' = st\<lparr>id_hits := h\<rparr> in
           (refusal,
            if count \<le> ie_max_failures env then session_event_of Rejected reason session now st'
            else if count = ie_max_failures env + 1 then session_event_of Rejected ''rejection_audit_suppressed'' None now st'
            else st')))"

section \<open>Issuing\<close>

definition issue_session ::
    "identity_env \<Rightarrow> nat \<Rightarrow> string \<Rightarrow> string \<Rightarrow> string \<Rightarrow> nat option \<Rightarrow> string list \<Rightarrow> int option \<Rightarrow> instant \<Rightarrow> identity \<Rightarrow>
     (identity_error + own_session) \<times> identity" where
  "issue_session env nid token kind label device scopes ttl now st =
     (let effective = (case ttl of None \<Rightarrow> ie_ttl env | Some t \<Rightarrow> t) in
      if kind \<notin> set client_kinds then (Inl (Bad_value ''client_kind''), st)
      else if effective < min_ttl \<or> ie_ttl env < effective then (Inl (Bad_value ''ttl_s''), st)
      else (case clean_scopes scopes of
              Inl e \<Rightarrow> (Inl e, st)
            | Inr cleaned \<Rightarrow>
                if row_get os_id nid (id_rows st) \<noteq> None \<or> row_get os_hash (ie_hash env token) (id_rows st) \<noteq> None
                then (Inl Duplicate_row, st)
                else (let row = \<lparr>os_id = nid, os_hash = ie_hash env token, os_kind = kind, os_label = take 128 label, os_device = device,
                            os_status = Session_active, os_scopes = cleaned, os_created = now, os_seen = Some now,
                            os_expires = now + seconds effective, os_revoked_at = None, os_revoked_reason = None\<rparr>
                      in (Inr row, session_event_of Issued ''credential_exchange'' (Some nid) now
                            (st\<lparr>id_rows := id_rows st @ [row]\<rparr>)))))"

definition exchange_credential ::
    "identity_env \<Rightarrow> string \<Rightarrow> nat \<Rightarrow> string \<Rightarrow> string \<Rightarrow> string \<Rightarrow> nat option \<Rightarrow> string list \<Rightarrow> int option \<Rightarrow> instant \<Rightarrow> instant \<Rightarrow> identity \<Rightarrow>
     (identity_error + own_session) \<times> identity" where
  "exchange_credential env credential nid token kind label device scopes ttl now tick st =
     (if throttled (ie_max_failures env) (ie_window env) tick ''credential'' (id_hits st)
      then (Inl (Throttled (limiter_retry_after (ie_window env) tick ''credential'' (id_hits st))), st)
      else (case verify_owner_credential env credential st of
              Inl No_credential \<Rightarrow>
                (Inl No_credential,
                 snd (reject env Not_bootstrapped ''credential_exchange_before_bootstrap'' ''credential'' None now tick st))
            | Inl e \<Rightarrow> (Inl e, snd (reject env Unavailable ''identity_root_unreadable'' ''credential'' None now tick st))
            | Inr False \<Rightarrow>
                (Inl Invalid_owner_credential, snd (reject env Unknown ''owner_credential_mismatch'' ''credential'' None now tick st))
            | Inr True \<Rightarrow>
                issue_session env nid token kind label device scopes ttl now (st\<lparr>id_hits := reset_hits ''credential'' (id_hits st)\<rparr>)))"

text \<open>The exchange without its first step, on the outcome of the comparison.\<close>

definition exchange_finish ::
    "identity_env \<Rightarrow> identity_error + bool \<Rightarrow> nat \<Rightarrow> string \<Rightarrow> string \<Rightarrow> string \<Rightarrow> nat option \<Rightarrow> string list \<Rightarrow> int option \<Rightarrow> instant \<Rightarrow> instant \<Rightarrow> identity \<Rightarrow>
     (identity_error + own_session) \<times> identity" where
  "exchange_finish env outcome nid token kind label device scopes ttl now tick st =
     (case outcome of
        Inl No_credential \<Rightarrow>
          (Inl No_credential,
           snd (reject env Not_bootstrapped ''credential_exchange_before_bootstrap'' ''credential'' None now tick st))
      | Inl e \<Rightarrow> (Inl e, snd (reject env Unavailable ''identity_root_unreadable'' ''credential'' None now tick st))
      | Inr False \<Rightarrow>
          (Inl Invalid_owner_credential, snd (reject env Unknown ''owner_credential_mismatch'' ''credential'' None now tick st))
      | Inr True \<Rightarrow>
          issue_session env nid token kind label device scopes ttl now (st\<lparr>id_hits := reset_hits ''credential'' (id_hits st)\<rparr>))"

lemma exchange_credential_in_steps:
  "exchange_credential env credential nid token kind label device scopes ttl now tick st =
     (if throttled (ie_max_failures env) (ie_window env) tick ''credential'' (id_hits st)
      then (Inl (Throttled (limiter_retry_after (ie_window env) tick ''credential'' (id_hits st))), st)
      else exchange_finish env (verify_owner_credential env credential st) nid token kind label device scopes ttl now tick st)"
  unfolding exchange_credential_def exchange_finish_def by (rule refl)

section \<open>Verification\<close>

definition put_row :: "nat \<Rightarrow> (own_session \<Rightarrow> own_session) \<Rightarrow> identity \<Rightarrow> identity" where
  "put_row i f st = st\<lparr>id_rows := row_put os_id i f (id_rows st)\<rparr>"

definition past_absolute_lifetime :: "identity_env \<Rightarrow> own_session \<Rightarrow> instant \<Rightarrow> bool" where
  "past_absolute_lifetime env r now = (0 < ie_lifetime env \<and> seconds (ie_lifetime env) < now - os_created r)"

definition idle_since :: "own_session \<Rightarrow> instant" where
  "idle_since r = (case os_seen r of None \<Rightarrow> os_created r | Some t \<Rightarrow> t)"

definition past_idle_timeout :: "identity_env \<Rightarrow> own_session \<Rightarrow> instant \<Rightarrow> bool" where
  "past_idle_timeout env r now = (0 < ie_idle env \<and> seconds (ie_idle env) < now - idle_since r)"

definition expire_row :: "own_session \<Rightarrow> own_session" where
  "expire_row r = (if os_status r = Session_active then r\<lparr>os_status := Session_expired\<rparr> else r)"

definition expire_session :: "own_session \<Rightarrow> string \<Rightarrow> instant \<Rightarrow> identity \<Rightarrow> identity" where
  "expire_session r reason now st = session_event_of Expired_event reason (Some (os_id r)) now (put_row (os_id r) expire_row st)"

text \<open>The row a token belongs to: the hash column is unique.\<close>

definition verify_token ::
    "identity_env \<Rightarrow> string option \<Rightarrow> instant \<Rightarrow> instant \<Rightarrow> identity \<Rightarrow> (identity_refusal + own_session) \<times> identity" where
  "verify_token env token now tick st =
     (let refuse = (\<lambda>why reason session s. case reject env why reason ''bearer'' session now tick s of (w, s') \<Rightarrow> (Inl w, s')) in
      if \<not> is_bootstrapped st then refuse Not_bootstrapped ''no_owner_credential'' None st
      else (case token of
              None \<Rightarrow> refuse Malformed ''malformed_bearer'' None st
            | Some t \<Rightarrow>
                if \<not> looks_like_session_token t then refuse Malformed ''malformed_bearer'' None st
                else (case row_get os_hash (ie_hash env t) (id_rows st) of
                        None \<Rightarrow> refuse Unknown ''no_such_session'' None st
                      | Some r \<Rightarrow>
                          if os_status r = Session_revoked
                          then refuse Revoked_token
                                 (case os_revoked_reason r of Some (x # xs) \<Rightarrow> x # xs | _ \<Rightarrow> ''revoked'') (Some (os_id r)) st
                          else if past_absolute_lifetime env r now
                          then refuse Expired_token ''absolute_lifetime'' (Some (os_id r)) (expire_session r ''absolute_lifetime'' now st)
                          else if os_status r = Session_expired \<or> os_expires r \<le> now
                          then refuse Expired_token ''absolute_ttl'' (Some (os_id r)) (expire_session r ''absolute_ttl'' now st)
                          else if past_idle_timeout env r now
                          then refuse Idle_timeout ''idle_timeout'' (Some (os_id r)) (expire_session r ''idle_timeout'' now st)
                          else (Inr (r\<lparr>os_seen := Some now\<rparr>),
                                (put_row (os_id r) (\<lambda>x. x\<lparr>os_seen := Some now\<rparr>) st)
                                   \<lparr>id_hits := reset_hits ''bearer'' (id_hits st)\<rparr>))))"

text \<open>The token is rotated on the same row; the second reading of the clock is \<open>later\<close>.  A new token whose hash is already in the
  unique column raises in the database and changes nothing more: here it is the refusal of a row that is gone.\<close>

definition refresh_session ::
    "identity_env \<Rightarrow> string \<Rightarrow> string \<Rightarrow> instant \<Rightarrow> instant \<Rightarrow> instant \<Rightarrow> identity \<Rightarrow> (identity_refusal + own_session) \<times> identity" where
  "refresh_session env token new_token now tick later st =
     (case verify_token env (Some token) now tick st of
        (Inl e, st') \<Rightarrow> (Inl e, st')
      | (Inr r, st') \<Rightarrow>
          (case row_get os_id (os_id r) (id_rows st') of
             None \<Rightarrow> (Inl Unknown, st')
           | Some row \<Rightarrow>
               if os_status row \<noteq> Session_active \<or> row_get os_hash (ie_hash env new_token) (id_rows st') \<noteq> None
               then (Inl Unknown, st')
               else (let f = (\<lambda>x. x\<lparr>os_hash := ie_hash env new_token, os_seen := Some later, os_expires := later + seconds (ie_ttl env)\<rparr>)
                     in (Inr (f row), session_event_of Refreshed ''token_rotated'' (Some (os_id r)) later (put_row (os_id r) f st')))))"

section \<open>Revocation and sweeps\<close>

definition revoke_row :: "string \<Rightarrow> instant \<Rightarrow> own_session \<Rightarrow> own_session" where
  "revoke_row reason now r =
     r\<lparr>os_status := Session_revoked, os_revoked_at := Some now, os_revoked_reason := Some (take 256 reason)\<rparr>"

definition revoke_rows :: "string \<Rightarrow> instant \<Rightarrow> own_session list \<Rightarrow> identity \<Rightarrow> nat \<times> identity" where
  "revoke_rows reason now rows st =
     (length rows,
      foldl (\<lambda>s r. session_event_of Revoked_event reason (Some (os_id r)) now (put_row (os_id r) (revoke_row reason now) s)) st rows)"

definition revoke_session :: "nat \<Rightarrow> string \<Rightarrow> instant \<Rightarrow> identity \<Rightarrow> bool \<times> identity" where
  "revoke_session i reason now st =
     (case row_get os_id i (id_rows st) of
        None \<Rightarrow> (False, st)
      | Some r \<Rightarrow> if os_status r = Session_revoked then (False, st) else (True, snd (revoke_rows reason now [r] st)))"

definition revoke_sessions_for_device :: "nat \<Rightarrow> string \<Rightarrow> instant \<Rightarrow> identity \<Rightarrow> nat \<times> identity" where
  "revoke_sessions_for_device device reason now st =
     revoke_rows reason now (filter (\<lambda>r. os_device r = Some device \<and> os_status r = Session_active) (id_rows st)) st"

definition revoke_all :: "string \<Rightarrow> instant \<Rightarrow> identity \<Rightarrow> nat \<times> identity" where
  "revoke_all reason now st = revoke_rows reason now (filter (\<lambda>r. os_status r = Session_active) (id_rows st)) st"

definition session_end :: "identity_env \<Rightarrow> instant \<Rightarrow> own_session \<Rightarrow> string option" where
  "session_end env now r =
     (if past_absolute_lifetime env r now then Some ''absolute_lifetime''
      else if os_expires r \<le> now then Some ''swept''
      else if past_idle_timeout env r now then Some ''idle_timeout'' else None)"

definition sweep_expired_sessions :: "identity_env \<Rightarrow> instant \<Rightarrow> identity \<Rightarrow> nat \<times> identity" where
  "sweep_expired_sessions env now st =
     foldl (\<lambda>(n, s) r. case session_end env now r of None \<Rightarrow> (n, s) | Some reason \<Rightarrow> (Suc n, expire_session r reason now s))
       (0, st) (filter (\<lambda>r. os_status r = Session_active) (id_rows st))"

text \<open>\<open>recover --rotate\<close> on the host.\<close>

definition recover_rotate :: "identity_env \<Rightarrow> bool \<Rightarrow> string \<Rightarrow> instant \<Rightarrow> identity \<Rightarrow> (identity_error + nat) \<times> identity" where
  "recover_rotate env keep_sessions credential now st =
     (case bootstrap env True credential now st of
        (Inl e, st') \<Rightarrow> (Inl e, st')
      | (Inr _, st') \<Rightarrow>
          if keep_sessions then (Inr 0, st')
          else (case revoke_all ''owner_credential_rotated'' now st' of (n, st'') \<Rightarrow> (Inr n, st'')))"

section \<open>What a route asks for\<close>

datatype denial = Unauthorized | Forbidden

definition has_scope :: "string \<Rightarrow> own_session \<Rightarrow> bool" where
  "has_scope scope r = (os_scopes r = [] \<or> scope \<in> set (os_scopes r))"

definition record_scope_refusal :: "identity_env \<Rightarrow> nat \<Rightarrow> string \<Rightarrow> instant \<Rightarrow> instant \<Rightarrow> identity \<Rightarrow> identity" where
  "record_scope_refusal env session scope now tick st =
     snd (reject env Scope_missing (''scope_missing:'' @ scope) ''scope'' (Some session) now tick st)"

definition require_owner_session ::
    "identity_env \<Rightarrow> string option \<Rightarrow> instant \<Rightarrow> instant \<Rightarrow> identity \<Rightarrow> (denial + own_session) \<times> identity" where
  "require_owner_session env header now tick st =
     (case verify_token env (parse_bearer header) now tick st of
        (Inl _, st') \<Rightarrow> (Inl Unauthorized, st')
      | (Inr r, st') \<Rightarrow>
          if os_scopes r \<noteq> [] then (Inl Forbidden, record_scope_refusal env (os_id r) ''<unrestricted>'' now tick st')
          else (Inr r, st'))"

definition require_scope ::
    "identity_env \<Rightarrow> string \<Rightarrow> string option \<Rightarrow> instant \<Rightarrow> instant \<Rightarrow> identity \<Rightarrow> (denial + own_session) \<times> identity" where
  "require_scope env scope header now tick st =
     (case verify_token env (parse_bearer header) now tick st of
        (Inl _, st') \<Rightarrow> (Inl Unauthorized, st')
      | (Inr r, st') \<Rightarrow>
          if os_scopes r = [] \<or> has_scope scope r then (Inr r, st')
          else (Inl Forbidden, record_scope_refusal env (os_id r) scope now tick st'))"

section \<open>Histories\<close>

datatype identity_request =
    Verify "string option" instant instant
  | Exchange string nat string string string "nat option" "string list" "int option" instant instant
  | Refresh string string instant instant instant
  | Revoke nat string instant
  | Revoke_device nat string instant
  | Revoke_every string instant
  | Sweep_expired instant
  | Bootstrap bool string instant
  | Rotate bool string instant
  | Owner_route "string option" instant instant
  | Scoped_route string "string option" instant instant

fun identity_step :: "identity_env \<Rightarrow> identity_request \<Rightarrow> identity \<Rightarrow> identity" where
  "identity_step env (Verify token now tick) st = snd (verify_token env token now tick st)"
| "identity_step env (Exchange credential nid token kind label device scopes ttl now tick) st =
     snd (exchange_credential env credential nid token kind label device scopes ttl now tick st)"
| "identity_step env (Refresh token new_token now tick later) st = snd (refresh_session env token new_token now tick later st)"
| "identity_step env (Revoke i reason now) st = snd (revoke_session i reason now st)"
| "identity_step env (Revoke_device d reason now) st = snd (revoke_sessions_for_device d reason now st)"
| "identity_step env (Revoke_every reason now) st = snd (revoke_all reason now st)"
| "identity_step env (Sweep_expired now) st = snd (sweep_expired_sessions env now st)"
| "identity_step env (Bootstrap force credential now) st = snd (bootstrap env force credential now st)"
| "identity_step env (Rotate keep credential now) st = snd (recover_rotate env keep credential now st)"
| "identity_step env (Owner_route header now tick) st = snd (require_owner_session env header now tick st)"
| "identity_step env (Scoped_route scope header now tick) st = snd (require_scope env scope header now tick st)"

definition identity_run :: "identity_env \<Rightarrow> identity_request list \<Rightarrow> identity \<Rightarrow> identity" where
  "identity_run env qs st = foldl (\<lambda>s q. identity_step env q s) st qs"

section \<open>What each operation does to the rows\<close>

named_theorems identity_simps \<open>the parts of the identity's state an operation leaves as they were\<close>

lemma session_event_of_parts [simp, identity_simps]:
  "id_rows (session_event_of a r s now st) = id_rows st" "id_hits (session_event_of a r s now st) = id_hits st"
  "id_root (session_event_of a r s now st) = id_root st"
  by (simp_all add: session_event_of_def)

lemma reject_parts [simp, identity_simps]:
  "fst (reject env why reason key session now tick st) = why"
  "id_rows (snd (reject env why reason key session now tick st)) = id_rows st"
  "id_root (snd (reject env why reason key session now tick st)) = id_root st"
  "id_hits (snd (reject env why reason key session now tick st)) = snd (limiter_record_failure (ie_window env) tick key (id_hits st))"
  by (auto simp: reject_def Let_def split: prod.splits)

lemma put_row_parts [simp, identity_simps]:
  "id_rows (put_row i f st) = row_put os_id i f (id_rows st)" "id_hits (put_row i f st) = id_hits st" "id_root (put_row i f st) = id_root st"
  by (simp_all add: put_row_def)

lemma expire_session_parts [simp, identity_simps]:
  "id_rows (expire_session r reason now st) = row_put os_id (os_id r) expire_row (id_rows st)"
  "id_hits (expire_session r reason now st) = id_hits st" "id_root (expire_session r reason now st) = id_root st"
  by (simp_all add: expire_session_def)

text \<open>What a token must satisfy to be accepted.\<close>

definition alive :: "identity_env \<Rightarrow> instant \<Rightarrow> own_session \<Rightarrow> bool" where
  "alive env now r =
     (os_status r = Session_active \<and> \<not> past_absolute_lifetime env r now \<and> now < os_expires r \<and> \<not> past_idle_timeout env r now)"

definition session_of :: "identity_env \<Rightarrow> string option \<Rightarrow> identity \<Rightarrow> own_session option" where
  "session_of env token st =
     (case token of Some t \<Rightarrow> if is_bootstrapped st \<and> looks_like_session_token t then row_get os_hash (ie_hash env t) (id_rows st) else None
                  | None \<Rightarrow> None)"

lemma verify_result:
  "(\<exists>r. session_of env token st = Some r \<and> alive env now r \<and>
        verify_token env token now tick st =
          (Inr (r\<lparr>os_seen := Some now\<rparr>),
           (put_row (os_id r) (\<lambda>x. x\<lparr>os_seen := Some now\<rparr>) st)\<lparr>id_hits := reset_hits ''bearer'' (id_hits st)\<rparr>)) \<or>
   (\<exists>why st'. (\<forall>r. session_of env token st = Some r \<longrightarrow> \<not> alive env now r) \<and> verify_token env token now tick st = (Inl why, st') \<and>
        id_root st' = id_root st \<and> (\<exists>h. id_hits st' = (id_hits st)(''bearer'' := h)) \<and>
        (id_rows st' = id_rows st \<or> (\<exists>i. id_rows st' = row_put os_id i expire_row (id_rows st))))"
proof -
  define refuse where "refuse = (\<lambda>why reason session s.
    case reject env why reason ''bearer'' session now tick s of (w, s') \<Rightarrow> (Inl w :: identity_refusal + own_session, s'))"
  have refused: "\<exists>st'. refuse why reason session s = (Inl why, st') \<and> id_root st' = id_root s \<and>
      (\<exists>h. id_hits st' = (id_hits s)(''bearer'' := h)) \<and> id_rows st' = id_rows s" for why reason session s
  proof -
    let ?s = "snd (reject env why reason ''bearer'' session now tick s)"
    have "refuse why reason session s = (Inl why, ?s)" unfolding refuse_def by (simp add: case_prod_beta)
    moreover have "id_hits ?s = (id_hits s)(''bearer'' := prune (ie_window env) tick (id_hits s ''bearer'') @ [tick])"
      by (simp add: limiter_record_failure_def Let_def)
    ultimately show ?thesis by (intro exI [of _ ?s] conjI) (simp, simp, rule exI, assumption, simp)
  qed
  note v = verify_token_def [of env token now tick st, folded refuse_def, unfolded Let_def]
  show ?thesis
  proof (cases "session_of env token st")
    case None
    then have "\<exists>why reason. verify_token env token now tick st = refuse why reason None st"
      unfolding verify_token_def Let_def refuse_def session_of_def by (auto split: option.splits if_splits)
    then show ?thesis using refused None by (metis option.distinct(1))
  next
    case (Some r)
    have refused_of: ?thesis if "verify_token env token now tick st = refuse why reason s st'" "\<not> alive env now r"
        "st' = st \<or> (\<exists>x. st' = expire_session r x now st)" for why reason s st'
    proof -
      obtain st'' where st'': "refuse why reason s st' = (Inl why, st'')" "id_root st'' = id_root st'"
          "\<exists>h. id_hits st'' = (id_hits st')(''bearer'' := h)" "id_rows st'' = id_rows st'" using refused by blast
      have "id_root st'' = id_root st" "\<exists>h. id_hits st'' = (id_hits st)(''bearer'' := h)"
          "id_rows st'' = id_rows st \<or> (\<exists>i. id_rows st'' = row_put os_id i expire_row (id_rows st))"
        using st'' that(3) by auto
      then show ?thesis using Some that(1,2) st''(1) by simp
    qed
    obtain t where t: "token = Some t" "is_bootstrapped st" "looks_like_session_token t" "row_get os_hash (ie_hash env t) (id_rows st) = Some r"
      using Some unfolding session_of_def by (auto split: option.splits if_splits)
    have v: "verify_token env token now tick st =
       (if os_status r = Session_revoked
        then refuse Revoked_token (case os_revoked_reason r of Some (x # xs) \<Rightarrow> x # xs | _ \<Rightarrow> ''revoked'') (Some (os_id r)) st
        else if past_absolute_lifetime env r now
        then refuse Expired_token ''absolute_lifetime'' (Some (os_id r)) (expire_session r ''absolute_lifetime'' now st)
        else if os_status r = Session_expired \<or> os_expires r \<le> now
        then refuse Expired_token ''absolute_ttl'' (Some (os_id r)) (expire_session r ''absolute_ttl'' now st)
        else if past_idle_timeout env r now
        then refuse Idle_timeout ''idle_timeout'' (Some (os_id r)) (expire_session r ''idle_timeout'' now st)
        else (Inr (r\<lparr>os_seen := Some now\<rparr>),
              (put_row (os_id r) (\<lambda>x. x\<lparr>os_seen := Some now\<rparr>) st)\<lparr>id_hits := reset_hits ''bearer'' (id_hits st)\<rparr>))"
      unfolding verify_token_def Let_def refuse_def using t by simp
    show ?thesis
    proof (cases "alive env now r")
      case True
      then show ?thesis using v Some unfolding alive_def by simp
    next
      case False
      consider (a) "os_status r = Session_revoked" | (b) "os_status r \<noteq> Session_revoked" "past_absolute_lifetime env r now"
        | (c) "os_status r \<noteq> Session_revoked" "\<not> past_absolute_lifetime env r now" "os_status r = Session_expired \<or> os_expires r \<le> now"
        | (d) "os_status r \<noteq> Session_revoked" "\<not> past_absolute_lifetime env r now" "\<not> (os_status r = Session_expired \<or> os_expires r \<le> now)"
            "past_idle_timeout env r now"
        using False unfolding alive_def not_less [symmetric] by (cases "os_status r") blast+
      then show ?thesis
      proof cases
        case a show ?thesis by (rule refused_of [OF _ False]) (subst v, subst if_P [OF a], rule refl, simp)
      next
        case b show ?thesis by (rule refused_of [OF _ False]) (subst v, subst if_not_P [OF b(1)], subst if_P [OF b(2)], rule refl, blast)
      next
        case c show ?thesis
          by (rule refused_of [OF _ False]) (subst v, subst if_not_P [OF c(1)], subst if_not_P [OF c(2)], subst if_P [OF c(3)], rule refl, blast)
      next
        case d show ?thesis
          by (rule refused_of [OF _ False])
            (subst v, subst if_not_P [OF d(1)], subst if_not_P [OF d(2)], subst if_not_P [OF d(3)], subst if_P [OF d(4)], rule refl, blast)
      qed
    qed
  qed
qed

text \<open>
  What a session's row may become: what it was issued for stays; once revoked it stays revoked, once ended it never
  becomes active again, and neither takes a new token.
\<close>

definition session_later :: "own_session \<Rightarrow> own_session \<Rightarrow> bool" where
  "session_later r r' =
     (os_created r' = os_created r \<and> os_scopes r' = os_scopes r \<and> os_device r' = os_device r \<and> os_kind r' = os_kind r \<and>
      (os_status r \<noteq> Session_active \<longrightarrow> os_status r' \<noteq> Session_active \<and> os_hash r' = os_hash r) \<and>
      (os_status r = Session_revoked \<longrightarrow> os_status r' = Session_revoked))"

interpretation own_rows: row_development os_id session_later
  by unfold_locales (auto simp: session_later_def)

abbreviation rows_step :: "identity \<Rightarrow> identity \<Rightarrow> bool" where
  "rows_step st st' \<equiv> table_step os_id (\<lambda>r. True) session_later (id_rows st) (id_rows st')"

lemma rows_step_same: "id_rows st' = id_rows st \<Longrightarrow> rows_step st st'"
  by (simp add: own_rows.table_step_refl)

lemma rows_step_put:
  assumes "id_rows st' = row_put os_id i f (id_rows st)"
    and "\<And>r. row_get os_id i (id_rows st) = Some r \<Longrightarrow> os_id (f r) = os_id r \<and> session_later r (f r)"
  shows "rows_step st st'"
  unfolding assms(1) by (rule own_rows.table_step_put) (use assms(2) row_get_SomeD in fastforce)

lemma rows_step_fold:
  assumes "\<And>s r. rows_step s (g s r)"
  shows "rows_step st (foldl g st rs)"
proof (induction rs arbitrary: st)
  case (Cons r rs)
  show ?case unfolding foldl_Cons by (rule own_rows.table_step_trans [OF assms Cons.IH])
qed (simp add: own_rows.table_step_refl)

lemma rows_step_map:
  assumes "id_rows st' = map f (id_rows st)" and f: "\<And>r. os_id (f r) = os_id r" "\<And>r. session_later r (f r)"
  shows "rows_step st st'"
proof -
  have "map os_id (map f (id_rows st)) = map os_id (id_rows st)" using f(1) by simp
  then show ?thesis using own_rows.developed_map [of "id_rows st" f] f unfolding table_step_def assms(1) by (metis (no_types))
qed

lemma expire_row_parts [simp]:
  "os_id (expire_row r) = os_id r" "os_hash (expire_row r) = os_hash r" "session_later r (expire_row r)"
  by (auto simp: expire_row_def session_later_def)

lemma revoke_row_parts [simp]:
  "os_id (revoke_row reason now r) = os_id r" "os_hash (revoke_row reason now r) = os_hash r"
  "os_status (revoke_row reason now r) = Session_revoked" "session_later r (revoke_row reason now r)"
  by (auto simp: revoke_row_def session_later_def)

lemma verify_token_rows:
  "id_rows (snd (verify_token env token now tick st)) = id_rows st \<or>
   (\<exists>i f. id_rows (snd (verify_token env token now tick st)) = row_put os_id i f (id_rows st) \<and>
      (\<forall>r. os_id (f r) = os_id r \<and> os_hash (f r) = os_hash r \<and> session_later r (f r)))"
  using verify_result [of env token st now tick]
proof (elim disjE exE conjE)
  fix r assume "verify_token env token now tick st =
          (Inr (r\<lparr>os_seen := Some now\<rparr>),
           (put_row (os_id r) (\<lambda>x. x\<lparr>os_seen := Some now\<rparr>) st)\<lparr>id_hits := reset_hits ''bearer'' (id_hits st)\<rparr>)"
  then show ?thesis
    by (intro disjI2 exI [of _ "os_id r"] exI [of _ "\<lambda>x. x\<lparr>os_seen := Some now\<rparr>"]) (simp add: session_later_def)
next
  fix why st' i assume "verify_token env token now tick st = (Inl why, st')" "id_rows st' = row_put os_id i expire_row (id_rows st)"
  then show ?thesis by (intro disjI2 exI [of _ i] exI [of _ expire_row]) simp
qed simp

lemma verify_token_step: "rows_step st (snd (verify_token env token now tick st))"
  using verify_token_rows [of env token now tick st] rows_step_put rows_step_same by metis

lemma revoke_rows_result:
  "id_rows (snd (revoke_rows reason now rs st)) =
     map (\<lambda>r. if os_id r \<in> os_id ` set rs then revoke_row reason now r else r) (id_rows st)"
proof -
  have "id_rows (foldl (\<lambda>s r. session_event_of Revoked_event reason (Some (os_id r)) now (put_row (os_id r) (revoke_row reason now) s)) st rs) =
     map (\<lambda>r. if os_id r \<in> os_id ` set rs then revoke_row reason now r else r) (id_rows st)" for st
  proof (induction rs arbitrary: st)
    case (Cons a rs)
    have twice: "revoke_row reason now (revoke_row reason now r) = revoke_row reason now r" for r by (simp add: revoke_row_def)
    show ?case unfolding foldl_Cons Cons.IH by (auto simp: row_put_def twice)
  qed simp
  then show ?thesis by (simp add: revoke_rows_def)
qed

lemma revoke_rows_step: "rows_step st (snd (revoke_rows reason now rs st))"
  by (rule rows_step_map [OF revoke_rows_result]) (simp_all add: session_later_def revoke_row_def)

lemma revoke_session_step: "rows_step st (snd (revoke_session i reason now st))"
  using revoke_rows_step own_rows.table_step_refl by (auto simp: revoke_session_def split: option.splits)

lemma revoke_sessions_for_device_step: "rows_step st (snd (revoke_sessions_for_device d reason now st))"
  unfolding revoke_sessions_for_device_def by (rule revoke_rows_step)

lemma revoke_all_step: "rows_step st (snd (revoke_all reason now st))"
  unfolding revoke_all_def by (rule revoke_rows_step)

lemma sweep_is_fold:
  "snd (sweep_expired_sessions env now st) =
     foldl (\<lambda>s r. case session_end env now r of None \<Rightarrow> s | Some reason \<Rightarrow> expire_session r reason now s) st
       (filter (\<lambda>r. os_status r = Session_active) (id_rows st))"
proof -
  have "snd (foldl (\<lambda>(n, s) r. case session_end env now r of None \<Rightarrow> (n, s) | Some reason \<Rightarrow> (Suc n, expire_session r reason now s)) p rs) =
     foldl (\<lambda>s r. case session_end env now r of None \<Rightarrow> s | Some reason \<Rightarrow> expire_session r reason now s) (snd p) rs" for p rs
    by (induction rs arbitrary: p) (auto split: option.splits prod.splits)
  then show ?thesis unfolding sweep_expired_sessions_def by simp
qed

lemma sweep_step: "rows_step st (snd (sweep_expired_sessions env now st))"
  unfolding sweep_is_fold
proof (rule rows_step_fold)
  fix s r show "rows_step s (case session_end env now r of None \<Rightarrow> s | Some reason \<Rightarrow> expire_session r reason now s)"
  proof (cases "session_end env now r")
    case (Some reason)
    have "rows_step s (expire_session r reason now s)" by (rule rows_step_put [OF expire_session_parts(1)]) simp
    then show ?thesis using Some by simp
  qed (simp add: own_rows.table_step_refl)
qed

lemma bootstrap_rows [simp, identity_simps]: "id_rows (snd (bootstrap env force credential now st)) = id_rows st"
  by (auto simp: bootstrap_def Let_def split: sum.splits option.splits)

lemma recover_rotate_step: "rows_step st (snd (recover_rotate env keep credential now st))"
proof -
  obtain res st' where b: "bootstrap env True credential now st = (res, st')" by (cases "bootstrap env True credential now st")
  have "id_rows st' = id_rows st" using bootstrap_rows [of env True credential now st] b by simp
  then show ?thesis using revoke_all_step [of st' "''owner_credential_rotated''" now] b
    by (auto simp: recover_rotate_def own_rows.table_step_refl split: sum.splits prod.splits)
qed

lemma issue_session_rows:
  "id_rows (snd (issue_session env nid token kind label device scopes ttl now st)) = id_rows st \<or>
   (\<exists>r. id_rows (snd (issue_session env nid token kind label device scopes ttl now st)) = id_rows st @ [r] \<and>
      fst (issue_session env nid token kind label device scopes ttl now st) = Inr r \<and>
      row_get os_id (os_id r) (id_rows st) = None \<and> os_hash r = ie_hash env token \<and> row_get os_hash (os_hash r) (id_rows st) = None)"
  by (auto simp: issue_session_def Let_def split: sum.splits option.splits)

lemma exchange_rows:
  "id_rows (snd (exchange_credential env credential nid token kind label device scopes ttl now tick st)) = id_rows st \<or>
   (\<exists>r. id_rows (snd (exchange_credential env credential nid token kind label device scopes ttl now tick st)) = id_rows st @ [r] \<and>
      fst (exchange_credential env credential nid token kind label device scopes ttl now tick st) = Inr r \<and>
      row_get os_id (os_id r) (id_rows st) = None \<and> os_hash r = ie_hash env token \<and> row_get os_hash (os_hash r) (id_rows st) = None)"
proof (cases "\<not> throttled (ie_max_failures env) (ie_window env) tick ''credential'' (id_hits st) \<and> verify_owner_credential env credential st = Inr True")
  case True
  then have "exchange_credential env credential nid token kind label device scopes ttl now tick st =
      issue_session env nid token kind label device scopes ttl now (st\<lparr>id_hits := reset_hits ''credential'' (id_hits st)\<rparr>)"
    unfolding exchange_credential_def by simp
  then show ?thesis
    using issue_session_rows [of env nid token kind label device scopes ttl now "st\<lparr>id_hits := reset_hits ''credential'' (id_hits st)\<rparr>"]
    by simp
next
  case False
  then have "id_rows (snd (exchange_credential env credential nid token kind label device scopes ttl now tick st)) = id_rows st"
    unfolding exchange_credential_def by (cases "verify_owner_credential env credential st") (auto split: identity_error.splits bool.splits)
  then show ?thesis by blast
qed

lemma exchange_step: "rows_step st (snd (exchange_credential env credential nid token kind label device scopes ttl now tick st))"
  using exchange_rows [of env credential nid token kind label device scopes ttl now tick st]
  by (elim disjE exE conjE) (simp_all add: own_rows.table_step_refl own_rows.table_step_append)

lemma refresh_result:
  "(\<exists>why. refresh_session env token new_token now tick later st = (Inl why, snd (verify_token env (Some token) now tick st))) \<or>
   (\<exists>r row f. refresh_session env token new_token now tick later st =
        (Inr (f row), session_event_of Refreshed ''token_rotated'' (Some (os_id r)) later (put_row (os_id r) f (snd (verify_token env (Some token) now tick st)))) \<and>
      session_of env (Some token) st = Some r \<and> alive env now r \<and>
      row_get os_id (os_id r) (id_rows (snd (verify_token env (Some token) now tick st))) = Some row \<and> os_status row = Session_active \<and>
      row_get os_hash (ie_hash env new_token) (id_rows (snd (verify_token env (Some token) now tick st))) = None \<and>
      f = (\<lambda>x. x\<lparr>os_hash := ie_hash env new_token, os_seen := Some later, os_expires := later + seconds (ie_ttl env)\<rparr>))"
proof -
  obtain res st' where v: "verify_token env (Some token) now tick st = (res, st')" by (cases "verify_token env (Some token) now tick st")
  show ?thesis
  proof (cases res)
    case (Inl e)
    then show ?thesis unfolding refresh_session_def v by simp
  next
    case (Inr r)
    then obtain r0 where r0: "session_of env (Some token) st = Some r0" "alive env now r0" "r = r0\<lparr>os_seen := Some now\<rparr>"
      using verify_result [of env "Some token" st now tick] v by auto
    show ?thesis
    proof (cases "row_get os_id (os_id r) (id_rows st')")
      case None
      then show ?thesis unfolding refresh_session_def v Inr by simp
    next
      case (Some row)
      show ?thesis
      proof (cases "os_status row \<noteq> Session_active \<or> row_get os_hash (ie_hash env new_token) (id_rows st') \<noteq> None")
        case True
        then show ?thesis unfolding refresh_session_def v Inr using Some by simp
      next
        case False
        then show ?thesis unfolding refresh_session_def v Inr using Some r0
          by (intro disjI2 exI [of _ r0] exI [of _ row]
              exI [of _ "\<lambda>x. x\<lparr>os_hash := ie_hash env new_token, os_seen := Some later, os_expires := later + seconds (ie_ttl env)\<rparr>"])
            (simp add: Let_def)
      qed
    qed
  qed
qed

lemma refresh_step: "rows_step st (snd (refresh_session env token new_token now tick later st))"
  using refresh_result [of env token new_token now tick later st]
proof (elim disjE exE conjE)
  fix why assume "refresh_session env token new_token now tick later st = (Inl why, snd (verify_token env (Some token) now tick st))"
  then show ?thesis using verify_token_step by simp
next
  fix r row f let ?st = "snd (verify_token env (Some token) now tick st)"
  assume r: "refresh_session env token new_token now tick later st =
        (Inr (f row), session_event_of Refreshed ''token_rotated'' (Some (os_id r)) later (put_row (os_id r) f ?st))"
    "row_get os_id (os_id r) (id_rows ?st) = Some row" "os_status row = Session_active"
    "f = (\<lambda>x. x\<lparr>os_hash := ie_hash env new_token, os_seen := Some later, os_expires := later + seconds (ie_ttl env)\<rparr>)"
  have "rows_step ?st (snd (refresh_session env token new_token now tick later st))"
  proof (rule rows_step_put)
    show "id_rows (snd (refresh_session env token new_token now tick later st)) = row_put os_id (os_id r) f (id_rows ?st)" using r(1) by simp
    show "os_id (f x) = os_id x \<and> session_later x (f x)" if "row_get os_id (os_id r) (id_rows ?st) = Some x" for x
      using that r(2-4) by (simp add: session_later_def)
  qed
  then show ?thesis using own_rows.table_step_trans verify_token_step by blast
qed

lemma owner_route_rows: "id_rows (snd (require_owner_session env header now tick st)) = id_rows (snd (verify_token env (parse_bearer header) now tick st))"
  by (simp add: require_owner_session_def record_scope_refusal_def split: prod.splits sum.splits)

lemma scoped_route_rows: "id_rows (snd (require_scope env scope header now tick st)) = id_rows (snd (verify_token env (parse_bearer header) now tick st))"
  by (simp add: require_scope_def record_scope_refusal_def split: prod.splits sum.splits)

lemma identity_rows_step: "rows_step st (identity_step env q st)"
  by (cases q) (simp_all only: identity_step.simps verify_token_step exchange_step refresh_step revoke_session_step
      revoke_sessions_for_device_step revoke_all_step sweep_step recover_rotate_step bootstrap_rows owner_route_rows scoped_route_rows
      own_rows.table_step_refl)

lemma identity_rows_run: "rows_step st (identity_run env qs st)"
  unfolding identity_run_def by (rule rows_step_fold) (rule identity_rows_step)

text \<open>The row a session has after a history.\<close>

lemma session_after:
  assumes "distinct (map os_id (id_rows st))" "row_get os_id i (id_rows st) = Some r" "rows_step st st'"
  shows "\<exists>r'. row_get os_id i (id_rows st') = Some r' \<and> session_later r r'"
  using assms own_rows.developed_get unfolding table_step_def by metis

lemma session_of_row:
  assumes "distinct (map os_id (id_rows st))" "session_of env token st = Some r"
  shows "row_get os_id (os_id r) (id_rows st) = Some r"
  using assms row_get_SomeD [of os_hash _ "id_rows st" r] rows.get_unique [of os_id "id_rows st" r]
  by (auto simp: session_of_def split: option.splits if_splits)

lemma verified_session:
  assumes "fst (verify_token env token now tick st) = Inr r"
  shows "\<exists>r0. session_of env token st = Some r0 \<and> alive env now r0 \<and> r = r0\<lparr>os_seen := Some now\<rparr>"
  using assms verify_result [of env token st now tick] by auto

section \<open>Which tokens are accepted\<close>

text \<open>C7. A token is accepted exactly when the identity has an owner, the token has the shape of one, a session holds its hash, and
  that session is active, within its absolute lifetime, not yet expired and not idle for too long.\<close>

theorem verify_exact:
  "isOk (fst (verify_token env token now tick st)) \<longleftrightarrow>
     (\<exists>t r. token = Some t \<and> id_root st \<noteq> No_root \<and> looks_like_session_token t \<and>
        row_get os_hash (ie_hash env t) (id_rows st) = Some r \<and> os_status r = Session_active \<and>
        (ie_lifetime env \<le> 0 \<or> now \<le> os_created r + seconds (ie_lifetime env)) \<and> now < os_expires r \<and>
        (ie_idle env \<le> 0 \<or> now \<le> idle_since r + seconds (ie_idle env)))"
proof -
  have "isOk (fst (verify_token env token now tick st)) \<longleftrightarrow> (\<exists>r. session_of env token st = Some r \<and> alive env now r)"
    using verify_result [of env token st now tick] by auto
  also have "\<dots> \<longleftrightarrow> (\<exists>t r. token = Some t \<and> id_root st \<noteq> No_root \<and> looks_like_session_token t \<and>
        row_get os_hash (ie_hash env t) (id_rows st) = Some r \<and> alive env now r)"
    by (auto simp: session_of_def is_bootstrapped_def split: option.splits)
  finally show ?thesis by (simp add: alive_def past_absolute_lifetime_def past_idle_timeout_def not_less diff_le_eq add.commute)
qed

section \<open>What ends a session\<close>

lemma row_get_map: "(\<And>r. key (f r) = key r) \<Longrightarrow> row_get key i (map f rows) = map_option f (row_get key i rows)"
  by (induction rows) (simp_all add: row_get_Cons)

lemma revoke_rows_row:
  assumes "row_get os_id i (id_rows st) = Some r" "i \<in> os_id ` set rs"
  shows "\<exists>r'. row_get os_id i (id_rows (snd (revoke_rows reason now rs st))) = Some r' \<and> os_status r' \<noteq> Session_active"
  unfolding revoke_rows_result using assms row_get_SomeD [OF assms(1)]
  by (simp add: row_get_map [of os_id])

lemma revoke_active_row:
  assumes "row_get os_id i (id_rows st) = Some r" "os_status r = Session_active \<Longrightarrow> P r"
    and "\<And>x. P x \<Longrightarrow> os_status x = Session_active"
  shows "\<exists>r'. row_get os_id i (id_rows (snd (revoke_rows reason now (filter P (id_rows st)) st))) = Some r' \<and> os_status r' \<noteq> Session_active"
proof (cases "os_status r = Session_active")
  case True
  then have "i \<in> os_id ` set (filter P (id_rows st))" using assms(2) row_get_SomeD [OF assms(1)] by force
  then show ?thesis by (rule revoke_rows_row [OF assms(1)])
next
  case False
  then show ?thesis unfolding revoke_rows_result using assms(1) by (simp add: row_get_map [of os_id])
qed

lemma ended_row:
  assumes i: "row_get os_id i (id_rows st) = Some r"
    and ends: "st' = snd (revoke_session i reason t st) \<or> (os_device r = Some d \<and> st' = snd (revoke_sessions_for_device d reason t st)) \<or>
      st' = snd (revoke_all reason t st) \<or> (st' = snd (recover_rotate env False credential t st) \<and> isOk (fst (recover_rotate env False credential t st)))"
  shows "rows_step st st' \<and> (\<exists>r'. row_get os_id i (id_rows st') = Some r' \<and> os_status r' \<noteq> Session_active)"
  using ends
proof (elim disjE conjE)
  assume s: "st' = snd (revoke_session i reason t st)"
  show ?thesis
  proof (cases "os_status r = Session_revoked")
    case True
    then show ?thesis using i s by (simp add: revoke_session_def own_rows.table_step_refl)
  next
    case False
    then have "st' = snd (revoke_rows reason t [r] st)" using i s by (simp add: revoke_session_def)
    then show ?thesis using revoke_rows_row [OF i, of "[r]"] revoke_rows_step row_get_SomeD [OF i] by auto
  qed
next
  assume d: "os_device r = Some d" and s: "st' = snd (revoke_sessions_for_device d reason t st)"
  show ?thesis unfolding s
    using revoke_sessions_for_device_step revoke_active_row [OF i, of "\<lambda>r. os_device r = Some d \<and> os_status r = Session_active"] d
    unfolding revoke_sessions_for_device_def by auto
next
  assume s: "st' = snd (revoke_all reason t st)"
  show ?thesis unfolding s using revoke_all_step revoke_active_row [OF i, of "\<lambda>r. os_status r = Session_active"]
    unfolding revoke_all_def by auto
next
  assume s: "st' = snd (recover_rotate env False credential t st)" and ok: "isOk (fst (recover_rotate env False credential t st))"
  obtain res st1 where b: "bootstrap env True credential t st = (res, st1)" by (cases "bootstrap env True credential t st")
  have rows: "id_rows st1 = id_rows st" using bootstrap_rows [of env True credential t st] b by simp
  obtain c where res: "res = Inr c" using ok b by (cases res) (auto simp: recover_rotate_def)
  have "st' = snd (revoke_all ''owner_credential_rotated'' t st1)" using s b res by (simp add: recover_rotate_def split: prod.splits)
  moreover have "\<exists>r'. row_get os_id i (id_rows (snd (revoke_all ''owner_credential_rotated'' t st1))) = Some r' \<and> os_status r' \<noteq> Session_active"
    unfolding revoke_all_def by (rule revoke_active_row [of _ _ r]) (simp_all add: rows i)
  moreover have "rows_step st st'" unfolding s by (rule recover_rotate_step)
  ultimately show ?thesis by simp
qed

lemma inactive_session_not_verified:
  assumes dist: "distinct (map os_id (id_rows st))" and i: "row_get os_id i (id_rows st) = Some r" "os_status r \<noteq> Session_active"
    and v: "fst (verify_token env token now tick (identity_run env' qs st)) = Inr r'"
  shows "os_id r' \<noteq> i"
proof
  let ?run = "identity_run env' qs st"
  assume id: "os_id r' = i"
  have dist': "distinct (map os_id (id_rows ?run))" using identity_rows_run dist unfolding table_step_def by blast
  obtain r0 where r0: "session_of env token ?run = Some r0" "alive env now r0" "r' = r0\<lparr>os_seen := Some now\<rparr>" using verified_session [OF v] by blast
  have "row_get os_id i (id_rows ?run) = Some r0" using session_of_row [OF dist' r0(1)] r0(3) id by simp
  moreover obtain r1 where "row_get os_id i (id_rows ?run) = Some r1" "session_later r r1"
    using session_after [OF dist i(1) identity_rows_run] by blast
  ultimately show False using r0(2) i(2) by (simp add: alive_def session_later_def)
qed

text \<open>C8. A session that was revoked (by itself, with its device, with every session, or by the rotation of the owner's credential) never
  passes a verification again, whatever requests follow and whatever token is presented.\<close>

theorem revoked_session_is_dead:
  assumes "distinct (map os_id (id_rows st))" and "row_get os_id i (id_rows st) = Some r"
    and "st' = snd (revoke_session i reason t st) \<or> (os_device r = Some d \<and> st' = snd (revoke_sessions_for_device d reason t st)) \<or>
      st' = snd (revoke_all reason t st) \<or> (st' = snd (recover_rotate env False credential t st) \<and> isOk (fst (recover_rotate env False credential t st)))"
    and "fst (verify_token env token now tick (identity_run env qs st')) = Inr r'"
  shows "os_id r' \<noteq> i"
proof -
  obtain r1 where r1: "rows_step st st'" "row_get os_id i (id_rows st') = Some r1" "os_status r1 \<noteq> Session_active"
    using ended_row [OF assms(2,3)] by blast
  then have "distinct (map os_id (id_rows st'))" using assms(1) unfolding table_step_def by blast
  from inactive_session_not_verified [OF this r1(2,3) assms(4)] show ?thesis .
qed

text \<open>C19. A session keeps what it was issued for: in every history, a route that asks for a scope lets it in only within the absolute
  lifetime counted from its creation, and only when it was issued with that scope or with no restriction.\<close>

theorem narrowed_session_stays_narrow:
  assumes dist: "distinct (map os_id (id_rows st))" and i: "row_get os_id i (id_rows st) = Some r"
    and ok: "fst (require_scope env scope header now tick (identity_run env qs st)) = Inr r'" "os_id r' = i" and life: "0 < ie_lifetime env"
  shows "now \<le> os_created r + seconds (ie_lifetime env) \<and> (os_scopes r = [] \<or> scope \<in> set (os_scopes r)) \<and> os_device r' = os_device r"
proof -
  let ?run = "identity_run env qs st"
  have v: "fst (verify_token env (parse_bearer header) now tick ?run) = Inr r'" and s: "os_scopes r' = [] \<or> scope \<in> set (os_scopes r')"
    using ok(1) by (auto simp: require_scope_def has_scope_def split: prod.splits sum.splits if_splits)
  have dist': "distinct (map os_id (id_rows ?run))" using identity_rows_run dist unfolding table_step_def by blast
  obtain r0 where r0: "session_of env (parse_bearer header) ?run = Some r0" "alive env now r0" "r' = r0\<lparr>os_seen := Some now\<rparr>"
    using verified_session [OF v] by blast
  have "row_get os_id i (id_rows ?run) = Some r0" using session_of_row [OF dist' r0(1)] r0(3) ok(2) by simp
  then have later: "session_later r r0" using session_after [OF dist i identity_rows_run, of env qs] by simp
  have "now - os_created r0 \<le> seconds (ie_lifetime env)" using r0(2) life by (simp add: alive_def past_absolute_lifetime_def)
  then show ?thesis using later s r0(3) by (simp add: session_later_def)
qed

section \<open>Tokens that were replaced\<close>

text \<open>The hashes of the tokens a request mints.\<close>

fun minted :: "identity_env \<Rightarrow> identity_request \<Rightarrow> string set" where
  "minted env (Exchange credential nid token kind label device scopes ttl now tick) = {ie_hash env token}"
| "minted env (Refresh token new_token now tick later) = {ie_hash env new_token}"
| "minted env q = {}"

abbreviation hashes :: "identity \<Rightarrow> string list" where
  "hashes st \<equiv> map os_hash (id_rows st)"

lemma row_put_hashes: "(\<And>r. os_hash (f r) = os_hash r) \<Longrightarrow> map os_hash (row_put os_id i f rows) = map os_hash rows"
  by (simp add: row_put_def)

lemma verify_token_hashes: "hashes (snd (verify_token env token now tick st)) = hashes st"
  using verify_token_rows [of env token now tick st] row_put_hashes by metis

lemma revoke_rows_hashes: "hashes (snd (revoke_rows reason now rs st)) = hashes st"
  unfolding revoke_rows_result by (simp add: comp_def)

lemma revoke_session_hashes: "hashes (snd (revoke_session i reason now st)) = hashes st"
  by (auto simp: revoke_session_def revoke_rows_hashes split: option.splits)

lemma sweep_hashes: "hashes (snd (sweep_expired_sessions env now st)) = hashes st"
proof -
  have "hashes (foldl (\<lambda>s r. case session_end env now r of None \<Rightarrow> s | Some reason \<Rightarrow> expire_session r reason now s) st rs) = hashes st" for rs
    by (induction rs arbitrary: st) (simp_all add: row_put_hashes split: option.splits)
  then show ?thesis unfolding sweep_is_fold .
qed

lemma recover_rotate_hashes: "hashes (snd (recover_rotate env keep credential now st)) = hashes st"
proof -
  obtain res st' where b: "bootstrap env True credential now st = (res, st')" by (cases "bootstrap env True credential now st")
  have "id_rows st' = id_rows st" using bootstrap_rows [of env True credential now st] b by simp
  moreover have "snd (recover_rotate env keep credential now st) = st' \<or>
      snd (recover_rotate env keep credential now st) = snd (revoke_all ''owner_credential_rotated'' now st')"
    unfolding recover_rotate_def b by (cases res) (simp_all add: case_prod_beta)
  ultimately show ?thesis unfolding revoke_all_def using revoke_rows_hashes by metis
qed

definition hash_step :: "string set \<Rightarrow> identity \<Rightarrow> identity \<Rightarrow> bool" where
  "hash_step fresh st st' =
     (distinct (map os_id (id_rows st)) \<and> distinct (hashes st) \<longrightarrow> distinct (hashes st') \<and> set (hashes st') \<subseteq> set (hashes st) \<union> fresh)"

lemma hash_step_same: "hashes st' = hashes st \<Longrightarrow> hash_step H st st'"
  by (auto simp: hash_step_def)

lemma distinct_replaced:
  assumes "distinct (map os_id rows)" "distinct (map os_hash rows)" "h \<notin> os_hash ` set rows" "\<And>r. os_hash (f r) = h"
  shows "distinct (map os_hash (row_put os_id i f rows))"
  using assms by (induction rows) (auto simp: row_put_def image_iff split: if_splits)

lemma refresh_hashes: "hash_step {ie_hash env new_token} st (snd (refresh_session env token new_token now tick later st))"
  using refresh_result [of env token new_token now tick later st]
proof (elim disjE exE conjE)
  fix why assume "refresh_session env token new_token now tick later st = (Inl why, snd (verify_token env (Some token) now tick st))"
  then show ?thesis using verify_token_hashes by (simp add: hash_step_same)
next
  fix r row f let ?st = "snd (verify_token env (Some token) now tick st)"
  assume r: "refresh_session env token new_token now tick later st =
        (Inr (f row), session_event_of Refreshed ''token_rotated'' (Some (os_id r)) later (put_row (os_id r) f ?st))"
    "row_get os_hash (ie_hash env new_token) (id_rows ?st) = None"
    "f = (\<lambda>x. x\<lparr>os_hash := ie_hash env new_token, os_seen := Some later, os_expires := later + seconds (ie_ttl env)\<rparr>)"
  have new: "ie_hash env new_token \<notin> os_hash ` set (id_rows ?st)" using r(2) by (simp add: row_get_None_iff)
  show ?thesis unfolding hash_step_def
  proof (intro impI)
    assume d: "distinct (map os_id (id_rows st)) \<and> distinct (hashes st)"
    have "distinct (map os_id (id_rows ?st))" using verify_token_step d unfolding table_step_def by blast
    moreover have "distinct (hashes ?st)" using d verify_token_hashes by simp
    ultimately have "distinct (map os_hash (row_put os_id (os_id r) f (id_rows ?st)))"
      by (rule distinct_replaced [OF _ _ new]) (simp add: r(3))
    moreover have "set (map os_hash (row_put os_id (os_id r) f (id_rows ?st))) \<subseteq> set (hashes ?st) \<union> {ie_hash env new_token}"
      by (auto simp: row_put_def r(3))
    ultimately show "distinct (hashes (snd (refresh_session env token new_token now tick later st))) \<and>
        set (hashes (snd (refresh_session env token new_token now tick later st))) \<subseteq> set (hashes st) \<union> {ie_hash env new_token}"
      unfolding r(1) using verify_token_hashes [of env "Some token" now tick st] by simp
  qed
qed

lemma exchange_hashes:
  "hash_step {ie_hash env token} st (snd (exchange_credential env credential nid token kind label device scopes ttl now tick st))"
  using exchange_rows [of env credential nid token kind label device scopes ttl now tick st]
  by (elim disjE exE conjE) (auto simp: hash_step_def row_get_None_iff)

lemma identity_hash_step: "hash_step (minted env q) st (identity_step env q st)"
  by (cases q) (simp_all only: identity_step.simps minted.simps exchange_hashes refresh_hashes hash_step_same verify_token_hashes
      revoke_session_hashes revoke_sessions_for_device_def revoke_all_def revoke_rows_hashes sweep_hashes recover_rotate_hashes bootstrap_rows
      owner_route_rows scoped_route_rows)

lemma identity_hash_run:
  "distinct (map os_id (id_rows st)) \<Longrightarrow> distinct (hashes st) \<Longrightarrow>
   distinct (hashes (identity_run env qs st)) \<and> set (hashes (identity_run env qs st)) \<subseteq> set (hashes st) \<union> \<Union> (minted env ` set qs)"
proof (induction qs arbitrary: st)
  case (Cons q qs)
  let ?st = "identity_step env q st"
  have "distinct (map os_id (id_rows ?st))" using identity_rows_step Cons.prems unfolding table_step_def by blast
  moreover have h: "distinct (hashes ?st) \<and> set (hashes ?st) \<subseteq> set (hashes st) \<union> minted env q"
    using identity_hash_step Cons.prems unfolding hash_step_def by blast
  ultimately have "distinct (hashes (identity_run env qs ?st)) \<and>
      set (hashes (identity_run env qs ?st)) \<subseteq> set (hashes ?st) \<union> \<Union> (minted env ` set qs)" using Cons.IH by blast
  moreover have "identity_run env (q # qs) st = identity_run env qs ?st" by (simp add: identity_run_def)
  ultimately show ?case using h by (simp only: list.set UN_insert image_insert Union_insert) blast
qed (simp add: identity_run_def)

text \<open>C20. After a session's token was refreshed, the token it replaced is refused in every later history that does not mint that token
  again; no two sessions ever share a token.\<close>

theorem replaced_token_dies:
  assumes dist: "distinct (map os_id (id_rows st))" "distinct (map os_hash (id_rows st))"
    and ok: "refresh_session env token new_token now tick later st = (Inr r, st')"
    and never: "\<forall>q \<in> set qs. ie_hash env token \<notin> minted env q"
  shows "\<not> isOk (fst (verify_token env (Some token) now' tick' (identity_run env qs st'))) \<and>
    distinct (map os_hash (id_rows (identity_run env qs st')))"
proof -
  let ?st = "snd (verify_token env (Some token) now tick st)"
  obtain r0 row f where r: "st' = session_event_of Refreshed ''token_rotated'' (Some (os_id r0)) later (put_row (os_id r0) f ?st)"
      "session_of env (Some token) st = Some r0" "row_get os_hash (ie_hash env new_token) (id_rows ?st) = None"
      "f = (\<lambda>x. x\<lparr>os_hash := ie_hash env new_token, os_seen := Some later, os_expires := later + seconds (ie_ttl env)\<rparr>)"
    using refresh_result [of env token new_token now tick later st] ok by auto
  have step: "rows_step st st'" "hash_step {ie_hash env new_token} st st'"
    using refresh_step [of st env token new_token now tick later] refresh_hashes [of env new_token st token now tick later] ok by simp_all
  then have dist': "distinct (map os_id (id_rows st'))" "distinct (hashes st')"
    using dist unfolding table_step_def hash_step_def by blast+
  have held: "os_hash r0 = ie_hash env token" "r0 \<in> set (id_rows st)"
    using r(2) row_get_SomeD [of os_hash _ "id_rows st" r0] by (auto simp: session_of_def split: if_splits)
  have new: "ie_hash env new_token \<noteq> ie_hash env token"
    using r(3) verify_token_hashes [of env "Some token" now tick st] held
    by (auto simp: row_get_None_iff) (metis image_eqI list.set_map)
  have gone: "ie_hash env token \<notin> set (hashes st')"
  proof
    assume "ie_hash env token \<in> set (hashes st')"
    then obtain x where x: "x \<in> set (id_rows ?st)" "os_id x \<noteq> os_id r0" "os_hash x = ie_hash env token"
      using new by (auto simp: r(1,4) row_put_def split: if_splits)
    obtain y where y: "y \<in> set (id_rows ?st)" "os_id y = os_id r0" "os_hash y = ie_hash env token"
    proof (rule disjE [OF verify_token_rows [of env "Some token" now tick st]])
      assume "id_rows ?st = id_rows st"
      then show thesis using that [of r0] held by simp
    next
      assume "\<exists>i f. id_rows ?st = row_put os_id i f (id_rows st) \<and> (\<forall>r. os_id (f r) = os_id r \<and> os_hash (f r) = os_hash r \<and> session_later r (f r))"
      then obtain i f where "id_rows ?st = row_put os_id i f (id_rows st)" "\<forall>r. os_id (f r) = os_id r \<and> os_hash (f r) = os_hash r" by blast
      then show thesis using that [of "if os_id r0 = i then f r0 else r0"] held by (auto simp: set_row_put)
    qed
    have "distinct (hashes ?st)" using dist(2) verify_token_hashes by simp
    then show False using x y by (metis distinct_map inj_onD)
  qed
  have "distinct (hashes (identity_run env qs st')) \<and> ie_hash env token \<notin> set (hashes (identity_run env qs st'))"
    using identity_hash_run [OF dist', of env qs] gone never by blast
  moreover have "\<not> isOk (fst (verify_token env (Some token) now' tick' s))" if "ie_hash env token \<notin> set (hashes s)" for s
  proof -
    have "session_of env (Some token) s = None" using that by (simp add: session_of_def row_get_None_iff)
    then show ?thesis using verify_result [of env "Some token" s now' tick'] by auto
  qed
  ultimately show ?thesis by blast
qed

section \<open>How often the owner's credential can be guessed\<close>

text \<open>
  The exchange runs in threads, and the limiter's lock is held for each of its calls alone.  So an exchange is three
  steps, and other exchanges and other requests come between them: past the limiter (\<open>Enter\<close>), the comparison with
  the stored credential (\<open>Compare\<close>), and the failure recorded or the limiter reset and the session issued (\<open>Finish\<close>).
  \<open>gw_flight\<close> are the exchanges past the limiter whose outcome is not recorded yet, \<open>gw_peak\<close> the most there have been
  at once, \<open>gw_guesses\<close> the monotonic times at which wrong credentials were recorded since the owner last proved to be
  the owner.
\<close>

datatype exchange_event =
    Enter nat string instant
  | Compare nat
  | Finish nat nat string string string "nat option" "string list" "int option" instant instant
  | Elsewhere identity_request

record guess_world =
  gw_identity :: identity
  gw_flight :: "(nat \<times> string \<times> (identity_error + bool) option) list"
  gw_guesses :: "instant list"
  gw_peak :: nat

fun proves_owner :: "identity_env \<Rightarrow> identity_request \<Rightarrow> identity \<Rightarrow> bool" where
  "proves_owner env (Bootstrap force credential now) st = isOk (fst (bootstrap env force credential now st))"
| "proves_owner env (Rotate keep credential now) st = isOk (fst (recover_rotate env keep credential now st))"
| "proves_owner env q st = False"

text \<open>Any other request is one step; an exchange is not one of them.\<close>

fun elsewhere :: "identity_env \<Rightarrow> identity_request \<Rightarrow> identity \<Rightarrow> identity" where
  "elsewhere env (Exchange credential nid token kind label device scopes ttl now tick) st = st"
| "elsewhere env q st = identity_step env q st"

fun guess_step :: "identity_env \<Rightarrow> exchange_event \<Rightarrow> guess_world \<Rightarrow> guess_world" where
  "guess_step env (Enter i credential tick) g =
     (if i \<in> fst ` set (gw_flight g) \<or>
         throttled (ie_max_failures env) (ie_window env) tick ''credential'' (id_hits (gw_identity g)) then g
      else g\<lparr>gw_flight := (i, credential, None) # gw_flight g, gw_peak := max (gw_peak g) (Suc (length (gw_flight g)))\<rparr>)"
| "guess_step env (Compare i) g =
     g\<lparr>gw_flight := map (\<lambda>(j, credential, outcome).
         (j, credential, if j = i \<and> outcome = None then Some (verify_owner_credential env credential (gw_identity g)) else outcome))
       (gw_flight g)\<rparr>"
| "guess_step env (Finish i nid token kind label device scopes ttl now tick) g =
     (case map_of (gw_flight g) i of
        Some (credential, Some outcome) \<Rightarrow>
          g\<lparr>gw_identity := snd (exchange_finish env outcome nid token kind label device scopes ttl now tick (gw_identity g)),
            gw_flight := filter (\<lambda>q. fst q \<noteq> i) (gw_flight g),
            gw_guesses := (case outcome of Inl e \<Rightarrow> gw_guesses g | Inr True \<Rightarrow> [] | Inr False \<Rightarrow> gw_guesses g @ [tick])\<rparr>
      | _ \<Rightarrow> g)"
| "guess_step env (Elsewhere q) g =
     g\<lparr>gw_identity := elsewhere env q (gw_identity g),
       gw_guesses := (if proves_owner env q (gw_identity g) then [] else gw_guesses g)\<rparr>"

definition guess_run :: "identity_env \<Rightarrow> exchange_event list \<Rightarrow> identity \<Rightarrow> guess_world" where
  "guess_run env es st =
     fold (guess_step env) es \<lparr>gw_identity = st, gw_flight = [], gw_guesses = [], gw_peak = 0\<rparr>"

fun exchange_ticks :: "exchange_event list \<Rightarrow> instant list" where
  "exchange_ticks [] = []"
| "exchange_ticks (Enter i credential tick # es) = tick # exchange_ticks es"
| "exchange_ticks (Finish i nid token kind label device scopes ttl now tick # es) = tick # exchange_ticks es"
| "exchange_ticks (e # es) = exchange_ticks es"

lemma verify_token_hits: "id_hits (snd (verify_token env token now tick st)) ''credential'' = id_hits st ''credential''"
  using verify_result [of env token st now tick] by (elim disjE exE conjE) (simp_all add: reset_hits_def)

lemma refresh_hits: "id_hits (snd (refresh_session env token new_token now tick later st)) ''credential'' = id_hits st ''credential''"
  using refresh_result [of env token new_token now tick later st] verify_token_hits
  by (elim disjE exE conjE) simp_all

lemma revoke_rows_hits: "id_hits (snd (revoke_rows reason now rs st)) = id_hits st"
proof -
  have "id_hits (foldl (\<lambda>s r. session_event_of Revoked_event reason (Some (os_id r)) now (put_row (os_id r) (revoke_row reason now) s)) st rs) = id_hits st"
    by (induction rs arbitrary: st) simp_all
  then show ?thesis by (simp add: revoke_rows_def)
qed

lemma revoke_session_hits: "id_hits (snd (revoke_session i reason now st)) = id_hits st"
  by (auto simp: revoke_session_def revoke_rows_hits split: option.splits)

lemma sweep_hits: "id_hits (snd (sweep_expired_sessions env now st)) = id_hits st"
proof -
  have "id_hits (foldl (\<lambda>s r. case session_end env now r of None \<Rightarrow> s | Some reason \<Rightarrow> expire_session r reason now s) st rs) = id_hits st" for rs
    by (induction rs arbitrary: st) (simp_all split: option.splits)
  then show ?thesis unfolding sweep_is_fold .
qed

lemma bootstrap_hits:
  "id_hits (snd (bootstrap env force credential now st)) ''credential'' =
     (if isOk (fst (bootstrap env force credential now st)) then [] else id_hits st ''credential'')"
  by (auto simp: bootstrap_def Let_def reset_hits_def split: sum.splits option.splits)

lemma recover_rotate_hits:
  "id_hits (snd (recover_rotate env keep credential now st)) ''credential'' =
     (if isOk (fst (recover_rotate env keep credential now st)) then [] else id_hits st ''credential'')"
proof -
  obtain res st' where b: "bootstrap env True credential now st = (res, st')" by (cases "bootstrap env True credential now st")
  have "id_hits st' ''credential'' = (if isOk res then [] else id_hits st ''credential'')"
    using bootstrap_hits [of env True credential now st] b by simp
  then show ?thesis using revoke_rows_hits
    by (cases res) (simp_all add: recover_rotate_def b revoke_all_def case_prod_beta)
qed

lemma route_hits:
  "id_hits (snd (require_owner_session env header now tick st)) ''credential'' = id_hits st ''credential''"
  "id_hits (snd (require_scope env scope header now tick st)) ''credential'' = id_hits st ''credential''"
proof -
  obtain res st' where v: "verify_token env (parse_bearer header) now tick st = (res, st')" by (cases "verify_token env (parse_bearer header) now tick st")
  have "id_hits st' ''credential'' = id_hits st ''credential''" using verify_token_hits [of env "parse_bearer header" now tick st] v by simp
  then show "id_hits (snd (require_owner_session env header now tick st)) ''credential'' = id_hits st ''credential''"
    "id_hits (snd (require_scope env scope header now tick st)) ''credential'' = id_hits st ''credential''"
    by (cases res; simp add: v require_owner_session_def require_scope_def record_scope_refusal_def limiter_record_failure_def Let_def)+
qed

lemma issue_session_hits: "id_hits (snd (issue_session env nid token kind label device scopes ttl now st)) = id_hits st"
proof (cases "clean_scopes scopes")
  case (Inl e)
  then show ?thesis by (simp add: issue_session_def Let_def)
next
  case (Inr cleaned)
  then show ?thesis by (simp add: issue_session_def Let_def)
qed

text \<open>The hits of the credential after an exchange: empty with the proof, or one more failure.\<close>

lemma exchange_finish_hits:
  "id_hits (snd (exchange_finish env outcome nid token kind label device scopes ttl now tick st)) ''credential'' =
     (if outcome = Inr True then [] else prune (ie_window env) tick (id_hits st ''credential'') @ [tick])"
  by (auto simp: exchange_finish_def issue_session_hits reset_hits_def limiter_record_failure_def Let_def
      split: sum.splits identity_error.splits bool.splits)

lemma elsewhere_hits:
  "id_hits (elsewhere env q st) ''credential'' = (if proves_owner env q st then [] else id_hits st ''credential'')"
  by (cases q) (simp_all add: verify_token_hits refresh_hits revoke_session_hits revoke_sessions_for_device_def revoke_all_def revoke_rows_hits
      sweep_hits bootstrap_hits recover_rotate_hits route_hits)

definition within_window :: "instant \<Rightarrow> instant \<Rightarrow> instant list \<Rightarrow> nat" where
  "within_window a b ts = length (filter (\<lambda>t. a \<le> t \<and> t \<le> b) ts)"

lemma prune_filter: "sorted hs \<Longrightarrow> prune w now hs = filter (\<lambda>h. now - w \<le> h) hs"
proof (induction hs)
  case (Cons h hs)
  show ?case
  proof (cases "h < now - w")
    case True
    then show ?thesis using Cons by (simp add: prune_def)
  next
    case False
    then have "\<forall>x \<in> set (h # hs). now - w \<le> x" using Cons.prems by auto
    then show ?thesis using False by (simp add: prune_def filter_id_conv)
  qed
qed (simp add: prune_def)

lemma within_window_append: "within_window a b (xs @ ys) = within_window a b xs + within_window a b ys" by (simp add: within_window_def)

lemma within_window_mono: "a' \<le> a \<Longrightarrow> b \<le> b' \<Longrightarrow> within_window a b xs \<le> within_window a' b' xs"
  unfolding within_window_def
  by (induction xs) auto

lemma within_window_pruned:
  assumes "sorted hs" "now \<le> t"
  shows "within_window (t - w) t (prune w now hs) = within_window (t - w) t hs"
proof -
  have "filter (\<lambda>x. t - w \<le> x \<and> x \<le> t) (filter (\<lambda>h. now - w \<le> h) hs) = filter (\<lambda>x. t - w \<le> x \<and> x \<le> t) hs"
    using assms(2) by (simp add: filter_filter, intro filter_cong) auto
  then show ?thesis by (simp add: within_window_def prune_filter [OF assms(1)])
qed

text \<open>
  What holds while exchanges overlap, \<open>T\<close> being the last time read and \<open>ticks\<close> the times to come: recent guesses are
  all among the hits, and a window that is still open has room for the exchanges under way.
\<close>

definition guess_inv :: "instant \<Rightarrow> nat \<Rightarrow> instant \<Rightarrow> instant list \<Rightarrow> instant list \<Rightarrow> nat \<Rightarrow> nat \<Rightarrow> instant list \<Rightarrow> bool" where
  "guess_inv w m T acc hs n peak ticks =
     (sorted hs \<and> sorted (T # ticks) \<and> (\<forall>x \<in> set hs. x \<le> T) \<and> (\<forall>x \<in> set acc. x \<le> T) \<and>
      (\<forall>t \<ge> T. within_window (t - w) t acc \<le> within_window (t - w) t hs) \<and> n \<le> peak \<and>
      (\<forall>a. within_window a (a + w) acc \<le> m - 1 + peak) \<and>
      (\<forall>a \<ge> T - w. within_window a (a + w) acc + n \<le> m - 1 + peak))"

lemma guess_invD:
  assumes "guess_inv w m T acc hs n peak ticks"
  shows "sorted hs" "sorted (T # ticks)" "x \<in> set hs \<Longrightarrow> x \<le> T" "x \<in> set acc \<Longrightarrow> x \<le> T"
    "T \<le> t \<Longrightarrow> within_window (t - w) t acc \<le> within_window (t - w) t hs" "n \<le> peak"
    "within_window a (a + w) acc \<le> m - 1 + peak" "T - w \<le> a \<Longrightarrow> within_window a (a + w) acc + n \<le> m - 1 + peak"
  using assms unfolding guess_inv_def by blast+

lemma guess_invI:
  assumes "sorted hs" "sorted (T # ticks)" "\<And>x. x \<in> set hs \<Longrightarrow> x \<le> T" "\<And>x. x \<in> set acc \<Longrightarrow> x \<le> T"
    "\<And>t. T \<le> t \<Longrightarrow> within_window (t - w) t acc \<le> within_window (t - w) t hs" "n \<le> peak"
    "\<And>a. within_window a (a + w) acc \<le> m - 1 + peak" "\<And>a. T - w \<le> a \<Longrightarrow> within_window a (a + w) acc + n \<le> m - 1 + peak"
  shows "guess_inv w m T acc hs n peak ticks"
  using assms unfolding guess_inv_def by blast

lemma guess_later:
  assumes inv: "guess_inv w m T acc hs n peak (t # ticks)"
  shows "guess_inv w m t acc hs n peak ticks"
proof -
  have le: "T \<le> t" "sorted (t # ticks)" using guess_invD(2) [OF inv] by simp_all
  show ?thesis
  proof (rule guess_invI)
    show "x \<le> t" if "x \<in> set hs" for x using guess_invD(3) [OF inv that] le by simp
    show "x \<le> t" if "x \<in> set acc" for x using guess_invD(4) [OF inv that] le by simp
    show "within_window (s - w) s acc \<le> within_window (s - w) s hs" if "t \<le> s" for s
      using guess_invD(5) [OF inv] le that by simp
    show "within_window a (a + w) acc + n \<le> m - 1 + peak" if "t - w \<le> a" for a
      using guess_invD(8) [OF inv] le that by simp
  qed (use guess_invD(1,6,7) [OF inv] le in simp_all)
qed

lemma guess_reset: "guess_inv w m T acc hs n peak ticks \<Longrightarrow> n' \<le> n \<Longrightarrow> guess_inv w m T [] [] n' peak ticks"
  unfolding guess_inv_def by (auto simp: within_window_def)

lemma guess_enter:
  assumes inv: "guess_inv w m T acc hs n peak ticks" and few: "length (prune w T hs) < m"
  shows "guess_inv w m T acc hs (Suc n) (max peak (Suc n)) ticks"
proof -
  have now: "within_window a (a + w) acc \<le> m - 1" if "T - w \<le> a" for a
  proof -
    have "filter (\<lambda>t. a \<le> t \<and> t \<le> a + w) acc = filter (\<lambda>t. a \<le> t \<and> t \<le> T) acc"
      using guess_invD(4) [OF inv] that by (intro filter_cong) fastforce+
    then have "within_window a (a + w) acc = within_window a T acc" by (simp add: within_window_def)
    also have "\<dots> \<le> within_window (T - w) T acc" using that by (intro within_window_mono) simp_all
    also have "\<dots> \<le> within_window (T - w) T hs" using guess_invD(5) [OF inv] by simp
    also have "\<dots> \<le> length (prune w T hs)"
      by (simp add: within_window_pruned [OF guess_invD(1) [OF inv] order_refl, symmetric]) (simp add: within_window_def)
    finally show ?thesis using few by simp
  qed
  show ?thesis
  proof (rule guess_invI)
    show "within_window a (a + w) acc \<le> m - 1 + max peak (Suc n)" for a
      using guess_invD(7) [OF inv, of a] by simp
    show "within_window a (a + w) acc + Suc n \<le> m - 1 + max peak (Suc n)" if "T - w \<le> a" for a
      using now [OF that] by simp
  qed (use guess_invD(1-5) [OF inv] in auto)
qed

lemma guess_failure:
  assumes inv: "guess_inv w m T acc hs (Suc n) peak ticks" and new: "gs = [] \<or> gs = [T]" and fewer: "n' \<le> n"
  shows "guess_inv w m T (acc @ gs) (prune w T hs @ [T]) n' peak ticks"
proof -
  have one: "within_window a b gs \<le> within_window a b [T]" "within_window a b gs \<le> 1" for a b
    using new by (auto simp: within_window_def)
  have pruned: "prune w T hs = filter (\<lambda>h. T - w \<le> h) hs" by (rule prune_filter [OF guess_invD(1) [OF inv]])
  show ?thesis
  proof (rule guess_invI)
    show "sorted (prune w T hs @ [T])" using guess_invD(1,3) [OF inv]
      by (auto simp: pruned sorted_append sorted_wrt_filter)
    show "x \<le> T" if "x \<in> set (prune w T hs @ [T])" for x using that guess_invD(3) [OF inv] by (auto simp: pruned)
    show "x \<le> T" if "x \<in> set (acc @ gs)" for x using that new guess_invD(4) [OF inv] by auto
    show "within_window (t - w) t (acc @ gs) \<le> within_window (t - w) t (prune w T hs @ [T])" if "T \<le> t" for t
      using guess_invD(5) [OF inv that] one(1) [of "t - w" t] within_window_pruned [OF guess_invD(1) [OF inv] that]
      by (simp add: within_window_append add_mono)
    show "n' \<le> peak" using guess_invD(6) [OF inv] fewer by simp
    show "within_window a (a + w) (acc @ gs) \<le> m - 1 + peak" for a
    proof (cases "within_window a (a + w) gs = 0")
      case True
      then show ?thesis using guess_invD(7) [OF inv, of a] by (simp add: within_window_append)
    next
      case False
      then have "T - w \<le> a" using new by (auto simp: within_window_def split: if_splits)
      then show ?thesis using guess_invD(8) [OF inv, of a] one(2) [of a "a + w"] by (simp add: within_window_append)
    qed
    show "within_window a (a + w) (acc @ gs) + n' \<le> m - 1 + peak" if "T - w \<le> a" for a
      using guess_invD(8) [OF inv that] one(2) [of a "a + w"] fewer by (simp add: within_window_append)
  qed (rule guess_invD(2) [OF inv])
qed

definition guess_ok :: "identity_env \<Rightarrow> instant \<Rightarrow> guess_world \<Rightarrow> instant list \<Rightarrow> bool" where
  "guess_ok env T g ticks =
     guess_inv (ie_window env) (ie_max_failures env) T (gw_guesses g) (id_hits (gw_identity g) ''credential'')
       (length (gw_flight g)) (gw_peak g) ticks"

lemma guess_step_ok:
  assumes ok: "guess_ok env T g (exchange_ticks (e # es))"
  shows "\<exists>T'. guess_ok env T' (guess_step env e g) (exchange_ticks es)"
proof (cases e)
  case (Enter i credential tick)
  then have later: "guess_ok env tick g (exchange_ticks es)" using ok guess_later by (simp add: guess_ok_def)
  then show ?thesis using guess_enter [of _ _ tick] Enter
    by (intro exI [of _ tick]) (auto simp: guess_ok_def throttled_def failures_def)
next
  case (Compare i)
  then show ?thesis using ok by (auto simp: guess_ok_def)
next
  case (Elsewhere q)
  then show ?thesis using ok guess_reset [of _ _ T]
    by (intro exI [of _ T]) (auto simp: guess_ok_def elsewhere_hits)
next
  case (Finish i nid token kind label device scopes ttl now tick)
  then have later: "guess_ok env tick g (exchange_ticks es)" using ok guess_later by (simp add: guess_ok_def)
  show ?thesis
  proof (cases "\<exists>credential outcome. map_of (gw_flight g) i = Some (credential, Some outcome)")
    case False
    then have "guess_step env e g = g" using Finish by (auto split: option.splits)
    then show ?thesis using later by auto
  next
    case True
    then obtain credential outcome where found: "map_of (gw_flight g) i = Some (credential, Some outcome)" by blast
    let ?n = "length (filter (\<lambda>q. fst q \<noteq> i) (gw_flight g))"
    have "?n < length (gw_flight g)"
      using map_of_SomeD [OF found] by (intro length_filter_less [of "(i, credential, Some outcome)"]) simp_all
    then obtain n where n: "length (gw_flight g) = Suc n" "?n \<le> n" by (cases "length (gw_flight g)") auto
    show ?thesis
    proof (cases "outcome = Inr True")
      case True
      then show ?thesis using later n Finish found guess_reset [of _ _ tick]
        by (intro exI [of _ tick]) (simp add: guess_ok_def exchange_finish_hits)
    next
      case False
      have "guess_inv (ie_window env) (ie_max_failures env) tick (gw_guesses g @ gs)
          (prune (ie_window env) tick (id_hits (gw_identity g) ''credential'') @ [tick]) ?n (gw_peak g) (exchange_ticks es)"
        if "gs = [] \<or> gs = [tick]" for gs
        using guess_failure [OF _ that n(2)] later n(1) by (simp add: guess_ok_def)
      from this [of "[]"] this [of "[tick]"] False show ?thesis using Finish found
        by (intro exI [of _ tick]) (auto simp: guess_ok_def exchange_finish_hits split: sum.splits bool.splits)
    qed
  qed
qed

lemma guess_fold_ok:
  "guess_ok env T g (exchange_ticks es) \<Longrightarrow> \<exists>T'. guess_ok env T' (fold (guess_step env) es g) []"
proof (induction es arbitrary: T g)
  case Nil
  then show ?case by auto
next
  case (Cons e es)
  then show ?case using guess_step_ok [OF Cons.prems] by auto
qed

text \<open>
  C9. Between two proofs of the owner, in any stretch as long as the limiter's window, the wrong credentials that are
  compared and recorded are fewer than the allowed number plus the most exchanges that were ever under way at once, in
  every interleaving of the steps of concurrent exchanges with each other and with all other requests, when the
  monotonic clock does not run backwards.  With one exchange at a time that is the allowed number; with more the
  allowed number is exceeded (\<open>concurrent_guesses_exceed_the_limit\<close>).
\<close>

theorem guesses_are_bounded:
  assumes "sorted (id_hits st ''credential'' @ exchange_ticks es)"
  shows "length (filter (\<lambda>t. a \<le> t \<and> t \<le> a + ie_window env) (gw_guesses (guess_run env es st)))
    \<le> ie_max_failures env - 1 + gw_peak (guess_run env es st)"
proof -
  let ?hs = "id_hits st ''credential''"
  define T where "T = (if ?hs = [] then (if exchange_ticks es = [] then 0 else hd (exchange_ticks es)) else last ?hs)"
  have ticks: "sorted (T # exchange_ticks es)"
    using assms by (cases "exchange_ticks es") (auto simp: T_def sorted_append)
  have "x \<le> T" if "x \<in> set ?hs" for x
  proof -
    have ne: "?hs \<noteq> []" and "sorted ?hs" using assms that by (auto simp: sorted_append)
    then have hs: "sorted (butlast ?hs @ [last ?hs])" "?hs \<noteq> []" by (simp_all only: append_butlast_last_id not_False_eq_True)
    have "x \<in> set (butlast ?hs @ [last ?hs])" using that hs(2) by simp
    then show ?thesis using hs by (auto simp: T_def sorted_append simp del: append_butlast_last_id)
  qed
  then have "guess_ok env T \<lparr>gw_identity = st, gw_flight = [], gw_guesses = [], gw_peak = 0\<rparr> (exchange_ticks es)"
    using assms ticks by (auto simp: guess_ok_def guess_inv_def within_window_def sorted_append)
  then obtain T' where "guess_ok env T' (guess_run env es st) []" unfolding guess_run_def using guess_fold_ok by blast
  then show ?thesis unfolding guess_ok_def within_window_def [symmetric] by (rule guess_invD(7))
qed

section \<open>The sweep\<close>

lemma expire_fold_rows:
  "id_rows (foldl (\<lambda>s r. case session_end env now r of None \<Rightarrow> s | Some reason \<Rightarrow> expire_session r reason now s) st rs) =
     map (\<lambda>r. if os_id r \<in> os_id ` {x \<in> set rs. session_end env now x \<noteq> None} then expire_row r else r) (id_rows st)"
proof (induction rs arbitrary: st)
  case (Cons a rs)
  have twice: "expire_row (expire_row r) = expire_row r" for r by (simp add: expire_row_def)
  show ?case
  proof (cases "session_end env now a")
    case None
    have "{x. (x = a \<or> x \<in> set rs) \<and> (\<exists>y. session_end env now x = Some y)} = {x \<in> set rs. \<exists>y. session_end env now x = Some y}"
      using None by auto
    then show ?thesis unfolding foldl_Cons Cons.IH using None by simp
  next
    case (Some reason)
    have "{x. (x = a \<or> x \<in> set rs) \<and> (\<exists>y. session_end env now x = Some y)} = insert a {x \<in> set rs. \<exists>y. session_end env now x = Some y}"
      using Some by auto
    then show ?thesis unfolding foldl_Cons Cons.IH using Some by (auto simp: row_put_def twice)
  qed
qed (simp add: row_put_def)

text \<open>The sweep expires exactly the active sessions that a verification at that moment would refuse, and changes nothing else.\<close>

theorem sweep_agrees_with_verify:
  assumes "distinct (map os_id (id_rows st))"
  shows "id_rows (snd (sweep_expired_sessions env now st)) =
    map (\<lambda>r. if os_status r = Session_active \<and>
           ((0 < ie_lifetime env \<and> os_created r + seconds (ie_lifetime env) < now) \<or> os_expires r \<le> now \<or>
            (0 < ie_idle env \<and> idle_since r + seconds (ie_idle env) < now))
         then r\<lparr>os_status := Session_expired\<rparr> else r) (id_rows st)"
  unfolding sweep_is_fold expire_fold_rows
proof (rule map_cong [OF refl])
  fix r assume r: "r \<in> set (id_rows st)"
  let ?S = "{x \<in> set (filter (\<lambda>r. os_status r = Session_active) (id_rows st)). session_end env now x \<noteq> None}"
  have "os_id r \<in> os_id ` ?S \<longleftrightarrow> r \<in> ?S"
    using assms r by (auto simp: distinct_map inj_on_def)
  moreover have "session_end env now r \<noteq> None \<longleftrightarrow>
      (0 < ie_lifetime env \<and> os_created r + seconds (ie_lifetime env) < now) \<or> os_expires r \<le> now \<or>
      (0 < ie_idle env \<and> idle_since r + seconds (ie_idle env) < now)"
    by (auto simp: session_end_def past_absolute_lifetime_def past_idle_timeout_def)
  ultimately show "(if os_id r \<in> os_id ` ?S then expire_row r else r) =
      (if os_status r = Session_active \<and>
           ((0 < ie_lifetime env \<and> os_created r + seconds (ie_lifetime env) < now) \<or> os_expires r \<le> now \<or>
            (0 < ie_idle env \<and> idle_since r + seconds (ie_idle env) < now))
         then r\<lparr>os_status := Session_expired\<rparr> else r)"
    using r by (auto simp: expire_row_def)
qed

section \<open>Departures from the documentation\<close>

text \<open>The host's recovery cannot repair an unreadable root: it loads the root first.\<close>

lemma recovery_needs_readable_root:
  "id_root st = Corrupt_root \<Longrightarrow> recover_rotate env keep credential now st = (Inl Corrupt_identity_root, st)"
  by (simp add: recover_rotate_def bootstrap_def load_root_def)

text \<open>A refresh gives a session issued for a shorter time the full one.\<close>

lemma refresh_gives_full_ttl:
  "refresh_session env token new_token now tick later st = (Inr r, st') \<Longrightarrow> os_expires r = later + seconds (ie_ttl env)"
  using refresh_result [of env token new_token now tick later st] by auto

text \<open>A token that is over writes an \<open>expired\<close> event each time it is presented.\<close>

lemma expired_token_audited_again:
  assumes "is_bootstrapped st" "looks_like_session_token t" "row_get os_hash (ie_hash env t) (id_rows st) = Some r"
    and "os_status r = Session_expired" "\<not> past_absolute_lifetime env r now"
  shows "\<exists>e more_events. id_events (snd (verify_token env (Some t) now tick st)) = id_events st @ e # more_events \<and>
    sv_action e = Expired_event \<and> sv_session e = Some (os_id r)"
proof -
  have events: "\<exists>es. id_events (snd (reject env why reason key session now tick s)) = id_events s @ es" for why reason key session s
    by (auto simp: reject_def session_event_of_def Let_def split: prod.splits)
  let ?s = "expire_session r ''absolute_ttl'' now st"
  have "snd (verify_token env (Some t) now tick st) = snd (reject env Expired_token ''absolute_ttl'' ''bearer'' (Some (os_id r)) now tick ?s)"
    using assms by (simp add: verify_token_def Let_def case_prod_beta)
  moreover obtain es where "id_events (snd (reject env Expired_token ''absolute_ttl'' ''bearer'' (Some (os_id r)) now tick ?s)) = id_events ?s @ es"
    using events by blast
  ultimately show ?thesis by (simp add: expire_session_def session_event_of_def put_row_def)
qed

section \<open>Witnesses\<close>

definition sample_secret :: "string \<Rightarrow> char \<Rightarrow> string" where "sample_secret prefix c = prefix @ replicate 28 c"
definition sample_token :: "char \<Rightarrow> string" where "sample_token c = sample_secret session_token_prefix c"

definition sample_identity_env :: identity_env where
  "sample_identity_env = \<lparr>ie_ttl = 600, ie_idle = 300, ie_lifetime = 900, ie_max_failures = 2, ie_window = 100, ie_hash = rev\<rparr>"

definition sample_own_session :: "nat \<Rightarrow> char \<Rightarrow> string list \<Rightarrow> own_session" where
  "sample_own_session i c scopes = \<lparr>os_id = i, os_hash = rev (sample_token c), os_kind = ''web'', os_label = [], os_device = Some 5,
     os_status = Session_active, os_scopes = scopes, os_created = 0, os_seen = Some 0, os_expires = 600000000,
     os_revoked_at = None, os_revoked_reason = None\<rparr>"

definition sample_identity :: identity where
  "sample_identity = \<lparr>id_root = Root \<lparr>rr_hash = rev (sample_secret owner_credential_prefix CHR ''k''), rr_created = 0, rr_rotated = None, rr_rotations = 0\<rparr>,
     id_rows = [sample_own_session 1 CHR ''a'' [], sample_own_session 2 CHR ''b'' [''voice'']], id_events = [], id_hits = (\<lambda>_. [])\<rparr>"

lemmas sample_identity_defs = sample_identity_def sample_identity_env_def sample_own_session_def sample_token_def sample_secret_def
  session_token_prefix_def owner_credential_prefix_def

lemma sample_replicate: "replicate 28 c = [c,c,c,c,c,c,c,c,c,c,c,c,c,c,c,c,c,c,c,c,c,c,c,c,c,c,c,c]"
  by (simp add: numeral_eq_Suc)

lemma sample_distinct: "distinct (map os_id (id_rows sample_identity)) \<and> distinct (map os_hash (id_rows sample_identity))"
  by (simp add: sample_identity_defs sample_replicate)

lemma sample_rows: "row_get os_id 1 (id_rows sample_identity) = Some (sample_own_session 1 CHR ''a'' [])"
  "row_get os_id 2 (id_rows sample_identity) = Some (sample_own_session 2 CHR ''b'' [''voice''])"
  by (simp_all add: sample_identity_def row_get_Cons sample_own_session_def)

lemma sample_shape: "looks_like_session_token (sample_token CHR ''a'') \<and> looks_like_session_token (sample_token CHR ''b'') \<and>
  looks_like_session_token (sample_token CHR ''c'')"
  by code_simp

lemma sample_held:
  "session_of sample_identity_env (Some (sample_token CHR ''a'')) sample_identity = Some (sample_own_session 1 CHR ''a'' [])"
  "session_of sample_identity_env (Some (sample_token CHR ''b'')) sample_identity = Some (sample_own_session 2 CHR ''b'' [''voice''])"
proof -
  have "sample_token CHR ''a'' \<noteq> sample_token CHR ''b''" by code_simp
  then show "session_of sample_identity_env (Some (sample_token CHR ''a'')) sample_identity = Some (sample_own_session 1 CHR ''a'' [])"
    "session_of sample_identity_env (Some (sample_token CHR ''b'')) sample_identity = Some (sample_own_session 2 CHR ''b'' [''voice''])"
    using sample_shape
    by (simp_all add: session_of_def is_bootstrapped_def sample_identity_def sample_identity_env_def sample_own_session_def row_get_Cons)
qed

lemma sample_alive: "alive sample_identity_env 10 (sample_own_session i c scopes)"
  by (simp add: alive_def sample_own_session_def sample_identity_env_def past_absolute_lifetime_def past_idle_timeout_def idle_since_def)

lemma sample_verified: "fst (verify_token sample_identity_env (Some (sample_token CHR ''b'')) 10 0 sample_identity) =
    Inr ((sample_own_session 2 CHR ''b'' [''voice''])\<lparr>os_seen := Some 10\<rparr>)"
  using verify_result [of sample_identity_env "Some (sample_token CHR ''b'')" sample_identity 10 0] sample_held(2) sample_alive by auto

definition sample_after_revocation :: identity where
  "sample_after_revocation =
     identity_run sample_identity_env [Sweep_expired 5] (snd (revoke_session 1 ''lost'' 3 sample_identity))"

lemma sample_other_still_in:
  "fst (verify_token sample_identity_env (Some (sample_token CHR ''b'')) 10 0 sample_after_revocation) =
     Inr ((sample_own_session 2 CHR ''b'' [''voice''])\<lparr>os_seen := Some 10\<rparr>)"
  by code_simp

theorem revoked_session_is_dead_witness:
  "os_id ((sample_own_session 2 CHR ''b'' [''voice''])\<lparr>os_seen := Some 10\<rparr>) \<noteq> (1 :: nat)"
  by (rule revoked_session_is_dead [OF sample_distinct [THEN conjunct1] sample_rows(1) _ sample_other_still_in [unfolded sample_after_revocation_def],
      where reason = "''lost''" and t = 3]) simp

lemma sample_scoped_in:
  "fst (require_scope sample_identity_env ''voice'' (Some (''Bearer '' @ sample_token CHR ''b'')) 10 0
      (identity_run sample_identity_env [Sweep_expired 5] sample_identity)) =
     Inr ((sample_own_session 2 CHR ''b'' [''voice''])\<lparr>os_seen := Some 10\<rparr>)"
  by code_simp

theorem narrowed_session_stays_narrow_witness:
  "(10 :: int) \<le> seconds 900 \<and> (([''voice''] :: string list) = [] \<or> ''voice'' \<in> set [''voice'']) \<and>
   os_device ((sample_own_session 2 CHR ''b'' [''voice''])\<lparr>os_seen := Some 10\<rparr>) = os_device (sample_own_session 2 CHR ''b'' [''voice''])"
  using narrowed_session_stays_narrow [OF sample_distinct [THEN conjunct1] sample_rows(2) sample_scoped_in]
  by (simp add: sample_own_session_def sample_identity_env_def)

definition sample_refreshed :: "(identity_refusal + own_session) \<times> identity" where
  "sample_refreshed = refresh_session sample_identity_env (sample_token CHR ''a'') (sample_token CHR ''c'') 10 0 11 sample_identity"

lemma sample_refresh_ok: "isOk (fst sample_refreshed)"
  by code_simp

lemma sample_not_minted:
  "\<forall>q \<in> set [Refresh (sample_token CHR ''c'') (sample_token CHR ''d'') 20 0 20].
     ie_hash sample_identity_env (sample_token CHR ''a'') \<notin> minted sample_identity_env q"
  by (simp add: sample_identity_env_def sample_token_def sample_secret_def sample_replicate)

theorem replaced_token_dies_witness:
  "\<not> isOk (fst (verify_token sample_identity_env (Some (sample_token CHR ''a'')) 30 0
      (identity_run sample_identity_env [Refresh (sample_token CHR ''c'') (sample_token CHR ''d'') 20 0 20] (snd sample_refreshed)))) \<and>
   distinct (map os_hash (id_rows
      (identity_run sample_identity_env [Refresh (sample_token CHR ''c'') (sample_token CHR ''d'') 20 0 20] (snd sample_refreshed))))"
proof -
  obtain r st' where s: "sample_refreshed = (Inr r, st')" using sample_refresh_ok by (metis isOk_simps(2) prod.collapse sum.exhaust)
  show ?thesis
    using replaced_token_dies [OF sample_distinct [THEN conjunct1] sample_distinct [THEN conjunct2] s [unfolded sample_refreshed_def] sample_not_minted]
    unfolding s by simp
qed

definition sample_guess :: "nat \<Rightarrow> instant \<Rightarrow> instant \<Rightarrow> exchange_event list" where
  "sample_guess i t u =
     [Enter i (sample_secret owner_credential_prefix CHR ''x'') t, Compare i,
      Finish i 7 (sample_token CHR ''z'') ''web'' [] None [] None 10 u]"

text \<open>One after the other: the third guess is refused.\<close>

lemma sample_guesses:
  "gw_guesses (guess_run sample_identity_env (sample_guess 0 1 1 @ sample_guess 1 2 2 @ sample_guess 2 3 3) sample_identity) = [1, 2]"
  "gw_peak (guess_run sample_identity_env (sample_guess 0 1 1 @ sample_guess 1 2 2 @ sample_guess 2 3 3) sample_identity) = 1"
  by code_simp+

theorem guesses_are_bounded_witness:
  "length (filter (\<lambda>t. 0 \<le> t \<and> t \<le> 0 + 100) (gw_guesses
     (guess_run sample_identity_env (sample_guess 0 1 1 @ sample_guess 1 2 2 @ sample_guess 2 3 3) sample_identity))) \<le> 2"
proof -
  have "sorted (id_hits sample_identity ''credential'' @
      exchange_ticks (sample_guess 0 1 1 @ sample_guess 1 2 2 @ sample_guess 2 3 3))"
    by (simp add: sample_identity_def sample_guess_def)
  note bound = guesses_are_bounded [OF this, of 0 sample_identity_env, unfolded sample_guesses(2)]
  have env: "ie_window sample_identity_env = 100" "ie_max_failures sample_identity_env - 1 + 1 = 2"
    by (simp_all add: sample_identity_env_def)
  show ?thesis using bound unfolding env .
qed

text \<open>Exchanges that arrive together all pass the check before the first failure is recorded.\<close>

lemma concurrent_guesses_exceed_the_limit:
  "gw_guesses (guess_run sample_identity_env
     (map (\<lambda>i. Enter i (sample_secret owner_credential_prefix CHR ''x'') 1) [0, 1, 2, 3] @
      concat (map (\<lambda>i. tl (sample_guess i 1 2)) [0, 1, 2, 3])) sample_identity) = [2, 2, 2, 2]"
  "ie_max_failures sample_identity_env = 2"
  by code_simp+

theorem sweep_agrees_with_verify_witness:
  "id_rows (snd (sweep_expired_sessions sample_identity_env 700000000 sample_identity)) =
     [(sample_own_session 1 CHR ''a'' [])\<lparr>os_status := Session_expired\<rparr>, (sample_own_session 2 CHR ''b'' [''voice''])\<lparr>os_status := Session_expired\<rparr>]"
  using sweep_agrees_with_verify [OF sample_distinct [THEN conjunct1], of sample_identity_env 700000000]
  by (simp add: sample_identity_def sample_own_session_def sample_identity_env_def)

end
