(* ===== verification/Spec2Isabelle.thy ===== *)
theory Spec2Isabelle
  imports Status_Tables Supervisor_Runner Goal_Engine Broker_Commands Broker_Runtime Notification_Ladder
    Mail_Draft Calendar_Proposal Calendar_Text Calendar_Expand Registry_Life Security_Runs Remediation Voice_Macros Voice_Relay Owner_Identity
begin

text \<open>
  A verification development for the personal agent operating system: one owner's assistant made of an API
  service (\<open>services/api/app\<close>), a recovery supervisor beside it (\<open>services/recovery-supervisor\<close>), device
  agents and voice sessions.  The development models the deterministic cores on which the owner relies: what may be
  sent or written in the owner's name, what may reach a device or a network target, what a failure is
  allowed to change, and what must reach the owner.

  \<^bold>\<open>How the parts interact.\<close>  The supervisor probes the running release, rolls the workspace back to the last
  known good one when the health policy says so, and files an incident.  The API keeps goals (with their dependency graph and
  evidence), device commands (with a broker that delivers each command once over live connections),
  notifications (climbing a ladder of channels up to a telephone call), mail drafts and calendar proposals
  (which leave the house only after the owner's word), and a registry of assets the owner authorized for security
  work.  All of them keep their state in database tables, written transaction by transaction.

  \<^bold>\<open>Conventions.\<close>  A table is a list of rows; \<open>row_get\<close> and \<open>row_put\<close> are the reads and writes by primary key
  (Prelude).  An operation that raises returns \<open>Inl\<close> and leaves the tables as they were; an answer value is returned
  where the code answers instead of raising.  Times are integers in microseconds, given by the caller wherever the code
  reads a clock; new ids are given by the caller too, with their freshness as a hypothesis where it matters.  JSON
  values are the datatype of Json_Value, without floating point numbers.  Text is ASCII.  What is not under \<open>src/\<close> is an
  argument: the mail and calendar providers, the telephone, dateutil, the zone database, the compiled regular expressions of the
  redactor, the file system below a workspace.

  \<^bold>\<open>The theories.\<close>
  \<^item> Prelude, Json_Value, Py_Strings, Net_Address: shared vocabulary; row tables and guarded state machines as
    locales; JSON; Python's string methods; Python's \<open>ipaddress\<close> on words of 32 and 128 bits.
  \<^item> Status_Tables: the transition tables of tasks, goals, routines, alarms, artifacts and workflows
    (\<open>app/*/state.py\<close>); terminal states absorb.
  \<^item> Health_Policy, Release_Workspace, Supervisor_Runner: \<open>recovery_supervisor/policy.py\<close>, \<open>workspace.py\<close>,
    \<open>runner.py\<close>, \<open>incident.py\<close>; the policy equals a specification over the recorded history, the pointers of a
    workspace follow its history, a run that rolls back recovers before it reports, a bounded run ends.
    The runner is a state transformer with fuel for its waiting loop; \<open>bounded_run_ends_with_stop\<close> gives the fuel
    that is enough.
  \<^item> Goal_Engine: \<open>app/goals\<close>; rows, dependency search, evidence evaluation, approval gate; the dependency graph stays
    acyclic and exactly the cycles are refused.
  \<^item> Broker_Commands, Broker_Runtime: \<open>app/broker\<close>; commands, acknowledgements, enrollment tokens, the capability gate,
    live connections; a command's life is monotone, creation is idempotent, nothing is sent twice on a connection.
  \<^item> Notification_Store, Alarm_Receipts, Owner_Caller, Notification_Ladder: \<open>app/notifications\<close>, \<open>app/urgent\<close>,
    \<open>app/telephony\<close>; quiet hours, retries, inbox groups, receipts, the hourly cap on calls, the ladder.
  \<^item> Confirmation_Gate, Object_Focus, Mail_Draft, Calendar_Proposal: \<open>app/actions/confirmation_gate.py\<close>,
    \<open>app/operator/focus.py\<close>, \<open>app/ids.py\<close>, \<open>app/mail\<close>, \<open>app/calendar\<close>.  The locale \<open>confirmed_rows\<close> is the protocol of
    a row that is read back, confirmed, claimed by compare-and-swap and acted on, in any interleaving of its
    loads, writes, claims and calls: what a stale write can do is counted, and without one nothing unread is acted on
    and nothing twice; mail drafts and calendar proposals interpret it, and \<open>send\<close> is shown to be a run of it.
  \<^item> Calendar_Slots, Calendar_Ics, Calendar_Text, Calendar_Expand: \<open>app/calendar/providers.py\<close> and \<open>ics.py\<close>;
    free slots, rules in canonical form, reading back what was written, the capped expansion.
  \<^item> Redaction, Asset_Registry, Scope_Guard, Registry_Life: \<open>app/security\<close>; the authorized asset
    registry, the scope decision as the recorded authorization, and what every history of the registry keeps.
  \<^item> Security_Runs, Remediation: \<open>app/security/assessments.py\<close>, \<open>checks.py\<close>, \<open>remediation.py\<close>; a run reads only
    below recorded roots and refreshes its findings, a fix writes only with authority and can be taken back.
  \<^item> Step_Up: \<open>app/security/step_up.py\<close>, \<open>app/voice/speaker.py\<close>, \<open>device_trust.py\<close>, \<open>app/security/deletion.py\<close>,
    \<open>audit_retention.py\<close>; what a voice may do, what is deleted for good, what the audit keeps.
  \<^item> Voice_Macros: \<open>app/macros\<close> and \<open>app/voice/realtime_sessions/tools_macros.py\<close>; names, recordings, rows
    and the replay: it passes no gate, keeps the order and stops at the first failure.
  \<^item> Voice_Relay: \<open>app/voice/realtime_sessions/service.py\<close>, \<open>tools.py\<close>, \<open>carryover.py\<close>; the one door of every tool call, its
    completion, the sessions and their leg, the sideband: a call id runs once, only with permission, and what is over stays over.
  \<^item> Owner_Identity: \<open>app/identity\<close>; the owner's credential and the sessions: which tokens are accepted, what ends a session for
    good, how often the credential can be guessed, what a narrowed session reaches.


  \<^bold>\<open>Bounds and fuel.\<close>  Limits of the code (1024 remembered commands of a connection, 1000 occurrences of a
  series, 50 references of a reply, a call cap per hour and the like) are definitions with the code's numbers.  Fuel occurs only in the
  supervisor's waiting loop; every other loop is structural recursion or has a termination proof.

  \<^bold>\<open>Concurrency.\<close>  The API serves requests in threads and mostly takes no lock.  Where a model is a sequence of requests, they
  are handled one after another.  Interleaved step by step are the confirmed rows (a load and its write are
  separate events), the exchange of the owner's credential (check, comparison and record are separate events), the
  claims of a broker connection, and the racing insert of a command.  Races that break a promise are lemmas, named in the
  texts: \<open>stale_edit_sends_unread_text\<close>, \<open>stale_read_back_sends_twice\<close>, \<open>concurrent_guesses_exceed_the_limit\<close>,
  \<open>concurrent_edges_close_a_cycle\<close>, \<open>cap_race\<close>.

  \<^bold>\<open>What the code allows.\<close>  Sections of that name at the end of a theory hold what the model showed to be possible against a
  comment or a document of the repository: a mail drafted, discarded and sent after all, an edited text sent on the
  confirmation of the earlier one, a re-enrolled asset whose targets stay refused, and others.

  \<^bold>\<open>Not modelled.\<close>  Pure input and output (HTTP routes, SQL dialects, web pages, audio, images, browser control), the
  voice router's phrase tables (thousands of Turkish phrases matched by regular expressions), prompt texts, providers
  and drivers, workflow glue, the C# and PowerShell programs, build scripts and tests.  They either call other
  systems, whose behaviour the repository does not define, or hold data rather than logic.
\<close>

end
